(* ===== verification/Prelude.thy ===== *)
theory Prelude
  imports Main "HOL-Library.Word"
begin

text \<open>
  The prelude of the development: the widths of the machine integers, the byte and word
  readings the C code writes out by hand, array updates on lists, and the generic lemmas the
  component theories share.
\<close>

unbundle bit_operations_syntax

type_synonym u8 = "8 word"
type_synonym u16 = "16 word"
type_synonym u32 = "32 word"
type_synonym u64 = "64 word"
type_synonym bytes = "u8 list"

named_theorems len_simps "lengths of the buffers the operations return"
named_theorems wf_intros "operations keep the well-formedness of their state"

subsection \<open>Arrays as lists\<close>

text \<open>\<open>blit dst off src\<close> is the loop \<open>for (i = 0; i < n; i++) dst[off + i] = src[i]\<close> over the
  whole of \<open>src\<close>; the code only runs it with the target range inside the array.\<close>

definition blit :: "'a list \<Rightarrow> nat \<Rightarrow> 'a list \<Rightarrow> 'a list" where
  "blit dst off src = take off dst @ src @ drop (off + length src) dst"

lemma length_blit [simp]:
  "off + length src \<le> length dst \<Longrightarrow> length (blit dst off src) = length dst"
  by (simp add: blit_def)

lemma take_blit:
  "off + length src \<le> length dst \<Longrightarrow> take (off + length src) (blit dst off src) = take off dst @ src"
  by (simp add: blit_def)

lemma blit_Nil [simp]: "blit dst off [] = dst"
  by (simp add: blit_def)

lemma blit_all: "length src = length dst \<Longrightarrow> blit dst 0 src = src"
  by (simp add: blit_def)

lemma blit_fill:
  "off + length src = length dst \<Longrightarrow> blit dst off src = take off dst @ src"
  by (simp add: blit_def)

lemma nth_blit:
  assumes "off + length src \<le> length dst" "i < length dst"
  shows "blit dst off src ! i = (if off \<le> i \<and> i < off + length src then src ! (i - off) else dst ! i)"
  using assms by (auto simp: blit_def nth_append)

lemma blit_0: "blit dst 0 src = src @ drop (length src) dst"
  by (simp add: blit_def)

text \<open>Unfolding array operations at constant indices.\<close>

lemma list_update_numeral: "(x # xs)[numeral k := y] = x # xs[pred_numeral k := y]"
  by (simp add: numeral_eq_Suc)

lemma replicate_numeral: "replicate (numeral k) x = x # replicate (pred_numeral k) x"
  by (simp add: numeral_eq_Suc)

subsection \<open>Cutting a message into blocks\<close>

text \<open>The complete \<open>n\<close>-element blocks of a list, and what is left over.\<close>

function chunks :: "nat \<Rightarrow> 'a list \<Rightarrow> 'a list list" where
  "chunks n xs = (if n = 0 \<or> length xs < n then [] else take n xs # chunks n (drop n xs))"
  by pat_completeness auto
termination
  by (relation "measure (\<lambda>(n, xs). length xs)") auto

declare chunks.simps [simp del]

definition leftover :: "nat \<Rightarrow> 'a list \<Rightarrow> 'a list" where
  "leftover n xs = drop (n * (length xs div n)) xs"

lemma chunks_short [simp]: "length xs < n \<Longrightarrow> chunks n xs = []"
  by (simp add: chunks.simps)

lemma chunks_block [simp]:
  "length b = n \<Longrightarrow> 0 < n \<Longrightarrow> chunks n (b @ xs) = b # chunks n xs"
  by (subst chunks.simps) simp

lemma chunks_single [simp]: "length b = n \<Longrightarrow> 0 < n \<Longrightarrow> chunks n b = [b]"
  using chunks_block [of b n "[]"] by simp

lemma leftover_short [simp]: "length xs < n \<Longrightarrow> leftover n xs = xs"
  by (simp add: leftover_def)

lemma leftover_block [simp]: "length b = n \<Longrightarrow> 0 < n \<Longrightarrow> leftover n (b @ xs) = leftover n xs"
  by (simp add: leftover_def div_add_self1)

lemma leftover_single [simp]: "length b = n \<Longrightarrow> 0 < n \<Longrightarrow> leftover n b = []"
  by (simp add: leftover_def)

lemma length_leftover [simp]: "length (leftover n xs) = length xs mod n"
  by (simp add: leftover_def minus_mult_div_eq_mod)

lemma chunks_length: "b \<in> set (chunks n xs) \<Longrightarrow> length b = n"
proof (induction n xs rule: chunks.induct)
  case (1 n xs)
  then show ?case by (cases "n = 0 \<or> length xs < n") (auto simp: chunks.simps [of n xs])
qed

lemma chunks_append:
  "0 < n \<Longrightarrow> n dvd length xs \<Longrightarrow> chunks n (xs @ ys) = chunks n xs @ chunks n ys"
proof (induction n xs rule: chunks.induct)
  case (1 n xs)
  show ?case
  proof (cases "length xs < n")
    case True
    with 1 have "xs = []" by auto
    then show ?thesis using 1 by simp
  next
    case False
    with 1 have "n dvd length (drop n xs)" by (simp add: dvd_minus_self)
    with 1 False have "chunks n (drop n xs @ ys) = chunks n (drop n xs) @ chunks n ys"
      by simp
    with 1 False show ?thesis
      by (simp add: chunks.simps [of n "xs @ ys"] chunks.simps [of n xs])
  qed
qed

subsection \<open>Bytes and words\<close>

text \<open>Little- and big-endian reads and writes, as the code spells them with casts, shifts
  and \<open>|\<close>.\<close>

definition le32 :: "u8 \<Rightarrow> u8 \<Rightarrow> u8 \<Rightarrow> u8 \<Rightarrow> u32" where
  "le32 b0 b1 b2 b3 =
     ucast b0 OR push_bit 8 (ucast b1) OR push_bit 16 (ucast b2) OR push_bit 24 (ucast b3)"

definition be32 :: "u8 \<Rightarrow> u8 \<Rightarrow> u8 \<Rightarrow> u8 \<Rightarrow> u32" where
  "be32 b0 b1 b2 b3 =
     push_bit 24 (ucast b0) OR push_bit 16 (ucast b1) OR push_bit 8 (ucast b2) OR ucast b3"

definition st_le32 :: "u32 \<Rightarrow> bytes" where
  "st_le32 w = [ucast w, ucast (drop_bit 8 w), ucast (drop_bit 16 w), ucast (drop_bit 24 w)]"

definition st_be32 :: "u32 \<Rightarrow> bytes" where
  "st_be32 w = [ucast (drop_bit 24 w AND 0xFF), ucast (drop_bit 16 w AND 0xFF),
                ucast (drop_bit 8 w AND 0xFF), ucast (w AND 0xFF)]"

definition st_be64 :: "u64 \<Rightarrow> bytes" where
  "st_be64 w = [ucast (drop_bit 56 w AND 0xFF), ucast (drop_bit 48 w AND 0xFF),
                ucast (drop_bit 40 w AND 0xFF), ucast (drop_bit 32 w AND 0xFF),
                ucast (drop_bit 24 w AND 0xFF), ucast (drop_bit 16 w AND 0xFF),
                ucast (drop_bit 8 w AND 0xFF), ucast (w AND 0xFF)]"

lemma length_st_le32 [simp]: "length (st_le32 w) = 4" by (simp add: st_le32_def)
lemma length_st_be32 [simp]: "length (st_be32 w) = 4" by (simp add: st_be32_def)
lemma length_st_be64 [simp]: "length (st_be64 w) = 8" by (simp add: st_be64_def)

text \<open>\<open>ld_words f bs\<close> reads a byte array four bytes at a time.\<close>

fun ld_words :: "(u8 \<Rightarrow> u8 \<Rightarrow> u8 \<Rightarrow> u8 \<Rightarrow> u32) \<Rightarrow> bytes \<Rightarrow> u32 list" where
  "ld_words f (a # b # c # d # bs) = f a b c d # ld_words f bs"
| "ld_words f _ = []"

lemma length_ld_words [simp]: "length (ld_words f bs) = length bs div 4"
  by (induction f bs rule: ld_words.induct) auto

lemma length_concat_st [simp]:
  "length (concat (map st_le32 ws)) = 4 * length ws"
  "length (concat (map st_be32 ws)) = 4 * length ws"
  "length (concat (map (st_le32 \<circ> f) xs)) = 4 * length xs"
  by (induct ws, simp_all) (induct xs, simp_all)

text \<open>A C string literal, without its terminator.\<close>

definition ascii :: "string \<Rightarrow> bytes" where
  "ascii s = map of_char s"

lemma length_ascii [simp]: "length (ascii s) = length s"
  by (simp add: ascii_def)

lemma xor_cancel [simp]: "(a XOR b) XOR b = a" for a b :: "'a::len word"
  by (simp add: xor.assoc)

subsection \<open>Words as numbers\<close>

lemma unat_drop_bit: "unat (drop_bit n w) = unat w div 2 ^ n"
  by (simp only: unat_drop_bit_eq) (simp add: drop_bit_eq_div)

lemma unat_and_mask: "unat (w AND mask n) = unat w mod 2 ^ n"
  by (metis take_bit_eq_mask take_bit_eq_mod unsigned_take_bit_eq)

lemma unat_push_bit: "unat (push_bit n w) = unat w * 2 ^ n mod 2 ^ LENGTH('a)"
  for w :: "'a::len word"
  by (simp only: unsigned_push_bit_eq) (simp add: take_bit_eq_mod push_bit_eq_mult)

lemma unat_or_push_bit:
  fixes a b :: "'a::len word"
  assumes "unat a < 2 ^ k"
  shows "unat (a OR push_bit k b) = unat a + unat (push_bit k b)"
proof -
  have "\<not> bit (unat a) n \<or> \<not> bit (unat (push_bit k b)) n" for n
  proof (cases "k \<le> n")
    case True
    then have "unat a < 2 ^ n" using assms by (meson less_le_trans one_le_numeral power_increasing)
    then show ?thesis by (simp add: bit_iff_odd)
  next
    case False
    then show ?thesis by (simp add: bit_unsigned_iff bit_push_bit_iff)
  qed
  then have "unat a + unat (push_bit k b) = (unat a OR unat (push_bit k b))"
    by (intro disjunctive_add_eq_or) (auto simp: bit_eq_iff bit_simps)
  then show ?thesis by (simp add: unsigned_or_eq)
qed

lemma mod_shift_sum:
  fixes x y :: nat
  assumes "x < 2 ^ k" "k \<le> n" "n \<le> m"
  shows "(x + y * 2 ^ k mod 2 ^ m) mod 2 ^ n = x + 2 ^ k * (y mod 2 ^ (n - k))"
proof -
  have "(x + y * 2 ^ k mod 2 ^ m) mod 2 ^ n = (x + y * 2 ^ k) mod 2 ^ n"
    using assms(3) by (metis le_imp_power_dvd mod_add_right_eq mod_mod_cancel)
  also have "\<dots> = (x + y * 2 ^ k) mod (2 ^ k * 2 ^ (n - k))"
    using assms(2) by (simp flip: power_add)
  also have "\<dots> = x + 2 ^ k * (y mod 2 ^ (n - k))"
    using assms(1) by (simp add: mod_mult2_eq)
  finally show ?thesis .
qed

lemma unat_plus_small:
  "unat a + unat b < 2 ^ LENGTH('a) \<Longrightarrow> unat (a + b) = unat a + unat b" for a b :: "'a::len word"
  by (simp add: unat_word_ariths)

lemma unat_times_small:
  "unat a * unat b < 2 ^ LENGTH('a) \<Longrightarrow> unat (a * b) = unat a * unat b" for a b :: "'a::len word"
  by (simp add: unat_word_ariths)

lemma unat_of_nat_small: "x < 2 ^ LENGTH('a) \<Longrightarrow> unat (of_nat x :: 'a::len word) = x"
  by (simp add: unat_of_nat)

lemma ucast_of_nat: "(ucast w :: 'b::len word) = of_nat (unat w)"
  by (simp add: word_unat_eq_iff unsigned_ucast_eq unat_of_nat take_bit_eq_mod)

text \<open>The little-endian value of a byte array, and its inverse at a fixed length.\<close>

fun le_val :: "bytes \<Rightarrow> nat" where
  "le_val [] = 0"
| "le_val (b # bs) = unat b + 256 * le_val bs"

fun le_bytes :: "nat \<Rightarrow> nat \<Rightarrow> bytes" where
  "le_bytes 0 n = []"
| "le_bytes (Suc k) n = of_nat n # le_bytes k (n div 256)"

lemma le_bytes_numeral:
  "le_bytes (numeral k) n = of_nat n # le_bytes (pred_numeral k) (n div 256)"
  by (simp only: numeral_eq_Suc [of k] le_bytes.simps)

lemma length_le_bytes [simp]: "length (le_bytes k n) = k"
  by (induction k arbitrary: n) auto

lemma le_val_bound: "le_val bs < 256 ^ length bs"
proof (induction bs)
  case (Cons b bs)
  have "unat b < 256" using unsigned_less [of b] by simp
  with Cons show ?case by simp
qed simp

lemma le_val_le_bytes: "le_val (le_bytes k n) = n mod 256 ^ k"
proof (induction k arbitrary: n)
  case (Suc k)
  then show ?case by (simp add: unat_of_nat mod_mult2_eq)
qed simp

lemma le_bytes_le_val: "le_bytes (length bs) (le_val bs) = bs"
proof (induction bs)
  case (Cons b bs)
  have b: "unat b < 256" using unsigned_less [of b] by simp
  then have "(of_nat (unat b + 256 * le_val bs) :: u8) = b"
    by (simp only: word_unat_eq_iff unat_of_nat) simp
  with b Cons show ?case by simp
qed simp

lemma le_bytes_cong: "m mod 256 ^ k = n mod 256 ^ k \<Longrightarrow> le_bytes k m = le_bytes k n"
  by (metis le_bytes_le_val le_val_le_bytes length_le_bytes)

lemma le_val_append: "le_val (a @ b) = le_val a + 256 ^ length a * le_val b"
  by (induction a) (auto simp: algebra_simps)

lemma unat_le32: "unat (le32 b0 b1 b2 b3) = le_val [b0, b1, b2, b3]"
proof -
  have b: "unat x < 256" for x :: u8 using unsigned_less [of x] by simp
  have 1: "unat (ucast b0 OR push_bit 8 (ucast b1) :: u32) = unat b0 + 256 * unat b1"
    using b [of b0] b [of b1] by (simp add: unat_or_push_bit unat_push_bit unsigned_ucast_eq take_bit_eq_mod)
  then have 2: "unat (ucast b0 OR push_bit 8 (ucast b1) OR push_bit 16 (ucast b2) :: u32) =
      unat b0 + 256 * unat b1 + 65536 * unat b2"
    using b [of b0] b [of b1] b [of b2]
    by (subst or.assoc [symmetric], subst unat_or_push_bit)
      (simp_all add: unat_push_bit unsigned_ucast_eq take_bit_eq_mod)
  then show ?thesis
    unfolding le32_def using b [of b0] b [of b1] b [of b2] b [of b3]
    by (subst or.assoc [symmetric], subst or.assoc [symmetric], subst unat_or_push_bit)
      (simp_all add: or.assoc unat_push_bit unsigned_ucast_eq take_bit_eq_mod)
qed

lemma st_le32_le_bytes: "st_le32 w = le_bytes 4 (unat w)"
proof -
  have "ucast (drop_bit n w) = (of_nat (unat w div 2 ^ n) :: u8)" for n
    by (simp add: ucast_of_nat unat_drop_bit)
  then show ?thesis
    using div_mult2_eq [of "unat w" 256 256] div_mult2_eq [of "unat w" 65536 256]
    by (simp add: st_le32_def le_bytes_numeral)
qed

end
