(* ===== verification/Aes.thy ===== *)
theory Aes
  imports Prelude
begin

text \<open>
  AES-128 as \<open>src/crypto/aes.c\<close> computes it: the S-box as a bitsliced Boolean circuit over up to 32
  bytes at once, one or two blocks per call. The specification is FIPS 197 with its S-box table; the
  circuit is compared with the table on all 256 inputs and in every lane.
\<close>

subsection \<open>The circuit of the S-box\<close>

text \<open>The gates of \<open>sbox_planes\<close>, line by line, over any exclusive or, conjunction and complement; the result is
  \<open>q[0], \<dots>, q[7]\<close>.\<close>

definition sbox_circuit :: "('a \<Rightarrow> 'a \<Rightarrow> 'a) \<Rightarrow> ('a \<Rightarrow> 'a \<Rightarrow> 'a) \<Rightarrow> ('a \<Rightarrow> 'a) \<Rightarrow>
    'a \<Rightarrow> 'a \<Rightarrow> 'a \<Rightarrow> 'a \<Rightarrow> 'a \<Rightarrow> 'a \<Rightarrow> 'a \<Rightarrow> 'a \<Rightarrow> 'a list" where
  "sbox_circuit xr an nt x0 x1 x2 x3 x4 x5 x6 x7 =
     (let y14 = xr x3 x5; y13 = xr x0 x6; y9 = xr x0 x3; y8 = xr x0 x5;
          t0 = xr x1 x2; y1 = xr t0 x7; y4 = xr y1 x3; y12 = xr y13 y14;
          y2 = xr y1 x0; y5 = xr y1 x6; y3 = xr y5 y8; t1 = xr x4 y12;
          y15 = xr t1 x5; y20 = xr t1 x1; y6 = xr y15 x7; y10 = xr y15 t0;
          y11 = xr y20 y9; y7 = xr x7 y11; y17 = xr y10 y11; y19 = xr y10 y8;
          y16 = xr t0 y11; y21 = xr y13 y16; y18 = xr x0 y16;
          t2 = an y12 y15; t3 = an y3 y6; t4 = xr t3 t2; t5 = an y4 x7;
          t6 = xr t5 t2; t7 = an y13 y16; t8 = an y5 y1; t9 = xr t8 t7;
          t10 = an y2 y7; t11 = xr t10 t7; t12 = an y9 y11; t13 = an y14 y17;
          t14 = xr t13 t12; t15 = an y8 y10; t16 = xr t15 t12; t17 = xr t4 t14;
          t18 = xr t6 t16; t19 = xr t9 t14; t20 = xr t11 t16; t21 = xr t17 y20;
          t22 = xr t18 y19; t23 = xr t19 y21; t24 = xr t20 y18;
          t25 = xr t21 t22; t26 = an t21 t23; t27 = xr t24 t26; t28 = an t25 t27;
          t29 = xr t28 t22; t30 = xr t23 t24; t31 = xr t22 t26; t32 = an t31 t30;
          t33 = xr t32 t24; t34 = xr t23 t33; t35 = xr t27 t33; t36 = an t24 t35;
          t37 = xr t36 t34; t38 = xr t27 t36; t39 = an t29 t38; t40 = xr t25 t39;
          t41 = xr t40 t37; t42 = xr t29 t33; t43 = xr t29 t40; t44 = xr t33 t37;
          t45 = xr t42 t41;
          z0 = an t44 y15; z1 = an t37 y6; z2 = an t33 x7; z3 = an t43 y16;
          z4 = an t40 y1; z5 = an t29 y7; z6 = an t42 y11; z7 = an t45 y17;
          z8 = an t41 y10; z9 = an t44 y12; z10 = an t37 y3; z11 = an t33 y4;
          z12 = an t43 y13; z13 = an t40 y5; z14 = an t29 y2; z15 = an t42 y9;
          z16 = an t45 y14; z17 = an t41 y8;
          t46 = xr z15 z16; t47 = xr z10 z11; t48 = xr z5 z13; t49 = xr z9 z10;
          t50 = xr z2 z12; t51 = xr z2 z5; t52 = xr z7 z8; t53 = xr z0 z3;
          t54 = xr z6 z7; t55 = xr z16 z17; t56 = xr z12 t48; t57 = xr t50 t53;
          t58 = xr z4 t46; t59 = xr z3 t54; t60 = xr t46 t57; t61 = xr z14 t57;
          t62 = xr t52 t58; t63 = xr t49 t58; t64 = xr z4 t59; t65 = xr t61 t62;
          t66 = xr z1 t63; s0 = xr t59 t63; s6 = xr t56 (nt t62); s7 = xr t48 (nt t60);
          t67 = xr t64 t65; s3 = xr t53 t66; s4 = xr t51 t66; s5 = xr t47 t65;
          s1 = xr t64 (nt s3); s2 = xr t55 (nt t67)
      in [s7, s6, s5, s4, s3, s2, s1, s0])"

definition sbox_planes :: "u32 list \<Rightarrow> u32 list" where
  "sbox_planes q = sbox_circuit (XOR) (AND) NOT (q ! 7) (q ! 6) (q ! 5) (q ! 4) (q ! 3) (q ! 2) (q ! 1) (q ! 0)"

text \<open>Bit \<open>k\<close> of every byte goes into plane \<open>k\<close>, and back.\<close>

definition to_plane :: "bytes \<Rightarrow> nat \<Rightarrow> u32" where
  "to_plane b k = foldl (\<lambda>q i. q OR push_bit i (drop_bit k (ucast (b ! i)) AND 1)) 0 [0..<length b]"

definition of_planes :: "u32 list \<Rightarrow> nat \<Rightarrow> u8" where
  "of_planes q i = ucast (foldl (\<lambda>v k. v OR push_bit k (drop_bit i (q ! k) AND 1)) 0 [0..<8])"

definition sub_bytes :: "bytes \<Rightarrow> bytes" where
  "sub_bytes b = (let q = sbox_planes (map (to_plane b) [0..<8]) in map (of_planes q) [0..<length b])"

subsection \<open>The rounds\<close>

definition xtime :: "u8 \<Rightarrow> u8" where
  "xtime x = push_bit 1 x XOR (0x1B AND ucast (0 - (ucast (drop_bit 7 x) :: u32)))"

text \<open>The assignments of \<open>shift_rows\<close> in their order.\<close>

definition shift_rows :: "bytes \<Rightarrow> bytes" where
  "shift_rows s =
     (let t = s ! 1; s = s[1 := s ! 5]; s = s[5 := s ! 9]; s = s[9 := s ! 13]; s = s[13 := t];
          t = s ! 2; s = s[2 := s ! 10]; s = s[10 := t]; t = s ! 6; s = s[6 := s ! 14]; s = s[14 := t];
          t = s ! 15; s = s[15 := s ! 11]; s = s[11 := s ! 7]; s = s[7 := s ! 3]
      in s[3 := t])"

definition mix_column :: "bytes \<Rightarrow> bytes" where
  "mix_column col =
     (let a0 = col ! 0; a1 = col ! 1; a2 = col ! 2; a3 = col ! 3; a = a0 XOR a1 XOR a2 XOR a3
      in [a0 XOR a XOR xtime (a0 XOR a1), a1 XOR a XOR xtime (a1 XOR a2),
          a2 XOR a XOR xtime (a2 XOR a3), a3 XOR a XOR xtime (a3 XOR a0)])"

definition mix_columns :: "bytes \<Rightarrow> bytes" where
  "mix_columns s = concat (map (\<lambda>c. mix_column (take 4 (drop (4 * c) s))) [0..<4])"

definition xor_bytes :: "bytes \<Rightarrow> bytes \<Rightarrow> bytes" where
  "xor_bytes a b = map2 (XOR) a b"

text \<open>\<open>rk\<close> is the part of the array written so far; one step writes four bytes at \<open>i\<close>.\<close>

definition key_step :: "bytes \<times> u8 \<Rightarrow> nat \<Rightarrow> bytes \<times> u8" where
  "key_step = (\<lambda>(rk, rcon) i.
     let t = [rk ! (i - 4), rk ! (i - 3), rk ! (i - 2), rk ! (i - 1)];
         (t, rcon) = (if i mod 16 = 0 then
             let t = sub_bytes [t ! 1, t ! 2, t ! 3, t ! 0] in (t[0 := t ! 0 XOR rcon], xtime rcon)
           else (t, rcon))
     in (rk @ map (\<lambda>k. rk ! (i - 16 + k) XOR t ! k) [0..<4], rcon))"

definition aes128_init :: "bytes \<Rightarrow> bytes" where
  "aes128_init key = fst (foldl key_step (key, 1) (map (\<lambda>j. 4 * j) [4..<44]))"

definition add_key :: "bytes \<Rightarrow> nat \<Rightarrow> bytes \<Rightarrow> bytes" where
  "add_key rk round b = xor_bytes b (take 16 (drop (16 * round) rk))"

text \<open>One round on a state of one or two blocks.\<close>

definition aes_round :: "bytes \<Rightarrow> bytes \<Rightarrow> nat \<Rightarrow> bytes" where
  "aes_round rk s round =
     concat (map (\<lambda>b. let b = shift_rows b; b = (if round < 10 then mix_columns b else b) in add_key rk round b)
       (chunks 16 (sub_bytes s)))"

definition aes128_encrypt_blocks :: "bytes \<Rightarrow> bytes \<Rightarrow> nat \<Rightarrow> bytes" where
  "aes128_encrypt_blocks rk inp n =
     (let len = (if 1 < n then 32 else 16); s = take len inp;
          s = concat (map (add_key rk 0) (chunks 16 s))
      in foldl (aes_round rk) s [1..<11])"

subsection \<open>FIPS 197\<close>

definition fips_sbox :: "nat list" where
  "fips_sbox = [
     99, 124, 119, 123, 242, 107, 111, 197, 48, 1, 103, 43, 254, 215, 171, 118,
     202, 130, 201, 125, 250, 89, 71, 240, 173, 212, 162, 175, 156, 164, 114, 192,
     183, 253, 147, 38, 54, 63, 247, 204, 52, 165, 229, 241, 113, 216, 49, 21,
     4, 199, 35, 195, 24, 150, 5, 154, 7, 18, 128, 226, 235, 39, 178, 117,
     9, 131, 44, 26, 27, 110, 90, 160, 82, 59, 214, 179, 41, 227, 47, 132,
     83, 209, 0, 237, 32, 252, 177, 91, 106, 203, 190, 57, 74, 76, 88, 207,
     208, 239, 170, 251, 67, 77, 51, 133, 69, 249, 2, 127, 80, 60, 159, 168,
     81, 163, 64, 143, 146, 157, 56, 245, 188, 182, 218, 33, 16, 255, 243, 210,
     205, 12, 19, 236, 95, 151, 68, 23, 196, 167, 126, 61, 100, 93, 25, 115,
     96, 129, 79, 220, 34, 42, 144, 136, 70, 238, 184, 20, 222, 94, 11, 219,
     224, 50, 58, 10, 73, 6, 36, 92, 194, 211, 172, 98, 145, 149, 228, 121,
     231, 200, 55, 109, 141, 213, 78, 169, 108, 86, 244, 234, 101, 122, 174, 8,
     186, 120, 37, 46, 28, 166, 180, 198, 232, 221, 116, 31, 75, 189, 139, 138,
     112, 62, 181, 102, 72, 3, 246, 14, 97, 53, 87, 185, 134, 193, 29, 158,
     225, 248, 152, 17, 105, 217, 142, 148, 155, 30, 135, 233, 206, 85, 40, 223,
     140, 161, 137, 13, 191, 230, 66, 104, 65, 153, 45, 15, 176, 84, 187, 22]"

definition fips_sub :: "u8 \<Rightarrow> u8" where
  "fips_sub x = of_nat (fips_sbox ! unat x)"

text \<open>Multiplication by \<open>x\<close> modulo \<open>x^8 + x^4 + x^3 + x + 1\<close>.\<close>

definition fips_xtime :: "u8 \<Rightarrow> u8" where
  "fips_xtime x = (if bit x 7 then push_bit 1 x XOR 0x1B else push_bit 1 x)"

text \<open>Byte \<open>r + 4 c\<close> of a state is row \<open>r\<close> of column \<open>c\<close>.\<close>

definition fips_shift_rows :: "bytes \<Rightarrow> bytes" where
  "fips_shift_rows s = map (\<lambda>i. s ! (i mod 4 + 4 * ((i div 4 + i mod 4) mod 4))) [0..<16]"

definition fips_mix_columns :: "bytes \<Rightarrow> bytes" where
  "fips_mix_columns s = map (\<lambda>i. let a = (\<lambda>k. s ! (4 * (i div 4) + (i + k) mod 4))
     in fips_xtime (a 0) XOR (fips_xtime (a 1) XOR a 1) XOR a 2 XOR a 3) [0..<16]"

text \<open>Key expansion: word \<open>i\<close> of the schedule.\<close>

fun fips_rcon :: "nat \<Rightarrow> u8" where
  "fips_rcon 0 = 1"
| "fips_rcon (Suc n) = fips_xtime (fips_rcon n)"

function fips_word :: "bytes \<Rightarrow> nat \<Rightarrow> bytes" where
  "fips_word key i =
     (if i < 4 then take 4 (drop (4 * i) key)
      else let t = fips_word key (i - 1);
               t = (if i mod 4 = 0 then let w = map fips_sub (rotate1 t) in (hd w XOR fips_rcon (i div 4 - 1)) # tl w else t)
        in xor_bytes (fips_word key (i - 4)) t)"
  by pat_completeness auto
termination
  by (relation "measure (\<lambda>(key, i). i)") auto

declare fips_word.simps [simp del]

definition fips_key :: "bytes \<Rightarrow> nat \<Rightarrow> bytes" where
  "fips_key key round = concat (map (fips_word key) [4 * round..<4 * round + 4])"

definition fips_round :: "bytes \<Rightarrow> bytes \<Rightarrow> nat \<Rightarrow> bytes" where
  "fips_round key s round = xor_bytes (fips_mix_columns (fips_shift_rows (map fips_sub s))) (fips_key key round)"

definition fips_cipher :: "bytes \<Rightarrow> bytes \<Rightarrow> bytes" where
  "fips_cipher key blk =
     (let s = foldl (fips_round key) (xor_bytes blk (fips_key key 0)) [1..<10]
      in xor_bytes (fips_shift_rows (map fips_sub s)) (fips_key key 10))"

subsection \<open>The circuit computes the S-box\<close>

text \<open>The truth tables of a bit over all 256 bytes, as numbers of 256 bits: the circuit is run once on the
  tables of the eight input bits.\<close>

definition truth_table :: "nat list \<Rightarrow> nat \<Rightarrow> int" where
  "truth_table vs k = horner_sum of_bool 2 (map (\<lambda>v. odd (v div 2 ^ k)) vs)"

lemma upt_256: "[0..<256] = 0 # 1 # [2..<256]"
  by (simp add: upt_conv_Cons numeral_2_eq_2 del: upt_rec_numeral)

lemma truth_tables_in:
  "truth_table [0..<256] 0 = 0xAAAAAAAAAAAAAAAAAAAAAAAAAAAAAAAAAAAAAAAAAAAAAAAAAAAAAAAAAAAAAAAA"
  "truth_table [0..<256] 1 = 0xCCCCCCCCCCCCCCCCCCCCCCCCCCCCCCCCCCCCCCCCCCCCCCCCCCCCCCCCCCCCCCCC"
  "truth_table [0..<256] 2 = 0xF0F0F0F0F0F0F0F0F0F0F0F0F0F0F0F0F0F0F0F0F0F0F0F0F0F0F0F0F0F0F0F0"
  "truth_table [0..<256] 3 = 0xFF00FF00FF00FF00FF00FF00FF00FF00FF00FF00FF00FF00FF00FF00FF00FF00"
  "truth_table [0..<256] 4 = 0xFFFF0000FFFF0000FFFF0000FFFF0000FFFF0000FFFF0000FFFF0000FFFF0000"
  "truth_table [0..<256] 5 = 0xFFFFFFFF00000000FFFFFFFF00000000FFFFFFFF00000000FFFFFFFF00000000"
  "truth_table [0..<256] 6 = 0xFFFFFFFFFFFFFFFF0000000000000000FFFFFFFFFFFFFFFF0000000000000000"
  "truth_table [0..<256] 7 = 0xFFFFFFFFFFFFFFFFFFFFFFFFFFFFFFFF00000000000000000000000000000000"
  unfolding truth_table_def upt_256 by simp_all

lemma truth_tables_out:
  "truth_table fips_sbox 0 = 0x4F1EAD396F247A0410BDB210C006EAB568AB4BFA8ACB7A13B14EDE67096C6EED"
  "truth_table fips_sbox 1 = 0xC870974094EAD8A96A450B2EF33486B4E61A4C5E97816F7A7BAE007D4C53FC7D"
  "truth_table fips_sbox 2 = 0xAC39B6C0D6CE2EFC577D64E03B0C3FFB23A869A2A428C424A16387FB3B48B4C6"
  "truth_table fips_sbox 3 = 0x4E9DDB76C892FB1BE9DA849CF6AC6C1B2568EA2EFFA8527D109020A2193D586A"
  "truth_table fips_sbox 4 = 0xF210A3AECE472E532624B286BC48ECB4F7F17A494CE30F58C2B0F97752B8B11E"
  "truth_table fips_sbox 5 = 0x54B248130B4F256F7D8DCC4706319E086BC2AA4E0D787AA4F8045F7B6D98DD7F"
  "truth_table fips_sbox 6 = 0x21E0B833255917823F6BCB91B30DB559E4851B3BF3AB2560980A3CC2C2FDB4FF"
  "truth_table fips_sbox 7 = 0x52379DE7B844E3E14CB3770196CA0329E7BAC28F866AAC825CAA2EC7BF977090"
  by (simp_all add: truth_table_def fips_sbox_def)

lemma sbox_circuit_rel:
  assumes [transfer_rule]: "rel_fun R (rel_fun R R) xr xr'" "rel_fun R (rel_fun R R) an an'" "rel_fun R R nt nt'"
    "R x0 y0" "R x1 y1" "R x2 y2" "R x3 y3" "R x4 y4" "R x5 y5" "R x6 y6" "R x7 y7"
  shows "list_all2 R (sbox_circuit xr an nt x0 x1 x2 x3 x4 x5 x6 x7) (sbox_circuit xr' an' nt' y0 y1 y2 y3 y4 y5 y6 y7)"
  unfolding sbox_circuit_def by transfer_prover

lemma sbox_circuit_table:
  "sbox_circuit (XOR) (AND) (\<lambda>x. x XOR 0xFFFFFFFFFFFFFFFFFFFFFFFFFFFFFFFFFFFFFFFFFFFFFFFFFFFFFFFFFFFFFFFF) 0xFFFFFFFFFFFFFFFFFFFFFFFFFFFFFFFF00000000000000000000000000000000 0xFFFFFFFFFFFFFFFF0000000000000000FFFFFFFFFFFFFFFF0000000000000000 0xFFFFFFFF00000000FFFFFFFF00000000FFFFFFFF00000000FFFFFFFF00000000 0xFFFF0000FFFF0000FFFF0000FFFF0000FFFF0000FFFF0000FFFF0000FFFF0000 0xFF00FF00FF00FF00FF00FF00FF00FF00FF00FF00FF00FF00FF00FF00FF00FF00 0xF0F0F0F0F0F0F0F0F0F0F0F0F0F0F0F0F0F0F0F0F0F0F0F0F0F0F0F0F0F0F0F0 0xCCCCCCCCCCCCCCCCCCCCCCCCCCCCCCCCCCCCCCCCCCCCCCCCCCCCCCCCCCCCCCCC 0xAAAAAAAAAAAAAAAAAAAAAAAAAAAAAAAAAAAAAAAAAAAAAAAAAAAAAAAAAAAAAAAA = [0x4F1EAD396F247A0410BDB210C006EAB568AB4BFA8ACB7A13B14EDE67096C6EED,
     0xC870974094EAD8A96A450B2EF33486B4E61A4C5E97816F7A7BAE007D4C53FC7D,
     0xAC39B6C0D6CE2EFC577D64E03B0C3FFB23A869A2A428C424A16387FB3B48B4C6,
     0x4E9DDB76C892FB1BE9DA849CF6AC6C1B2568EA2EFFA8527D109020A2193D586A,
     0xF210A3AECE472E532624B286BC48ECB4F7F17A494CE30F58C2B0F97752B8B11E,
     0x54B248130B4F256F7D8DCC4706319E086BC2AA4E0D787AA4F8045F7B6D98DD7F,
     0x21E0B833255917823F6BCB91B30DB559E4851B3BF3AB2560980A3CC2C2FDB4FF,
     0x52379DE7B844E3E14CB3770196CA0329E7BAC28F866AAC825CAA2EC7BF977090 :: int]"
  by (simp add: sbox_circuit_def cong: let_weak_cong)

lemma bit_truth_table: "v < length vs \<Longrightarrow> bit (truth_table vs k) v = odd (vs ! v div 2 ^ k)"
  by (simp add: truth_table_def bit_horner_sum_bit_iff)

lemma length_fips_sbox: "length fips_sbox = 256"
  by (simp add: fips_sbox_def)

lemma mask_256: "bit (0xFFFFFFFFFFFFFFFFFFFFFFFFFFFFFFFFFFFFFFFFFFFFFFFFFFFFFFFFFFFFFFFF :: int) n \<longleftrightarrow> n < 256"
proof -
  have "(0xFFFFFFFFFFFFFFFFFFFFFFFFFFFFFFFFFFFFFFFFFFFFFFFFFFFFFFFFFFFFFFFF :: int) = mask 256" by (simp add: mask_numeral)
  then show ?thesis by (simp only: bit_mask_iff) simp
qed

lemma bit_unat: "bit x k \<longleftrightarrow> odd (unat x div 2 ^ k)" for x :: "'a::len word"
  using bit_unsigned_iff [where 'a = nat, of x k] by (simp add: bit_iff_odd [symmetric])

lemma bit_of_nat_byte: "k < 8 \<Longrightarrow> bit (of_nat n :: u8) k \<longleftrightarrow> odd (n div 2 ^ k)"
  using bit_unsigned_iff [where 'a = nat, of "of_nat n :: u8" k] by (simp add: unsigned_of_nat bit_take_bit_iff flip: bit_iff_odd)

lemma truth_tables_list: "map (truth_table fips_sbox) [0..<8] =
    [truth_table fips_sbox 0, truth_table fips_sbox 1, truth_table fips_sbox 2, truth_table fips_sbox 3,
     truth_table fips_sbox 4, truth_table fips_sbox 5, truth_table fips_sbox 6, truth_table fips_sbox 7]"
  by (simp add: upt_rec eval_nat_numeral)

text \<open>One lane of the circuit: bit \<open>i\<close> of the planes against the bits of a byte.\<close>

lemma sbox_lane:
  assumes "\<And>k. k < 8 \<Longrightarrow> bit (q ! k) i = bit (x :: u8) k" "i < 32" "k < 8"
  shows "bit (sbox_planes q ! k) i = bit (fips_sub x) k"
proof -
  let ?v = "unat x" and ?R = "\<lambda>(w :: u32) (t :: int). bit w i = bit t (unat x)"
  have v: "?v < 256" using unsigned_less [of x] by simp
  let ?M = "0xFFFFFFFFFFFFFFFFFFFFFFFFFFFFFFFFFFFFFFFFFFFFFFFFFFFFFFFFFFFFFFFF :: int"
  have b: "bit x k = bit (truth_table [0..<256] k) ?v" if "k < 8" for k
    using v by (simp add: bit_truth_table bit_unat)
  have "list_all2 ?R (sbox_planes q) (sbox_circuit (XOR) (AND) (\<lambda>t. t XOR ?M)
      (truth_table [0..<256] 7) (truth_table [0..<256] 6) (truth_table [0..<256] 5) (truth_table [0..<256] 4)
      (truth_table [0..<256] 3) (truth_table [0..<256] 2) (truth_table [0..<256] 1) (truth_table [0..<256] 0))"
    unfolding sbox_planes_def
    by (rule sbox_circuit_rel; (intro rel_funI)?; simp add: bit_xor_iff bit_and_iff bit_not_iff mask_256 v assms(1,2) b [symmetric])
  also have "sbox_circuit (XOR) (AND) (\<lambda>t. t XOR ?M)
      (truth_table [0..<256] 7) (truth_table [0..<256] 6) (truth_table [0..<256] 5) (truth_table [0..<256] 4)
      (truth_table [0..<256] 3) (truth_table [0..<256] 2) (truth_table [0..<256] 1) (truth_table [0..<256] 0) =
    map (truth_table fips_sbox) [0..<8]"
    unfolding truth_tables_list truth_tables_in truth_tables_out by (rule sbox_circuit_table)
  finally have "bit (sbox_planes q ! k) i = bit (truth_table fips_sbox k) ?v" using assms(3) by (auto simp: list_all2_conv_all_nth)
  also have "\<dots> = bit (fips_sub x) k"
    using v assms(3) by (simp add: bit_truth_table length_fips_sbox fips_sub_def bit_of_nat_byte)
  finally show ?thesis .
qed

lemma bit_gather:
  "n < LENGTH('a) \<Longrightarrow> bit (foldl (\<lambda>q i. q OR push_bit i (c i AND 1)) q0 is) n \<longleftrightarrow> bit q0 n \<or> (n \<in> set is \<and> bit (c n) 0)"
  for q0 :: "'a::len word"
proof (induction "is" arbitrary: q0)
  case (Cons i "is")
  have "bit (push_bit i (c i AND 1)) n \<longleftrightarrow> n = i \<and> bit (c i) 0"
    using Cons.prems by (auto simp: bit_push_bit_iff bit_and_iff bit_1_iff simp del: push_bit_and)
  then show ?case using Cons by (auto simp: bit_or_iff)
qed simp

lemma bit_to_plane: "length b \<le> 32 \<Longrightarrow> i < 32 \<Longrightarrow> bit (to_plane b k) i \<longleftrightarrow> i < length b \<and> bit (b ! i) k"
  unfolding to_plane_def by (subst bit_gather) (auto simp: bit_drop_bit_eq bit_ucast_iff dest: bit_imp_le_length)

lemma bit_of_planes: "k < 8 \<Longrightarrow> bit (of_planes q i) k \<longleftrightarrow> bit (q ! k) i"
  unfolding of_planes_def by (simp add: bit_ucast_iff bit_gather bit_drop_bit_eq del: push_bit_and)

lemma sub_bytes_fips: "length b \<le> 32 \<Longrightarrow> sub_bytes b = map fips_sub b"
proof (rule nth_equalityI)
  assume b: "length b \<le> 32"
  show "length (sub_bytes b) = length (map fips_sub b)" by (simp add: sub_bytes_def Let_def)
  fix i assume "i < length (sub_bytes b)"
  then have i: "i < length b" by (simp add: sub_bytes_def Let_def)
  let ?q = "map (to_plane b) [0..<8]"
  have "bit (of_planes (sbox_planes ?q) i) k = bit (fips_sub (b ! i)) k" if "k < 8" for k
  proof -
    have "bit (?q ! j) i = bit (b ! i) j" if "j < 8" for j using that b i by (simp add: bit_to_plane)
    then show ?thesis using sbox_lane [of ?q i "b ! i" k] that b i by (simp add: bit_of_planes)
  qed
  then have "of_planes (sbox_planes ?q) i = fips_sub (b ! i)" by (intro bit_word_eqI) simp
  then show "sub_bytes b ! i = map fips_sub b ! i" using i by (simp add: sub_bytes_def Let_def)
qed

subsection \<open>The rounds are those of FIPS 197\<close>

lemma xtime_fips: "xtime x = fips_xtime x"
proof -
  have "ucast (- 1 :: u32) = (- 1 :: u8)" by (rule bit_word_eqI) (simp add: bit_ucast_iff)
  moreover have "drop_bit 7 x = (if bit x 7 then 1 else 0)"
  proof (rule bit_word_eqI)
    fix n assume "n < LENGTH(8)"
    then show "bit (drop_bit 7 x) n = bit (if bit x 7 then 1 else 0 :: u8) n"
      by (cases "n = 0") (auto simp: bit_drop_bit_eq bit_1_iff dest: bit_imp_le_length)
  qed
  ultimately show ?thesis by (simp add: xtime_def fips_xtime_def)
qed

lemma xtime_xor: "xtime (a XOR b) = xtime a XOR xtime b"
proof -
  have x: "xtime c = push_bit 1 c XOR (if bit c 7 then 0x1B else 0)" for c by (simp add: xtime_fips fips_xtime_def)
  have "(if bit (a XOR b) 7 then 0x1B else 0) = (if bit a 7 then 0x1B else 0) XOR (if bit b 7 then 0x1B else 0 :: u8)"
    by (simp add: bit_xor_iff)
  then show ?thesis unfolding x push_bit_xor by (simp only: ac_simps)
qed

lemma list_16:
  assumes "length s = 16"
  obtains a0 a1 a2 a3 a4 a5 a6 a7 a8 a9 a10 a11 a12 a13 a14 a15 where "s = [a0, a1, a2, a3, a4, a5, a6, a7, a8, a9, a10, a11, a12, a13, a14, a15]"
  using assms by (auto simp: numeral_eq_Suc length_Suc_conv)

lemma shift_rows_fips: "length s = 16 \<Longrightarrow> shift_rows s = fips_shift_rows s"
  by (erule list_16) (simp add: shift_rows_def fips_shift_rows_def Let_def upt_rec)

lemma mix_columns_fips: "length s = 16 \<Longrightarrow> mix_columns s = fips_mix_columns s"
  by (erule list_16) (simp add: mix_columns_def mix_column_def fips_mix_columns_def Let_def upt_rec xtime_xor ac_simps flip: xtime_fips)

subsection \<open>Key expansion\<close>

lemma length_xor_bytes [simp]: "length (xor_bytes a b) = min (length a) (length b)"
  by (simp add: xor_bytes_def)

lemma length_fips_word: "length key = 16 \<Longrightarrow> i < 44 \<Longrightarrow> length (fips_word key i) = 4"
proof (induction key i rule: fips_word.induct)
  case (1 key i)
  show ?case
  proof (cases "i < 4")
    case True
    then show ?thesis using 1 by (subst fips_word.simps) simp
  next
    case False
    then have "length (fips_word key (i - 1)) = 4" "length (fips_word key (i - 4)) = 4" using 1 by auto
    then show ?thesis using False by (subst fips_word.simps) (simp add: Let_def)
  qed
qed

lemma nth_concat_fixed:
  assumes "\<And>i. i < m \<Longrightarrow> length (f i) = w" "j < m" "k < w"
  shows "concat (map f [0..<m]) ! (w * j + k) = f j ! k"
  using assms
proof (induction m)
  case (Suc m)
  have l: "length (concat (map f [0..<n])) = w * n" if "n \<le> Suc m" for n
    using that Suc.prems(1) by (induction n) auto
  show ?case
  proof (cases "j = m")
    case True
    then show ?thesis using l [of m] by (simp add: nth_append)
  next
    case False
    then have j: "j < m" using Suc.prems(2) by simp
    then have "w * j + k < w * m" using Suc.prems(3) by (metis add_less_le_mono less_le_trans mult_Suc_right mult_le_mono2 Suc_leI add.commute nat_add_left_cancel_less)
    then show ?thesis using Suc j l [of m] by (simp add: nth_append)
  qed
qed simp

lemma length_concat_fixed: "(\<And>i. i < m \<Longrightarrow> length (f i) = w) \<Longrightarrow> length (concat (map f [0..<m])) = w * m"
  by (induction m) auto

lemma map_4: "map f [0..<4] = [f 0, f 1, f 2, f 3]"
  by (simp add: upt_rec numeral_eq_Suc)

lemma key_step_fips:
  assumes key: "length key = 16" and j: "4 \<le> j" "j < 44"
  shows "key_step (concat (map (fips_word key) [0..<j]), fips_rcon ((j - 1) div 4)) (4 * j) =
    (concat (map (fips_word key) [0..<Suc j]), fips_rcon (j div 4))"
proof -
  let ?rk = "concat (map (fips_word key) [0..<j])"
  let ?t = "fips_word key (j - 1)" and ?u = "fips_word key (j - 4)"
  have n: "?rk ! (4 * i + k) = fips_word key i ! k" if "i < j" "k < 4" for i k
    using that j length_fips_word [OF key] by (intro nth_concat_fixed) auto
  have t: "?rk ! (4 * j - 4) = ?t ! 0" "?rk ! (4 * j - 3) = ?t ! 1" "?rk ! (4 * j - 2) = ?t ! 2" "?rk ! (4 * j - 1) = ?t ! 3"
  proof -
    have ix: "4 * j - 4 = 4 * (j - 1) + 0" "4 * j - 3 = 4 * (j - 1) + 1" "4 * j - 2 = 4 * (j - 1) + 2" "4 * j - 1 = 4 * (j - 1) + 3"
      using j by simp_all
    show "?rk ! (4 * j - 4) = ?t ! 0" "?rk ! (4 * j - 3) = ?t ! 1" "?rk ! (4 * j - 2) = ?t ! 2" "?rk ! (4 * j - 1) = ?t ! 3"
      unfolding ix by (rule n; use j in simp)+
  qed
  have lt: "length ?t = 4" "length ?u = 4" using length_fips_word [OF key] j by auto
  obtain t0 t1 t2 t3 where t4: "?t = [t0, t1, t2, t3]" using lt(1) by (auto simp: numeral_eq_Suc length_Suc_conv)
  obtain u0 u1 u2 u3 where u4: "?u = [u0, u1, u2, u3]" using lt(2) by (auto simp: numeral_eq_Suc length_Suc_conv)
  have w: "fips_word key j = xor_bytes [u0, u1, u2, u3] (if j mod 4 = 0 then
      [fips_sub t1 XOR fips_rcon (j div 4 - 1), fips_sub t2, fips_sub t3, fips_sub t0] else [t0, t1, t2, t3])"
    using j t4 u4 by (subst fips_word.simps) (simp add: Let_def)
  have m: "4 * j mod 16 = 0 \<longleftrightarrow> j mod 4 = 0" by presburger
  have d: "(j - 1) div 4 = (if j mod 4 = 0 then j div 4 - 1 else j div 4)"
  proof (cases "j mod 4 = 0")
    case True
    then have "j = 4 * (j div 4)" using mult_div_mod_eq [of 4 j] by simp
    then have "j - 1 = 3 + 4 * (j div 4 - 1)" using j by linarith
    then have "(j - 1) div 4 = (3 + 4 * (j div 4 - 1)) div 4" by simp
    then show ?thesis using True by simp
  next
    case False
    then have "j - 1 = (j mod 4 - 1) + 4 * (j div 4)" using mult_div_mod_eq [of 4 j] by linarith
    then have "(j - 1) div 4 = ((j mod 4 - 1) + 4 * (j div 4)) div 4" by simp
    also have "\<dots> = j div 4" by simp
    finally show ?thesis using False by simp
  qed
  have r: "fips_rcon (j div 4) = xtime (fips_rcon (j div 4 - 1))" 
  proof -
    have "j div 4 = Suc (j div 4 - 1)" using j by linarith
    then have "fips_rcon (j div 4) = fips_xtime (fips_rcon (j div 4 - 1))" using fips_rcon.simps(2) [of "j div 4 - 1"] by simp
    then show ?thesis by (simp only: xtime_fips)
  qed
  have u': "?rk ! (4 * j - 16 + k) = [u0, u1, u2, u3] ! k" if "k < 4" for k
  proof -
    have "4 * j - 16 + k = 4 * (j - 4) + k" using j by simp
    then show ?thesis using n [of "j - 4" k] that u4 j by simp
  qed
  have s4: "sub_bytes [t1, t2, t3, t0] = [fips_sub t1, fips_sub t2, fips_sub t3, fips_sub t0]" by (simp add: sub_bytes_fips)
  have e: "map (\<lambda>k. ?rk ! (4 * j - 16 + k) XOR x ! k) [0..<4] = xor_bytes [u0, u1, u2, u3] x" if "length x = 4" for x
  proof -
    have "map (\<lambda>k. ?rk ! (4 * j - 16 + k) XOR x ! k) [0..<4] = map (\<lambda>k. [u0, u1, u2, u3] ! k XOR x ! k) [0..<4]"
      by (rule map_cong) (simp_all add: u')
    also have "\<dots> = xor_bytes [u0, u1, u2, u3] x"
      using that by (auto simp: map_4 xor_bytes_def numeral_eq_Suc length_Suc_conv)
    finally show ?thesis .
  qed
  have k: "key_step (?rk, rc) (4 * j) = (if j mod 4 = 0
      then (?rk @ xor_bytes [u0, u1, u2, u3] [fips_sub t1 XOR rc, fips_sub t2, fips_sub t3, fips_sub t0], xtime rc)
      else (?rk @ xor_bytes [u0, u1, u2, u3] [t0, t1, t2, t3], rc))" for rc
  proof -
    have sub: "(let x = sub_bytes [t1, t2, t3, t0] in (x[0 := x ! 0 XOR rc], xtime rc)) =
        ([fips_sub t1 XOR rc, fips_sub t2, fips_sub t3, fips_sub t0], xtime rc)"
      unfolding s4 by simp
    have nt: "?t ! 0 = t0" "?t ! 1 = t1" "?t ! 2 = t2" "?t ! 3 = t3" unfolding t4 by simp_all
    have nl: "[t0, t1, t2, t3] ! 0 = t0" "[t0, t1, t2, t3] ! 1 = t1" "[t0, t1, t2, t3] ! 2 = t2" "[t0, t1, t2, t3] ! 3 = t3" by simp_all
    show ?thesis unfolding key_step_def prod.case t nt Let_def [of "[t0, t1, t2, t3]"] nl sub m
      by (cases "j mod 4 = 0") (simp_all only: if_True if_False prod.case Let_def e length_Cons list.size split: prod.split, simp_all add: e)
  qed
  show ?thesis unfolding k using d r w by simp
qed

lemma key_start: "length key = 16 \<Longrightarrow> concat (map (fips_word key) [0..<4]) = key"
proof -
  assume a: "length key = 16"
  have "fips_word key i = take 4 (drop (4 * i) key)" if "i < 4" for i using that by (simp add: fips_word.simps)
  then have "concat (map (fips_word key) [0..<4]) = take 4 key @ take 4 (drop 4 key) @ take 4 (drop 8 key) @ take 4 (drop 12 key)"
    by (simp add: map_4)
  also have "\<dots> = take 16 key" by (simp add: take_add [of 4 12, simplified] take_add [of 4 8, simplified] take_add [of 4 4, simplified])
  finally show ?thesis using a by simp
qed

lemma aes128_init_fips: "length key = 16 \<Longrightarrow> aes128_init key = concat (map (fips_word key) [0..<44])"
proof -
  assume a: "length key = 16"
  have "foldl key_step (key, 1) (map (\<lambda>j. 4 * j) [4..<4 + n]) = (concat (map (fips_word key) [0..<4 + n]), fips_rcon ((4 + n - 1) div 4))"
    if "n \<le> 40" for n
    using that
  proof (induction n)
    case 0
    then show ?case using key_start [OF a] by simp
  next
    case (Suc n)
    then have "foldl key_step (key, 1) (map (\<lambda>j. 4 * j) [4..<Suc (4 + n)]) =
        key_step (concat (map (fips_word key) [0..<4 + n]), fips_rcon ((4 + n - 1) div 4)) (4 * (4 + n))"
      by (simp only: upt_Suc_append [of 4] le_add1 map_append foldl_append list.map foldl.simps)
    then show ?case using key_step_fips [OF a, of "4 + n"] Suc.prems by simp
  qed
  from this [of 40] show ?thesis by (simp add: aes128_init_def)
qed

lemma round_key:
  assumes "length key = 16" "r \<le> 10"
  shows "take 16 (drop (16 * r) (aes128_init key)) = fips_key key r"
proof -
  let ?f = "fips_word key"
  have l: "length (concat (map ?f [0..<m])) = 4 * m" if "m \<le> 44" for m
    using that length_fips_word [OF assms(1)] by (intro length_concat_fixed) auto
  have "[0..<44] = [0..<4 * r] @ [4 * r..<4 * r + 4] @ [4 * r + 4..<44]"
    using assms(2) upt_add_eq_append [of 0 "4 * r" "44 - 4 * r"] upt_add_eq_append [of "4 * r" "4 * r + 4" "40 - 4 * r"] by simp
  then have e: "aes128_init key = concat (map ?f [0..<4 * r]) @ fips_key key r @ concat (map ?f [4 * r + 4..<44])"
    using aes128_init_fips [OF assms(1)] by (simp add: fips_key_def)
  have "length (concat (map ?f [0..<4 * r + 4])) = length (concat (map ?f [0..<4 * r])) + length (fips_key key r)"
    by (simp add: fips_key_def upt_add_eq_append [of 0 "4 * r" 4, simplified])
  then have k: "length (fips_key key r) = 16" using l [of "4 * r"] l [of "4 * r + 4"] assms(2) by simp
  show ?thesis unfolding e using l [of "4 * r"] k assms(2) by simp
qed

subsection \<open>Blocks\<close>

lemma chunks_concat: "0 < n \<Longrightarrow> \<forall>b \<in> set bs. length b = n \<Longrightarrow> chunks n (concat bs) = bs"
  by (induction bs) auto

lemma length_fips_steps [simp]:
  "length (fips_shift_rows s) = 16" "length (fips_mix_columns s) = 16"
  by (simp_all add: fips_shift_rows_def fips_mix_columns_def)

lemma length_fips_key: "length key = 16 \<Longrightarrow> r \<le> 10 \<Longrightarrow> length (fips_key key r) = 16"
  using length_fips_word [of key] by (auto simp: fips_key_def length_concat o_def map_4 upt_conv_Cons sum_list_triv)

lemma aes_round_fips:
  assumes key: "length key = 16" and r: "r \<le> 10" and b: "\<forall>b \<in> set bs. length b = 16" "length bs \<le> 2"
  shows "aes_round (aes128_init key) (concat bs) r =
    concat (map (\<lambda>b. if r < 10 then fips_round key b r else xor_bytes (fips_shift_rows (map fips_sub b)) (fips_key key r)) bs)"
proof -
  have "length (concat bs) \<le> 32" using b by (auto simp: length_concat le_Suc_eq numeral_2_eq_2 length_Suc_conv)
  then have "chunks 16 (sub_bytes (concat bs)) = map (map fips_sub) bs"
    using chunks_concat [of 16 "map (map fips_sub) bs"] b(1) by (simp add: sub_bytes_fips map_concat)
  then show ?thesis using b(1)
    by (auto simp: aes_round_def Let_def add_key_def round_key [OF key r] fips_round_def shift_rows_fips mix_columns_fips
      intro!: arg_cong [of _ _ concat])
qed

lemma fips_rounds_length:
  "length key = 16 \<Longrightarrow> length b = 16 \<Longrightarrow> m \<le> 10 \<Longrightarrow> length (foldl (fips_round key) b [1..<m]) = 16"
  by (induction m) (auto simp: fips_round_def length_fips_key)

lemma aes_rounds_fips:
  assumes key: "length key = 16" and b: "\<forall>b \<in> set bs. length b = 16" "length bs \<le> 2" and m: "1 \<le> m" "m \<le> 10"
  shows "foldl (aes_round (aes128_init key)) (concat bs) [1..<m] = concat (map (\<lambda>b. foldl (fips_round key) b [1..<m]) bs)"
  using m
proof (induction m rule: nat_induct_at_least)
  case (Suc m)
  have "\<forall>c \<in> set (map (\<lambda>b. foldl (fips_round key) b [1..<m]) bs). length c = 16"
    using fips_rounds_length [OF key] b(1) Suc.prems by auto
  then show ?case using Suc b(2) by (simp add: aes_round_fips [OF key] o_def)
qed simp

lemma aes128_core:
  assumes key: "length key = 16" and b: "\<forall>b \<in> set bs. length b = 16" "length bs = (if 1 < n then 2 else 1)"
  shows "aes128_encrypt_blocks (aes128_init key) (concat bs) n = concat (map (fips_cipher key) bs)"
proof -
  let ?rk = "aes128_init key" and ?start = "\<lambda>b. xor_bytes b (fips_key key 0)"
  have l: "length bs \<le> 2" "length (concat bs) = (if 1 < n then 32 else 16)"
    using b by (auto simp: numeral_2_eq_2 length_Suc_conv split: if_splits)
  have "concat (map (add_key ?rk 0) (chunks 16 (concat bs))) = concat (map ?start bs)"
    using chunks_concat [of 16 bs] b(1) round_key [OF key, of 0] by (simp add: add_key_def fun_eq_iff cong: map_cong)
  moreover have s: "\<forall>c \<in> set (map ?start bs). length c = 16" using b(1) length_fips_key [OF key] by simp
  have "foldl (aes_round ?rk) (concat (map ?start bs)) [1..<11] =
      aes_round ?rk (concat (map (\<lambda>b. foldl (fips_round key) b [1..<10]) (map ?start bs))) 10"
    using aes_rounds_fips [OF key s, of 10] l(1) by (simp add: upt_Suc_append [of 1 10, simplified])
  also have "\<dots> = concat (map (fips_cipher key) bs)"
    using aes_round_fips [OF key, of 10 "map (\<lambda>b. foldl (fips_round key) b [1..<10]) (map ?start bs)"] s l(1) fips_rounds_length [OF key]
    by (simp add: o_def fips_cipher_def Let_def cong: map_cong)
  ultimately show ?thesis using l(2) by (simp add: aes128_encrypt_blocks_def Let_def)
qed

text \<open>C14. AES-128 is that of FIPS 197. For every key and every one or two blocks, the constant-time code
  (the S-box as a circuit on bit planes, both blocks in one pass) computes the cipher of the standard.\<close>

theorem aes128_fips:
  assumes "length key = 16" "\<forall>b \<in> set bs. length b = 16" "length bs = (if 1 < n then 2 else 1)"
  shows "aes128_encrypt_blocks (aes128_init key) (concat bs) n = concat (map (fips_cipher key) bs)"
  by (rule aes128_core [OF assms])

theorem aes128_fips_witness:
  "aes128_encrypt_blocks (aes128_init (replicate 16 1)) (replicate 16 2 @ replicate 16 3) 2 =
     fips_cipher (replicate 16 1) (replicate 16 2) @ fips_cipher (replicate 16 1) (replicate 16 3)"
  using aes128_fips [of "replicate 16 1" "[replicate 16 2, replicate 16 3]" 2] by simp

end
