(* ===== verification/Chacha20.thy ===== *)
theory Chacha20
  imports Prelude
begin

text \<open>
  ChaCha20 (\<open>src/crypto/chacha20.c\<close>): the quarter round, the block function and the
  encryption loop. The theorems show that every output byte is the input byte xored with the
  keystream byte of its position, so that encryption is its own inverse; the quarter round is
  invertible, so the 20 rounds are a permutation of the state.
\<close>

unbundle bit_operations_syntax

subsection \<open>The block function\<close>

definition rotl32 :: "u32 \<Rightarrow> nat \<Rightarrow> u32" where
  "rotl32 x n = push_bit n x OR drop_bit (32 - n) x"

fun QR :: "u32 \<times> u32 \<times> u32 \<times> u32 \<Rightarrow> u32 \<times> u32 \<times> u32 \<times> u32" where
  "QR (a, b, c, d) =
     (let a = a + b; d = d XOR a; d = rotl32 d 16;
          c = c + d; b = b XOR c; b = rotl32 b 12;
          a = a + b; d = d XOR a; d = rotl32 d 8;
          c = c + d; b = b XOR c; b = rotl32 b 7
      in (a, b, c, d))"

definition QR_at :: "u32 list \<Rightarrow> nat \<times> nat \<times> nat \<times> nat \<Rightarrow> u32 list" where
  "QR_at z ix = (case ix of (i, j, k, l) \<Rightarrow>
     (case QR (z ! i, z ! j, z ! k, z ! l) of (a, b, c, d) \<Rightarrow> z[i := a, j := b, k := c, l := d]))"

definition chacha20_double_round :: "u32 list \<Rightarrow> u32 list" where
  "chacha20_double_round z = foldl QR_at z
     [(0, 4, 8, 12), (1, 5, 9, 13), (2, 6, 10, 14), (3, 7, 11, 15),
      (0, 5, 10, 15), (1, 6, 11, 12), (2, 7, 8, 13), (3, 4, 9, 14)]"

definition chacha20_init_state :: "u32 list \<Rightarrow> u32 list \<Rightarrow> u32 \<Rightarrow> u32 list" where
  "chacha20_init_state key nonce counter =
     [0x61707865, 0x3320646e, 0x79622d32, 0x6b206574,
      key ! 0, key ! 1, key ! 2, key ! 3, key ! 4, key ! 5, key ! 6, key ! 7,
      counter, nonce ! 0, nonce ! 1, nonce ! 2]"

definition chacha20_block :: "u32 list \<Rightarrow> u32 list \<Rightarrow> u32 \<Rightarrow> bytes" where
  "chacha20_block key nonce counter =
     (let x = chacha20_init_state key nonce counter;
          z = (chacha20_double_round ^^ 10) x
      in concat (map st_le32 (map2 (+) z x)))"

subsection \<open>Encryption\<close>

text \<open>The loop over 64-byte pieces; \<open>plaintext\<close> is what is left from \<open>offset\<close> on. Each byte is
  read before the same index is written, so the in-place calls of the AEAD are covered.\<close>

function chacha20_loop :: "u32 list \<Rightarrow> u32 list \<Rightarrow> u32 \<Rightarrow> bytes \<Rightarrow> bytes" where
  "chacha20_loop key nonce counter plaintext =
     (if plaintext = [] then []
      else map2 (XOR) (take 64 plaintext) (chacha20_block key nonce counter) @
           chacha20_loop key nonce (counter + 1) (drop 64 plaintext))"
  by pat_completeness auto
termination
  by (relation "measure (\<lambda>(key, nonce, counter, plaintext). length plaintext)") auto

declare chacha20_loop.simps [simp del]

definition chacha20_encrypt :: "bytes \<Rightarrow> bytes \<Rightarrow> u32 \<Rightarrow> bytes \<Rightarrow> bytes" where
  "chacha20_encrypt key nonce counter plaintext =
     chacha20_loop (ld_words le32 key) (ld_words le32 nonce) counter plaintext"

subsection \<open>Lengths\<close>

lemma length_QR_at [simp]: "length (QR_at z ix) = length z"
  by (simp add: QR_at_def split: prod.splits)

lemma length_double_round [simp]: "length (chacha20_double_round z) = length z"
  by (simp add: chacha20_double_round_def)

lemma length_rounds [simp]: "length ((chacha20_double_round ^^ n) z) = length z"
  by (induction n) auto

lemma length_chacha20_block [simp]: "length (chacha20_block key nonce counter) = 64"
  by (simp add: chacha20_block_def Let_def chacha20_init_state_def)

lemma length_chacha20_loop [simp]: "length (chacha20_loop key nonce counter m) = length m"
proof (induction key nonce counter m rule: chacha20_loop.induct)
  case (1 key nonce counter m)
  then show ?case by (subst chacha20_loop.simps) (auto simp: min_def)
qed

lemma length_chacha20_encrypt [simp, len_simps]:
  "length (chacha20_encrypt key nonce counter m) = length m"
  by (simp add: chacha20_encrypt_def)

subsection \<open>The keystream\<close>

text \<open>The byte at position \<open>i\<close> uses the block number \<open>i div 64\<close>, counted from \<open>counter\<close> and
  wrapping at 32 bits.\<close>

lemma chacha20_loop_nth:
  "i < length m \<Longrightarrow> chacha20_loop key nonce counter m ! i =
     m ! i XOR chacha20_block key nonce (counter + of_nat (i div 64)) ! (i mod 64)"
proof (induction key nonce counter m arbitrary: i rule: chacha20_loop.induct)
  case (1 key nonce counter m)
  then have ne: "m \<noteq> []" by auto
  show ?case
  proof (cases "i < 64")
    case True
    with 1 ne show ?thesis by (subst chacha20_loop.simps) (simp add: nth_append)
  next
    case False
    with 1 ne have "chacha20_loop key nonce counter m ! i =
        chacha20_loop key nonce (counter + 1) (drop 64 m) ! (i - 64)"
      by (subst chacha20_loop.simps) (simp add: nth_append)
    also have "\<dots> = drop 64 m ! (i - 64) XOR
        chacha20_block key nonce (counter + 1 + of_nat ((i - 64) div 64)) ! ((i - 64) mod 64)"
      using 1 ne False by simp
    also have "(i - 64) mod 64 = i mod 64" using False by (simp add: le_mod_geq)
    also have "counter + 1 + of_nat ((i - 64) div 64) = counter + of_nat (i div 64)"
      using False by (simp add: le_div_geq add.assoc)
    finally show ?thesis using 1 False by simp
  qed
qed

lemma chacha20_twice:
  "chacha20_encrypt key nonce counter (chacha20_encrypt key nonce counter m) = m"
  by (rule nth_equalityI)
    (simp_all add: chacha20_encrypt_def chacha20_loop_nth)

subsection \<open>The quarter round is a permutation\<close>

fun QR_inv :: "u32 \<times> u32 \<times> u32 \<times> u32 \<Rightarrow> u32 \<times> u32 \<times> u32 \<times> u32" where
  "QR_inv (a, b, c, d) =
     (let b = rotl32 b 25; b = b XOR c; c = c - d;
          d = rotl32 d 24; d = d XOR a; a = a - b;
          b = rotl32 b 20; b = b XOR c; c = c - d;
          d = rotl32 d 16; d = d XOR a; a = a - b
      in (a, b, c, d))"

lemma rotl32_rotl32: "0 < n \<Longrightarrow> n < 32 \<Longrightarrow> rotl32 (rotl32 x n) (32 - n) = x"
  unfolding rotl32_def
  by (intro bit_word_eqI) (auto simp: bit_simps)

lemma QR_inv_QR: "QR_inv (QR (a, b, c, d)) = (a, b, c, d)"
  using rotl32_rotl32 [of 7] rotl32_rotl32 [of 8] rotl32_rotl32 [of 12] rotl32_rotl32 [of 16]
  by (simp add: Let_def)

declare QR.simps [simp del] QR_inv.simps [simp del]

definition QR_at_inv :: "u32 list \<Rightarrow> nat \<times> nat \<times> nat \<times> nat \<Rightarrow> u32 list" where
  "QR_at_inv z ix = (case ix of (i, j, k, l) \<Rightarrow>
     (case QR_inv (z ! i, z ! j, z ! k, z ! l) of (a, b, c, d) \<Rightarrow> z[i := a, j := b, k := c, l := d]))"

lemma QR_at_inv_QR_at:
  assumes "distinct [i, j, k, l]" "set [i, j, k, l] \<subseteq> {..<length z}"
  shows "QR_at_inv (QR_at z (i, j, k, l)) (i, j, k, l) = z"
proof -
  obtain a b c d where q: "QR (z ! i, z ! j, z ! k, z ! l) = (a, b, c, d)"
    by (metis prod_cases4)
  then have "QR_inv (a, b, c, d) = (z ! i, z ! j, z ! k, z ! l)"
    using QR_inv_QR [of "z ! i" "z ! j" "z ! k" "z ! l"] by simp
  moreover have "QR_at z (i, j, k, l) = z[i := a, j := b, k := c, l := d]"
    by (simp add: QR_at_def q)
  ultimately have *: "QR_at_inv (QR_at z (i, j, k, l)) (i, j, k, l) =
      z[i := a, j := b, k := c, l := d, i := z ! i, j := z ! j, k := z ! k, l := z ! l]"
    using assms by (simp add: QR_at_inv_def)
  show ?thesis
  proof (rule nth_equalityI)
    fix n assume n: "n < length (QR_at_inv (QR_at z (i, j, k, l)) (i, j, k, l))"
    consider "n = i" | "n = j" | "n = k" | "n = l" | "n \<noteq> i" "n \<noteq> j" "n \<noteq> k" "n \<noteq> l" by blast
    then show "QR_at_inv (QR_at z (i, j, k, l)) (i, j, k, l) ! n = z ! n"
      using assms n unfolding * by cases simp_all
  qed (simp add: *)
qed

lemma foldl_inj_step:
  assumes "\<And>ix z. ix \<in> set ixs \<Longrightarrow> length z = n \<Longrightarrow> length (f z ix) = n \<and> g (f z ix) ix = z"
    and "length y = n" "length z = n" "foldl f y ixs = foldl f z ixs"
  shows "y = z"
  using assms
proof (induction ixs arbitrary: y z)
  case Nil
  then show ?case by simp
next
  case (Cons ix ixs)
  have inv: "g (f y ix) ix = y" "g (f z ix) ix = z" "length (f y ix) = n" "length (f z ix) = n"
    using Cons.prems(1) [of ix y] Cons.prems(1) [of ix z] Cons.prems(2,3) by simp_all
  have "f y ix = f z ix"
  proof (rule Cons.IH [OF _ inv(3,4)])
    show "foldl f (f y ix) ixs = foldl f (f z ix) ixs" using Cons.prems(4) by simp
  qed (rule Cons.prems(1), simp_all)
  then show ?case by (metis inv(1) inv(2))
qed

lemma chacha20_double_round_inj:
  assumes "length y = 16" "length z = 16" "chacha20_double_round y = chacha20_double_round z"
  shows "y = z"
  using assms unfolding chacha20_double_round_def
  by (elim foldl_inj_step [where g = QR_at_inv, rotated 3]) (auto simp: QR_at_inv_QR_at)

lemma chacha20_rounds_inj':
  "(chacha20_double_round ^^ n) y = (chacha20_double_round ^^ n) z \<Longrightarrow>
   length y = 16 \<Longrightarrow> length z = 16 \<Longrightarrow> y = z"
proof (induction n)
  case (Suc n)
  have "(chacha20_double_round ^^ n) y = (chacha20_double_round ^^ n) z"
    by (rule chacha20_double_round_inj) (use Suc.prems in simp_all)
  then show ?case using Suc.prems(2,3) by (rule Suc.IH)
qed simp

subsection \<open>Properties\<close>

text \<open>every byte that \<open>chacha20_encrypt\<close> writes is the input byte xored with the keystream
  byte of its position, the block counter advancing by one every 64 bytes modulo 2^32; the
  output is as long as the input.\<close>

theorem chacha20_keystream:
  "length (chacha20_encrypt key nonce counter m) = length m \<and>
   (\<forall>i < length m. chacha20_encrypt key nonce counter m ! i =
     m ! i XOR chacha20_block (ld_words le32 key) (ld_words le32 nonce)
       (counter + of_nat (i div 64)) ! (i mod 64))"
  by (simp add: chacha20_encrypt_def chacha20_loop_nth)

theorem chacha20_keystream_witness:
  "chacha20_encrypt (replicate 32 1) (replicate 12 2) 7 (replicate 100 0) ! 70 =
     chacha20_block (ld_words le32 (replicate 32 1)) (ld_words le32 (replicate 12 2)) 8 ! 6"
  using chacha20_keystream [of "replicate 32 1" "replicate 12 2" 7 "replicate 100 0"]
  by simp

text \<open>the ten double rounds are injective on 16-word states: no two inputs of the block
  function meet before the feed-forward addition.\<close>

theorem chacha20_rounds_inj:
  "inj_on (chacha20_double_round ^^ 10) {z. length z = 16}"
  by (rule inj_onI) (auto dest: chacha20_rounds_inj')

end
