(* ===== verification/Block_Stream.thy ===== *)
theory Block_Stream
  imports Prelude
begin

text \<open>
  Block-buffered streams. SHA-256 and Poly1305 both take their input in pieces of any length
  and hand it on in blocks of a fixed length, keeping the incomplete tail in a buffer. The
  reference machine takes one byte at a time; the interface says that an update routine refines
  it, and its lemmas are proved once for every such routine.
\<close>

subsection \<open>The reference machine\<close>

fun absorb_byte :: "nat \<Rightarrow> ('s \<Rightarrow> 'b list \<Rightarrow> 's) \<Rightarrow> 'b list \<times> 's \<Rightarrow> 'b \<Rightarrow> 'b list \<times> 's" where
  "absorb_byte N cmpr (p, s) b =
     (if Suc (length p) = N then ([], cmpr s (p @ [b])) else (p @ [b], s))"

definition absorb :: "nat \<Rightarrow> ('s \<Rightarrow> 'b list \<Rightarrow> 's) \<Rightarrow> 'b list \<times> 's \<Rightarrow> 'b list \<Rightarrow> 'b list \<times> 's" where
  "absorb N cmpr = foldl (absorb_byte N cmpr)"

lemma absorb_Nil [simp]: "absorb N cmpr ps [] = ps"
  by (simp add: absorb_def)

lemma absorb_append: "absorb N cmpr ps (a @ b) = absorb N cmpr (absorb N cmpr ps a) b"
  by (simp add: absorb_def)

lemma absorb_short:
  "length p + length m < N \<Longrightarrow> absorb N cmpr (p, s) m = (p @ m, s)"
  by (induction m arbitrary: p) (auto simp: absorb_def)

lemma absorb_fill:
  assumes "length p + length m = N" "m \<noteq> []"
  shows "absorb N cmpr (p, s) m = ([], cmpr s (p @ m))"
proof -
  from assms(2) obtain m' b where m: "m = m' @ [b]" by (cases m rule: rev_cases) auto
  with assms have "absorb N cmpr (p, s) m' = (p @ m', s)" by (simp add: absorb_short)
  with assms(1) m show ?thesis by (simp add: absorb_append) (simp add: absorb_def)
qed

lemma absorb_block: "length m = N \<Longrightarrow> 0 < N \<Longrightarrow> absorb N cmpr ([], s) m = ([], cmpr s m)"
  using absorb_fill [of "[]" m N cmpr s] by auto

lemma absorb_blocks:
  "0 < N \<Longrightarrow> absorb N cmpr ([], s) m = (leftover N m, foldl cmpr s (chunks N m))"
proof (induction N m arbitrary: s rule: chunks.induct)
  case (1 N m)
  show ?case
  proof (cases "length m < N")
    case True
    then show ?thesis by (simp add: absorb_short)
  next
    case False
    let ?b = "take N m" and ?r = "drop N m"
    from False have b: "length ?b = N" by simp
    have "absorb N cmpr ([], s) (?b @ ?r) = absorb N cmpr ([], cmpr s ?b) ?r"
      using 1(2) b by (simp only: absorb_append absorb_block)
    also have "\<dots> = (leftover N ?r, foldl cmpr (cmpr s ?b) (chunks N ?r))"
      using 1 False by simp
    also have "\<dots> = (leftover N (?b @ ?r), foldl cmpr s (chunks N (?b @ ?r)))"
      using 1(2) b by (simp del: append_take_drop_id)
    finally show ?thesis by simp
  qed
qed

lemma absorb_pending: "0 < N \<Longrightarrow> length p < N \<Longrightarrow> length (fst (absorb N cmpr (p, s) m)) < N"
proof (induction m arbitrary: p s)
  case Nil
  then show ?case by simp
next
  case (Cons b m)
  then show ?case by (auto simp: absorb_def)
qed

subsection \<open>The interface of an update routine\<close>

locale block_stream =
  fixes N :: nat
    and cmpr :: "'s \<Rightarrow> 'b list \<Rightarrow> 's"
    and upd :: "'c \<Rightarrow> 'b list \<Rightarrow> 'c"
    and view :: "'c \<Rightarrow> 'b list \<times> 's"
    and wf :: "'c \<Rightarrow> bool"
  assumes N_pos: "0 < N"
    and upd_view: "wf c \<Longrightarrow> view (upd c m) = absorb N cmpr (view c) m"
    and upd_wf: "wf c \<Longrightarrow> wf (upd c m)"
begin

lemma upd_upd: "wf c \<Longrightarrow> view (upd (upd c a) b) = view (upd c (a @ b))"
  by (simp add: upd_view upd_wf absorb_append)

lemma pieces_wf: "wf c \<Longrightarrow> wf (foldl upd c ms)"
  by (induction ms arbitrary: c) (auto intro: upd_wf)

lemma pieces_view: "wf c \<Longrightarrow> view (foldl upd c ms) = absorb N cmpr (view c) (concat ms)"
  by (induction ms arbitrary: c) (auto simp: upd_view upd_wf absorb_append)

lemma pieces: "wf c \<Longrightarrow> view (foldl upd c ms) = view (upd c (concat ms))"
  by (simp add: pieces_view upd_view)

lemma from_start:
  assumes "wf c" "view c = ([], s)"
  shows "view (foldl upd c ms) = (leftover N (concat ms), foldl cmpr s (chunks N (concat ms)))"
  using assms by (simp add: pieces_view absorb_blocks N_pos)

end

end
