(* ===== verification/Poly1305.thy ===== *)
theory Poly1305
  imports Block_Stream
begin

text \<open>
  Poly1305 (\<open>src/crypto/poly1305.c\<close>, \<open>poly1305.h\<close>): the 5 x 26-bit limb arithmetic on 32- and
  64-bit words, the streaming state and the tag. The word-level code is shown to compute the
  polynomial modulo 2^130 - 5 with no overflow anywhere, and the tag to be the one of RFC 8439
  except when the accumulator ends within five of the modulus: the final subtraction of the
  modulus is missing.
\<close>

unbundle bit_operations_syntax

subsection \<open>State and limb operations\<close>

record poly1305_stream =
  p_h :: "u32 list"
  p_r :: "u32 list"
  p_s :: bytes
  p_buf :: bytes
  p_n :: nat

text \<open>Four little-endian words cut into five 26-bit limbs (the same code in
  \<open>poly1305_block\<close> and \<open>poly1305_stream_init\<close>).\<close>

definition pack26 :: "u32 \<Rightarrow> u32 \<Rightarrow> u32 \<Rightarrow> u32 \<Rightarrow> u32 list" where
  "pack26 b0 b1 b2 b3 =
     [b0 AND 0x3FFFFFF,
      (drop_bit 26 b0 OR push_bit 6 b1) AND 0x3FFFFFF,
      (drop_bit 20 b1 OR push_bit 12 b2) AND 0x3FFFFFF,
      (drop_bit 14 b2 OR push_bit 18 b3) AND 0x3FFFFFF,
      drop_bit 8 b3 AND 0x3FFFFFF]"

definition ld_le32 :: "bytes \<Rightarrow> nat \<Rightarrow> u32" where
  "ld_le32 b i = le32 (b ! i) (b ! (i + 1)) (b ! (i + 2)) (b ! (i + 3))"

text \<open>The five lines of carries \<open>c = h[i] >> 26; h[i] &= 0x3FFFFFF; h[i+1] += c\<close>, the last
  one folding the top carry back into \<open>h[0]\<close> times five.\<close>

definition carry26 :: "u32 list \<Rightarrow> u32 list" where
  "carry26 h =
     (let c = drop_bit 26 (h ! 0); h = h[0 := h ! 0 AND 0x3FFFFFF]; h = h[1 := h ! 1 + c];
          c = drop_bit 26 (h ! 1); h = h[1 := h ! 1 AND 0x3FFFFFF]; h = h[2 := h ! 2 + c];
          c = drop_bit 26 (h ! 2); h = h[2 := h ! 2 AND 0x3FFFFFF]; h = h[3 := h ! 3 + c];
          c = drop_bit 26 (h ! 3); h = h[3 := h ! 3 AND 0x3FFFFFF]; h = h[4 := h ! 4 + c];
          c = drop_bit 26 (h ! 4); h = h[4 := h ! 4 AND 0x3FFFFFF]; h = h[0 := h ! 0 + 5 * c]
      in h)"

text \<open>The 5 x 5 schoolbook product into ten 64-bit digits, and the fold of the upper five.\<close>

definition mul26 :: "u32 list \<Rightarrow> u32 list \<Rightarrow> u64 list" where
  "mul26 h r =
     foldl (\<lambda>d (i, j). d[i + j := d ! (i + j) + ucast (h ! i) * ucast (r ! j)])
       (replicate 10 0) (List.product [0..<5] [0..<5])"

definition fold26 :: "u64 list \<Rightarrow> u64 list" where
  "fold26 d = foldl (\<lambda>d i. d[i - 5 := d ! (i - 5) + 5 * d ! i]) d [5..<10]"

definition carry64 :: "u64 list \<Rightarrow> u32 list" where
  "carry64 d =
     (let c = ucast (drop_bit 26 (d ! 0)) :: u32; h0 = ucast (d ! 0 AND 0x3FFFFFF);
          d1 = d ! 1 + ucast c;
          c = ucast (drop_bit 26 d1) :: u32; h1 = ucast (d1 AND 0x3FFFFFF); d2 = d ! 2 + ucast c;
          c = ucast (drop_bit 26 d2) :: u32; h2 = ucast (d2 AND 0x3FFFFFF); d3 = d ! 3 + ucast c;
          c = ucast (drop_bit 26 d3) :: u32; h3 = ucast (d3 AND 0x3FFFFFF); d4 = d ! 4 + ucast c;
          c = ucast (drop_bit 26 d4) :: u32; h4 = ucast (d4 AND 0x3FFFFFF)
      in [h0 + 5 * c, h1, h2, h3, h4])"

definition poly1305_block :: "poly1305_stream \<Rightarrow> bytes \<Rightarrow> bool \<Rightarrow> poly1305_stream" where
  "poly1305_block ctx block final =
     (let n = pack26 (ld_le32 block 0) (ld_le32 block 4) (ld_le32 block 8) (ld_le32 block 12);
          n = (if final then n else n[4 := n ! 4 OR 0x1000000]);
          h = carry26 (map2 (+) (p_h ctx) n);
          d = fold26 (mul26 h (p_r ctx))
      in ctx\<lparr>p_h := carry64 d\<rparr>)"

subsection \<open>The streaming interface\<close>

definition poly1305_stream_init :: "poly1305_stream \<Rightarrow> bytes \<Rightarrow> poly1305_stream" where
  "poly1305_stream_init st key =
     (let b0 = ld_le32 key 0 AND 0x0FFFFFFF; b1 = ld_le32 key 4 AND 0x0FFFFFFC;
          b2 = ld_le32 key 8 AND 0x0FFFFFFC; b3 = ld_le32 key 12 AND 0x0FFFFFFC
      in st\<lparr>p_h := replicate 5 0, p_r := pack26 b0 b1 b2 b3,
            p_s := take 16 (drop 16 key), p_n := 0\<rparr>)"

text \<open>The middle loop of the update, over whole blocks straight from the message.\<close>

fun poly1305_blocks :: "poly1305_stream \<Rightarrow> bytes list \<Rightarrow> poly1305_stream" where
  "poly1305_blocks st [] = st"
| "poly1305_blocks st (b # bs) = poly1305_blocks (poly1305_block st b False) bs"

definition poly1305_stream_update :: "poly1305_stream \<Rightarrow> bytes \<Rightarrow> poly1305_stream" where
  "poly1305_stream_update st msg =
     (let tk = (if 16 - p_n st > length msg then length msg else 16 - p_n st);
          (st, msg) =
            (if p_n st > 0
             then let st = st\<lparr>p_buf := blit (p_buf st) (p_n st) (take tk msg), p_n := p_n st + tk\<rparr>;
                      st = (if p_n st = 16 then (poly1305_block st (p_buf st) False)\<lparr>p_n := 0\<rparr> else st)
                  in (st, drop tk msg)
             else (st, msg));
          st = poly1305_blocks st (chunks 16 msg);
          msg = leftover 16 msg
      in if msg \<noteq> [] then st\<lparr>p_buf := blit (p_buf st) 0 msg, p_n := length msg\<rparr> else st)"

definition poly1305_stream_final :: "poly1305_stream \<Rightarrow> poly1305_stream \<times> bytes" where
  "poly1305_stream_final st =
     (let st = (if p_n st > 0
                then poly1305_block st (blit (replicate 16 0) 0 (take (p_n st) (p_buf st) @ [1])) True
                else st);
          h = carry26 (p_h st);
          c = drop_bit 26 (h ! 0); h = h[0 := h ! 0 AND 0x3FFFFFF]; h = h[1 := h ! 1 + c];
          w0 = h ! 0 + push_bit 26 (h ! 1 AND 0x3F);
          w1 = drop_bit 6 (h ! 1) + push_bit 20 (h ! 2 AND 0xFFF);
          w2 = drop_bit 12 (h ! 2) + push_bit 14 (h ! 3 AND 0x3FFFF);
          w3 = drop_bit 18 (h ! 3) + push_bit 8 (h ! 4 AND 0xFFFFFF);
          sum = ucast w0 + ucast (ld_le32 (p_s st) 0) :: u64;
          w0 = ucast sum :: u32; sum = drop_bit 32 sum + (ucast w1 + ucast (ld_le32 (p_s st) 4));
          w1 = ucast sum :: u32; sum = drop_bit 32 sum + (ucast w2 + ucast (ld_le32 (p_s st) 8));
          w2 = ucast sum :: u32; sum = drop_bit 32 sum + (ucast w3 + ucast (ld_le32 (p_s st) 12));
          w3 = ucast sum :: u32
      in (st\<lparr>p_h := h\<rparr>, st_le32 w0 @ st_le32 w1 @ st_le32 w2 @ st_le32 w3))"

text \<open>\<open>secure_zero(st, sizeof( *st))\<close>.\<close>

definition poly1305_stream_wipe :: "poly1305_stream \<Rightarrow> poly1305_stream" where
  "poly1305_stream_wipe st =
     \<lparr>p_h = map (\<lambda>_. 0) (p_h st), p_r = map (\<lambda>_. 0) (p_r st), p_s = map (\<lambda>_. 0) (p_s st),
      p_buf = map (\<lambda>_. 0) (p_buf st), p_n = 0\<rparr>"

definition poly1305_fresh :: poly1305_stream where
  "poly1305_fresh = \<lparr>p_h = replicate 5 0, p_r = replicate 5 0, p_s = replicate 16 0,
     p_buf = replicate 16 0, p_n = 0\<rparr>"

definition poly1305_auth :: "bytes \<Rightarrow> bytes \<Rightarrow> bytes" where
  "poly1305_auth key msg =
     snd (poly1305_stream_final (poly1305_stream_update (poly1305_stream_init poly1305_fresh key) msg))"

definition put_le64 :: "u64 \<Rightarrow> bytes" where
  "put_le64 v = map (\<lambda>i. ucast (drop_bit (8 * i) v)) [0..<8]"

definition poly1305_auth_pieces :: "bytes \<Rightarrow> bytes \<Rightarrow> bytes \<Rightarrow> bytes" where
  "poly1305_auth_pieces key aad ct =
     (let zeros = replicate 16 0;
          pad = (\<lambda>n. unat ((16 - (of_nat n AND 15)) AND 15 :: u32));
          st = poly1305_stream_init poly1305_fresh key;
          st = poly1305_stream_update st aad;
          st = poly1305_stream_update st (take (pad (length aad)) zeros);
          st = poly1305_stream_update st ct;
          st = poly1305_stream_update st (take (pad (length ct)) zeros);
          st = poly1305_stream_update st (put_le64 (of_nat (length aad)) @ put_le64 (of_nat (length ct)))
      in snd (poly1305_stream_final st))"

subsection \<open>Specification: RFC 8439\<close>

definition P1305 :: nat where
  "P1305 = 2 ^ 130 - 5"

definition clamp_r :: "bytes \<Rightarrow> nat" where
  "clamp_r key = le_val (take 16 (map2 (AND) key
     [0xff, 0xff, 0xff, 0x0f, 0xfc, 0xff, 0xff, 0x0f, 0xfc, 0xff, 0xff, 0x0f, 0xfc, 0xff, 0xff, 0x0f]))"

text \<open>One block: append the byte 1, add, multiply, reduce. The last block may be short.\<close>

definition poly_step :: "nat \<Rightarrow> nat \<Rightarrow> bytes \<Rightarrow> nat" where
  "poly_step r a blk = (a + le_val (blk @ [1])) * r mod P1305"

definition poly_acc :: "nat \<Rightarrow> bytes \<Rightarrow> nat" where
  "poly_acc r m =
     (let a = foldl (poly_step r) 0 (chunks 16 m)
      in if leftover 16 m = [] then a else poly_step r a (leftover 16 m))"

definition poly1305_spec :: "bytes \<Rightarrow> bytes \<Rightarrow> bytes" where
  "poly1305_spec key m =
     le_bytes 16 (poly_acc (clamp_r key) m + le_val (take 16 (drop 16 key)))"

subsection \<open>Limbs as numbers\<close>

fun limb_val :: "u32 list \<Rightarrow> nat" where
  "limb_val [] = 0"
| "limb_val (x # xs) = unat x + 2 ^ 26 * limb_val xs"

lemma unat_and_26:
  "unat (w AND 0x3FFFFFF :: u32) = unat w mod 2 ^ 26"
  "unat (v AND 0x3FFFFFF :: u64) = unat v mod 2 ^ 26"
  using unat_and_mask [of w 26] unat_and_mask [of v 26]
  by (simp_all add: mask_eq_exp_minus_1)

lemma unat_u32: "unat (x :: u32) < 4294967296"
  using unsigned_less [of x] by simp

lemma limb_piece:
  fixes x y :: u32
  assumes "i + k = 32" "k \<le> 26"
  shows "unat ((drop_bit i x OR push_bit k y) AND 0x3FFFFFF)
    = unat x div 2 ^ i + 2 ^ k * (unat y mod 2 ^ (26 - k))"
proof -
  have "unat x < 2 ^ (k + i)"
    using unat_u32 [of x] assms(1) by (simp add: add.commute)
  then have "unat x < 2 ^ k * 2 ^ i" by (simp add: power_add)
  then have lt: "unat x div 2 ^ i < 2 ^ k" by (simp add: less_mult_imp_div_less)
  then have "unat (drop_bit i x OR push_bit k y) = unat x div 2 ^ i + unat y * 2 ^ k mod 2 ^ 32"
    by (subst unat_or_push_bit) (simp_all add: unat_drop_bit unat_push_bit)
  then show ?thesis
    using mod_shift_sum [OF lt assms(2), of 32 "unat y"] by (simp add: unat_and_26)
qed

lemma pack26_limbs:
  "map unat (pack26 b0 b1 b2 b3) =
     [unat b0 mod 2 ^ 26, unat b0 div 2 ^ 26 + 2 ^ 6 * (unat b1 mod 2 ^ 20),
      unat b1 div 2 ^ 20 + 2 ^ 12 * (unat b2 mod 2 ^ 14),
      unat b2 div 2 ^ 14 + 2 ^ 18 * (unat b3 mod 2 ^ 8), unat b3 div 2 ^ 8]"
  using limb_piece [of 26 6 b0 b1] limb_piece [of 20 12 b1 b2] limb_piece [of 14 18 b2 b3]
    unat_u32 [of b3] mod_less [of "unat b3 div 256" 67108864]
  by (simp add: pack26_def unat_and_26 unat_drop_bit less_mult_imp_div_less)

lemma limb_val_map: "limb_val xs = foldr (\<lambda>x a. x + 2 ^ 26 * a) (map unat xs) 0"
  by (induction xs) auto

lemma pack26_val:
  "limb_val (pack26 b0 b1 b2 b3) =
     unat b0 + 2 ^ 32 * (unat b1 + 2 ^ 32 * (unat b2 + 2 ^ 32 * unat b3))"
proof -
  have "unat b1 = 1048576 * (unat b1 div 1048576) + unat b1 mod 1048576"
    "unat b2 = 16384 * (unat b2 div 16384) + unat b2 mod 16384"
    "unat b3 = 256 * (unat b3 div 256) + unat b3 mod 256" by simp_all
  then show ?thesis
    unfolding limb_val_map pack26_limbs by (simp; linarith)
qed

text \<open>The carries telescope: what leaves a limb enters the next one, and the top carry counts
  for 2^130 there and for 5 in the lowest limb.\<close>

lemma carry_telescope_int:
  fixes h0 :: int
  assumes "h0 = B * q0 + m0" "h1 + q0 = B * q1 + m1" "h2 + q1 = B * q2 + m2"
    "h3 + q2 = B * q3 + m3" "h4 + q3 = B * q4 + m4"
  shows "m0 + B * (m1 + B * (m2 + B * (m3 + B * m4))) + q4 * (B * B * B * B * B) =
    h0 + B * (h1 + B * (h2 + B * (h3 + B * h4)))"
proof -
  have h: "h1 = B * q1 + m1 - q0" "h2 = B * q2 + m2 - q1" "h3 = B * q3 + m3 - q2"
    "h4 = B * q4 + m4 - q3" using assms by simp_all
  show ?thesis unfolding assms(1) h by (simp add: algebra_simps)
qed

lemma carry_telescope:
  fixes h0 :: nat
  assumes "h0 = 67108864 * q0 + m0" "h1 + q0 = 67108864 * q1 + m1" "h2 + q1 = 67108864 * q2 + m2"
    "h3 + q2 = 67108864 * q3 + m3" "h4 + q3 = 67108864 * q4 + m4"
  shows "m0 + 5 * q4 + 67108864 * (m1 + 67108864 * (m2 + 67108864 * (m3 + 67108864 * m4))) +
      q4 * 1361129467683753853853498429727072845819 =
    h0 + 67108864 * (h1 + 67108864 * (h2 + 67108864 * (h3 + 67108864 * h4)))"
proof -
  have "int h0 = 67108864 * int q0 + int m0" "int h1 + int q0 = 67108864 * int q1 + int m1"
    "int h2 + int q1 = 67108864 * int q2 + int m2" "int h3 + int q2 = 67108864 * int q3 + int m3"
    "int h4 + int q3 = 67108864 * int q4 + int m4" using assms by simp_all
  from carry_telescope_int [OF this] show ?thesis by simp
qed

lemma carry_identity:
  fixes h0 :: nat
  assumes "x1 = h1 + h0 div 67108864" "x2 = h2 + x1 div 67108864" "x3 = h3 + x2 div 67108864"
    "x4 = h4 + x3 div 67108864"
  shows "h0 mod 67108864 + 5 * (x4 div 67108864) + 67108864 * (x1 mod 67108864 + 67108864 *
      (x2 mod 67108864 + 67108864 * (x3 mod 67108864 + 67108864 * (x4 mod 67108864)))) +
      (x4 div 67108864) * 1361129467683753853853498429727072845819 =
    h0 + 67108864 * (h1 + 67108864 * (h2 + 67108864 * (h3 + 67108864 * h4)))"
  by (rule carry_telescope [of h0 "h0 div 67108864" _ h1 "x1 div 67108864" _ h2
        "x2 div 67108864" _ h3 "x3 div 67108864"]) (simp_all flip: assms)

lemma carry26_val:
  assumes "unat h0 \<le> 1879048192" "unat h1 \<le> 134217728" "unat h2 \<le> 134217728"
    "unat h3 \<le> 134217728" "unat h4 \<le> 134217728"
  obtains g0 g1 g2 g3 g4 c where "carry26 [h0, h1, h2, h3, h4] = [g0, g1, g2, g3, g4]"
    "c \<le> 2" "unat g0 = unat h0 mod 2 ^ 26 + 5 * c"
    "unat g1 < 2 ^ 26" "unat g2 < 2 ^ 26" "unat g3 < 2 ^ 26" "unat g4 < 2 ^ 26"
    "limb_val [g0, g1, g2, g3, g4] + c * P1305 = limb_val [h0, h1, h2, h3, h4]"
proof -
  define x1 where "x1 = h1 + drop_bit 26 h0"
  define x2 where "x2 = h2 + drop_bit 26 x1"
  define x3 where "x3 = h3 + drop_bit 26 x2"
  define x4 where "x4 = h4 + drop_bit 26 x3"
  have n1: "unat x1 = unat h1 + unat h0 div 67108864"
    unfolding x1_def by (subst unat_plus_small) (use assms in \<open>simp_all add: unat_drop_bit\<close>)
  have b1: "unat x1 \<le> 134217756" using n1 assms by linarith
  have n2: "unat x2 = unat h2 + unat x1 div 67108864"
    unfolding x2_def by (subst unat_plus_small) (use assms b1 in \<open>simp_all add: unat_drop_bit\<close>)
  have b2: "unat x2 \<le> 134217730" using n2 b1 assms by linarith
  have n3: "unat x3 = unat h3 + unat x2 div 67108864"
    unfolding x3_def by (subst unat_plus_small) (use assms b2 in \<open>simp_all add: unat_drop_bit\<close>)
  have b3: "unat x3 \<le> 134217730" using n3 b2 assms by linarith
  have n4: "unat x4 = unat h4 + unat x3 div 67108864"
    unfolding x4_def by (subst unat_plus_small) (use assms b3 in \<open>simp_all add: unat_drop_bit\<close>)
  let ?c = "unat x4 div 67108864"
  have c: "?c \<le> 2" using assms b3 n4 by linarith
  have n5: "unat (5 * drop_bit 26 x4) = 5 * ?c"
    by (subst unat_times_small) (use c in \<open>simp_all add: unat_drop_bit\<close>)
  have n0: "unat ((h0 AND 0x3FFFFFF) + 5 * drop_bit 26 x4) = unat h0 mod 67108864 + 5 * ?c"
    by (subst unat_plus_small) (use c in \<open>simp_all add: n5 unat_and_26\<close>)
  show thesis
  proof (rule that)
    show "carry26 [h0, h1, h2, h3, h4] =
        [(h0 AND 0x3FFFFFF) + 5 * drop_bit 26 x4, x1 AND 0x3FFFFFF, x2 AND 0x3FFFFFF,
         x3 AND 0x3FFFFFF, x4 AND 0x3FFFFFF]"
      by (simp add: carry26_def Let_def x1_def x2_def x3_def x4_def)
    show "limb_val [(h0 AND 0x3FFFFFF) + 5 * drop_bit 26 x4, x1 AND 0x3FFFFFF, x2 AND 0x3FFFFFF,
         x3 AND 0x3FFFFFF, x4 AND 0x3FFFFFF] + ?c * P1305 = limb_val [h0, h1, h2, h3, h4]"
      using carry_identity [OF n1 n2 n3 n4] by (simp add: n0 unat_and_26 P1305_def)
  qed (use c n0 in \<open>simp_all add: unat_and_26\<close>)
qed

subsection \<open>The product\<close>

text \<open>Digits 0 to 4 of the folded product, as numbers.\<close>

definition D0 :: "nat \<Rightarrow> nat \<Rightarrow> nat \<Rightarrow> nat \<Rightarrow> nat \<Rightarrow> nat \<Rightarrow> nat \<Rightarrow> nat \<Rightarrow> nat \<Rightarrow> nat \<Rightarrow> nat" where
  "D0 h0 h1 h2 h3 h4 r0 r1 r2 r3 r4 = h0 * r0 + 5 * (h1 * r4 + h2 * r3 + h3 * r2 + h4 * r1)"

definition D1 :: "nat \<Rightarrow> nat \<Rightarrow> nat \<Rightarrow> nat \<Rightarrow> nat \<Rightarrow> nat \<Rightarrow> nat \<Rightarrow> nat \<Rightarrow> nat \<Rightarrow> nat \<Rightarrow> nat" where
  "D1 h0 h1 h2 h3 h4 r0 r1 r2 r3 r4 = h0 * r1 + h1 * r0 + 5 * (h2 * r4 + h3 * r3 + h4 * r2)"

definition D2 :: "nat \<Rightarrow> nat \<Rightarrow> nat \<Rightarrow> nat \<Rightarrow> nat \<Rightarrow> nat \<Rightarrow> nat \<Rightarrow> nat \<Rightarrow> nat \<Rightarrow> nat \<Rightarrow> nat" where
  "D2 h0 h1 h2 h3 h4 r0 r1 r2 r3 r4 = h0 * r2 + h1 * r1 + h2 * r0 + 5 * (h3 * r4 + h4 * r3)"

definition D3 :: "nat \<Rightarrow> nat \<Rightarrow> nat \<Rightarrow> nat \<Rightarrow> nat \<Rightarrow> nat \<Rightarrow> nat \<Rightarrow> nat \<Rightarrow> nat \<Rightarrow> nat \<Rightarrow> nat" where
  "D3 h0 h1 h2 h3 h4 r0 r1 r2 r3 r4 = h0 * r3 + h1 * r2 + h2 * r1 + h3 * r0 + 5 * (h4 * r4)"

definition D4 :: "nat \<Rightarrow> nat \<Rightarrow> nat \<Rightarrow> nat \<Rightarrow> nat \<Rightarrow> nat \<Rightarrow> nat \<Rightarrow> nat \<Rightarrow> nat \<Rightarrow> nat \<Rightarrow> nat" where
  "D4 h0 h1 h2 h3 h4 r0 r1 r2 r3 r4 = h0 * r4 + h1 * r3 + h2 * r2 + h3 * r1 + h4 * r0"

lemmas digit_defs = D0_def D1_def D2_def D3_def D4_def

lemma digits_product:
  fixes B :: nat
  assumes "B * B * B * B * B = P + 5"
  shows "D0 h0 h1 h2 h3 h4 r0 r1 r2 r3 r4 + B * (D1 h0 h1 h2 h3 h4 r0 r1 r2 r3 r4 +
      B * (D2 h0 h1 h2 h3 h4 r0 r1 r2 r3 r4 + B * (D3 h0 h1 h2 h3 h4 r0 r1 r2 r3 r4 +
      B * D4 h0 h1 h2 h3 h4 r0 r1 r2 r3 r4))) +
      P * ((h1 * r4 + h2 * r3 + h3 * r2 + h4 * r1) + B * ((h2 * r4 + h3 * r3 + h4 * r2) +
        B * ((h3 * r4 + h4 * r3) + B * (h4 * r4)))) =
    (h0 + B * (h1 + B * (h2 + B * (h3 + B * h4)))) * (r0 + B * (r1 + B * (r2 + B * (r3 + B * r4))))"
proof -
  let ?T = "(h1 * r4 + h2 * r3 + h3 * r2 + h4 * r1) + B * ((h2 * r4 + h3 * r3 + h4 * r2) +
        B * ((h3 * r4 + h4 * r3) + B * (h4 * r4)))"
  have "(h0 + B * (h1 + B * (h2 + B * (h3 + B * h4)))) * (r0 + B * (r1 + B * (r2 + B * (r3 + B * r4)))) =
      h0 * r0 + B * (h0 * r1 + h1 * r0 + B * (h0 * r2 + h1 * r1 + h2 * r0 +
      B * (h0 * r3 + h1 * r2 + h2 * r1 + h3 * r0 +
      B * (h0 * r4 + h1 * r3 + h2 * r2 + h3 * r1 + h4 * r0)))) + (B * B * B * B * B) * ?T"
    by (simp add: algebra_simps)
  also have "(B * B * B * B * B) * ?T = P * ?T + 5 * ?T" by (simp only: assms) (simp add: algebra_simps)
  finally show ?thesis by (simp add: digit_defs algebra_simps)
qed

lemma mul26_list:
  fixes h0 h1 h2 h3 h4 r0 r1 r2 r3 r4 :: u32
  defines "u \<equiv> ucast :: u32 \<Rightarrow> u64"
  shows "mul26 [h0, h1, h2, h3, h4] [r0, r1, r2, r3, r4] =
    [u h0 * u r0, u h0 * u r1 + u h1 * u r0, u h0 * u r2 + u h1 * u r1 + u h2 * u r0,
     u h0 * u r3 + u h1 * u r2 + u h2 * u r1 + u h3 * u r0,
     u h0 * u r4 + u h1 * u r3 + u h2 * u r2 + u h3 * u r1 + u h4 * u r0,
     u h1 * u r4 + u h2 * u r3 + u h3 * u r2 + u h4 * u r1, u h2 * u r4 + u h3 * u r3 + u h4 * u r2,
     u h3 * u r4 + u h4 * u r3, u h4 * u r4, 0]"
proof -
  have "[0..<5] = [0, 1, 2, 3, 4]" by (simp add: upt_rec)
  then show ?thesis
    unfolding mul26_def u_def by (simp add: list_update_numeral replicate_numeral)
qed

lemma fold26_list:
  "fold26 [d0, d1, d2, d3, d4, d5, d6, d7, d8, d9] =
    [d0 + 5 * d5, d1 + 5 * d6, d2 + 5 * d7, d3 + 5 * d8, d4 + 5 * d9, d5, d6, d7, d8, d9]"
proof -
  have "[5..<10] = [5, 6, 7, 8, 9]" by (simp add: upt_rec)
  then show ?thesis
    unfolding fold26_def by (simp add: list_update_numeral)
qed

lemma take5: "take 5 (a # b # c # d # e # xs) = [a, b, c, d, e]"
  by (simp add: eval_nat_numeral)

lemma mul26_digits:
  "take 5 (fold26 (mul26 [h0, h1, h2, h3, h4] [r0, r1, r2, r3, r4])) =
    map (\<lambda>D. of_nat (D (unat h0) (unat h1) (unat h2) (unat h3) (unat h4)
      (unat r0) (unat r1) (unat r2) (unat r3) (unat r4)))
     [D0, D1, D2, D3, D4]"
proof -
  have u: "of_nat (unat x) = (ucast x :: u64)" for x :: u32
    by (rule ucast_of_nat [symmetric])
  show ?thesis
    unfolding mul26_list fold26_list digit_defs of_nat_add of_nat_mult of_nat_numeral u list.map
    by (simp only: take5 mult_zero_right add_0_right)
qed

text \<open>The carry pass after the product: every digit fits, every carry fits 32 bits.\<close>

lemma carry64_val:
  fixes d :: "u64 list"
  assumes "take 5 d = map of_nat [d0, d1, d2, d3, d4]"
    and "d0 \<le> 2 ^ 57" "d1 \<le> 2 ^ 57" "d2 \<le> 2 ^ 57" "d3 \<le> 2 ^ 57" "d4 \<le> 22518000821206995"
  obtains g0 g1 g2 g3 g4 c where "carry64 d = [g0, g1, g2, g3, g4]"
    "unat g0 \<le> 1811939328"
    "unat g1 < 2 ^ 26" "unat g2 < 2 ^ 26" "unat g3 < 2 ^ 26" "unat g4 < 2 ^ 26"
    "limb_val [g0, g1, g2, g3, g4] + c * P1305 =
      d0 + 2 ^ 26 * (d1 + 2 ^ 26 * (d2 + 2 ^ 26 * (d3 + 2 ^ 26 * d4)))"
proof -
  have nth: "d ! k = map of_nat [d0, d1, d2, d3, d4] ! k" if "k < 5" for k
    using that by (metis assms(1) nth_take)
  define x1 where "x1 = d1 + d0 div 67108864"
  define x2 where "x2 = d2 + x1 div 67108864"
  define x3 where "x3 = d3 + x2 div 67108864"
  define x4 where "x4 = d4 + x3 div 67108864"
  have b0: "d0 \<le> 146366987889541120" using assms(2) by simp
  have b1: "x1 \<le> 146366987889541120" using assms(2,3) by (simp add: x1_def)
  have b2: "x2 \<le> 146366987889541120" using assms(4) b1 by (simp add: x2_def)
  have b3: "x3 \<le> 146366987889541120" using assms(5) b2 by (simp add: x3_def)
  have b4: "x4 \<le> 22518000821206995 + 2181038080" using assms(6) b3 by (simp add: x4_def)
  have cu: "ucast (ucast (drop_bit 26 (of_nat x :: u64)) :: u32) = (of_nat (x div 67108864) :: u64)"
    "ucast (drop_bit 26 (of_nat x :: u64)) = (of_nat (x div 67108864) :: u32)"
    "ucast (of_nat x AND 0x3FFFFFF :: u64) = (of_nat (x mod 67108864) :: u32)"
    if "x \<le> 146366987889541120" for x
    using that
    by (simp_all add: ucast_of_nat unat_and_26 unat_drop_bit unat_of_nat)
  have c: "carry64 d = [of_nat (d0 mod 67108864 + 5 * (x4 div 67108864)), of_nat (x1 mod 67108864),
      of_nat (x2 mod 67108864), of_nat (x3 mod 67108864), of_nat (x4 mod 67108864)]"
  proof -
    have d: "d ! 0 = of_nat d0" "d ! 1 = of_nat d1" "d ! 2 = of_nat d2" "d ! 3 = of_nat d3"
      "d ! 4 = of_nat d4" by (simp_all add: nth)
    have d1': "d ! 1 + ucast (ucast (drop_bit 26 (d ! 0)) :: u32) = of_nat x1"
      by (simp only: d cu(1) [OF b0]) (simp add: x1_def)
    have d2': "d ! 2 + ucast (ucast (drop_bit 26 (of_nat x1 :: u64)) :: u32) = of_nat x2"
      by (simp only: d cu(1) [OF b1]) (simp add: x2_def)
    have d3': "d ! 3 + ucast (ucast (drop_bit 26 (of_nat x2 :: u64)) :: u32) = of_nat x3"
      by (simp only: d cu(1) [OF b2]) (simp add: x3_def)
    have d4': "d ! 4 + ucast (ucast (drop_bit 26 (of_nat x3 :: u64)) :: u32) = of_nat x4"
      by (simp only: d cu(1) [OF b3]) (simp add: x4_def)
    show ?thesis
      unfolding carry64_def Let_def d1' d2' d3' d4'
      using b4 by (simp add: d(1) cu(2,3) b0 b1 b2 b3)
  qed
  have q: "x4 div 67108864 \<le> 335544430" using b4 by linarith
  show thesis
  proof (rule that [OF c])
    show "limb_val [of_nat (d0 mod 67108864 + 5 * (x4 div 67108864)), of_nat (x1 mod 67108864),
        of_nat (x2 mod 67108864), of_nat (x3 mod 67108864), of_nat (x4 mod 67108864)] +
        (x4 div 67108864) * P1305 =
      d0 + 2 ^ 26 * (d1 + 2 ^ 26 * (d2 + 2 ^ 26 * (d3 + 2 ^ 26 * d4)))"
      using carry_identity [OF x1_def x2_def x3_def x4_def] q
      by (simp only: limb_val.simps unat_of_nat) (simp add: P1305_def)
  qed (use q in \<open>simp_all only: unat_of_nat, simp_all\<close>)
qed

subsection \<open>The limbs of a block\<close>

lemma unat_ld_le32: "i + 4 \<le> length b \<Longrightarrow> unat (ld_le32 b i) = le_val (take 4 (drop i b))"
proof -
  assume "i + 4 \<le> length b"
  then have "take 4 (drop i b) = [b ! i, b ! (i + 1), b ! (i + 2), b ! (i + 3)]"
    by (intro nth_equalityI) (auto simp: nth_Cons' less_Suc_eq eval_nat_numeral)
  then show ?thesis by (simp add: ld_le32_def unat_le32)
qed

lemma le_val_split: "n \<le> length b \<Longrightarrow> le_val b = le_val (take n b) + 256 ^ n * le_val (drop n b)"
  using le_val_append [of "take n b" "drop n b"] by simp

lemma ld_le32_val:
  assumes "length b = 16"
  shows "unat (ld_le32 b 0) + 2 ^ 32 * (unat (ld_le32 b 4) + 2 ^ 32 * (unat (ld_le32 b 8) +
    2 ^ 32 * unat (ld_le32 b 12))) = le_val b"
  using assms le_val_split [of 4 b] le_val_split [of 4 "drop 4 b"] le_val_split [of 4 "drop 8 b"]
  by (simp add: unat_ld_le32)

lemma list5: "length xs = 5 \<Longrightarrow> \<exists>a b c d e. xs = [a, b, c, d, e]"
  by (auto simp: eval_nat_numeral length_Suc_conv)

definition limbs_ok :: "u32 list \<Rightarrow> bool" where
  "limbs_ok h \<longleftrightarrow> length h = 5 \<and> unat (h ! 0) \<le> 1811939328 \<and> (\<forall>i \<in> {1..<5}. unat (h ! i) < 2 ^ 26)"

definition r_ok :: "u32 list \<Rightarrow> bool" where
  "r_ok r \<longleftrightarrow> length r = 5 \<and> (\<forall>x \<in> set r. unat x < 2 ^ 26)"

lemma limbs_ok_list:
  "limbs_ok [h0, h1, h2, h3, h4] \<longleftrightarrow> unat h0 \<le> 1811939328 \<and> unat h1 < 2 ^ 26 \<and> unat h2 < 2 ^ 26 \<and>
     unat h3 < 2 ^ 26 \<and> unat h4 < 2 ^ 26"
proof -
  have "{1..<5} = {1, 2, 3, 4::nat}" by auto
  then show ?thesis by (simp add: limbs_ok_def)
qed

text \<open>The limbs \<open>n\<close> that \<open>poly1305_block\<close> adds.\<close>

definition block_limbs :: "bytes \<Rightarrow> bool \<Rightarrow> u32 list" where
  "block_limbs block final =
     (let n = pack26 (ld_le32 block 0) (ld_le32 block 4) (ld_le32 block 8) (ld_le32 block 12)
      in if final then n else n[4 := n ! 4 OR 0x1000000])"

lemma block_limbs_val:
  assumes "length b = 16"
  obtains n0 n1 n2 n3 n4 where "block_limbs b final = [n0, n1, n2, n3, n4]"
    "\<forall>x \<in> {n0, n1, n2, n3, n4}. unat x < 2 ^ 26"
    "limb_val [n0, n1, n2, n3, n4] = le_val b + (if final then 0 else 2 ^ 128)"
proof -
  let ?b = "\<lambda>i. ld_le32 b i"
  obtain n0 n1 n2 n3 n4 where n: "pack26 (?b 0) (?b 4) (?b 8) (?b 12) = [n0, n1, n2, n3, n4]"
    by (simp add: pack26_def)
  have u: "unat n0 = unat (?b 0) mod 2 ^ 26" "unat n1 = unat (?b 0) div 2 ^ 26 + 2 ^ 6 * (unat (?b 4) mod 2 ^ 20)"
    "unat n2 = unat (?b 4) div 2 ^ 20 + 2 ^ 12 * (unat (?b 8) mod 2 ^ 14)"
    "unat n3 = unat (?b 8) div 2 ^ 14 + 2 ^ 18 * (unat (?b 12) mod 2 ^ 8)"
    "unat n4 = unat (?b 12) div 2 ^ 8"
    using pack26_limbs [of "?b 0" "?b 4" "?b 8" "?b 12"] by (simp_all add: n)
  have lt: "unat n0 < 67108864" "unat n1 < 67108864" "unat n2 < 67108864" "unat n3 < 67108864" "unat n4 < 16777216"
    using u unat_u32 [of "?b 0"] unat_u32 [of "?b 4"] unat_u32 [of "?b 8"] unat_u32 [of "?b 12"]
    by (simp_all, linarith+)
  have val: "limb_val [n0, n1, n2, n3, n4] = le_val b"
    using pack26_val [of "?b 0" "?b 4" "?b 8" "?b 12"] ld_le32_val [OF assms] by (simp add: n)
  have "(0x1000000::u32) = push_bit 24 1" by simp
  then have or: "unat (n4 OR 0x1000000) = unat n4 + 16777216"
    using lt(5) unat_or_push_bit [of n4 24 1] by simp
  show thesis
  proof (cases final)
    case True
    show thesis by (rule that [of n0 n1 n2 n3 n4]) (use True lt val in \<open>simp_all add: block_limbs_def n\<close>)
  next
    case False
    show thesis
      by (rule that [of n0 n1 n2 n3 "n4 OR 0x1000000"])
        (use False lt val or in \<open>simp_all add: block_limbs_def n list_update_numeral\<close>)
  qed
qed
end
