(* ===== verification/Poly1305_Correct.thy ===== *)
theory Poly1305_Correct
  imports Poly1305
begin

text \<open>
  Correctness of the Poly1305 code: one block is one step of the polynomial modulo 2^130 - 5,
  the streaming update refines the block machine, and the tag of a message.
\<close>

unbundle bit_operations_syntax

subsection \<open>One block\<close>

lemma block_bounds:
  fixes h0 h1 h2 h3 h4 r0 r1 r2 r3 r4 :: nat
  assumes "h0 \<le> 67108873" "h1 < 67108864" "h2 < 67108864" "h3 < 67108864" "h4 < 67108864"
    and "r0 < 67108864" "r1 < 67108864" "r2 < 67108864" "r3 < 67108864" "r4 < 67108864"
  shows "D0 h0 h1 h2 h3 h4 r0 r1 r2 r3 r4 \<le> 2 ^ 57" "D1 h0 h1 h2 h3 h4 r0 r1 r2 r3 r4 \<le> 2 ^ 57"
    "D2 h0 h1 h2 h3 h4 r0 r1 r2 r3 r4 \<le> 2 ^ 57" "D3 h0 h1 h2 h3 h4 r0 r1 r2 r3 r4 \<le> 2 ^ 57"
    "D4 h0 h1 h2 h3 h4 r0 r1 r2 r3 r4 \<le> 22518000821206995"
proof -
  have m: "h * r \<le> 67108873 * 67108863" if "h \<le> 67108873" "r < 67108864" for h r :: nat
    using that by (intro mult_le_mono) simp_all
  note b = m [OF assms(1)] m [of h1] m [of h2] m [of h3] m [of h4]
  note bb = b(1) [OF assms(6)] b(1) [OF assms(7)] b(1) [OF assms(8)] b(1) [OF assms(9)] b(1) [OF assms(10)]
    b(2) [OF _ assms(6)] b(2) [OF _ assms(7)] b(2) [OF _ assms(8)] b(2) [OF _ assms(9)] b(2) [OF _ assms(10)]
    b(3) [OF _ assms(6)] b(3) [OF _ assms(7)] b(3) [OF _ assms(8)] b(3) [OF _ assms(9)] b(3) [OF _ assms(10)]
    b(4) [OF _ assms(6)] b(4) [OF _ assms(7)] b(4) [OF _ assms(8)] b(4) [OF _ assms(9)] b(4) [OF _ assms(10)]
    b(5) [OF _ assms(6)] b(5) [OF _ assms(7)] b(5) [OF _ assms(8)] b(5) [OF _ assms(9)] b(5) [OF _ assms(10)]
  show "D0 h0 h1 h2 h3 h4 r0 r1 r2 r3 r4 \<le> 2 ^ 57" "D1 h0 h1 h2 h3 h4 r0 r1 r2 r3 r4 \<le> 2 ^ 57"
    "D2 h0 h1 h2 h3 h4 r0 r1 r2 r3 r4 \<le> 2 ^ 57" "D3 h0 h1 h2 h3 h4 r0 r1 r2 r3 r4 \<le> 2 ^ 57"
    "D4 h0 h1 h2 h3 h4 r0 r1 r2 r3 r4 \<le> 22518000821206995"
    using assms bb by (simp_all add: digit_defs)
qed

lemma poly1305_block_h:
  "poly1305_block ctx b final =
     ctx\<lparr>p_h := carry64 (fold26 (mul26 (carry26 (map2 (+) (p_h ctx) (block_limbs b final))) (p_r ctx)))\<rparr>"
  by (simp add: poly1305_block_def block_limbs_def Let_def)

lemma poly1305_block_val:
  assumes "limbs_ok (p_h ctx)" "r_ok (p_r ctx)" "length b = 16"
  shows "limbs_ok (p_h (poly1305_block ctx b final)) \<and>
    limb_val (p_h (poly1305_block ctx b final)) mod P1305 =
      (limb_val (p_h ctx) + le_val b + (if final then 0 else 2 ^ 128)) * limb_val (p_r ctx) mod P1305"
proof -
  obtain h0 h1 h2 h3 h4 where h: "p_h ctx = [h0, h1, h2, h3, h4]"
    using list5 assms(1) by (metis limbs_ok_def)
  obtain r0 r1 r2 r3 r4 where r: "p_r ctx = [r0, r1, r2, r3, r4]"
    using list5 assms(2) by (metis r_ok_def)
  obtain n0 n1 n2 n3 n4 where n: "block_limbs b final = [n0, n1, n2, n3, n4]"
    "\<forall>x \<in> {n0, n1, n2, n3, n4}. unat x < 2 ^ 26"
    "limb_val [n0, n1, n2, n3, n4] = le_val b + (if final then 0 else 2 ^ 128)"
    by (rule block_limbs_val [OF assms(3)])
  have hb: "unat h0 \<le> 1811939328" "unat h1 < 67108864" "unat h2 < 67108864" "unat h3 < 67108864"
    "unat h4 < 67108864"
    using assms(1) by (simp_all add: h limbs_ok_list)
  have rb: "unat r0 < 67108864" "unat r1 < 67108864" "unat r2 < 67108864" "unat r3 < 67108864"
    "unat r4 < 67108864"
    using assms(2) by (simp_all add: r r_ok_def)
  have nb: "unat n0 < 67108864" "unat n1 < 67108864" "unat n2 < 67108864" "unat n3 < 67108864"
    "unat n4 < 67108864"
    using n(2) by simp_all
  have s: "unat (h0 + n0) = unat h0 + unat n0" "unat (h1 + n1) = unat h1 + unat n1"
    "unat (h2 + n2) = unat h2 + unat n2" "unat (h3 + n3) = unat h3 + unat n3"
    "unat (h4 + n4) = unat h4 + unat n4"
    using hb nb by (simp_all add: unat_plus_small)
  obtain g0 g1 g2 g3 g4 c where g:
    "carry26 [h0 + n0, h1 + n1, h2 + n2, h3 + n3, h4 + n4] = [g0, g1, g2, g3, g4]"
    "c \<le> 2" "unat g0 = unat (h0 + n0) mod 2 ^ 26 + 5 * c"
    "unat g1 < 2 ^ 26" "unat g2 < 2 ^ 26" "unat g3 < 2 ^ 26" "unat g4 < 2 ^ 26"
    "limb_val [g0, g1, g2, g3, g4] + c * P1305 =
      limb_val [h0 + n0, h1 + n1, h2 + n2, h3 + n3, h4 + n4]"
    by (rule carry26_val [of "h0 + n0" "h1 + n1" "h2 + n2" "h3 + n3" "h4 + n4"])
      (use hb nb s in simp_all)
  have gb: "unat g0 \<le> 67108873" "unat g1 < 67108864" "unat g2 < 67108864" "unat g3 < 67108864"
    "unat g4 < 67108864"
    using g(2-7) by simp_all
  have sum: "limb_val [h0 + n0, h1 + n1, h2 + n2, h3 + n3, h4 + n4] =
      limb_val (p_h ctx) + le_val b + (if final then 0 else 2 ^ 128)"
    using n(3) s by (simp add: h)
  note bounds = block_bounds [OF gb rb]
  let ?D = "\<lambda>D. D (unat g0) (unat g1) (unat g2) (unat g3) (unat g4)
    (unat r0) (unat r1) (unat r2) (unat r3) (unat r4) :: nat"
  have "take 5 (fold26 (mul26 [g0, g1, g2, g3, g4] [r0, r1, r2, r3, r4])) =
      map of_nat [?D D0, ?D D1, ?D D2, ?D D3, ?D D4]"
    by (simp only: mul26_digits list.map)
  then obtain e0 e1 e2 e3 e4 q where e:
    "carry64 (fold26 (mul26 [g0, g1, g2, g3, g4] [r0, r1, r2, r3, r4])) = [e0, e1, e2, e3, e4]"
    "unat e0 \<le> 1811939328"
    "unat e1 < 2 ^ 26" "unat e2 < 2 ^ 26" "unat e3 < 2 ^ 26" "unat e4 < 2 ^ 26"
    "limb_val [e0, e1, e2, e3, e4] + q * P1305 =
      ?D D0 + 2 ^ 26 * (?D D1 + 2 ^ 26 * (?D D2 + 2 ^ 26 * (?D D3 + 2 ^ 26 * ?D D4)))"
    by (rule carry64_val [OF _ bounds])
  have "(2::nat) ^ 26 * 2 ^ 26 * 2 ^ 26 * 2 ^ 26 * 2 ^ 26 = P1305 + 5"
    by (simp add: P1305_def)
  note prod = digits_product [OF this, of "unat g0" "unat g1" "unat g2" "unat g3" "unat g4"
      "unat r0" "unat r1" "unat r2" "unat r3" "unat r4"]
  have lv: "limb_val [x0, x1, x2, x3, x4] = unat x0 + 2 ^ 26 * (unat x1 + 2 ^ 26 * (unat x2 +
      2 ^ 26 * (unat x3 + 2 ^ 26 * unat x4)))" for x0 x1 x2 x3 x4
    by (simp only: limb_val.simps mult_zero_right add_0_right)
  have tele: "\<exists>t. E + t * P = Z" if "E + q * P = X" "X + P * T = Z" for E X Z T P :: nat
    using that by (intro exI [of _ "q + T"]) (simp add: algebra_simps)
  obtain t where "limb_val [e0, e1, e2, e3, e4] + t * P1305 =
      limb_val [g0, g1, g2, g3, g4] * limb_val [r0, r1, r2, r3, r4]"
    using tele [OF e(7) prod] unfolding lv [of g0] lv [of r0] by blast
  then have "limb_val [e0, e1, e2, e3, e4] mod P1305 =
      limb_val [g0, g1, g2, g3, g4] * limb_val [r0, r1, r2, r3, r4] mod P1305"
    by (metis mod_mult_self1)
  also have "\<dots> = (limb_val [g0, g1, g2, g3, g4] + c * P1305) * limb_val [r0, r1, r2, r3, r4] mod P1305"
    by (metis mod_mult_left_eq mod_mult_self1)
  also have "\<dots> = (limb_val (p_h ctx) + le_val b + (if final then 0 else 2 ^ 128)) * limb_val (p_r ctx) mod P1305"
    by (simp only: g(8) sum r)
  finally have val: "limb_val [e0, e1, e2, e3, e4] mod P1305 =
    (limb_val (p_h ctx) + le_val b + (if final then 0 else 2 ^ 128)) * limb_val (p_r ctx) mod P1305" .
  have "p_h (poly1305_block ctx b final) = [e0, e1, e2, e3, e4]"
    by (simp add: poly1305_block_h h r n(1) g(1) e(1))
  with val e(2-6) show ?thesis by (simp only: limbs_ok_list)
qed

subsection \<open>The update refines the block machine\<close>

type_synonym poly_core = "u32 list \<times> u32 list \<times> bytes"

definition poly_cmpr :: "poly_core \<Rightarrow> bytes \<Rightarrow> poly_core" where
  "poly_cmpr k b = (case k of (h, r, s) \<Rightarrow>
     (carry64 (fold26 (mul26 (carry26 (map2 (+) h (block_limbs b False))) r)), r, s))"

definition poly_core :: "poly1305_stream \<Rightarrow> poly_core" where
  "poly_core st = (p_h st, p_r st, p_s st)"

definition poly_view :: "poly1305_stream \<Rightarrow> bytes \<times> poly_core" where
  "poly_view st = (take (p_n st) (p_buf st), poly_core st)"

definition poly_wf :: "poly1305_stream \<Rightarrow> bool" where
  "poly_wf st \<longleftrightarrow> length (p_buf st) = 16 \<and> p_n st < 16 \<and> limbs_ok (p_h st) \<and> r_ok (p_r st)"

lemma poly1305_block_core: "poly_core (poly1305_block st b False) = poly_cmpr (poly_core st) b"
  by (simp add: poly_core_def poly_cmpr_def poly1305_block_h)

lemma poly1305_block_frame [simp]:
  "p_r (poly1305_block st b f) = p_r st" "p_s (poly1305_block st b f) = p_s st"
  "p_buf (poly1305_block st b f) = p_buf st" "p_n (poly1305_block st b f) = p_n st"
  by (simp_all add: poly1305_block_h)

lemma poly1305_block_wf: "poly_wf st \<Longrightarrow> length b = 16 \<Longrightarrow> limbs_ok (p_h (poly1305_block st b f))"
  using poly1305_block_val [of st b f] by (simp add: poly_wf_def)

lemma poly1305_blocks_props:
  assumes "poly_wf st" "\<forall>b \<in> set bs. length b = 16"
  shows "poly_wf (poly1305_blocks st bs) \<and> p_buf (poly1305_blocks st bs) = p_buf st \<and>
    p_n (poly1305_blocks st bs) = p_n st \<and>
    poly_core (poly1305_blocks st bs) = foldl poly_cmpr (poly_core st) bs"
  using assms
proof (induction bs arbitrary: st)
  case (Cons b bs)
  then have "poly_wf (poly1305_block st b False)"
    using poly1305_block_wf [of st b False] by (simp add: poly_wf_def)
  with Cons show ?case by (simp add: poly1305_block_core)
qed simp

text \<open>The second half of the update, from an empty buffer.\<close>

lemma poly1305_update_aligned:
  assumes "poly_wf st" "p_n st = 0"
  shows "poly_wf (poly1305_stream_update st msg) \<and>
    poly_view (poly1305_stream_update st msg) = absorb 16 poly_cmpr ([], poly_core st) msg"
proof -
  let ?st = "poly1305_blocks st (chunks 16 msg)"
  have "\<forall>b \<in> set (chunks 16 msg). length b = 16" by (blast dest: chunks_length)
  from poly1305_blocks_props [OF assms(1) this]
  have p: "poly_wf ?st" "p_buf ?st = p_buf st" "p_n ?st = 0"
    "poly_core ?st = foldl poly_cmpr (poly_core st) (chunks 16 msg)"
    using assms(2) by simp_all
  have upd: "poly1305_stream_update st msg = (if leftover 16 msg \<noteq> []
      then ?st\<lparr>p_buf := blit (p_buf ?st) 0 (leftover 16 msg), p_n := length (leftover 16 msg)\<rparr> else ?st)"
    using assms(2) by (simp add: poly1305_stream_update_def Let_def)
  have "length (p_buf ?st) = 16" using p(1) by (simp add: poly_wf_def)
  then have "take (length (leftover 16 msg)) (blit (p_buf ?st) 0 (leftover 16 msg)) = leftover 16 msg"
    by (simp only: blit_0 take_append) simp
  then show ?thesis
    using p by (auto simp: upd poly_view_def poly_core_def poly_wf_def absorb_blocks)
qed

lemma poly1305_update_props:
  assumes "poly_wf st"
  shows "poly_wf (poly1305_stream_update st msg) \<and>
    poly_view (poly1305_stream_update st msg) = absorb 16 poly_cmpr (poly_view st) msg"
proof -
  let ?n = "p_n st" and ?p = "take (p_n st) (p_buf st)"
  have wf: "length (p_buf st) = 16" "?n < 16" using assms by (simp_all add: poly_wf_def)
  consider "?n = 0" | "0 < ?n" "?n + length msg < 16" | "0 < ?n" "16 \<le> ?n + length msg" by linarith
  then show ?thesis
  proof cases
    case 1
    with poly1305_update_aligned [OF assms] show ?thesis by (simp add: poly_view_def)
  next
    case 2
    then have "poly1305_stream_update st msg =
        st\<lparr>p_buf := blit (p_buf st) ?n msg, p_n := ?n + length msg\<rparr>"
      by (simp add: poly1305_stream_update_def Let_def)
    with 2 assms wf show ?thesis
      by (simp add: poly_wf_def poly_view_def poly_core_def take_blit absorb_short)
  next
    case 3
    let ?tk = "16 - ?n"
    define st1 where "st1 = st\<lparr>p_buf := blit (p_buf st) ?n (take ?tk msg), p_n := 16\<rparr>"
    define st2 where "st2 = (poly1305_block st1 (p_buf st1) False)\<lparr>p_n := 0\<rparr>"
    from 3 wf have len: "length (take ?tk msg) = ?tk" "take ?tk msg \<noteq> []" by auto
    with wf have buf: "p_buf st1 = ?p @ take ?tk msg" by (simp add: st1_def blit_fill)
    have upd: "poly1305_stream_update st msg = poly1305_stream_update st2 (drop ?tk msg)"
      using 3 wf by (auto simp: poly1305_stream_update_def Let_def st2_def st1_def)
    have "limbs_ok (p_h (poly1305_block (st1\<lparr>p_n := 0\<rparr>) (p_buf st1) False))"
      using assms wf len by (intro poly1305_block_wf) (auto simp: poly_wf_def st1_def)
    then have wf2: "poly_wf st2"
      using assms wf len by (simp add: poly_wf_def st2_def poly1305_block_h) (simp add: st1_def)
    have "poly_core st2 = poly_cmpr (poly_core st) (?p @ take ?tk msg)"
      using poly1305_block_core [of st1 "p_buf st1"]
      by (simp add: st2_def poly_core_def buf) (simp add: st1_def)
    moreover have "absorb 16 poly_cmpr (poly_view st) (take ?tk msg @ drop ?tk msg) =
        absorb 16 poly_cmpr ([], poly_cmpr (poly_core st) (?p @ take ?tk msg)) (drop ?tk msg)"
      using wf len by (simp only: absorb_append poly_view_def) (subst absorb_fill; simp)
    moreover have "p_n st2 = 0" by (simp add: st2_def)
    ultimately show ?thesis
      using poly1305_update_aligned [OF wf2, of "drop ?tk msg"] upd by simp
  qed
qed

interpretation poly: block_stream 16 poly_cmpr poly1305_stream_update poly_view poly_wf
  by unfold_locales (use poly1305_update_props in auto)

subsection \<open>The tag\<close>

lemma final_carry:
  assumes "limbs_ok h"
  obtains f0 f1 f2 f3 f4 where
    "(let g = carry26 h; c = drop_bit 26 (g ! 0); g = g[0 := g ! 0 AND 0x3FFFFFF]
      in g[1 := g ! 1 + c]) = [f0, f1, f2, f3, f4]"
    "unat f0 < 67108864" "unat f1 < 67108864" "unat f2 < 67108864" "unat f3 < 67108864"
    "unat f4 < 67108864" "limb_val [f0, f1, f2, f3, f4] mod P1305 = limb_val h mod P1305"
proof -
  obtain h0 h1 h2 h3 h4 where h: "h = [h0, h1, h2, h3, h4]"
    using list5 assms by (metis limbs_ok_def)
  have hb: "unat h0 \<le> 1811939328" "unat h1 < 67108864" "unat h2 < 67108864" "unat h3 < 67108864"
    "unat h4 < 67108864"
    using assms by (simp_all add: h limbs_ok_list)
  obtain g0 g1 g2 g3 g4 c where g: "carry26 [h0, h1, h2, h3, h4] = [g0, g1, g2, g3, g4]"
    "c \<le> 2" "unat g0 = unat h0 mod 2 ^ 26 + 5 * c"
    "unat g1 < 2 ^ 26" "unat g2 < 2 ^ 26" "unat g3 < 2 ^ 26" "unat g4 < 2 ^ 26"
    "limb_val [g0, g1, g2, g3, g4] + c * P1305 = limb_val [h0, h1, h2, h3, h4]"
    by (rule carry26_val [of h0 h1 h2 h3 h4]) (use hb in simp_all)
  have small: "unat g1 \<le> 32" if "c \<noteq> 0"
  proof -
    have "P1305 \<le> c * P1305" using that by simp
    then have "limb_val [g0, g1, g2, g3, g4] + P1305 \<le> limb_val [h0, h1, h2, h3, h4]"
      using g(8) by linarith
    then show ?thesis using hb by (simp add: P1305_def)
  qed
  have c1: "unat (drop_bit 26 g0) \<le> 1" "c = 0 \<Longrightarrow> unat (drop_bit 26 g0) = 0"
    using g(2,3) by (simp_all add: unat_drop_bit)
  have f1: "unat (g1 + drop_bit 26 g0) = unat g1 + unat (drop_bit 26 g0)"
    by (rule unat_plus_small) (use g(4) c1(1) in simp)
  have f1b: "unat (g1 + drop_bit 26 g0) < 67108864"
    using f1 c1 small g(4) by (cases "c = 0") auto
  show thesis
  proof (rule that)
    show "(let g = carry26 h; c = drop_bit 26 (g ! 0); g = g[0 := g ! 0 AND 0x3FFFFFF]
      in g[1 := g ! 1 + c]) = [g0 AND 0x3FFFFFF, g1 + drop_bit 26 g0, g2, g3, g4]"
      by (simp add: h g(1))
    have "limb_val [g0 AND 0x3FFFFFF, g1 + drop_bit 26 g0, g2, g3, g4] = limb_val [g0, g1, g2, g3, g4]"
      using f1 by (simp add: unat_and_26 unat_drop_bit)
    then show "limb_val [g0 AND 0x3FFFFFF, g1 + drop_bit 26 g0, g2, g3, g4] mod P1305 =
        limb_val h mod P1305"
      using g(8) h by (metis mod_mult_self1)
  qed (use f1b g in \<open>simp_all add: unat_and_26\<close>)
qed

lemma unat_plus_push:
  fixes a b :: u32
  assumes "unat a < 2 ^ k" "unat b < 2 ^ (32 - k)" "k \<le> 32"
  shows "unat (a + push_bit k b) = unat a + 2 ^ k * unat b"
proof -
  have "2 ^ k * (unat b + 1) \<le> (2::nat) ^ k * 2 ^ (32 - k)"
    using assms(2) by (intro mult_left_mono) auto
  also have "\<dots> = 2 ^ 32" using assms(3) by (simp flip: power_add)
  finally have b: "2 ^ k * unat b + 2 ^ k \<le> 2 ^ 32" by simp
  then have "unat (push_bit k b) = 2 ^ k * unat b"
    using assms(1) by (simp only: unat_push_bit) (simp add: mult.commute)
  with b assms(1) show ?thesis by (subst unat_plus_small) simp_all
qed

text \<open>Packing the limbs into four words drops nothing below 2^128.\<close>

lemma pack32_val:
  fixes f0 f1 f2 f3 f4 :: u32
  assumes "unat f0 < 67108864" "unat f1 < 67108864" "unat f2 < 67108864" "unat f3 < 67108864"
    "unat f4 < 67108864"
  shows "unat (f0 + push_bit 26 (f1 AND 0x3F)) + 4294967296 *
      (unat (drop_bit 6 f1 + push_bit 20 (f2 AND 0xFFF)) + 4294967296 *
      (unat (drop_bit 12 f2 + push_bit 14 (f3 AND 0x3FFFF)) + 4294967296 *
       unat (drop_bit 18 f3 + push_bit 8 (f4 AND 0xFFFFFF)))) =
    limb_val [f0, f1, f2, f3, f4] mod 2 ^ 128"
proof -
  have m: "unat (f1 AND 0x3F) = unat f1 mod 64" "unat (f2 AND 0xFFF) = unat f2 mod 4096"
    "unat (f3 AND 0x3FFFF) = unat f3 mod 262144" "unat (f4 AND 0xFFFFFF) = unat f4 mod 16777216"
    using unat_and_mask [of f1 6] unat_and_mask [of f2 12] unat_and_mask [of f3 18]
      unat_and_mask [of f4 24] by (simp_all add: mask_eq_exp_minus_1)
  have w: "unat (f0 + push_bit 26 (f1 AND 0x3F)) = unat f0 + 67108864 * (unat f1 mod 64)"
    "unat (drop_bit 6 f1 + push_bit 20 (f2 AND 0xFFF)) = unat f1 div 64 + 1048576 * (unat f2 mod 4096)"
    "unat (drop_bit 12 f2 + push_bit 14 (f3 AND 0x3FFFF)) = unat f2 div 4096 + 16384 * (unat f3 mod 262144)"
    "unat (drop_bit 18 f3 + push_bit 8 (f4 AND 0xFFFFFF)) = unat f3 div 262144 + 256 * (unat f4 mod 16777216)"
    using unat_plus_push [of f0 26 "f1 AND 0x3F"] unat_plus_push [of "drop_bit 6 f1" 20 "f2 AND 0xFFF"]
      unat_plus_push [of "drop_bit 12 f2" 14 "f3 AND 0x3FFFF"]
      unat_plus_push [of "drop_bit 18 f3" 8 "f4 AND 0xFFFFFF"] assms
    by (simp_all only: m unat_drop_bit) (simp_all add: less_mult_imp_div_less)
  define q1 q2 q3 q4 where q: "q1 = unat f1 div 64" "q2 = unat f2 div 4096" "q3 = unat f3 div 262144"
    "q4 = unat f4 div 16777216"
  define m1 m2 m3 m4 where mm: "m1 = unat f1 mod 64" "m2 = unat f2 mod 4096" "m3 = unat f3 mod 262144"
    "m4 = unat f4 mod 16777216"
  have e: "unat f1 = 64 * q1 + m1" "unat f2 = 4096 * q2 + m2" "unat f3 = 262144 * q3 + m3"
    "unat f4 = 16777216 * q4 + m4" by (simp_all add: q mm)
  let ?W = "unat f0 + 67108864 * m1 + 4294967296 * (q1 + 1048576 * m2 + 4294967296 *
    (q2 + 16384 * m3 + 4294967296 * (q3 + 256 * m4)))"
  have "limb_val [f0, f1, f2, f3, f4] = ?W + 2 ^ 128 * q4" by (simp add: e)
  moreover have "?W < 2 ^ 128"
  proof -
    have "m1 < 64" "m2 < 4096" "m3 < 262144" "m4 < 16777216" "q1 < 1048576" "q2 < 16384" "q3 < 256"
      using assms by (simp_all add: q mm less_mult_imp_div_less)
    with assms(1) show ?thesis by simp
  qed
  ultimately have "limb_val [f0, f1, f2, f3, f4] mod 2 ^ 128 = ?W"
    by (simp only: mod_mult_self2 mod_less)
  then show ?thesis by (simp only: w q mm)
qed

text \<open>The 128-bit addition of the second key half, 32 bits at a time.\<close>

lemma add128:
  fixes w0 w1 w2 w3 s0 s1 s2 s3 :: u32
  defines "t0 \<equiv> ucast w0 + ucast s0 :: u64"
  defines "t1 \<equiv> drop_bit 32 t0 + (ucast w1 + ucast s1)"
  defines "t2 \<equiv> drop_bit 32 t1 + (ucast w2 + ucast s2)"
  defines "t3 \<equiv> drop_bit 32 t2 + (ucast w3 + ucast s3)"
  shows "st_le32 (ucast t0) @ st_le32 (ucast t1) @ st_le32 (ucast t2) @ st_le32 (ucast t3) =
    le_bytes 16 ((unat w0 + 4294967296 * (unat w1 + 4294967296 * (unat w2 + 4294967296 * unat w3))) +
      (unat s0 + 4294967296 * (unat s1 + 4294967296 * (unat s2 + 4294967296 * unat s3))))"
    (is "?tag = le_bytes 16 ?v")
proof -
  have lt: "unat x < 4294967296" for x :: u32 by (rule unat_u32)
  have u: "unat (ucast x :: u64) = unat x" for x :: u32
    using lt [of x] by (simp add: unsigned_ucast_eq take_bit_eq_mod)
  have p: "unat (ucast x + ucast y :: u64) = unat x + unat y" for x y :: u32
    using lt [of x] lt [of y] by (subst unat_plus_small) (simp_all add: u)
  have n0: "unat t0 = unat w0 + unat s0" by (simp add: t0_def p)
  have step: "unat (drop_bit 32 t + (ucast x + ucast y)) = unat t div 4294967296 + (unat x + unat y)"
    if "unat t < 8589934592" for t :: u64 and x y :: u32
    using that lt [of x] lt [of y] by (subst unat_plus_small) (simp_all add: p unat_drop_bit)
  have b0: "unat t0 < 8589934592" using n0 lt [of w0] lt [of s0] by linarith
  note n1 = step [OF b0, of w1 s1, folded t1_def]
  have b1: "unat t1 < 8589934592" using n1 b0 lt [of w1] lt [of s1] by linarith
  note n2 = step [OF b1, of w2 s2, folded t2_def]
  have b2: "unat t2 < 8589934592" using n2 b1 lt [of w2] lt [of s2] by linarith
  note n3 = step [OF b2, of w3 s3, folded t3_def]
  have low: "unat (ucast t :: u32) = unat t mod 4294967296" for t :: u64
    by (simp add: unsigned_ucast_eq take_bit_eq_mod)
  have lv: "le_val (st_le32 w) = unat w" for w
    using lt [of w] by (simp only: st_le32_le_bytes le_val_le_bytes) simp
  have "le_val ?tag = unat t0 mod 4294967296 + 4294967296 * (unat t1 mod 4294967296 +
      4294967296 * (unat t2 mod 4294967296 + 4294967296 * (unat t3 mod 4294967296)))"
    by (simp add: le_val_append lv low)
  also have "\<dots> mod 2 ^ 128 = ?v mod 2 ^ 128"
  proof -
    define q0 q1 q2 q3 where q: "q0 = unat t0 div 4294967296" "q1 = unat t1 div 4294967296"
      "q2 = unat t2 div 4294967296" "q3 = unat t3 div 4294967296"
    define m0 m1 m2 m3 where m: "m0 = unat t0 mod 4294967296" "m1 = unat t1 mod 4294967296"
      "m2 = unat t2 mod 4294967296" "m3 = unat t3 mod 4294967296"
    have "unat w0 + unat s0 = 4294967296 * q0 + m0" "q0 + (unat w1 + unat s1) = 4294967296 * q1 + m1"
      "q1 + (unat w2 + unat s2) = 4294967296 * q2 + m2" "q2 + (unat w3 + unat s3) = 4294967296 * q3 + m3"
      using n0 n1 n2 n3 by (simp_all add: q m)
    then have "?v = m0 + 4294967296 * (m1 + 4294967296 * (m2 + 4294967296 * m3)) + q3 * 2 ^ 128"
      by simp
    then show ?thesis by (simp only: mod_mult_self1 m)
  qed
  finally have val: "le_val ?tag mod 2 ^ 128 = ?v mod 2 ^ 128" .
  have "?tag = le_bytes (length ?tag) (le_val ?tag)" by (rule le_bytes_le_val [symmetric])
  also have "length ?tag = 16" by simp
  also have "le_bytes 16 (le_val ?tag) = le_bytes 16 ?v"
    using val by (intro le_bytes_cong) simp
  finally show ?thesis .
qed

lemma nth5:
  "[a, b, c, d, e] ! 0 = a" "[a, b, c, d, e] ! 1 = b" "[a, b, c, d, e] ! 2 = c"
  "[a, b, c, d, e] ! 3 = d" "[a, b, c, d, e] ! 4 = e"
  by simp_all

text \<open>The tag is the sum of the second key half and a fully carried, but not reduced,
  representative \<open>A\<close> of the accumulator.\<close>

lemma tag_of_limbs:
  assumes "limbs_ok h" "length s = 16"
  shows "\<exists>A < 2 ^ 130. A mod P1305 = limb_val h mod P1305 \<and>
    snd (poly1305_stream_final \<lparr>p_h = h, p_r = r, p_s = s, p_buf = b, p_n = 0\<rparr>) =
      le_bytes 16 (A + le_val s)"
proof -
  obtain f0 f1 f2 f3 f4 where f:
    "(let g = carry26 h; c = drop_bit 26 (g ! 0); g = g[0 := g ! 0 AND 0x3FFFFFF]
      in g[1 := g ! 1 + c]) = [f0, f1, f2, f3, f4]"
    "unat f0 < 67108864" "unat f1 < 67108864" "unat f2 < 67108864" "unat f3 < 67108864"
    "unat f4 < 67108864" "limb_val [f0, f1, f2, f3, f4] mod P1305 = limb_val h mod P1305"
    by (rule final_carry [OF assms(1)])
  let ?A = "limb_val [f0, f1, f2, f3, f4]"
  have pow32: "(2::nat) ^ 32 = 4294967296" by simp
  have "?A < 2 ^ 130" using f(2-6) by simp
  moreover have "snd (poly1305_stream_final \<lparr>p_h = h, p_r = r, p_s = s, p_buf = b, p_n = 0\<rparr>) =
      le_bytes 16 (?A mod 2 ^ 128 + le_val s)"
    using ld_le32_val [OF assms(2)] pack32_val [OF f(2-6)]
    by (simp only: poly1305_stream_final_def Let_def poly1305_stream.simps less_irrefl if_False
        f(1) [unfolded Let_def] nth5 add128 snd_conv pow32)
  moreover have "le_bytes 16 (?A mod 2 ^ 128 + le_val s) = le_bytes 16 (?A + le_val s)"
    by (rule le_bytes_cong) (simp add: mod_simps)
  ultimately show ?thesis using f(7) by (intro exI [of _ ?A]) simp
qed

subsection \<open>The polynomial\<close>

lemma le_val_snoc1: "length b = 16 \<Longrightarrow> le_val (b @ [1]) = le_val b + 2 ^ 128"
  by (simp add: le_val_append)

lemma poly_cmpr_step:
  assumes "limbs_ok h" "r_ok r" "length b = 16"
  shows "\<exists>h'. poly_cmpr (h, r, s) b = (h', r, s) \<and> limbs_ok h' \<and>
    limb_val h' mod P1305 = poly_step (limb_val r) (limb_val h mod P1305) b"
proof -
  let ?st = "\<lparr>p_h = h, p_r = r, p_s = s, p_buf = [], p_n = 0\<rparr>"
  have "poly_cmpr (h, r, s) b = (p_h (poly1305_block ?st b False), r, s)"
    by (simp add: poly_cmpr_def poly1305_block_h)
  moreover have "(limb_val h + le_val b + 2 ^ 128) * limb_val r mod P1305 =
      poly_step (limb_val r) (limb_val h mod P1305) b"
    unfolding poly_step_def le_val_snoc1 [OF assms(3)]
    by (metis add.assoc mod_add_left_eq mod_mult_left_eq)
  ultimately show ?thesis
    using poly1305_block_val [of ?st b False] assms by simp
qed

lemma poly_cmpr_chain:
  assumes "limbs_ok h" "r_ok r" "\<forall>b \<in> set bs. length b = 16"
  shows "\<exists>h'. foldl poly_cmpr (h, r, s) bs = (h', r, s) \<and> limbs_ok h' \<and>
    limb_val h' mod P1305 = foldl (poly_step (limb_val r)) (limb_val h mod P1305) bs"
  using assms
proof (induction bs arbitrary: h)
  case (Cons b bs)
  then obtain h' where h': "poly_cmpr (h, r, s) b = (h', r, s)" "limbs_ok h'"
    "limb_val h' mod P1305 = poly_step (limb_val r) (limb_val h mod P1305) b"
    using poly_cmpr_step [of h r b s] by auto
  show ?case using Cons.IH [OF h'(2)] Cons.prems(2,3) h'(1,3) by simp
qed simp

lemma le_val_zeros: "le_val (replicate n 0) = 0"
  by (induction n) auto

lemma poly_final_val:
  assumes "poly_wf st" "length (p_s st) = 16" "poly_view st = (leftover 16 m, h, r, s)"
    and "limb_val h mod P1305 = foldl (poly_step (limb_val r)) 0 (chunks 16 m)"
  shows "\<exists>A < 2 ^ 130. A mod P1305 = poly_acc (limb_val r) m \<and>
    snd (poly1305_stream_final st) = le_bytes 16 (A + le_val s)"
proof -
  let ?p = "leftover 16 m"
  have st: "take (p_n st) (p_buf st) = ?p" "p_h st = h" "p_r st = r" "p_s st = s"
    "length (p_buf st) = 16" "p_n st < 16" "limbs_ok h" "r_ok r"
    using assms(1,3) by (auto simp: poly_view_def poly_core_def poly_wf_def)
  then have n: "p_n st = length ?p" by (metis length_take min.absorb2 nat_less_le)
  have mod_self: "a mod P1305 mod P1305 = a mod P1305" for a by simp
  have only: "snd (poly1305_stream_final st') =
      snd (poly1305_stream_final \<lparr>p_h = p_h st', p_r = p_r st', p_s = p_s st', p_buf = p_buf st', p_n = 0\<rparr>)"
    if "p_n st' = 0" for st'
    using that by (simp add: poly1305_stream_final_def Let_def)
  show ?thesis
  proof (cases "?p = []")
    case True
    then have "snd (poly1305_stream_final st) = snd (poly1305_stream_final
        \<lparr>p_h = h, p_r = r, p_s = s, p_buf = p_buf st, p_n = 0\<rparr>)"
      using only [of st] n st by simp
    moreover have "poly_acc (limb_val r) m = limb_val h mod P1305"
      using True assms(4) by (simp add: poly_acc_def)
    ultimately show ?thesis
      using tag_of_limbs [OF st(7), of s r "p_buf st"] assms(2) st(4) by simp
  next
    case False
    let ?pad = "blit (replicate 16 0) 0 (?p @ [1])"
    let ?st = "poly1305_block st ?pad True"
    have plen: "length ?p < 16" using n st by simp
    then have pad: "length ?pad = 16" "le_val ?pad = le_val (?p @ [1])"
      by (simp_all add: blit_0 le_val_append le_val_zeros)
    have fin: "snd (poly1305_stream_final st) = snd (poly1305_stream_final
        \<lparr>p_h = p_h ?st, p_r = r, p_s = s, p_buf = p_buf st, p_n = 0\<rparr>)"
    proof -
      have "0 < p_n st" using False n by (metis length_greater_0_conv)
      then show ?thesis using st by (simp add: poly1305_stream_final_def Let_def del: length_leftover)
    qed
    have b: "limbs_ok (p_h ?st)" "limb_val (p_h ?st) mod P1305 =
        (limb_val h + le_val (?p @ [1])) * limb_val r mod P1305"
      using poly1305_block_val [of st ?pad True] st pad by simp_all
    have "poly_acc (limb_val r) m = (limb_val h mod P1305 + le_val (?p @ [1])) * limb_val r mod P1305"
      using False assms(4) by (simp add: poly_acc_def poly_step_def)
    also have "\<dots> = limb_val (p_h ?st) mod P1305"
      unfolding b(2) by (metis mod_add_left_eq mod_mult_left_eq)
    finally show ?thesis
      using tag_of_limbs [OF b(1), of s r "p_buf st"] assms(2) st(4) fin by simp
  qed
qed

end
