(* ===== verification/Poly1305_Mac.thy ===== *)
theory Poly1305_Mac
  imports Poly1305_Correct
begin

text \<open>
  The tags of \<open>poly1305.c\<close>: the initial state the key gives, the tag of a message fed in pieces,
  when it is the tag of RFC 8439, and the message the AEAD construction authenticates.
\<close>

unbundle bit_operations_syntax

subsection \<open>The key\<close>

lemma bit_le32:
  "bit (le32 a b c d) n \<longleftrightarrow>
     (if n < 8 then bit a n else if n < 16 then bit b (n - 8)
      else if n < 24 then bit c (n - 16) else n < 32 \<and> bit d (n - 24))"
  using bit_imp_le_length [of a n] bit_imp_le_length [of b "n - 8"] bit_imp_le_length [of c "n - 16"]
  by (auto simp: le32_def bit_simps)

lemma le32_and:
  "le32 (a AND a') (b AND b') (c AND c') (d AND d') = (le32 a b c d AND le32 a' b' c' d')"
  by (rule bit_word_eqI) (simp add: bit_le32 bit_and_iff)

lemma le32_masks: "le32 0xff 0xff 0xff 0x0f = 0x0FFFFFFF" "le32 0xfc 0xff 0xff 0x0f = 0x0FFFFFFC"
  by (simp_all add: le32_def push_bit_numeral)

lemma clamp_limbs:
  assumes "length key = 32"
  shows "limb_val (pack26 (ld_le32 key 0 AND 0x0FFFFFFF) (ld_le32 key 4 AND 0x0FFFFFFC)
    (ld_le32 key 8 AND 0x0FFFFFFC) (ld_le32 key 12 AND 0x0FFFFFFC)) = clamp_r key"
proof -
  let ?m = "map2 (AND) key
     [0xff, 0xff, 0xff, 0x0f, 0xfc, 0xff, 0xff, 0x0f, 0xfc, 0xff, 0xff, 0x0f, 0xfc, 0xff, 0xff, 0x0f]"
  have "ld_le32 ?m 0 = (ld_le32 key 0 AND 0x0FFFFFFF)" "ld_le32 ?m 4 = (ld_le32 key 4 AND 0x0FFFFFFC)"
    "ld_le32 ?m 8 = (ld_le32 key 8 AND 0x0FFFFFFC)" "ld_le32 ?m 12 = (ld_le32 key 12 AND 0x0FFFFFFC)"
    using assms unfolding le32_masks [symmetric] ld_le32_def le32_and [symmetric] by simp_all
  then show ?thesis
    using ld_le32_val [of ?m] assms by (simp add: pack26_val clamp_r_def)
qed

lemma pack26_r_ok: "r_ok (pack26 b0 b1 b2 b3)"
proof -
  have "unat (x AND 0x3FFFFFF :: u32) < 67108864" for x by (simp add: unat_and_26)
  then show ?thesis by (simp add: r_ok_def pack26_def)
qed

lemma poly_init:
  assumes "length key = 32" "length (p_buf st) = 16"
  defines "st' \<equiv> poly1305_stream_init st key"
  shows "poly_wf st'" "poly_view st' = ([], replicate 5 0, p_r st', take 16 (drop 16 key))"
    "limb_val (p_r st') = clamp_r key" "r_ok (p_r st')"
proof -
  have z: "limbs_ok (replicate 5 0)" by (simp add: limbs_ok_def)
  show "poly_wf st'" "poly_view st' = ([], replicate 5 0, p_r st', take 16 (drop 16 key))"
    "limb_val (p_r st') = clamp_r key" "r_ok (p_r st')"
    using assms(1,2) z pack26_r_ok clamp_limbs [OF assms(1)]
    by (simp_all add: st'_def poly1305_stream_init_def Let_def poly_wf_def poly_view_def poly_core_def)
qed

lemma poly_fresh_buf [simp]: "length (p_buf poly1305_fresh) = 16"
  by (simp add: poly1305_fresh_def)

lemma poly_tag:
  assumes "length key = 32" "length (p_buf st) = 16"
  shows "\<exists>A < 2 ^ 130. A mod P1305 = poly_acc (clamp_r key) (concat ms) \<and>
    snd (poly1305_stream_final (foldl poly1305_stream_update (poly1305_stream_init st key) ms)) =
      le_bytes 16 (A + le_val (take 16 (drop 16 key)))"
proof -
  let ?i = "poly1305_stream_init st key" and ?s = "take 16 (drop 16 key)" and ?m = "concat ms"
  let ?e = "foldl poly1305_stream_update ?i ms"
  note i = poly_init [OF assms]
  have "limbs_ok (replicate 5 0)" by (simp add: limbs_ok_def)
  then obtain h where h: "foldl poly_cmpr (replicate 5 0, p_r ?i, ?s) (chunks 16 ?m) = (h, p_r ?i, ?s)"
    "limb_val h mod P1305 = foldl (poly_step (limb_val (p_r ?i))) (limb_val (replicate 5 0) mod P1305) (chunks 16 ?m)"
    using poly_cmpr_chain [OF _ i(4), of "replicate 5 0" "chunks 16 ?m" ?s] chunks_length by blast
  have z: "limb_val (replicate 5 0) = 0" by (simp add: replicate_numeral)
  have v: "poly_view ?e = (leftover 16 ?m, h, p_r ?i, ?s)"
    using poly.from_start [OF i(1,2), of ms] h(1) by simp
  then have "p_s ?e = ?s" by (simp add: poly_view_def poly_core_def)
  then show ?thesis
    using poly_final_val [OF poly.pieces_wf [OF i(1)] _ v] h(2) assms(1) z i(3) by simp
qed

text \<open>The tag depends on the state only through what has been absorbed.\<close>

lemma poly_final_view:
  assumes "poly_wf st" "poly_wf st'" "poly_view st = poly_view st'"
  shows "snd (poly1305_stream_final st) = snd (poly1305_stream_final st')"
proof -
  have e: "take (p_n st) (p_buf st) = take (p_n st') (p_buf st')" "p_h st = p_h st'" "p_r st = p_r st'"
    "p_s st = p_s st'"
    using assms(3) by (auto simp: poly_view_def poly_core_def)
  then have "p_n st = p_n st'"
    using assms(1,2) by (metis length_take min.absorb2 nat_less_le poly_wf_def)
  then show ?thesis
    using e by (simp add: poly1305_stream_final_def Let_def poly1305_block_h)
qed

text \<open>Feeding the associated data, the ciphertext, their paddings and lengths in pieces gives the
  tag of the concatenated message.\<close>

lemma put_le64_bytes: "put_le64 (of_nat n) = le_bytes 8 n"
proof -
  have b: "ucast (drop_bit k (of_nat n :: u64)) = (of_nat (n div 2 ^ k) :: u8)" if "k \<le> 56" for k
  proof -
    have "ucast (drop_bit k (of_nat n :: u64)) = (of_nat (drop_bit k n) :: u8)"
      using that by (intro bit_word_eqI) (simp add: bit_simps)
    then show ?thesis by (simp add: drop_bit_eq_div)
  qed
  have d: "n div 256 div 256 = n div 65536" "n div 65536 div 256 = n div 16777216"
    "n div 16777216 div 256 = n div 4294967296" "n div 4294967296 div 256 = n div 1099511627776"
    "n div 1099511627776 div 256 = n div 281474976710656"
    "n div 281474976710656 div 256 = n div 72057594037927936" for n :: nat
    by (simp_all flip: div_mult2_eq)
  show ?thesis
    using b [of 0] b [of 8] b [of 16] b [of 24] b [of 32] b [of 40] b [of 48] b [of 56]
    by (simp add: put_le64_def le_bytes_numeral upt_rec d)
qed

lemma pad16: "unat ((16 - (of_nat n AND 15)) AND 15 :: u32) = (16 - n mod 16) mod 16"
proof -
  have 15: "(15 :: u32) = mask 4" by (simp add: mask_eq_exp_minus_1)
  have m: "unat (of_nat n AND 15 :: u32) = n mod 16"
    unfolding 15 unat_and_mask unat_of_nat by (simp add: mod_mod_cancel)
  then have "unat (16 - (of_nat n AND 15) :: u32) = 16 - n mod 16"
    by (subst unat_sub) (simp_all add: word_le_nat_alt)
  then show ?thesis unfolding 15 unat_and_mask by simp
qed

lemma poly_pieces_eq:
  assumes "length key = 32" "length (p_buf st) = 16" "concat ms = concat ms'"
  shows "snd (poly1305_stream_final (foldl poly1305_stream_update (poly1305_stream_init st key) ms)) =
    snd (poly1305_stream_final (foldl poly1305_stream_update (poly1305_stream_init st key) ms'))"
  using poly_init [OF assms(1,2)] assms(3)
  by (intro poly_final_view poly.pieces_wf) (simp_all add: poly.pieces_view)

lemma poly_pieces_message:
  assumes "length key = 32"
  shows "poly1305_auth_pieces key aad ct =
    poly1305_auth key (aad @ replicate ((16 - length aad mod 16) mod 16) 0 @
      ct @ replicate ((16 - length ct mod 16) mod 16) 0 @
      le_bytes 8 (length aad) @ le_bytes 8 (length ct))"
proof -
  let ?z = "\<lambda>n. replicate ((16 - n mod 16) mod 16) 0 :: bytes"
  let ?ms = "[aad, ?z (length aad), ct, ?z (length ct), le_bytes 8 (length aad) @ le_bytes 8 (length ct)]"
  have z: "take (unat ((16 - (of_nat n AND 15)) AND 15 :: u32)) (replicate 16 0) = ?z n" for n
    unfolding pad16 by (simp add: min_def)
  have "poly1305_auth_pieces key aad ct = snd (poly1305_stream_final
      (foldl poly1305_stream_update (poly1305_stream_init poly1305_fresh key) ?ms))"
    unfolding poly1305_auth_pieces_def Let_def z put_le64_bytes by simp
  also have "\<dots> = poly1305_auth key (concat ?ms)"
    using poly_pieces_eq [OF assms poly_fresh_buf, of ?ms "[concat ?ms]"]
    by (simp add: poly1305_auth_def)
  finally show ?thesis by simp
qed

lemma length_poly1305_auth: "length key = 32 \<Longrightarrow> length (poly1305_auth key m) = 16"
  using poly_tag [OF _ poly_fresh_buf, of key "[m]"] by (auto simp: poly1305_auth_def)

subsection \<open>Properties\<close>

text \<open>For every 32-byte key and every message fed in any pieces, the tag is the sum of the
  secret \<open>s\<close> and a representative below 2^130 of the polynomial of RFC 8439 modulo 2^130 - 5:
  no carry or product of the 26-bit limbs is lost.\<close>

theorem poly1305_tag:
  assumes "length key = 32"
  shows "\<exists>A < 2 ^ 130. A mod P1305 = poly_acc (clamp_r key) (concat ms) \<and>
    snd (poly1305_stream_final
      (foldl poly1305_stream_update (poly1305_stream_init poly1305_fresh key) ms)) =
        le_bytes 16 (A + le_val (take 16 (drop 16 key)))"
  by (rule poly_tag [OF assms poly_fresh_buf])

theorem poly1305_tag_witness:
  "\<exists>A < 2 ^ 130. A mod P1305 = poly_acc (clamp_r (replicate 32 7)) (concat [[1, 2], [3]]) \<and>
    snd (poly1305_stream_final
      (foldl poly1305_stream_update (poly1305_stream_init poly1305_fresh (replicate 32 7)) [[1, 2], [3]])) =
        le_bytes 16 (A + le_val (take 16 (drop 16 (replicate 32 7))))"
  by (rule poly1305_tag) simp

text \<open>C18. Unless the polynomial's value is one of the five least residues, the one-shot MAC is the
  tag of RFC 8439.\<close>

theorem poly1305_auth_rfc:
  assumes "length key = 32" and "5 \<le> poly_acc (clamp_r key) m"
  shows "poly1305_auth key m = poly1305_spec key m"
proof -
  obtain A where A: "A < 2 ^ 130" "A mod P1305 = poly_acc (clamp_r key) m"
    "poly1305_auth key m = le_bytes 16 (A + le_val (take 16 (drop 16 key)))"
    using poly_tag [OF assms(1) poly_fresh_buf, of "[m]"] by (auto simp: poly1305_auth_def)
  have "A < P1305"
  proof (rule ccontr)
    assume "\<not> A < P1305"
    then have "A mod P1305 = A - P1305" using A(1) by (simp add: P1305_def mod_if)
    then show False using A assms(2) by (simp add: P1305_def)
  qed
  then show ?thesis using A by (simp add: poly1305_spec_def)
qed

theorem poly1305_auth_rfc_witness:
  "poly1305_auth (replicate 32 7) [1, 2, 3] = poly1305_spec (replicate 32 7) [1, 2, 3]"
proof (rule poly1305_auth_rfc)
  show "5 \<le> poly_acc (clamp_r (replicate 32 7)) [1, 2, 3]"
    by (simp add: poly_acc_def poly_step_def clamp_r_def P1305_def replicate_numeral)
qed simp

text \<open>The final carry never subtracts 2^130 - 5: at a message whose polynomial is 0 modulo
  2^130 - 5 and whose limbs hold exactly 2^130 - 5, the code's tag is not the tag of RFC 8439.\<close>

theorem poly1305_auth_unreduced:
  "let key = 1 # replicate 31 0; m = 0xfb # replicate 15 0xff @ replicate 32 0
   in poly1305_auth key m = 0xfb # replicate 15 0xff \<and> poly1305_spec key m = replicate 16 0"
proof -
  let ?m = "0xfb # replicate 15 0xff @ replicate 32 0 :: bytes"
  have "poly1305_auth (1 # replicate 31 0) ?m = 0xfb # replicate 15 0xff" by code_simp
  moreover have "poly1305_spec (1 # replicate 31 0) ?m = replicate 16 0"
    by (simp add: poly1305_spec_def poly_acc_def poly_step_def clamp_r_def P1305_def replicate_numeral
        chunks.simps leftover_def le_bytes_numeral)
  ultimately show ?thesis by simp
qed

end
