(* ===== verification/Sha256.thy ===== *)
theory Sha256
  imports Block_Stream
begin

text \<open>
  SHA-256 (\<open>src/crypto/sha256.c\<close>, \<open>sha256.h\<close>): the compression function, the streaming
  context with its 64-byte buffer, padding and the one-shot hash. The theorems show that the
  streaming code computes the padded Merkle-Damgard iteration of the whole message, however
  the message is cut into pieces; theory Sha256_Fips shows that the iteration is FIPS 180-4.
\<close>

unbundle bit_operations_syntax

subsection \<open>Primitives\<close>

definition rotr :: "u32 \<Rightarrow> nat \<Rightarrow> u32" where
  "rotr x n = drop_bit n x OR push_bit (32 - n) x"

definition CH :: "u32 \<Rightarrow> u32 \<Rightarrow> u32 \<Rightarrow> u32" where
  "CH x y z = (x AND y) XOR (NOT x AND z)"

definition MAJ :: "u32 \<Rightarrow> u32 \<Rightarrow> u32 \<Rightarrow> u32" where
  "MAJ x y z = (x AND y) XOR (x AND z) XOR (y AND z)"

definition BSIG0 :: "u32 \<Rightarrow> u32" where
  "BSIG0 x = rotr x 2 XOR rotr x 13 XOR rotr x 22"

definition BSIG1 :: "u32 \<Rightarrow> u32" where
  "BSIG1 x = rotr x 6 XOR rotr x 11 XOR rotr x 25"

definition SSIG0 :: "u32 \<Rightarrow> u32" where
  "SSIG0 x = rotr x 7 XOR rotr x 18 XOR drop_bit 3 x"

definition SSIG1 :: "u32 \<Rightarrow> u32" where
  "SSIG1 x = rotr x 17 XOR rotr x 19 XOR drop_bit 10 x"

definition sha256_K :: "u32 list" where
  "sha256_K = concat [
    [0x428a2f98, 0x71374491, 0xb5c0fbcf, 0xe9b5dba5],
    [0x3956c25b, 0x59f111f1, 0x923f82a4, 0xab1c5ed5],
    [0xd807aa98, 0x12835b01, 0x243185be, 0x550c7dc3],
    [0x72be5d74, 0x80deb1fe, 0x9bdc06a7, 0xc19bf174],
    [0xe49b69c1, 0xefbe4786, 0x0fc19dc6, 0x240ca1cc],
    [0x2de92c6f, 0x4a7484aa, 0x5cb0a9dc, 0x76f988da],
    [0x983e5152, 0xa831c66d, 0xb00327c8, 0xbf597fc7],
    [0xc6e00bf3, 0xd5a79147, 0x06ca6351, 0x14292967],
    [0x27b70a85, 0x2e1b2138, 0x4d2c6dfc, 0x53380d13],
    [0x650a7354, 0x766a0abb, 0x81c2c92e, 0x92722c85],
    [0xa2bfe8a1, 0xa81a664b, 0xc24b8b70, 0xc76c51a3],
    [0xd192e819, 0xd6990624, 0xf40e3585, 0x106aa070],
    [0x19a4c116, 0x1e376c08, 0x2748774c, 0x34b0bcb5],
    [0x391c0cb3, 0x4ed8aa4a, 0x5b9cca4f, 0x682e6ff3],
    [0x748f82ee, 0x78a5636f, 0x84c87814, 0x8cc70208],
    [0x90befffa, 0xa4506ceb, 0xbef9a3f7, 0xc67178f2]]"

subsection \<open>The context and the block transform\<close>

record sha256_ctx =
  s256_buf :: bytes
  s256_state :: "u32 list"
  s256_bits :: u64
  s256_len :: nat

text \<open>The second schedule loop: \<open>W\<close> grows by one word per turn, \<open>i = length W\<close>.\<close>

fun sha256_sched :: "nat \<Rightarrow> u32 list \<Rightarrow> u32 list" where
  "sha256_sched 0 W = W"
| "sha256_sched (Suc n) W =
     (let i = length W in
      sha256_sched n (W @ [SSIG1 (W ! (i - 2)) + W ! (i - 7) + SSIG0 (W ! (i - 15)) + W ! (i - 16)]))"

type_synonym sha256_vars = "u32 \<times> u32 \<times> u32 \<times> u32 \<times> u32 \<times> u32 \<times> u32 \<times> u32"

fun sha256_round :: "sha256_vars \<Rightarrow> u32 \<times> u32 \<Rightarrow> sha256_vars" where
  "sha256_round (a, b, c, d, e, f, g, h) (k, w) =
     (let T1 = h + BSIG1 e + CH e f g + k + w; T2 = BSIG0 a + MAJ a b c
      in (T1 + T2, a, b, c, d + T1, e, f, g))"

definition sha256_compress :: "u32 list \<Rightarrow> bytes \<Rightarrow> u32 list" where
  "sha256_compress st blk =
     (let W = sha256_sched 48 (ld_words be32 blk);
          (a, b, c, d, e, f, g, h) =
            foldl sha256_round
              (st ! 0, st ! 1, st ! 2, st ! 3, st ! 4, st ! 5, st ! 6, st ! 7) (zip sha256_K W)
      in [st ! 0 + a, st ! 1 + b, st ! 2 + c, st ! 3 + d,
          st ! 4 + e, st ! 5 + f, st ! 6 + g, st ! 7 + h])"

definition sha256_transform :: "sha256_ctx \<Rightarrow> sha256_ctx" where
  "sha256_transform ctx =
     ctx\<lparr>s256_state := sha256_compress (s256_state ctx) (s256_buf ctx)\<rparr>"

subsection \<open>Streaming\<close>

definition sha256_iv :: "u32 list" where
  "sha256_iv = [0x6a09e667, 0xbb67ae85, 0x3c6ef372, 0xa54ff53a,
                0x510e527f, 0x9b05688c, 0x1f83d9ab, 0x5be0cd19]"

definition sha256_init :: "sha256_ctx \<Rightarrow> sha256_ctx" where
  "sha256_init ctx = ctx\<lparr>s256_state := sha256_iv, s256_bits := 0, s256_len := 0\<rparr>"

text \<open>The loop of \<open>sha256_update\<close>; \<open>len\<close> is the length of what is left of \<open>msg\<close>. With a full
  buffer the C loop would take nothing and never end; \<open>s256_len < 64\<close> is part of the
  invariant below, so that branch is not reached.\<close>

function sha256_absorb :: "sha256_ctx \<Rightarrow> bytes \<Rightarrow> sha256_ctx" where
  "sha256_absorb ctx msg =
     (if msg = [] \<or> 64 \<le> s256_len ctx then ctx
      else let space = 64 - s256_len ctx;
               tk = (if length msg < space then length msg else space);
               c1 = ctx\<lparr>s256_buf := blit (s256_buf ctx) (s256_len ctx) (take tk msg),
                         s256_len := s256_len ctx + tk\<rparr>;
               c2 = (if s256_len c1 = 64 then (sha256_transform c1)\<lparr>s256_len := 0\<rparr> else c1)
           in sha256_absorb c2 (drop tk msg))"
  by pat_completeness auto
termination
  by (relation "measure (\<lambda>(ctx, msg). length msg)") auto

declare sha256_absorb.simps [simp del]

definition sha256_update :: "sha256_ctx \<Rightarrow> bytes \<Rightarrow> sha256_ctx" where
  "sha256_update ctx msg =
     sha256_absorb (ctx\<lparr>s256_bits := s256_bits ctx + of_nat (length msg) * 8\<rparr>) msg"

text \<open>\<open>while (buf_len < n) buf[buf_len++] = 0\<close>.\<close>

definition sha256_zero_to :: "nat \<Rightarrow> sha256_ctx \<Rightarrow> sha256_ctx" where
  "sha256_zero_to n ctx =
     ctx\<lparr>s256_buf := blit (s256_buf ctx) (s256_len ctx) (replicate (n - s256_len ctx) 0),
         s256_len := max n (s256_len ctx)\<rparr>"

definition sha256_final :: "sha256_ctx \<Rightarrow> sha256_ctx \<times> bytes" where
  "sha256_final ctx =
     (let c1 = ctx\<lparr>s256_buf := (s256_buf ctx)[s256_len ctx := 0x80],
                    s256_len := s256_len ctx + 1\<rparr>;
          c2 = (if 56 < s256_len c1
                then (sha256_transform (sha256_zero_to 64 c1))\<lparr>s256_len := 0\<rparr> else c1);
          c3 = sha256_zero_to 56 c2;
          c4 = c3\<lparr>s256_buf := blit (s256_buf c3) 56 (st_be64 (s256_bits c3))\<rparr>;
          c5 = sha256_transform c4
      in (c5, concat (map st_be32 (s256_state c5))))"

text \<open>A context on the stack: its buffer is whatever was there, zeros in the model;
  \<open>sha256_stream\<close> below holds for any contents.\<close>

definition sha256_fresh :: sha256_ctx where
  "sha256_fresh =
     \<lparr>s256_buf = replicate 64 0, s256_state = replicate 8 0, s256_bits = 0, s256_len = 0\<rparr>"

definition sha256 :: "bytes \<Rightarrow> bytes" where
  "sha256 msg = snd (sha256_final (sha256_update (sha256_init sha256_fresh) msg))"

subsection \<open>Specification: pad, cut, iterate\<close>

definition sha256_pad :: "bytes \<Rightarrow> bytes" where
  "sha256_pad m =
     m @ 0x80 # replicate ((119 - length m mod 64) mod 64) 0 @ st_be64 (of_nat (8 * length m))"

definition sha256_spec :: "bytes \<Rightarrow> bytes" where
  "sha256_spec m = concat (map st_be32 (foldl sha256_compress sha256_iv (chunks 64 (sha256_pad m))))"

subsection \<open>The context refines the reference machine\<close>

definition sha256_wf :: "sha256_ctx \<Rightarrow> bool" where
  "sha256_wf c \<longleftrightarrow> length (s256_buf c) = 64 \<and> length (s256_state c) = 8 \<and> s256_len c < 64"

definition sha256_view :: "sha256_ctx \<Rightarrow> bytes \<times> u32 list" where
  "sha256_view c = (take (s256_len c) (s256_buf c), s256_state c)"

lemma length_sha256_compress [simp]: "length (sha256_compress st blk) = 8"
  by (simp add: sha256_compress_def split: prod.splits)

lemma length_foldl_compress:
  "length st = 8 \<Longrightarrow> length (foldl sha256_compress st bs) = 8"
  by (induction bs arbitrary: st) auto

lemma sha256_absorb_Nil [simp]: "sha256_absorb c [] = c"
  by (simp add: sha256_absorb.simps)

lemma sha256_absorb_bits [simp]: "s256_bits (sha256_absorb c m) = s256_bits c"
proof (induction c m rule: sha256_absorb.induct)
  case (1 c m)
  then show ?case
    by (subst sha256_absorb.simps) (simp add: Let_def sha256_transform_def)
qed

lemma sha256_absorb_view:
  "sha256_wf c \<Longrightarrow> sha256_wf (sha256_absorb c m) \<and>
     sha256_view (sha256_absorb c m) = absorb 64 sha256_compress (sha256_view c) m"
proof (induction c m rule: sha256_absorb.induct)
  case (1 c m)
  let ?n = "s256_len c" and ?p = "take (s256_len c) (s256_buf c)"
  from 1(2) have wf: "length (s256_buf c) = 64" "length (s256_state c) = 8" "?n < 64"
    by (simp_all add: sha256_wf_def)
  consider "m = []" | "m \<noteq> []" "?n + length m < 64" | "64 \<le> ?n + length m"
    by linarith
  then show ?case
  proof cases
    case 1
    with wf show ?thesis by (simp add: sha256_wf_def)
  next
    case 2
    then have step: "sha256_absorb c m =
        c\<lparr>s256_buf := blit (s256_buf c) ?n m, s256_len := ?n + length m\<rparr>"
      by (subst sha256_absorb.simps) (simp add: Let_def)
    with 2 wf show ?thesis
      by (simp add: sha256_wf_def sha256_view_def take_blit absorb_short)
  next
    case 3
    let ?tk = "64 - ?n"
    define c1 where "c1 = c\<lparr>s256_buf := blit (s256_buf c) ?n (take ?tk m), s256_len := 64\<rparr>"
    define c2 where "c2 = (sha256_transform c1)\<lparr>s256_len := 0\<rparr>"
    from 3 wf have step: "sha256_absorb c m = sha256_absorb c2 (drop ?tk m)"
      by (subst sha256_absorb.simps) (auto simp: Let_def c1_def c2_def)
    from 3 wf have len: "length (take ?tk m) = ?tk" "take ?tk m \<noteq> []" by auto
    with 3 wf have buf: "s256_buf c1 = ?p @ take ?tk m"
      by (simp add: c1_def blit_fill)
    with wf len have wf2: "sha256_wf c2"
      by (auto simp: c2_def sha256_wf_def sha256_transform_def)
    have view2: "sha256_view c2 = ([], sha256_compress (s256_state c) (?p @ take ?tk m))"
      by (simp add: c2_def sha256_view_def sha256_transform_def buf) (simp add: c1_def)
    have "absorb 64 sha256_compress (sha256_view c) (take ?tk m @ drop ?tk m) =
        absorb 64 sha256_compress (sha256_view c2) (drop ?tk m)"
      using wf len
      by (simp only: absorb_append sha256_view_def [of c] view2)
        (subst absorb_fill; simp)
    moreover have "sha256_wf (sha256_absorb c2 (drop ?tk m)) \<and>
        sha256_view (sha256_absorb c2 (drop ?tk m)) =
          absorb 64 sha256_compress (sha256_view c2) (drop ?tk m)"
      using 3 wf wf2 len
      by (intro "1.IH" [of ?tk ?tk c1 c2]) (auto simp: c1_def c2_def)
    ultimately show ?thesis using step by simp
  qed
qed

lemma sha256_update_bits [simp]:
  "s256_bits (sha256_update c m) = s256_bits c + of_nat (8 * length m)"
  by (simp add: sha256_update_def mult.commute)

interpretation sha: block_stream 64 sha256_compress sha256_update sha256_view sha256_wf
proof
  fix c :: sha256_ctx and m :: bytes
  assume "sha256_wf c"
  then have "sha256_wf (c\<lparr>s256_bits := s256_bits c + of_nat (length m) * 8\<rparr>)"
    by (simp add: sha256_wf_def)
  from sha256_absorb_view [OF this, of m]
  show "sha256_view (sha256_update c m) = absorb 64 sha256_compress (sha256_view c) m"
    and "sha256_wf (sha256_update c m)"
    by (simp_all add: sha256_update_def sha256_view_def)
qed simp

lemma sha256_init_wf [wf_intros]:
  "length (s256_buf c) = 64 \<Longrightarrow> sha256_wf (sha256_init c)"
  by (simp add: sha256_init_def sha256_wf_def sha256_iv_def)

lemma sha256_init_view: "sha256_view (sha256_init c) = ([], sha256_iv)"
  by (simp add: sha256_init_def sha256_view_def)

lemma sha256_pieces_bits:
  "s256_bits (foldl sha256_update c ms) = s256_bits c + of_nat (8 * length (concat ms))"
  by (induction ms arbitrary: c) (simp_all add: algebra_simps)

subsection \<open>Padding\<close>

text \<open>\<open>sha256_final\<close> only sees the pending bytes, the chaining state and the bit count.\<close>

definition sha256_finish :: "bytes \<times> u32 list \<Rightarrow> u64 \<Rightarrow> bytes" where
  "sha256_finish v bits =
     concat (map st_be32 (foldl sha256_compress (snd v)
       (chunks 64 (fst v @ 0x80 # replicate ((119 - length (fst v)) mod 64) 0 @ st_be64 bits))))"

lemma list_update_take:
  "i < length xs \<Longrightarrow> take (Suc i) (xs[i := x]) = take i xs @ [x]"
  by (simp add: take_Suc_conv_app_nth)

lemma sha256_zero_to_view:
  assumes "s256_len c \<le> n" "n \<le> length (s256_buf c)"
  shows "take n (s256_buf (sha256_zero_to n c)) =
    take (s256_len c) (s256_buf c) @ replicate (n - s256_len c) 0"
proof -
  have "take (s256_len c + length (replicate (n - s256_len c) (0::u8)))
      (blit (s256_buf c) (s256_len c) (replicate (n - s256_len c) 0)) =
    take (s256_len c) (s256_buf c) @ replicate (n - s256_len c) 0"
    using assms by (intro take_blit) simp
  with assms show ?thesis by (simp add: sha256_zero_to_def)
qed

lemma sha256_final_finish:
  assumes "sha256_wf c"
  shows "snd (sha256_final c) = sha256_finish (sha256_view c) (s256_bits c)"
proof -
  let ?n = "s256_len c" and ?p = "take (s256_len c) (s256_buf c)"
  from assms have wf: "length (s256_buf c) = 64" "?n < 64"
    by (simp_all add: sha256_wf_def)
  define c1 where "c1 = c\<lparr>s256_buf := (s256_buf c)[?n := 0x80], s256_len := ?n + 1\<rparr>"
  have c1: "s256_len c1 = Suc ?n" "length (s256_buf c1) = 64" "s256_state c1 = s256_state c"
    "s256_bits c1 = s256_bits c" "take (Suc ?n) (s256_buf c1) = ?p @ [0x80]"
    using wf by (simp_all add: c1_def list_update_take)
  define c2 where "c2 = (if 56 < s256_len c1
    then (sha256_transform (sha256_zero_to 64 c1))\<lparr>s256_len := 0\<rparr> else c1)"
  define c3 where "c3 = sha256_zero_to 56 c2"
  have fin: "snd (sha256_final c) =
      concat (map st_be32 (sha256_compress (s256_state c3)
        (blit (s256_buf c3) 56 (st_be64 (s256_bits c3)))))"
    by (simp add: sha256_final_def Let_def c1_def c2_def c3_def sha256_transform_def)
  have c2: "length (s256_buf c2) = 64" "s256_bits c2 = s256_bits c" "s256_len c2 \<le> 56"
    using wf c1 by (auto simp: c2_def sha256_transform_def sha256_zero_to_def)
  then have c3: "length (s256_buf c3) = 64" "s256_bits c3 = s256_bits c"
      "s256_state c3 = s256_state c2"
      "take 56 (s256_buf c3) = take (s256_len c2) (s256_buf c2) @ replicate (56 - s256_len c2) 0"
    using sha256_zero_to_view [of c2 56] by (simp_all add: c3_def) (simp_all add: sha256_zero_to_def)
  then have blk: "blit (s256_buf c3) 56 (st_be64 (s256_bits c)) =
      (take (s256_len c2) (s256_buf c2) @ replicate (56 - s256_len c2) 0) @ st_be64 (s256_bits c)"
    by (simp add: blit_fill)
  show ?thesis
  proof (cases "?n < 56")
    case True
    then have "c2 = c1" by (simp add: c2_def c1)
    moreover from True have "(119 - ?n) mod 64 = 55 - ?n"
      using mod_if [of "119 - ?n" 64] by simp
    ultimately show ?thesis
      using True wf by (simp add: fin blk c3 c1 sha256_finish_def sha256_view_def)
  next
    case False
    then have "s256_len c2 = 0" and "s256_state c2 = sha256_compress (s256_state c)
        ((?p @ [0x80]) @ replicate (63 - ?n) 0)"
      using wf c1 sha256_zero_to_view [of c1 64]
      by (simp_all add: c2_def sha256_transform_def) (simp_all add: sha256_zero_to_def)
    moreover from False wf have
      "replicate ((119 - ?n) mod 64) (0::u8) = replicate (63 - ?n) 0 @ replicate 56 0"
      by (simp flip: replicate_add)
    moreover have "chunks 64 (((?p @ [0x80]) @ replicate (63 - ?n) 0) @
        (replicate 56 0 @ st_be64 (s256_bits c))) =
        [(?p @ [0x80]) @ replicate (63 - ?n) 0, replicate 56 0 @ st_be64 (s256_bits c)]"
      using wf by (subst chunks_block) simp_all
    ultimately show ?thesis
      using wf by (simp add: fin blk c3 sha256_finish_def sha256_view_def)
  qed
qed

lemma sha256_finish_spec:
  "sha256_finish (leftover 64 m, foldl sha256_compress sha256_iv (chunks 64 m)) (of_nat (8 * length m))
     = sha256_spec m"
proof -
  let ?k = "64 * (length m div 64)"
  let ?t = "0x80 # replicate ((119 - length m mod 64) mod 64) 0 @ st_be64 (of_nat (8 * length m))"
  have len: "length (take ?k m) = ?k" by simp
  have m: "m = take ?k m @ leftover 64 m" by (simp add: leftover_def)
  have "chunks 64 (take ?k m @ (leftover 64 m @ ?t)) =
      chunks 64 (take ?k m) @ chunks 64 (leftover 64 m @ ?t)"
    by (rule chunks_append) (simp_all add: len)
  moreover have "chunks 64 (take ?k m @ leftover 64 m) = chunks 64 (take ?k m)"
    by (subst chunks_append) (simp_all add: len)
  ultimately have "chunks 64 (sha256_pad m) = chunks 64 m @ chunks 64 (leftover 64 m @ ?t)"
    using m by (simp add: sha256_pad_def) (metis append.assoc)
  then show ?thesis by (simp add: sha256_spec_def sha256_finish_def)
qed

subsection \<open>Any split of the message\<close>

text \<open>For any way of cutting a message into pieces, and any initial contents of the context's buffer, \<open>sha256_init\<close>, one
  \<open>sha256_update\<close> per piece and \<open>sha256_final\<close> iterate the transform over the padded message.\<close>

lemma sha256_pieces_md:
  assumes "length (s256_buf c) = 64"
  shows "snd (sha256_final (foldl sha256_update (sha256_init c) ms)) = sha256_spec (concat ms)"
proof -
  let ?c = "foldl sha256_update (sha256_init c) ms"
  have wf: "sha256_wf (sha256_init c)" using assms by (rule sha256_init_wf)
  have "snd (sha256_final ?c) = sha256_finish (sha256_view ?c) (s256_bits ?c)"
    by (rule sha256_final_finish) (rule sha.pieces_wf [OF wf])
  also have "sha256_view ?c =
      (leftover 64 (concat ms), foldl sha256_compress sha256_iv (chunks 64 (concat ms)))"
    by (rule sha.from_start [OF wf sha256_init_view])
  also have "s256_bits ?c = of_nat (8 * length (concat ms))"
    by (simp add: sha256_pieces_bits sha256_init_def)
  finally show ?thesis by (simp only: sha256_finish_spec)
qed

end
