(* ===== verification/Hkdf.thy ===== *)
theory Hkdf
  imports Sha256
begin

text \<open>
  HMAC-SHA256 and HKDF (\<open>src/crypto/hmac.c\<close>, \<open>hkdf.c\<close>, their headers and \<open>memwipe.h\<close>). The
  streaming MAC is shown to compute the nested hash of RFC 2104, and the expansion loop the
  chain of RFC 5869, with its refusal of lengths the one-octet counter cannot reach.
\<close>

unbundle bit_operations_syntax

subsection \<open>HMAC\<close>

record hmac_ctx =
  hm_inner :: sha256_ctx
  hm_opad :: bytes

definition secure_zero :: "bytes \<Rightarrow> bytes" where
  "secure_zero p = map (\<lambda>_. 0) p"

definition xor_block :: "bytes \<Rightarrow> u8 \<Rightarrow> bytes" where
  "xor_block src v = map (\<lambda>b. b XOR v) src"

text \<open>The local array \<open>block\<close>: the key hashed when it is longer than a block, zero-padded.\<close>

definition hmac_block :: "bytes \<Rightarrow> bytes" where
  "hmac_block key =
     (if 64 < length key
      then snd (sha256_final (sha256_update (sha256_init sha256_fresh) key)) @ replicate 32 0
      else map (\<lambda>i. if i < length key then key ! i else 0) [0..<64])"

definition hmac_sha256_init :: "hmac_ctx \<Rightarrow> bytes \<Rightarrow> hmac_ctx" where
  "hmac_sha256_init ctx key =
     (let block = hmac_block key; ipad = xor_block block 0x36
      in ctx\<lparr>hm_opad := xor_block block 0x5C,
             hm_inner := sha256_update (sha256_init (hm_inner ctx)) ipad\<rparr>)"

definition hmac_sha256_update :: "hmac_ctx \<Rightarrow> bytes \<Rightarrow> hmac_ctx" where
  "hmac_sha256_update ctx msg = ctx\<lparr>hm_inner := sha256_update (hm_inner ctx) msg\<rparr>"

text \<open>The context after \<open>secure_zero(ctx, sizeof( *ctx))\<close>.\<close>

definition hmac_wipe :: "hmac_ctx \<Rightarrow> hmac_ctx" where
  "hmac_wipe ctx =
     \<lparr>hm_inner = \<lparr>s256_buf = secure_zero (s256_buf (hm_inner ctx)),
                   s256_state = map (\<lambda>_. 0) (s256_state (hm_inner ctx)),
                   s256_bits = 0, s256_len = 0\<rparr>,
      hm_opad = secure_zero (hm_opad ctx)\<rparr>"

definition hmac_sha256_final :: "hmac_ctx \<Rightarrow> hmac_ctx \<times> bytes" where
  "hmac_sha256_final ctx =
     (let (inner, ihash) = sha256_final (hm_inner ctx);
          outer = sha256_update (sha256_update (sha256_init sha256_fresh) (hm_opad ctx)) ihash
      in (hmac_wipe (ctx\<lparr>hm_inner := inner\<rparr>), snd (sha256_final outer)))"

definition hmac_fresh :: hmac_ctx where
  "hmac_fresh = \<lparr>hm_inner = sha256_fresh, hm_opad = replicate 64 0\<rparr>"

definition hmac_sha256 :: "bytes \<Rightarrow> bytes \<Rightarrow> bytes" where
  "hmac_sha256 key msg =
     snd (hmac_sha256_final (hmac_sha256_update (hmac_sha256_init hmac_fresh key) msg))"

subsection \<open>HKDF\<close>

definition hkdf_extract :: "bytes \<Rightarrow> bytes \<Rightarrow> bytes" where
  "hkdf_extract salt ikm = hmac_sha256 salt ikm"

text \<open>One turn of the expansion loop: \<open>t\<close> holds \<open>t_len\<close> bytes (none before the first turn);
  an absent \<open>info\<close> is the empty list.\<close>

definition hkdf_turn :: "bytes \<Rightarrow> bytes \<Rightarrow> bytes \<Rightarrow> u8 \<Rightarrow> bytes" where
  "hkdf_turn prk info t counter =
     (let c0 = hmac_sha256_init hmac_fresh prk;
          c1 = (if t \<noteq> [] then hmac_sha256_update c0 t else c0);
          c2 = (if info \<noteq> [] then hmac_sha256_update c1 info else c1);
          c3 = hmac_sha256_update c2 [counter]
      in snd (hmac_sha256_final c3))"

text \<open>\<open>okm\<close> is the part of the output written so far, \<open>done = length okm\<close>. The turn's hash has
  32 bytes, so \<open>take\<close> bytes of it exist; \<open>min\<close> is the code's conditional.\<close>

function hkdf_loop :: "bytes \<Rightarrow> bytes \<Rightarrow> nat \<Rightarrow> bytes \<Rightarrow> bytes \<Rightarrow> u8 \<Rightarrow> bytes" where
  "hkdf_loop prk info okm_len okm t counter =
     (if length okm < okm_len
      then let t' = hkdf_turn prk info t counter;
               tk = (if okm_len - length okm < 32 then okm_len - length okm else 32)
           in hkdf_loop prk info okm_len (okm @ map (\<lambda>i. t' ! i) [0..<tk]) t' (counter + 1)
      else okm)"
  by pat_completeness auto
termination
  by (relation "measure (\<lambda>(prk, info, okm_len, okm, t, counter). okm_len - length okm)")
     (auto simp: Let_def)

declare hkdf_loop.simps [simp del]

definition hkdf_expand :: "bytes \<Rightarrow> bytes \<Rightarrow> nat \<Rightarrow> bytes option" where
  "hkdf_expand prk info okm_len =
     (if 255 * 32 < okm_len then None else Some (hkdf_loop prk info okm_len [] [] 1))"

definition hkdf :: "bytes \<Rightarrow> bytes \<Rightarrow> bytes \<Rightarrow> nat \<Rightarrow> bytes option" where
  "hkdf salt ikm info okm_len = hkdf_expand (hkdf_extract salt ikm) info okm_len"

subsection \<open>Specifications\<close>

definition hmac_key :: "bytes \<Rightarrow> bytes" where
  "hmac_key key =
     (let k = (if 64 < length key then sha256_spec key else key)
      in k @ replicate (64 - length k) 0)"

definition hmac_spec :: "bytes \<Rightarrow> bytes \<Rightarrow> bytes" where
  "hmac_spec key m =
     sha256_spec (map (\<lambda>b. b XOR 0x5C) (hmac_key key) @
       sha256_spec (map (\<lambda>b. b XOR 0x36) (hmac_key key) @ m))"

fun hkdf_T :: "bytes \<Rightarrow> bytes \<Rightarrow> nat \<Rightarrow> bytes" where
  "hkdf_T prk info 0 = []"
| "hkdf_T prk info (Suc i) = hmac_spec prk (hkdf_T prk info i @ info @ [of_nat (Suc i)])"

text \<open>T(1) followed by T(2) and so on up to T(i).\<close>

fun hkdf_chain :: "bytes \<Rightarrow> bytes \<Rightarrow> nat \<Rightarrow> bytes" where
  "hkdf_chain prk info 0 = []"
| "hkdf_chain prk info (Suc i) = hkdf_chain prk info i @ hkdf_T prk info (Suc i)"

subsection \<open>HMAC lemmas\<close>

lemma length_sha256_iv [simp]: "length sha256_iv = 8"
  by (simp add: sha256_iv_def)

lemma length_sha256_spec [simp]: "length (sha256_spec m) = 32"
  by (simp add: sha256_spec_def length_foldl_compress)

lemma length_fresh_buf [simp]: "length (s256_buf sha256_fresh) = 64"
  by (simp add: sha256_fresh_def)

lemma sha256_one:
  assumes "length (s256_buf c) = 64"
  shows "snd (sha256_final (sha256_update (sha256_init c) m)) = sha256_spec m"
    and "snd (sha256_final (sha256_update (sha256_update (sha256_init c) a) b)) = sha256_spec (a @ b)"
  using sha256_pieces_md [OF assms, of "[m]"] sha256_pieces_md [OF assms, of "[a, b]"]
  by simp_all

lemma map_index_pad:
  "length k \<le> n \<Longrightarrow> map (\<lambda>i. if i < length k then k ! i else z) [0..<n] = k @ replicate (n - length k) z"
  by (rule nth_equalityI) (auto simp: nth_append)

lemma hmac_block_key: "hmac_block key = hmac_key key"
  by (simp add: hmac_block_def hmac_key_def sha256_one Let_def map_index_pad)

lemma hmac_update_inner:
  "hm_inner (foldl hmac_sha256_update c ms) = foldl sha256_update (hm_inner c) ms"
  "hm_opad (foldl hmac_sha256_update c ms) = hm_opad c"
  by (induction ms arbitrary: c) (auto simp: hmac_sha256_update_def)

lemma hmac_pieces:
  assumes "length (s256_buf (hm_inner c)) = 64"
  shows "snd (hmac_sha256_final (foldl hmac_sha256_update (hmac_sha256_init c key) ms))
    = hmac_spec key (concat ms)"
proof -
  let ?k = "hmac_key key"
  have "snd (sha256_final (foldl sha256_update (sha256_init (hm_inner c)) (xor_block ?k 0x36 # ms)))
      = sha256_spec (concat (xor_block ?k 0x36 # ms))"
    using assms by (rule sha256_pieces_md)
  then have inner: "snd (sha256_final (hm_inner (foldl hmac_sha256_update (hmac_sha256_init c key) ms)))
      = sha256_spec (xor_block ?k 0x36 @ concat ms)"
    by (simp add: hmac_update_inner hmac_sha256_init_def hmac_block_key Let_def)
  have opad: "hm_opad (foldl hmac_sha256_update (hmac_sha256_init c key) ms) = xor_block ?k 0x5C"
    by (simp add: hmac_update_inner hmac_sha256_init_def hmac_block_key Let_def)
  show ?thesis
    by (simp add: hmac_sha256_final_def split_beta Let_def inner opad sha256_one hmac_spec_def
        xor_block_def)
qed

lemma length_hmac_spec [simp]: "length (hmac_spec key m) = 32"
  by (simp add: hmac_spec_def)

lemma length_hmac_fresh [simp]: "length (s256_buf (hm_inner hmac_fresh)) = 64"
  by (simp add: hmac_fresh_def)

lemma hmac_sha256_spec: "hmac_sha256 key m = hmac_spec key m"
  using hmac_pieces [OF length_hmac_fresh, of key "[m]"] by (simp add: hmac_sha256_def)

subsection \<open>HKDF lemmas\<close>

lemma hkdf_turn_spec: "hkdf_turn prk info t counter = hmac_spec prk (t @ info @ [counter])"
  using hmac_pieces [OF length_hmac_fresh, of prk "[t, info, [counter]]"]
    hmac_pieces [OF length_hmac_fresh, of prk "[info, [counter]]"]
    hmac_pieces [OF length_hmac_fresh, of prk "[t, [counter]]"]
    hmac_pieces [OF length_hmac_fresh, of prk "[[counter]]"]
  by (auto simp: hkdf_turn_def Let_def)

lemma length_hkdf_T [simp]: "0 < i \<Longrightarrow> length (hkdf_T prk info i) = 32"
  by (cases i) auto

lemma length_hkdf_chain [simp]: "length (hkdf_chain prk info i) = 32 * i"
  by (induction i) (simp_all del: hkdf_T.simps)

lemma take_hkdf_chain: "n \<le> 32 * i \<Longrightarrow> take n (hkdf_chain prk info (i + k)) = take n (hkdf_chain prk info i)"
  by (induction k) (simp_all del: hkdf_T.simps)

lemma hkdf_loop_chain:
  assumes "32 * i \<le> L" "L \<le> 32 * (i + k)"
  shows "hkdf_loop prk info L (hkdf_chain prk info i) (hkdf_T prk info i) (of_nat (Suc i))
    = take L (hkdf_chain prk info (i + k))"
  using assms
proof (induction k arbitrary: i)
  case 0
  then have "L = 32 * i" by simp
  then show ?case by (subst hkdf_loop.simps) simp
next
  case (Suc k)
  let ?T = "hkdf_T prk info" and ?C = "hkdf_chain prk info"
  have turn: "hkdf_turn prk info (?T i) (of_nat (Suc i)) = ?T (Suc i)"
    by (simp add: hkdf_turn_spec)
  have tk: "map ((!) (?T (Suc i))) [0..<n] = take n (?T (Suc i))" if "n \<le> 32" for n
    using that by (intro nth_equalityI) (simp_all del: hkdf_T.simps)
  consider "L = 32 * i" | "32 * i < L" "L < 32 * Suc i" | "32 * Suc i \<le> L"
    using Suc.prems by linarith
  then show ?case
  proof cases
    case 1
    then show ?thesis
      by (subst hkdf_loop.simps) (simp add: take_hkdf_chain)
  next
    case 2
    then have "L - 32 * i < 32" by (simp add: less_diff_conv2)
    with 2 have "hkdf_loop prk info L (?C i) (?T i) (of_nat (Suc i)) =
        ?C i @ take (L - 32 * i) (?T (Suc i))"
      by (subst hkdf_loop.simps)
        (simp add: Let_def turn tk del: of_nat_Suc hkdf_T.simps,
         subst hkdf_loop.simps, simp del: of_nat_Suc hkdf_T.simps)
    also have "\<dots> = take L (?C (Suc i))"
      using 2 by (simp del: hkdf_T.simps)
    also have "\<dots> = take L (?C (Suc i + k))"
      using 2 by (simp only: take_hkdf_chain)
    finally show ?thesis by simp
  next
    case 3
    then have "\<not> L - 32 * i < 32" "length (?C i) < L" by simp_all
    moreover have "of_nat (Suc i) + 1 = (of_nat (Suc (Suc i)) :: u8)" by simp
    ultimately have "hkdf_loop prk info L (?C i) (?T i) (of_nat (Suc i)) =
        hkdf_loop prk info L (?C (Suc i)) (?T (Suc i)) (of_nat (Suc (Suc i)))"
      by (subst hkdf_loop.simps)
        (simp add: Let_def turn tk del: hkdf_T.simps of_nat_Suc)
    also have "\<dots> = take L (?C (Suc i + k))"
      using Suc.prems 3 by (intro Suc.IH) simp_all
    finally show ?thesis by simp
  qed
qed

lemma hkdf_loop_take: "L \<le> 8160 \<Longrightarrow> hkdf_loop prk info L [] [] 1 = take L (hkdf_chain prk info 255)"
  using hkdf_loop_chain [of 0 L 255 prk info] by simp

subsection \<open>Properties\<close>

text \<open>C27. HMAC over any sequence of updates is the nested SHA-256 of RFC 2104 with the
  zero-padded, or first hashed, key; it does not depend on what the context held before.\<close>

theorem hmac_stream:
  assumes "length (s256_buf (hm_inner c)) = 64"
  shows "snd (hmac_sha256_final (foldl hmac_sha256_update (hmac_sha256_init c key) ms)) =
    sha256_spec (map (\<lambda>b. b XOR 0x5C) (hmac_key key) @
      sha256_spec (map (\<lambda>b. b XOR 0x36) (hmac_key key) @ concat ms))"
  using hmac_pieces [OF assms] by (simp add: hmac_spec_def)

theorem hmac_stream_witness:
  "snd (hmac_sha256_final (foldl hmac_sha256_update (hmac_sha256_init hmac_fresh [1, 2, 3]) [[4], [5, 6]])) =
    sha256_spec (map (\<lambda>b. b XOR 0x5C) (hmac_key [1, 2, 3]) @
      sha256_spec (map (\<lambda>b. b XOR 0x36) (hmac_key [1, 2, 3]) @ [4, 5, 6]))"
  by (subst hmac_stream) simp_all

text \<open>\<open>hkdf_expand\<close> refuses more than 255 blocks and otherwise returns the first
  \<open>okm_len\<close> bytes of T(1), T(2), ..., T(255) of RFC 5869: exactly the bytes asked for, and the
  counter octet never wraps.\<close>

theorem hkdf_expand_chain:
  "hkdf_expand prk info okm_len =
     (if 8160 < okm_len then None else Some (take okm_len (hkdf_chain prk info 255)))
   \<and> length (hkdf_chain prk info 255) = 8160"
  by (simp add: hkdf_expand_def hkdf_loop_take del: hkdf_chain.simps)

end
