(* ===== verification/Aead.thy ===== *)
theory Aead
  imports Chacha20 Poly1305_Mac Hkdf
begin

text \<open>
  ChaCha20-Poly1305 (\<open>src/crypto/aead.c\<close>). A call returns the C return code with the output
  buffers as it leaves them, so that the refusal branches say what a caller finds there. The
  wipes of the key block and of the computed MAC end the life of local arrays and leave no trace
  in the results.
\<close>

unbundle bit_operations_syntax

definition AEAD_MAX_INPUT :: nat where
  "AEAD_MAX_INPUT = 20 * 1024"

text \<open>\<open>tag\<close> is the caller's array; the two lengths are 32-bit and their sum is taken in 64 bits,
  hence exact.\<close>

definition mac_poly1305 :: "bytes \<Rightarrow> bytes \<Rightarrow> bytes \<Rightarrow> bytes \<Rightarrow> int \<times> bytes" where
  "mac_poly1305 key aad ct tag =
     (if AEAD_MAX_INPUT < length aad + length ct + 63 then (-1, tag)
      else (0, poly1305_auth_pieces key aad ct))"

definition aead_chacha20_poly1305_encrypt ::
  "bytes \<Rightarrow> bytes \<Rightarrow> bytes \<Rightarrow> bytes \<Rightarrow> bytes \<Rightarrow> int \<times> bytes \<times> bytes" where
  "aead_chacha20_poly1305_encrypt key nonce aad inp tag =
     (let poly_key_block = chacha20_encrypt key nonce 0 (replicate 64 0);
          out = chacha20_encrypt key nonce 1 inp;
          (rc, tag) = mac_poly1305 poly_key_block aad out tag
      in if rc \<noteq> 0 then (-1, replicate (length inp) 0, tag) else (0, out, tag))"

definition ct_eq16 :: "bytes \<Rightarrow> bytes \<Rightarrow> bool" where
  "ct_eq16 a b \<longleftrightarrow> foldl (\<lambda>d i. d OR (a ! i XOR b ! i)) 0 [0..<16] = 0"

text \<open>\<open>mac\<close> starts as an uninitialised local; it is only compared when it was written, so its
  first contents \<open>mac0\<close> are a parameter that no result depends on.\<close>

definition aead_chacha20_poly1305_decrypt ::
  "bytes \<Rightarrow> bytes \<Rightarrow> bytes \<Rightarrow> bytes \<Rightarrow> bytes \<Rightarrow> bytes \<Rightarrow> bytes \<Rightarrow> int \<times> bytes" where
  "aead_chacha20_poly1305_decrypt mac0 key nonce aad inp tag out =
     (let poly_key_block = chacha20_encrypt key nonce 0 (replicate 64 0);
          (rc, mac) = mac_poly1305 poly_key_block aad inp mac0
      in if rc \<noteq> 0 then (-1, out)
         else if \<not> ct_eq16 mac tag then (-1, out)
         else (0, blit out 0 (chacha20_encrypt key nonce 1 inp)))"

subsection \<open>Specification\<close>

text \<open>The one-time key and the authenticated message of RFC 8439 section 2.8.\<close>

definition aead_otk :: "bytes \<Rightarrow> bytes \<Rightarrow> bytes" where
  "aead_otk key nonce = take 32 (chacha20_block (ld_words le32 key) (ld_words le32 nonce) 0)"

definition aead_message :: "bytes \<Rightarrow> bytes \<Rightarrow> bytes" where
  "aead_message aad ct =
     aad @ replicate ((16 - length aad mod 16) mod 16) 0 @
     ct @ replicate ((16 - length ct mod 16) mod 16) 0 @
     le_bytes 8 (length aad) @ le_bytes 8 (length ct)"

definition aead_tag :: "bytes \<Rightarrow> bytes \<Rightarrow> bytes \<Rightarrow> bytes \<Rightarrow> bytes" where
  "aead_tag key nonce aad ct = poly1305_auth (aead_otk key nonce) (aead_message aad ct)"

definition aead_fits :: "bytes \<Rightarrow> bytes \<Rightarrow> bool" where
  "aead_fits aad ct \<longleftrightarrow> length aad + length ct + 63 \<le> 20480"

subsection \<open>Lemmas\<close>

lemma or_fold_zero:
  "foldl (\<lambda>d i. d OR f i) d xs = 0 \<longleftrightarrow> d = 0 \<and> (\<forall>i \<in> set xs. f i = 0)" for d :: "'a::len word"
  by (induction xs arbitrary: d) (auto simp: or_eq_0_iff)

lemma xor_zero_iff: "a XOR b = 0 \<longleftrightarrow> a = b" for a b :: "'a::len word"
  by (metis xor.left_neutral xor_cancel xor_self_eq)

lemma ct_eq16_iff: "length a = 16 \<Longrightarrow> length b = 16 \<Longrightarrow> ct_eq16 a b \<longleftrightarrow> a = b"
  by (auto simp: ct_eq16_def or_fold_zero xor_zero_iff list_eq_iff_nth_eq)

lemma key_block: "chacha20_encrypt key nonce 0 (replicate 64 0) =
    chacha20_block (ld_words le32 key) (ld_words le32 nonce) 0"
  by (rule nth_equalityI) (simp_all add: chacha20_encrypt_def chacha20_loop_nth)

lemma poly1305_stream_init_take:
  "32 \<le> length key \<Longrightarrow> poly1305_stream_init st key = poly1305_stream_init st (take 32 key)"
  by (simp add: poly1305_stream_init_def Let_def ld_le32_def drop_take)

lemma length_aead_otk [simp]: "length (aead_otk key nonce) = 32"
  by (simp add: aead_otk_def)

lemma length_aead_tag [simp]: "length (aead_tag key nonce aad ct) = 16"
  by (simp add: aead_tag_def length_poly1305_auth)

lemma mac_poly1305_tag:
  "mac_poly1305 (chacha20_encrypt key nonce 0 (replicate 64 0)) aad ct tag =
     (if aead_fits aad ct then (0, aead_tag key nonce aad ct) else (-1, tag))"
proof -
  let ?k = "chacha20_block (ld_words le32 key) (ld_words le32 nonce) 0"
  have "poly1305_auth_pieces ?k aad ct = poly1305_auth_pieces (take 32 ?k) aad ct"
    by (simp add: poly1305_auth_pieces_def poly1305_stream_init_take [of ?k])
  also have "\<dots> = aead_tag key nonce aad ct"
    using poly_pieces_message [of "aead_otk key nonce" aad ct]
    by (simp add: aead_tag_def aead_message_def aead_otk_def)
  finally show ?thesis
    by (simp add: mac_poly1305_def key_block aead_fits_def AEAD_MAX_INPUT_def)
qed

lemma encrypt_cases:
  "aead_chacha20_poly1305_encrypt key nonce aad m tag =
     (let c = chacha20_encrypt key nonce 1 m
      in if aead_fits aad c then (0, c, aead_tag key nonce aad c) else (-1, replicate (length m) 0, tag))"
  by (simp add: aead_chacha20_poly1305_encrypt_def mac_poly1305_tag Let_def)

lemma decrypt_cases:
  assumes "length tag = 16"
  shows "aead_chacha20_poly1305_decrypt mac0 key nonce aad c tag out =
    (if aead_fits aad c \<and> tag = aead_tag key nonce aad c
     then (0, blit out 0 (chacha20_encrypt key nonce 1 c)) else (-1, out))"
  using assms
  by (auto simp: aead_chacha20_poly1305_decrypt_def mac_poly1305_tag Let_def ct_eq16_iff)

subsection \<open>Properties\<close>

text \<open>Encryption emits either the ChaCha20 ciphertext at counter 1 with the tag of RFC 8439 over
  the associated data and the ciphertext, or, over the input cap, the code -1 with an output of
  zeros and the caller's tag array untouched: never an unauthenticated ciphertext.\<close>

theorem aead_encrypt_emits:
  "aead_chacha20_poly1305_encrypt key nonce aad m tag =
     (if length aad + length m \<le> 20417
      then (0, chacha20_encrypt key nonce 1 m,
            poly1305_auth (aead_otk key nonce) (aead_message aad (chacha20_encrypt key nonce 1 m)))
      else (-1, replicate (length m) 0, tag))"
  by (auto simp: encrypt_cases Let_def aead_fits_def aead_tag_def)

text \<open>C19. Decryption releases a plaintext exactly when the input is under the cap and all sixteen tag
  bytes are those of the received data; in every other case it returns -1 and leaves the output
  buffer as it was. What an uninitialised MAC buffer held never matters.\<close>

theorem aead_decrypt_authenticates:
  assumes "length tag = 16" and "length out = length c"
  shows "aead_chacha20_poly1305_decrypt mac0 key nonce aad c tag out =
    (if length aad + length c \<le> 20417 \<and>
        tag = poly1305_auth (aead_otk key nonce) (aead_message aad c)
     then (0, chacha20_encrypt key nonce 1 c) else (-1, out))"
  using assms by (simp add: decrypt_cases aead_fits_def aead_tag_def blit_all)

theorem aead_decrypt_authenticates_witness:
  "aead_chacha20_poly1305_decrypt [] (replicate 32 1) (replicate 12 2) [3] [4, 5] (replicate 16 0) [6, 7] =
    (if length [3 :: u8] + length [4, 5 :: u8] \<le> 20417 \<and>
        replicate 16 0 = poly1305_auth (aead_otk (replicate 32 1) (replicate 12 2)) (aead_message [3] [4, 5])
     then (0, chacha20_encrypt (replicate 32 1) (replicate 12 2) 1 [4, 5]) else (-1, [6, 7]))"
  by (rule aead_decrypt_authenticates) simp_all

text \<open>C28. Whatever is encrypted with success is decrypted to the same plaintext under the same key,
  nonce and associated data.\<close>

theorem aead_roundtrip:
  assumes "aead_chacha20_poly1305_encrypt key nonce aad m tag0 = (0, c, tag)" and "length out = length m"
  shows "aead_chacha20_poly1305_decrypt mac0 key nonce aad c tag out = (0, m)"
proof -
  have c: "c = chacha20_encrypt key nonce 1 m" "tag = aead_tag key nonce aad c" "aead_fits aad c"
    using assms(1) by (auto simp: encrypt_cases Let_def split: if_splits)
  then show ?thesis
    using assms(2) by (simp add: decrypt_cases blit_all chacha20_twice)
qed

theorem aead_roundtrip_witness:
  "let k = replicate 32 1; n = replicate 12 2;
       (rc, c, tag) = aead_chacha20_poly1305_encrypt k n [3] [4, 5] []
   in rc = 0 \<and> aead_chacha20_poly1305_decrypt [] k n [3] c tag [0, 0] = (0, [4, 5])"
proof -
  let ?k = "replicate 32 1" and ?n = "replicate 12 2"
  let ?c = "chacha20_encrypt ?k ?n 1 [4, 5]"
  have e: "aead_chacha20_poly1305_encrypt ?k ?n [3] [4, 5] [] = (0, ?c, aead_tag ?k ?n [3] ?c)"
    by (simp add: encrypt_cases aead_fits_def Let_def)
  show ?thesis
    using aead_roundtrip [OF e, of "[0, 0]" "[]"] by (simp add: e)
qed

end
