(* ===== verification/Gcm.thy ===== *)
theory Gcm
  imports Aes Aead
begin

text \<open>
  AES-128-GCM (second half of \<open>src/crypto/aes.c\<close>). The specification is SP 800-38D: the product in
  \<open>GF(2^128)\<close> on 128-bit words, GHASH over zero-padded blocks, and the counter mode. A call returns the C
  return code with the output buffers as it leaves them.
\<close>

text \<open>One turn of the loop of \<open>gf_mul\<close>: the masks are all ones or zero.\<close>

type_synonym quad = "u32 \<times> u32 \<times> u32 \<times> u32"

definition quad_and :: "quad \<Rightarrow> u32 \<Rightarrow> quad" where
  "quad_and = (\<lambda>(a, b, c, d) m. (a AND m, b AND m, c AND m, d AND m))"

definition quad_xor :: "quad \<Rightarrow> quad \<Rightarrow> quad" where
  "quad_xor = (\<lambda>(a, b, c, d) (a', b', c', d'). (a XOR a', b XOR b', c XOR c', d XOR d'))"

definition quad_shift :: "quad \<Rightarrow> quad" where
  "quad_shift = (\<lambda>(v0, v1, v2, v3).
     let lsb = 0 - (v3 AND 1)
     in (drop_bit 1 v0 XOR (0xE1000000 AND lsb), drop_bit 1 v1 OR push_bit 31 v0, drop_bit 1 v2 OR push_bit 31 v1, drop_bit 1 v3 OR push_bit 31 v2))"

definition gf_step :: "bytes \<Rightarrow> quad \<times> quad \<Rightarrow> nat \<Rightarrow> quad \<times> quad" where
  "gf_step x = (\<lambda>(z, v) i.
     let m = 0 - ucast (drop_bit (7 - i mod 8) (x ! (i div 8)) AND 1)
     in (quad_xor z (quad_and v m), quad_shift v))"

definition quad_bytes :: "quad \<Rightarrow> bytes" where
  "quad_bytes = (\<lambda>(z0, z1, z2, z3). concat (map (\<lambda>z. [ucast (drop_bit 24 z), ucast (drop_bit 16 z), ucast (drop_bit 8 z), ucast z]) [z0, z1, z2, z3]))"

definition gf_mul :: "bytes \<Rightarrow> quad \<Rightarrow> bytes" where
  "gf_mul x h = quad_bytes (fst (foldl (gf_step x) ((0, 0, 0, 0), h) [0..<128]))"

text \<open>The block \<open>d\<close> may be short: only its bytes are added.\<close>

definition ghash_block :: "quad \<Rightarrow> bytes \<Rightarrow> bytes \<Rightarrow> bytes" where
  "ghash_block h y d = gf_mul (map (\<lambda>i. if i < length d then y ! i XOR d ! i else y ! i) [0..<16]) h"

function ghash_update :: "bytes \<Rightarrow> quad \<Rightarrow> bytes \<Rightarrow> bytes" where
  "ghash_update y h d = (if d = [] then y else ghash_update (ghash_block h y (take 16 d)) h (drop 16 d))"
  by pat_completeness auto
termination
  by (relation "measure (\<lambda>(y, h, d). length d)") auto

declare ghash_update.simps [simp del]

fun inc_from :: "nat list \<Rightarrow> bytes \<Rightarrow> bytes" where
  "inc_from [] cb = cb"
| "inc_from (i # is) cb = (let cb = cb[i := cb ! i + 1] in if cb ! i \<noteq> 0 then cb else inc_from is cb)"

definition inc32 :: "bytes \<Rightarrow> bytes" where
  "inc32 cb = inc_from [15, 14, 13, 12] cb"

datatype gcm_mode = GCM_SEAL | GCM_TAG | GCM_CTR

text \<open>The counter loop over the input that is left; two counter blocks per call of the cipher.\<close>

function ctr_loop :: "bytes \<Rightarrow> bytes \<Rightarrow> bytes \<Rightarrow> bytes" where
  "ctr_loop rk cb inp =
     (if inp = [] then []
      else let cb1 = inc32 cb; cb2 = inc32 cb1;
               ks = aes128_encrypt_blocks rk (cb1 @ cb2) (if 16 < length inp then 2 else 1)
        in xor_bytes (take 32 inp) ks @ ctr_loop rk cb2 (drop 32 inp))"
  by pat_completeness auto
termination
  by (relation "measure (\<lambda>(rk, cb, inp). length inp)") auto

declare ctr_loop.simps [simp del]

definition gcm_lens :: "nat \<Rightarrow> nat \<Rightarrow> bytes" where
  "gcm_lens aad_len len =
     (let abits = (of_nat aad_len :: u64) * 8; cbits = (of_nat len :: u64) * 8
      in map (\<lambda>i. ucast (drop_bit (56 - 8 * i) abits)) [0..<8] @ map (\<lambda>i. ucast (drop_bit (56 - 8 * i) cbits)) [0..<8])"

definition gcm_h :: "bytes \<Rightarrow> quad" where
  "gcm_h hb = (be32 (hb ! 0) (hb ! 1) (hb ! 2) (hb ! 3), be32 (hb ! 4) (hb ! 5) (hb ! 6) (hb ! 7),
     be32 (hb ! 8) (hb ! 9) (hb ! 10) (hb ! 11), be32 (hb ! 12) (hb ! 13) (hb ! 14) (hb ! 15))"

text \<open>\<open>out\<close> and \<open>tag\<close> are the caller's buffers.\<close>

definition gcm :: "bytes \<Rightarrow> bytes \<Rightarrow> bytes \<Rightarrow> bytes \<Rightarrow> bytes \<Rightarrow> gcm_mode \<Rightarrow> bytes \<Rightarrow> bytes \<times> bytes" where
  "gcm key nonce aad inp out mode tag =
     (let rk = aes128_init key; h = gcm_h (aes128_encrypt_blocks rk (replicate 16 0) 1);
          j0 = take 12 nonce @ [0, 0, 0, 1]; y = replicate 16 0;
          y = (if mode \<noteq> GCM_CTR then ghash_update y h aad else y);
          y = (if mode = GCM_TAG then ghash_update y h inp else y);
          out = (if mode \<noteq> GCM_TAG then ctr_loop rk j0 inp else out);
          y = (if mode = GCM_SEAL then ghash_update y h out else y)
      in if mode = GCM_CTR then (out, tag)
         else let y = gf_mul (xor_bytes y (gcm_lens (length aad) (length inp))) h
           in (out, xor_bytes (aes128_encrypt_blocks rk j0 1) y))"

definition aead_aes128gcm_encrypt :: "bytes \<Rightarrow> bytes \<Rightarrow> bytes \<Rightarrow> bytes \<Rightarrow> bytes \<Rightarrow> bytes \<Rightarrow> int \<times> bytes \<times> bytes" where
  "aead_aes128gcm_encrypt key nonce aad inp out tag =
     (if 2 ^ 24 < length inp then (-1, out, tag) else (0, gcm key nonce aad inp out GCM_SEAL tag))"

definition aead_aes128gcm_decrypt :: "bytes \<Rightarrow> bytes \<Rightarrow> bytes \<Rightarrow> bytes \<Rightarrow> bytes \<Rightarrow> bytes \<Rightarrow> int \<times> bytes" where
  "aead_aes128gcm_decrypt key nonce aad inp tag out =
     (if 2 ^ 24 < length inp then (-1, out)
      else let want = snd (gcm key nonce aad inp [] GCM_TAG (replicate 16 0));
               diff = foldl (\<lambda>d i. d OR (want ! i XOR tag ! i)) 0 [0..<16]
        in if diff \<noteq> 0 then (-1, out) else (0, fst (gcm key nonce aad inp out GCM_CTR [])))"

subsection \<open>SP 800-38D\<close>

type_synonym u128 = "128 word"

text \<open>A block as a 128-bit number, its first byte the most significant: bit \<open>i\<close> of the standard is bit
  \<open>127 - i\<close> here.\<close>

definition quad_word :: "quad \<Rightarrow> u128" where
  "quad_word = (\<lambda>(a, b, c, d). push_bit 96 (ucast a) OR push_bit 64 (ucast b) OR push_bit 32 (ucast c) OR ucast d)"

definition block_word :: "bytes \<Rightarrow> u128" where
  "block_word b = quad_word (gcm_h b)"

definition gf_R :: u128 where
  "gf_R = push_bit 120 0xE1"

definition gf_half :: "u128 \<Rightarrow> u128" where
  "gf_half v = (if bit v 0 then drop_bit 1 v XOR gf_R else drop_bit 1 v)"

definition gf_prod :: "u128 \<Rightarrow> u128 \<Rightarrow> u128" where
  "gf_prod x y = fst (foldl (\<lambda>(z, v) i. (if bit x (127 - i) then z XOR v else z, gf_half v)) (0, y) [0..<128])"

definition ghash :: "u128 \<Rightarrow> bytes list \<Rightarrow> u128" where
  "ghash H bs = foldl (\<lambda>y b. gf_prod (y XOR block_word b) H) 0 bs"

definition gcm_pad :: "bytes \<Rightarrow> bytes list" where
  "gcm_pad d = chunks 16 (d @ replicate ((16 - length d mod 16) mod 16) 0)"

definition ctr_inc :: "bytes \<Rightarrow> bytes" where
  "ctr_inc cb = take 12 cb @ st_be32 (be32 (cb ! 12) (cb ! 13) (cb ! 14) (cb ! 15) + 1)"

definition gcm_j0 :: "bytes \<Rightarrow> bytes" where
  "gcm_j0 nonce = nonce @ [0, 0, 0, 1]"

definition gcm_stream :: "bytes \<Rightarrow> bytes \<Rightarrow> nat \<Rightarrow> u8" where
  "gcm_stream key cb j = fips_cipher key ((ctr_inc ^^ (j div 16 + 1)) cb) ! (j mod 16)"

definition gcm_ctr :: "bytes \<Rightarrow> bytes \<Rightarrow> bytes \<Rightarrow> bytes" where
  "gcm_ctr key cb inp = map (\<lambda>j. inp ! j XOR gcm_stream key cb j) [0..<length inp]"

definition gcm_tag :: "bytes \<Rightarrow> bytes \<Rightarrow> bytes \<Rightarrow> bytes \<Rightarrow> u128" where
  "gcm_tag key nonce aad ct =
     (let H = block_word (fips_cipher key (replicate 16 0));
          lens = st_be64 (of_nat (8 * length aad)) @ st_be64 (of_nat (8 * length ct))
      in ghash H (gcm_pad aad @ gcm_pad ct @ [lens]) XOR block_word (fips_cipher key (gcm_j0 nonce)))"

subsection \<open>The product\<close>

lemma bit_quad_word:
  "n < 128 \<Longrightarrow> bit (quad_word (a, b, c, d)) n =
     (if n < 32 then bit d n else if n < 64 then bit c (n - 32) else if n < 96 then bit b (n - 64) else bit a (n - 96))"
  using bit_imp_le_length [of d n] bit_imp_le_length [of c "n - 32"] bit_imp_le_length [of b "n - 64"]
  by (auto simp: quad_word_def bit_or_iff bit_push_bit_iff bit_ucast_iff)

lemma quad_word_xor: "quad_word (quad_xor p q) = quad_word p XOR quad_word q"
  by (cases p; cases q; rule bit_word_eqI) (simp add: quad_xor_def bit_quad_word bit_xor_iff)

lemma quad_word_and: "quad_word (quad_and v (0 - (if b then 1 else 0))) = (if b then quad_word v else 0)"
proof (cases v)
  case (fields v0 v1 v2 v3)
  then show ?thesis by (auto simp: quad_and_def quad_word_def)
qed

lemma gf_R_quad: "gf_R = quad_word (0xE1000000, 0, 0, 0)"
  by (simp add: gf_R_def quad_word_def)

lemma bit_shift_join: "n < 32 \<Longrightarrow> bit (drop_bit 1 v OR push_bit 31 w) n = (if n = 31 then bit w 0 else bit v (n + 1))" for v w :: u32
  using bit_imp_le_length [of v "n + 1"] by (auto simp: bit_or_iff bit_drop_bit_eq bit_push_bit_iff add.commute)

lemma quad_word_shift: "quad_word (quad_shift v) = gf_half (quad_word v)"
proof (cases v)
  case (fields v0 v1 v2 v3)
  have one: "v3 AND 1 = (if bit v3 0 then 1 else 0)" by (simp add: and_one_eq mod_2_eq_odd bit_0)
  have d: "quad_word (drop_bit 1 v0, drop_bit 1 v1 OR push_bit 31 v0, drop_bit 1 v2 OR push_bit 31 v1, drop_bit 1 v3 OR push_bit 31 v2) =
      drop_bit 1 (quad_word v)"
  proof (rule bit_word_eqI)
    fix n assume "n < LENGTH(128)"
    then have n: "n < 128" by simp
    show "bit (quad_word (drop_bit 1 v0, drop_bit 1 v1 OR push_bit 31 v0, drop_bit 1 v2 OR push_bit 31 v1, drop_bit 1 v3 OR push_bit 31 v2)) n =
        bit (drop_bit 1 (quad_word v)) n"
    proof (cases "n = 127")
      case True
      then show ?thesis using bit_imp_le_length [of "quad_word v" 128] bit_imp_le_length [of v0 32]
        by (auto simp: bit_quad_word bit_drop_bit_eq)
    next
      case False
      then have e: "bit (drop_bit 1 (quad_word v)) n = bit (quad_word v) (n + 1)" and s: "n + 1 < 128"
        using n by (simp_all add: bit_drop_bit_eq add.commute)
      have j: "bit (drop_bit 1 x OR push_bit 31 y) m = bit x (m + 1)" if "m < 31" for m and x y :: u32 using that bit_shift_join [of m x y] by simp
      have k: "bit (drop_bit 1 x OR push_bit 31 y) 31 = bit y 0" for x y :: u32 using bit_shift_join [of 31 x y] by simp
      consider "n < 31" | "n = 31" | "31 < n" "n < 63" | "n = 63" | "63 < n" "n < 95" | "n = 95" | "95 < n" by linarith
      then show ?thesis
      proof cases
        case 1
        then show ?thesis unfolding e [unfolded fields] fields using n s bit_quad_word [OF n] bit_quad_word [OF s] j [of n] by simp
      next
        case 2
        then show ?thesis unfolding e [unfolded fields] fields using n s bit_quad_word [OF n] bit_quad_word [OF s] k by simp
      next
        case 3
        then have "n + 1 - 32 = n - 32 + 1" by simp
        then show ?thesis using 3 unfolding e [unfolded fields] fields using n s bit_quad_word [OF n] bit_quad_word [OF s] j [of "n - 32"] by simp
      next
        case 4
        then show ?thesis unfolding e [unfolded fields] fields using n s bit_quad_word [OF n] bit_quad_word [OF s] k by simp
      next
        case 5
        then have "n + 1 - 64 = n - 64 + 1" by simp
        then show ?thesis using 5 unfolding e [unfolded fields] fields using n s bit_quad_word [OF n] bit_quad_word [OF s] j [of "n - 64"] by simp
      next
        case 6
        then show ?thesis unfolding e [unfolded fields] fields using n s bit_quad_word [OF n] bit_quad_word [OF s] k by simp
      next
        case 7
        then have "n + 1 - 96 = n - 96 + 1" by simp
        then show ?thesis using 7 unfolding e [unfolded fields] fields using n s bit_quad_word [OF n] bit_quad_word [OF s] by (simp add: bit_drop_bit_eq add.commute)
      qed
    qed
  qed
  have b: "bit (quad_word v) 0 = bit v3 0" using bit_quad_word [of 0 v0 v1 v2 v3] fields by simp
  show ?thesis
    using quad_word_xor [of "(drop_bit 1 v0, drop_bit 1 v1 OR push_bit 31 v0, drop_bit 1 v2 OR push_bit 31 v1, drop_bit 1 v3 OR push_bit 31 v2)" "(0xE1000000, 0, 0, 0)"] d
    by (simp add: fields quad_shift_def Let_def one gf_half_def b [unfolded fields] gf_R_quad quad_xor_def)
qed

lemma be32_le32: "be32 a b c d = le32 d c b a"
  by (simp add: be32_def le32_def ac_simps)

lemma gcm_h_bytes: "gcm_h (quad_bytes q) = q"
proof (cases q)
  case (fields a b c d)
  have "be32 (ucast (drop_bit 24 z)) (ucast (drop_bit 16 z)) (ucast (drop_bit 8 z)) (ucast z) = z" for z :: u32
    by (rule bit_word_eqI) (auto simp: be32_le32 bit_le32 bit_ucast_iff bit_drop_bit_eq)
  then show ?thesis by (simp add: fields quad_bytes_def gcm_h_def)
qed

lemma length_quad_bytes [simp]: "length (quad_bytes q) = 16"
  by (cases q) (simp add: quad_bytes_def)

lemma bytes_gcm_h: "length b = 16 \<Longrightarrow> quad_bytes (gcm_h b) = b"
proof (erule list_16)
  fix a0 a1 a2 a3 a4 a5 a6 a7 a8 a9 a10 a11 a12 a13 a14 a15 :: u8
  assume b: "b = [a0, a1, a2, a3, a4, a5, a6, a7, a8, a9, a10, a11, a12, a13, a14, a15]"
  have "ucast (drop_bit 24 (be32 p q r s)) = p" "ucast (drop_bit 16 (be32 p q r s)) = q" "ucast (drop_bit 8 (be32 p q r s)) = r"
    "ucast (be32 p q r s) = s" for p q r s :: u8
    by (rule bit_word_eqI; simp add: be32_le32 bit_le32 bit_ucast_iff bit_drop_bit_eq)+
  then show "quad_bytes (gcm_h b) = b" by (simp add: b quad_bytes_def gcm_h_def)
qed

lemma quad_word_inj:
  assumes e: "quad_word p = quad_word q"
  shows "p = q"
proof (cases p; cases q)
  fix a b c d a' b' c' d'
  assume p: "p = (a, b, c, d)" and q: "q = (a', b', c', d')"
  have f: "bit (quad_word (a, b, c, d)) n = bit (quad_word (a', b', c', d')) n" for n using e p q by simp
  have "bit d n = bit d' n" "bit c n = bit c' n" "bit b n = bit b' n" "bit a n = bit a' n" if "n < 32" for n
    using that f [of n] f [of "n + 32"] f [of "n + 64"] f [of "n + 96"] by (simp_all add: bit_quad_word)
  then have "d = d'" "c = c'" "b = b'" "a = a'" by (auto intro: bit_word_eqI)
  then show "p = q" using p q by simp
qed

lemma below_16: "m < 16 \<Longrightarrow> m \<in> {0, 1, 2, 3, 4, 5, 6, 7, 8, 9, 10, 11, 12, 13, 14, 15 :: nat}"
  by (simp add: numeral_eq_Suc less_Suc_eq)

lemma bit_block_word:
  assumes i: "i < 128"
  shows "bit (block_word x) (127 - i) = bit (x ! (i div 8)) (7 - i mod 8)"
proof -
  obtain j s where js: "i = 8 * j + (7 - s)" "s < 8" "i div 8 = j" "7 - i mod 8 = s"
  proof
    show "i = 8 * (i div 8) + (7 - (7 - i mod 8))" by simp
  qed simp_all
  then have "j \<in> {0, 1, 2, 3, 4, 5, 6, 7, 8, 9, 10, 11, 12, 13, 14, 15}" using i by (intro below_16) linarith
  moreover have "127 - i = 120 - 8 * j + s" using js(1,2) i by arith
  ultimately show ?thesis unfolding js(3,4) using js(2)
    by (elim insertE emptyE) (simp_all add: block_word_def gcm_h_def bit_quad_word be32_le32 bit_le32)
qed

lemma gf_mask: "ucast (drop_bit k (x :: u8) AND 1) = (if bit x k then 1 else (0 :: u32))"
  by (simp add: and_one_eq bit_iff_odd_drop_bit odd_iff_mod_2_eq_one)

lemma gf_step_word:
  assumes "i < 128"
  shows "gf_step x (z, v) i = (z', v') \<Longrightarrow>
     quad_word z' = (if bit (block_word x) (127 - i) then quad_word z XOR quad_word v else quad_word z) \<and>
     quad_word v' = gf_half (quad_word v)"
  using bit_block_word [OF assms, of x]
  by (auto simp: gf_step_def gf_mask Let_def quad_word_xor quad_word_shift quad_word_and [of _ True, simplified] quad_word_and [of _ False, simplified])

lemma gf_fold_word:
  "\<forall>i\<in>set is. i < 128 \<Longrightarrow>
   map_prod quad_word quad_word (foldl (gf_step x) (z, v) is) =
     foldl (\<lambda>(z, v) i. (if bit (block_word x) (127 - i) then z XOR v else z, gf_half v)) (quad_word z, quad_word v) is"
proof (induction "is" arbitrary: z v)
  case (Cons i "is")
  obtain z' v' where s: "gf_step x (z, v) i = (z', v')" by (cases "gf_step x (z, v) i")
  show ?case using gf_step_word [OF _ s] Cons by (simp add: s)
qed simp

lemma gf_mul_word: "block_word (gf_mul x h) = gf_prod (block_word x) (quad_word h)"
proof -
  have z: "quad_word (0, 0, 0, 0) = 0" by (simp add: quad_word_def)
  have "map_prod quad_word quad_word (foldl (gf_step x) ((0, 0, 0, 0), h) [0..<128]) =
     foldl (\<lambda>(z, v) i. (if bit (block_word x) (127 - i) then z XOR v else z, gf_half v)) (0, quad_word h) [0..<128]"
    using gf_fold_word [of "[0..<128]" x "(0, 0, 0, 0)" h] z by (simp only: set_upt) simp
  then show ?thesis unfolding gf_mul_def gf_prod_def block_word_def [of "quad_bytes _"] gcm_h_bytes
    by (metis fst_map_prod)
qed

subsection \<open>GHASH\<close>

lemma block_word_xor:
  assumes "length a = 16" "length b = 16"
  shows "block_word (xor_bytes a b) = block_word a XOR block_word b"
proof (rule bit_word_eqI)
  fix n assume "n < LENGTH(128)"
  then have n: "127 - n < 128" "127 - (127 - n) = n" "(127 - n) div 8 < 16" by auto
  show "bit (block_word (xor_bytes a b)) n = bit (block_word a XOR block_word b) n"
    using bit_block_word [OF n(1)] n assms by (simp add: bit_xor_iff xor_bytes_def)
qed

lemma block_word_inj: "length a = 16 \<Longrightarrow> length b = 16 \<Longrightarrow> block_word a = block_word b \<Longrightarrow> a = b"
  by (metis block_word_def bytes_gcm_h quad_word_inj)

lemma length_gf_mul [simp]: "length (gf_mul x h) = 16"
  by (simp add: gf_mul_def)

lemma ghash_block_word:
  assumes y: "length y = 16" and d: "length d \<le> 16"
  shows "block_word (ghash_block h y d) =
    gf_prod (block_word y XOR block_word (d @ replicate (16 - length d) 0)) (quad_word h)"
proof -
  have "map (\<lambda>i. if i < length d then y ! i XOR d ! i else y ! i) [0..<16] = xor_bytes y (d @ replicate (16 - length d) 0)"
    by (rule nth_equalityI) (use y d in \<open>auto simp: xor_bytes_def nth_append\<close>)
  then show ?thesis unfolding ghash_block_def gf_mul_word
    using block_word_xor [OF y, of "d @ replicate (16 - length d) 0"] d by (simp only:) simp
qed

lemma gcm_pad_Nil [simp]: "gcm_pad [] = []"
  by (simp add: gcm_pad_def)

lemma gcm_pad_step:
  assumes "d \<noteq> []"
  shows "gcm_pad d = (take 16 d @ replicate (16 - length (take 16 d)) 0) # gcm_pad (drop 16 d)"
proof (cases "16 \<le> length d")
  case True
  then have m: "(length d - 16) mod 16 = length d mod 16" using le_mod_geq by metis
  let ?z = "replicate ((16 - length d mod 16) mod 16) (0 :: u8)"
  have e: "d @ ?z = take 16 d @ drop 16 d @ ?z" by (simp flip: append_assoc)
  have "chunks 16 (d @ ?z) = take 16 d # chunks 16 (drop 16 d @ ?z)"
    unfolding e using True by (intro chunks_block) auto
  then show ?thesis using True m by (simp add: gcm_pad_def)
next
  case False
  with assms have "0 < length d" "length d < 16" by auto
  then have "gcm_pad d = chunks 16 (d @ replicate (16 - length d) 0)" by (simp add: gcm_pad_def)
  also have "\<dots> = [d @ replicate (16 - length d) 0]" using False by (intro chunks_single) auto
  finally show ?thesis using False by simp
qed

lemma length_ghash_block [simp]: "length (ghash_block h y d) = 16"
  by (simp add: ghash_block_def)

lemma ghash_update_word:
  "length y = 16 \<Longrightarrow> length (ghash_update y h d) = 16 \<and>
     block_word (ghash_update y h d) =
       foldl (\<lambda>y b. gf_prod (y XOR block_word b) (quad_word h)) (block_word y) (gcm_pad d)"
proof (induction y h d rule: ghash_update.induct)
  case (1 y h d)
  show ?case
  proof (cases "d = []")
    case True
    then show ?thesis using 1(2) by (simp add: ghash_update.simps)
  next
    case False
    have "length (take 16 d) \<le> 16" by simp
    with False show ?thesis using 1(1) [OF False] ghash_block_word [OF 1(2), of "take 16 d" h]
      by (simp add: ghash_update.simps [of y h d] gcm_pad_step del: length_take)
  qed
qed

subsection \<open>The counter mode\<close>

lemma unat_inc_byte: "b + 1 \<noteq> 0 \<Longrightarrow> unat (b + 1) = unat b + 1" for b :: u8
  using unatSuc [of b] by (simp add: add.commute)

lemma inc_byte_wrap: "b + 1 = 0 \<Longrightarrow> unat b = 255" for b :: u8
proof -
  assume "b + 1 = 0"
  then have "b = - 1" by (simp add: eq_neg_iff_add_eq_0)
  then show ?thesis by (simp add: unsigned_minus_1_eq_mask mask_eq_exp_minus_1)
qed

lemma st_be32_rev: "st_be32 w = rev (st_le32 w)"
proof -
  have "ucast (x AND 0xFF) = (ucast x :: u8)" for x :: u32
  proof (rule bit_word_eqI)
    have "(0xFF :: u32) = mask 8" by (simp add: mask_eq_exp_minus_1)
    then have "bit (0xFF :: u32) n" if "n < 8" for n using that bit_mask_iff [where 'a = u32, of 8 n] by (simp only:) simp
    then show "bit (ucast (x AND 0xFF) :: u8) n = bit (ucast x :: u8) n" if "n < LENGTH(8)" for n
      using that by (simp add: bit_ucast_iff bit_and_iff bit_mask_iff)
  qed
  then show ?thesis by (simp add: st_be32_def st_le32_def)
qed

lemma inc32_ctr: "length cb = 16 \<Longrightarrow> inc32 cb = ctr_inc cb"
proof (erule list_16)
  fix a0 a1 a2 a3 a4 a5 a6 a7 a8 a9 a10 a11 a b c d :: u8
  assume cb: "cb = [a0, a1, a2, a3, a4, a5, a6, a7, a8, a9, a10, a11, a, b, c, d]"
  have st: "st_be32 (be32 a b c d + 1) = rev ds" if "length ds = 4" "le_val ds = (le_val [d, c, b, a] + 1) mod 2 ^ 32" for ds
  proof -
    have "unat (be32 a b c d + 1) = le_val ds"
      using that unat_le32 [of d c b a] by (simp add: be32_le32 unat_word_ariths)
    then show ?thesis using le_bytes_le_val [of ds] that(1) by (simp add: st_be32_rev st_le32_le_bytes)
  qed
  have v: "le_val [d, c, b, a] < 2 ^ 32" using le_val_bound [of "[d, c, b, a]"] by simp
  consider "d + 1 \<noteq> 0" | "d + 1 = 0" "c + 1 \<noteq> 0" | "d + 1 = 0" "c + 1 = 0" "b + 1 \<noteq> 0"
    | "d + 1 = 0" "c + 1 = 0" "b + 1 = 0" "a + 1 \<noteq> 0" | "d + 1 = 0" "c + 1 = 0" "b + 1 = 0" "a + 1 = 0" by blast
  then show "inc32 cb = ctr_inc cb"
  proof cases
    case 1
    then have "le_val [d + 1, c, b, a] = le_val [d, c, b, a] + 1" by (simp add: unat_inc_byte)
    then have "st_be32 (be32 a b c d + 1) = rev [d + 1, c, b, a]"
      using le_val_bound [of "[d + 1, c, b, a]"] by (intro st) (simp_all del: le_val.simps)
    then show ?thesis using 1 by (simp add: cb inc32_def ctr_inc_def list_update_numeral)
  next
    case 2
    then have "le_val [0, c + 1, b, a] = le_val [d, c, b, a] + 1" by (simp add: unat_inc_byte inc_byte_wrap)
    then have "st_be32 (be32 a b c d + 1) = rev [0, c + 1, b, a]"
      using le_val_bound [of "[0, c + 1, b, a]"] by (intro st) (simp_all del: le_val.simps)
    then show ?thesis using 2 by (simp add: cb inc32_def ctr_inc_def list_update_numeral)
  next
    case 3
    then have "le_val [0, 0, b + 1, a] = le_val [d, c, b, a] + 1" by (simp add: unat_inc_byte inc_byte_wrap)
    then have "st_be32 (be32 a b c d + 1) = rev [0, 0, b + 1, a]"
      using le_val_bound [of "[0, 0, b + 1, a]"] by (intro st) (simp_all del: le_val.simps)
    then show ?thesis using 3 by (simp add: cb inc32_def ctr_inc_def list_update_numeral)
  next
    case 4
    then have "le_val [0, 0, 0, a + 1] = le_val [d, c, b, a] + 1" by (simp add: unat_inc_byte inc_byte_wrap)
    then have "st_be32 (be32 a b c d + 1) = rev [0, 0, 0, a + 1]"
      using le_val_bound [of "[0, 0, 0, a + 1]"] by (intro st) (simp_all del: le_val.simps)
    then show ?thesis using 4 by (simp add: cb inc32_def ctr_inc_def list_update_numeral)
  next
    case 5
    then have "le_val [d, c, b, a] + 1 = 2 ^ 32" by (simp add: inc_byte_wrap)
    moreover have "le_val [0, 0, 0, 0] = 0" by simp
    ultimately have "st_be32 (be32 a b c d + 1) = rev [0, 0, 0, 0]" by (intro st) (simp_all del: le_val.simps)
    then show ?thesis using 5 by (simp add: cb inc32_def ctr_inc_def list_update_numeral)
  qed
qed

lemma length_ctr_inc: "length cb = 16 \<Longrightarrow> length (ctr_inc cb) = 16"
  by (simp add: ctr_inc_def)

lemma length_fips_cipher: "length key = 16 \<Longrightarrow> length b = 16 \<Longrightarrow> length (fips_cipher key b) = 16"
  by (simp add: fips_cipher_def Let_def length_fips_key fips_rounds_length)

lemma aes128_one:
  assumes "length key = 16" "length b = 16"
  shows "aes128_encrypt_blocks (aes128_init key) (b @ r) 1 = fips_cipher key b"
  using aes128_core [OF assms(1), of "[b]" 1] assms(2) by (simp add: aes128_encrypt_blocks_def)

lemma aes128_two:
  assumes "length key = 16" "length b = 16" "length c = 16"
  shows "aes128_encrypt_blocks (aes128_init key) (b @ c) 2 = fips_cipher key b @ fips_cipher key c"
  using aes128_core [OF assms(1), of "[b, c]" 2] assms by simp

lemma gcm_stream_next: "gcm_stream key (ctr_inc (ctr_inc cb)) j = gcm_stream key cb (j + 32)"
proof -
  have "(j + 32) div 16 + 1 = (j div 16 + 1) + 2" "(j + 32) mod 16 = j mod 16" using mod_mult_self2 [of j 16 2] by simp_all
  moreover have "(ctr_inc ^^ (m + 2)) cb = (ctr_inc ^^ m) (ctr_inc (ctr_inc cb))" for m
    by (simp add: funpow_add numeral_2_eq_2 funpow_swap1)
  ultimately show ?thesis unfolding gcm_stream_def by metis
qed

lemma gcm_ctr_step:
  assumes ks: "length ks = (if 16 < length inp then 32 else 16)" "\<And>j. j < length ks \<Longrightarrow> ks ! j = gcm_stream key cb j"
  shows "xor_bytes (take 32 inp) ks @ gcm_ctr key (ctr_inc (ctr_inc cb)) (drop 32 inp) = gcm_ctr key cb inp" (is "?x @ ?r = _")
proof (rule nth_equalityI)
  have x: "length ?x = min 32 (length inp)" using ks(1) by (auto simp: min_def)
  show "length (?x @ ?r) = length (gcm_ctr key cb inp)" using x by (simp add: gcm_ctr_def)
  fix j assume "j < length (?x @ ?r)"
  then have j: "j < length inp" using x by (simp add: gcm_ctr_def)
  show "(?x @ ?r) ! j = gcm_ctr key cb inp ! j"
  proof (cases "j < 32")
    case True
    then have "j < length ks" "j < length ?x" using j ks(1) x by auto
    then show ?thesis using j True ks(2) by (simp add: nth_append gcm_ctr_def xor_bytes_def)
  next
    case False
    then have "[0..<length inp - 32] ! (j - 32) = j - 32" using j by (subst nth_upt) auto
    with False show ?thesis using j x by (simp add: nth_append gcm_ctr_def gcm_stream_next)
  qed
qed

lemma ctr_loop_ctr: "length key = 16 \<Longrightarrow> length cb = 16 \<Longrightarrow> ctr_loop (aes128_init key) cb inp = gcm_ctr key cb inp"
proof (induction "length inp" arbitrary: inp cb rule: less_induct)
  case less
  show ?case
  proof (cases "inp = []")
    case True
    then show ?thesis by (simp add: ctr_loop.simps gcm_ctr_def)
  next
    case False
    let ?c = "ctr_inc cb" and ?d = "ctr_inc (ctr_inc cb)"
    let ?ks = "aes128_encrypt_blocks (aes128_init key) (?c @ ?d) (if 16 < length inp then 2 else 1)"
    note len = less(2) length_ctr_inc [OF less(3)] length_ctr_inc [OF length_ctr_inc [OF less(3)]]
    have ks: "?ks = (if 16 < length inp then fips_cipher key ?c @ fips_cipher key ?d else fips_cipher key ?c)"
      using aes128_one [OF len(1,2)] aes128_two [OF len] by simp
    have l: "length ?ks = (if 16 < length inp then 32 else 16)" unfolding ks using len by (simp add: length_fips_cipher)
    have "?ks ! j = gcm_stream key cb j" if "j < length ?ks" for j
    proof (cases "j < 16")
      case True
      then show ?thesis unfolding ks using len by (simp add: nth_append length_fips_cipher gcm_stream_def)
    next
      case False
      then have "j < 32" "16 < length inp" using that l by (auto split: if_splits)
      moreover have "j div 16 = 1" "j mod 16 = j - 16" using False \<open>j < 32\<close> by (simp_all add: le_mod_geq)
      ultimately show ?thesis unfolding ks using len False by (simp add: nth_append length_fips_cipher gcm_stream_def)
    qed
    from gcm_ctr_step [OF l this] show ?thesis
      using less(1) [of "drop 32 inp" ?d] len False inc32_ctr [OF less(3)] inc32_ctr [OF len(2)]
      by (simp add: ctr_loop.simps [of _ cb inp] Let_def)
  qed
qed

subsection \<open>The whole mode\<close>

lemma gcm_lens_be64: "gcm_lens a n = st_be64 (of_nat (8 * a)) @ st_be64 (of_nat (8 * n))"
proof -
  have "ucast (x AND 0xFF) = (ucast x :: u8)" for x :: u64
  proof (rule bit_word_eqI)
    have "(0xFF :: u64) = mask 8" by (simp add: mask_eq_exp_minus_1)
    then have "bit (0xFF :: u64) n" if "n < 8" for n using that bit_mask_iff [where 'a = u64, of 8 n] by (simp only:) simp
    then show "bit (ucast (x AND 0xFF) :: u8) n = bit (ucast x :: u8) n" if "n < LENGTH(8)" for n
      using that by (simp add: bit_ucast_iff bit_and_iff)
  qed
  then show ?thesis by (simp add: gcm_lens_def st_be64_def Let_def mult.commute [of _ "8 :: u64"] upt_rec)
qed

lemma gcm_tag_word:
  fixes key nonce aad ct :: bytes
  defines "rk \<equiv> aes128_init key"
  defines "h \<equiv> gcm_h (aes128_encrypt_blocks rk (replicate 16 0) 1)"
  defines "y \<equiv> ghash_update (ghash_update (replicate 16 0) h aad) h ct"
  defines "t \<equiv> xor_bytes (aes128_encrypt_blocks rk (take 12 nonce @ [0, 0, 0, 1]) 1) (gf_mul (xor_bytes y (gcm_lens (length aad) (length ct))) h)"
  assumes len: "length key = 16" "length nonce = 12"
  shows "length t = 16" "block_word t = gcm_tag key nonce aad ct"
proof -
  have j: "take 12 nonce @ [0, 0, 0, 1] = gcm_j0 nonce" using len by (simp add: gcm_j0_def)
  have lj: "length (gcm_j0 nonce) = 16" using len by (simp add: gcm_j0_def)
  have h: "quad_word h = block_word (fips_cipher key (replicate 16 0))"
    using aes128_one [OF len(1), of "replicate 16 0" "[]"] by (simp add: h_def rk_def block_word_def)
  have k: "aes128_encrypt_blocks rk (take 12 nonce @ [0, 0, 0, 1]) 1 = fips_cipher key (gcm_j0 nonce)"
    using aes128_one [OF len(1) lj, of "[]"] unfolding rk_def j by simp
  have z: "block_word (replicate 16 0) = 0" by (simp add: block_word_def gcm_h_def be32_def quad_word_def)
  let ?f = "\<lambda>y b. gf_prod (y XOR block_word b) (quad_word h)"
  have u: "length (ghash_update (replicate 16 0) h aad) = 16" "block_word (ghash_update (replicate 16 0) h aad) = foldl ?f 0 (gcm_pad aad)"
    using ghash_update_word [of "replicate 16 0" h aad] z by auto
  have y: "length y = 16" "block_word y = foldl ?f 0 (gcm_pad aad @ gcm_pad ct)"
    using ghash_update_word [OF u(1), of h ct] u(2) by (auto simp: y_def)
  have g: "block_word (gf_mul (xor_bytes y (gcm_lens (length aad) (length ct))) h) =
      foldl ?f 0 (gcm_pad aad @ gcm_pad ct @ [gcm_lens (length aad) (length ct)])"
    using y by (simp add: gf_mul_word block_word_xor gcm_lens_be64)
  show "length t = 16" unfolding t_def k using length_fips_cipher [OF len(1) lj] by simp
  show "block_word t = gcm_tag key nonce aad ct"
    unfolding t_def k gcm_tag_def Let_def ghash_def h [symmetric]
    using g length_fips_cipher [OF len(1) lj] by (simp add: block_word_xor gcm_lens_be64 xor.commute)
qed

lemma gcm_cases:
  assumes len: "length key = 16" "length nonce = 12"
  shows "fst (gcm key nonce aad inp out GCM_SEAL tag) = gcm_ctr key (gcm_j0 nonce) inp"
    and "length (snd (gcm key nonce aad inp out GCM_SEAL tag)) = 16"
    and "block_word (snd (gcm key nonce aad inp out GCM_SEAL tag)) = gcm_tag key nonce aad (gcm_ctr key (gcm_j0 nonce) inp)"
    and "length (snd (gcm key nonce aad inp out GCM_TAG tag)) = 16"
    and "block_word (snd (gcm key nonce aad inp out GCM_TAG tag)) = gcm_tag key nonce aad inp"
    and "fst (gcm key nonce aad inp out GCM_CTR tag) = gcm_ctr key (gcm_j0 nonce) inp"
proof -
  have c: "ctr_loop (aes128_init key) (take 12 nonce @ [0, 0, 0, 1]) inp = gcm_ctr key (gcm_j0 nonce) inp"
    using ctr_loop_ctr [OF len(1), of "gcm_j0 nonce" inp] len(2) by (simp add: gcm_j0_def)
  have n: "length (gcm_ctr key (gcm_j0 nonce) inp) = length inp" by (simp add: gcm_ctr_def)
  note t = gcm_tag_word [OF len]
  show "fst (gcm key nonce aad inp out GCM_SEAL tag) = gcm_ctr key (gcm_j0 nonce) inp"
    "fst (gcm key nonce aad inp out GCM_CTR tag) = gcm_ctr key (gcm_j0 nonce) inp"
    using c by (simp_all add: gcm_def Let_def)
  show "length (snd (gcm key nonce aad inp out GCM_SEAL tag)) = 16"
    "block_word (snd (gcm key nonce aad inp out GCM_SEAL tag)) = gcm_tag key nonce aad (gcm_ctr key (gcm_j0 nonce) inp)"
    using c t [of aad "gcm_ctr key (gcm_j0 nonce) inp"] n by (simp_all add: gcm_def Let_def)
  show "length (snd (gcm key nonce aad inp out GCM_TAG tag)) = 16"
    "block_word (snd (gcm key nonce aad inp out GCM_TAG tag)) = gcm_tag key nonce aad inp"
    using t [of aad inp] by (simp_all add: gcm_def Let_def)
qed

lemma gcm_ctr_twice: "gcm_ctr key cb (gcm_ctr key cb inp) = inp"
  by (rule nth_equalityI) (simp_all add: gcm_ctr_def)

lemma gcm_decrypt_cases:
  assumes len: "length key = 16" "length nonce = 12" "length tag = 16"
  shows "aead_aes128gcm_decrypt key nonce aad inp tag out =
    (if length inp \<le> 2 ^ 24 \<and> block_word tag = gcm_tag key nonce aad inp then (0, gcm_ctr key (gcm_j0 nonce) inp) else (-1, out))"
proof -
  let ?w = "snd (gcm key nonce aad inp [] GCM_TAG (replicate 16 0))"
  have w: "length ?w = 16" "block_word ?w = gcm_tag key nonce aad inp" using gcm_cases(4,5) [OF len(1,2)] by auto
  have "foldl (\<lambda>d i. d OR (?w ! i XOR tag ! i)) 0 [0..<16] = 0 \<longleftrightarrow> ?w = tag"
    using w(1) len(3) by (auto simp: or_fold_zero xor_zero_iff list_eq_iff_nth_eq)
  also have "\<dots> \<longleftrightarrow> block_word tag = gcm_tag key nonce aad inp"
    using block_word_inj [OF w(1) len(3)] w(2) by auto
  finally show ?thesis using gcm_cases(6) [OF len(1,2), of aad inp out "[]"]
    by (auto simp: aead_aes128gcm_decrypt_def Let_def)
qed

text \<open>C5. AES-128-GCM encryption is that of SP 800-38D: the ciphertext is the input under the counter-mode
  key stream of the initial counter block of the nonce, and the tag, read as a 128-bit number, is GHASH of the
  padded additional data, the padded ciphertext and the two bit lengths, masked by the cipher of that block.
  An input over 16 MiB is refused and the buffers are left alone.\<close>

theorem gcm_encrypt_spec:
  assumes "length key = 16" "length nonce = 12"
  shows "if length inp \<le> 2 ^ 24
     then \<exists>ct tag'. aead_aes128gcm_encrypt key nonce aad inp out tag = (0, ct, tag') \<and>
       ct = gcm_ctr key (gcm_j0 nonce) inp \<and> length tag' = 16 \<and> block_word tag' = gcm_tag key nonce aad ct
     else aead_aes128gcm_encrypt key nonce aad inp out tag = (-1, out, tag)"
  using gcm_cases(1-3) [OF assms, of aad inp out tag]
  by (cases "gcm key nonce aad inp out GCM_SEAL tag") (simp add: aead_aes128gcm_encrypt_def)

theorem gcm_encrypt_spec_witness:
  "\<exists>ct tag'. aead_aes128gcm_encrypt (replicate 16 1) (replicate 12 2) [3] [4, 5] [0, 0] (replicate 16 0) = (0, ct, tag') \<and>
     ct = gcm_ctr (replicate 16 1) (gcm_j0 (replicate 12 2)) [4, 5] \<and> length tag' = 16 \<and>
     block_word tag' = gcm_tag (replicate 16 1) (replicate 12 2) [3] ct"
  using gcm_encrypt_spec [of "replicate 16 1" "replicate 12 2" "[4, 5]" "[3]" "[0, 0]" "replicate 16 0"] by simp

text \<open>C4. AES-128-GCM decryption releases plaintext exactly when the tag is the one of the ciphertext and the
  additional data: otherwise it returns -1 and leaves the output buffer alone. What it accepts it decrypts, so
  a record that encryption produced under the same key, nonce and additional data comes back as it was.\<close>

theorem gcm_decrypt_authenticates:
  assumes "length key = 16" "length nonce = 12" "length tag = 16"
  shows "aead_aes128gcm_decrypt key nonce aad inp tag out =
      (if length inp \<le> 2 ^ 24 \<and> block_word tag = gcm_tag key nonce aad inp then (0, gcm_ctr key (gcm_j0 nonce) inp) else (-1, out)) \<and>
    (aead_aes128gcm_encrypt key nonce aad msg buf t0 = (0, ct, t) \<longrightarrow> aead_aes128gcm_decrypt key nonce aad ct t out = (0, msg))"
proof (intro conjI impI)
  show "aead_aes128gcm_decrypt key nonce aad inp tag out =
      (if length inp \<le> 2 ^ 24 \<and> block_word tag = gcm_tag key nonce aad inp then (0, gcm_ctr key (gcm_j0 nonce) inp) else (-1, out))"
    by (rule gcm_decrypt_cases [OF assms])
  assume e: "aead_aes128gcm_encrypt key nonce aad msg buf t0 = (0, ct, t)"
  then have g: "length msg \<le> 2 ^ 24" "gcm key nonce aad msg buf GCM_SEAL t0 = (ct, t)"
    by (auto simp: aead_aes128gcm_encrypt_def split: if_splits)
  note s = gcm_cases(1-3) [OF assms(1,2), of aad msg buf t0, unfolded g(2) fst_conv snd_conv]
  have "length ct = length msg" unfolding s(1) by (simp add: gcm_ctr_def)
  then show "aead_aes128gcm_decrypt key nonce aad ct t out = (0, msg)"
    using gcm_decrypt_cases [OF assms(1,2) s(2), of aad ct out] g(1) s(1,3) by (simp add: gcm_ctr_twice)
qed

theorem gcm_decrypt_authenticates_witness:
  "aead_aes128gcm_decrypt (replicate 16 1) (replicate 12 2) [3] [4, 5] (replicate 16 6) [0, 0] =
     (if block_word (replicate 16 6) = gcm_tag (replicate 16 1) (replicate 12 2) [3] [4, 5]
      then (0, gcm_ctr (replicate 16 1) (gcm_j0 (replicate 12 2)) [4, 5]) else (-1, [0, 0])) \<and>
   (let (rc, ct, t) = aead_aes128gcm_encrypt (replicate 16 1) (replicate 12 2) [3] [4, 5] [0, 0] (replicate 16 0)
    in aead_aes128gcm_decrypt (replicate 16 1) (replicate 12 2) [3] ct t [0, 0] = (0, [4, 5]))"
proof -
  have "fst (aead_aes128gcm_encrypt (replicate 16 1) (replicate 12 2) [3] [4, 5] [0, 0] (replicate 16 0)) = 0"
    by (simp add: aead_aes128gcm_encrypt_def)
  then show ?thesis
    using gcm_decrypt_authenticates [of "replicate 16 1" "replicate 12 2" "replicate 16 6" "[3]" "[4, 5]" "[0, 0]" "[4, 5]" "[0, 0]" "replicate 16 0"]
    by (simp add: prod_eq_iff split: prod.split)
qed

end
