(* ===== verification/Rand.thy ===== *)
theory Rand
  imports Sha256 Chacha20
begin

text \<open>
  The random number generator (\<open>src/crypto/rand.c\<close>, \<open>rand.h\<close>): the entropy pools with their source classes, the
  reseed with the gates that declare the generator ready, and the output with fast key erasure. What comes from the
  processor is an argument: the answers of RDRAND, RDSEED and CPUID and the time stamp counter. Every
  transition runs with interrupts off, so it is one step; before every block of output interrupts may run, and the samples
  they stir in are an argument too.
\<close>

unbundle bit_operations_syntax

subsection \<open>The model\<close>

definition RAND_SRC_BOOT :: u32 where "RAND_SRC_BOOT = 0x01"
definition RAND_SRC_TIMER :: u32 where "RAND_SRC_TIMER = 0x02"
definition RAND_SRC_INPUT :: u32 where "RAND_SRC_INPUT = 0x04"
definition RAND_SRC_RDRAND :: u32 where "RAND_SRC_RDRAND = 0x08"
definition RAND_SRC_RDSEED :: u32 where "RAND_SRC_RDSEED = 0x10"
definition RAND_NCLASS :: nat where "RAND_NCLASS = 5"
definition RNG_POOL_SLOTS :: nat where "RNG_POOL_SLOTS = 16"

record rng =
  rng_key :: bytes
  rng_nonce :: bytes
  rng_counter :: u32
  rng_ready_flag :: bool
  hw_present :: bool
  pool0 :: "bytes list"
  pool1 :: "bytes list"
  pool0_n :: nat
  pool1_n :: nat
  pool1_tick :: u32
  pool_src_mask :: u32
  pool_cls_win :: "u32 list"
  reseed_gen :: u32

definition xor_key :: "bytes \<Rightarrow> bytes \<Rightarrow> bytes" where
  "xor_key key block = map (\<lambda>i. key ! i XOR block ! i) [0..<32]"

definition rng_rekey :: "rng \<Rightarrow> rng" where
  "rng_rekey s =
     (let block = chacha20_encrypt (rng_key s) (rng_nonce s) (rng_counter s) (replicate 64 0)
      in s\<lparr>rng_counter := rng_counter s + 1, rng_key := xor_key (rng_key s) block\<rparr>)"

definition pool_compress :: "bytes list \<Rightarrow> nat \<Rightarrow> bytes" where
  "pool_compress pool n = snd (sha256_final (foldl sha256_update (sha256_init sha256_fresh) (take (min n RNG_POOL_SLOTS) pool)))"

definition pools_wipe :: "rng \<Rightarrow> rng" where
  "pools_wipe s = s\<lparr>pool0 := replicate RNG_POOL_SLOTS (replicate 32 0), pool1 := replicate RNG_POOL_SLOTS (replicate 32 0),
     pool0_n := 0, pool1_n := 0, pool_cls_win := replicate RAND_NCLASS 0\<rparr>"

text \<open>The decision at the end of \<open>rng_reseed\<close>, over the loop variables \<open>life\<close> and \<open>win\<close>.\<close>

definition rng_declares :: "rng \<Rightarrow> bool" where
  "rng_declares s =
     (let need_bytes = (if hw_present s then 64 else 128) in
      if need_bytes \<le> pool0_n s * 32
      then let (life, win) = foldl (\<lambda>(life, win) b.
                 (if pool_src_mask s AND push_bit b 1 \<noteq> 0 then life + 1 else life, if 32 \<le> pool_cls_win s ! b then win + 1 else win))
                 (0 :: int, 0 :: int) [0..<RAND_NCLASS];
               need_life = (if hw_present s then 2 else 3);
               hw_ok = (\<not> hw_present s \<or> pool_src_mask s AND (RAND_SRC_RDRAND OR RAND_SRC_RDSEED) \<noteq> 0)
        in need_life \<le> life \<and> hw_ok \<and> 2 \<le> win
      else False)"

definition rng_reseed :: "rng \<Rightarrow> rng" where
  "rng_reseed s =
     (let s = s\<lparr>rng_key := xor_key (rng_key s) (pool_compress (pool0 s) (pool0_n s))\<rparr>;
          s = s\<lparr>reseed_gen := reseed_gen s + 1\<rparr>;
          s = (if reseed_gen s AND 3 = 0 \<and> 0 < pool1_n s
               then s\<lparr>rng_key := xor_key (rng_key s) (pool_compress (pool1 s) (pool1_n s))\<rparr> else s);
          s = rng_rekey s;
          s = s\<lparr>rng_counter := rng_counter s + 1\<rparr>;
          s = (if \<not> rng_ready_flag s \<and> rng_declares s then s\<lparr>rng_ready_flag := True\<rparr> else s)
      in pools_wipe s)"

definition count_class :: "u32 \<Rightarrow> u32 list \<Rightarrow> u32 list" where
  "count_class src w = map (\<lambda>b. if src AND push_bit b 1 \<noteq> 0 then w ! b + 32 else w ! b) [0..<RAND_NCLASS]"

definition rand_stir_src :: "bytes \<Rightarrow> u32 \<Rightarrow> rng \<Rightarrow> rng" where
  "rand_stir_src entropy src s =
     (let src = src AND (RAND_SRC_RDSEED OR RAND_SRC_RDRAND OR RAND_SRC_INPUT OR RAND_SRC_TIMER OR RAND_SRC_BOOT);
          s = (if pool0_n s < RNG_POOL_SLOTS
               then s\<lparr>pool0 := (pool0 s)[pool0_n s := take 32 entropy], pool0_n := pool0_n s + 1, pool_cls_win := count_class src (pool_cls_win s)\<rparr>
               else s);
          s = s\<lparr>pool1_tick := pool1_tick s + 1\<rparr>;
          s = (if pool1_tick s AND 15 = 0 \<and> pool1_n s < RNG_POOL_SLOTS
               then s\<lparr>pool1 := (pool1 s)[pool1_n s := take 32 entropy], pool1_n := pool1_n s + 1\<rparr> else s);
          s = s\<lparr>pool_src_mask := pool_src_mask s OR src\<rparr>
      in if RNG_POOL_SLOTS \<le> pool0_n s then rng_reseed s else s)"

definition rand_stir :: "bytes \<Rightarrow> rng \<Rightarrow> rng" where
  "rand_stir entropy s = rand_stir_src entropy RAND_SRC_TIMER s"


definition rand_personalize :: "bytes \<Rightarrow> rng \<Rightarrow> rng" where
  "rand_personalize data s =
     rng_rekey (s\<lparr>rng_key := foldl (\<lambda>k i. k[i mod 32 := k ! (i mod 32) XOR data ! i]) (rng_key s) [0..<length data]\<rparr>)"








text \<open>One block of output, and the loop: before block \<open>k\<close> interrupts are on, and \<open>irqs k\<close> are the samples stirred in there.\<close>

definition rng_block :: "rng \<Rightarrow> rng \<times> bytes" where
  "rng_block s =
     (let block = chacha20_encrypt (rng_key s) (rng_nonce s) (rng_counter s) (replicate 64 0)
      in (s\<lparr>rng_counter := rng_counter s + 1, rng_key := take 32 block\<rparr>, drop 32 block))"

definition stir_all :: "(bytes \<times> u32) list \<Rightarrow> rng \<Rightarrow> rng" where
  "stir_all evs s = foldl (\<lambda>s (e, src). rand_stir_src e src s) s evs"

function rand_loop :: "(nat \<Rightarrow> (bytes \<times> u32) list) \<Rightarrow> nat \<Rightarrow> rng \<Rightarrow> nat \<Rightarrow> rng \<times> bytes" where
  "rand_loop irqs k s len =
     (if len = 0 then (s, [])
      else let (s, half) = rng_block (stir_all (irqs k) s); n = (if len < 32 then len else 32);
               (s, out) = rand_loop irqs (k + 1) s (len - n)
        in (s, take n half @ out))"
  by pat_completeness auto
termination
  by (relation "measure (\<lambda>(irqs, k, s, len). len)") auto

declare rand_loop.simps [simp del]

definition mix_nonce :: "u64 \<Rightarrow> bytes \<Rightarrow> bytes" where
  "mix_nonce t nonce = map (\<lambda>i. if i < 8 then nonce ! i XOR ucast (drop_bit (8 * i) t AND 0xFF) else nonce ! i) [0..<12]"

definition rand_bytes :: "u64 \<Rightarrow> (nat \<Rightarrow> (bytes \<times> u32) list) \<Rightarrow> rng \<Rightarrow> u32 \<Rightarrow> bytes \<Rightarrow> rng \<times> bytes \<times> int" where
  "rand_bytes t irqs s len out =
     (let nblocks = (len + 31) div 32
      in if \<not> rng_ready_flag s then (s, out, 0)
         else if (ucast (rng_counter s) :: u64) + ucast nblocks \<ge> 0xFFFFFFF0 then (s, out, 0)
         else let (s, bs) = rand_loop irqs 0 (s\<lparr>rng_nonce := mix_nonce t (rng_nonce s)\<rparr>) (unat len) in (s, blit out 0 bs, 1))"


text \<open>The static variables at power-on.\<close>

definition rng_boot :: rng where
  "rng_boot = \<lparr>rng_key = replicate 32 0, rng_nonce = replicate 12 0, rng_counter = 0, rng_ready_flag = False, hw_present = False,
     pool0 = replicate 16 (replicate 32 0), pool1 = replicate 16 (replicate 32 0), pool0_n = 0, pool1_n = 0, pool1_tick = 0,
     pool_src_mask = 0, pool_cls_win = replicate 5 0, reseed_gen = 0\<rparr>"

subsection \<open>Specification\<close>




text \<open>The gate: the samples since the last reseed with their classes, the classes ever seen, whether hardware bytes were
  mixed in, and readiness.\<close>

record gate =
  g_win :: "(bytes \<times> u32) list"
  g_seen :: u32
  g_hw :: bool
  g_ready :: bool

definition classes_of :: "(bytes \<times> u32) list \<Rightarrow> nat set" where
  "classes_of w = {b. b < 5 \<and> (\<exists>(e, m) \<in> set w. bit m b)}"

definition honest :: "gate \<Rightarrow> bool" where
  "honest g \<longleftrightarrow> (if g_hw g then 2 else 4) \<le> length (g_win g) \<and> 2 \<le> card (classes_of (g_win g)) \<and>
     (if g_hw g then 2 else 3) \<le> card {b. b < 5 \<and> bit (g_seen g) b} \<and> (g_hw g \<longrightarrow> bit (g_seen g) 3 \<or> bit (g_seen g) 4)"

definition g_add :: "bytes \<Rightarrow> u32 \<Rightarrow> gate \<Rightarrow> gate" where
  "g_add e m g = g\<lparr>g_win := g_win g @ [(e, m)], g_seen := g_seen g OR m\<rparr>"

definition g_reseed :: "gate \<Rightarrow> gate" where
  "g_reseed g = g\<lparr>g_win := [], g_ready := g_ready g \<or> honest g\<rparr>"

text \<open>What happens to the gate: a sample of 32 bytes with its classes arrives, and the sixteenth of a window reseeds; a seed
  is a sample of the boot class that reseeds at once; hardware bytes are found. \<open>declares g x\<close>: the event \<open>x\<close> is a reseed,
  and the window it closes is honest.\<close>

datatype rng_event = Sample bytes u32 | Seed_Sample bytes | Hardware

fun gate_step :: "gate \<Rightarrow> rng_event \<Rightarrow> gate" where
  "gate_step g (Sample e m) = (if length (g_win g) + 1 < 16 then g_add e m g else g_reseed (g_add e m g))"
| "gate_step g (Seed_Sample e) = g_reseed (g_add e 1 g)"
| "gate_step g Hardware = g\<lparr>g_hw := True\<rparr>"

definition gate_closed :: gate where
  "gate_closed = \<lparr>g_win = [], g_seen = 0, g_hw = False, g_ready = False\<rparr>"

definition gate_run :: "rng_event list \<Rightarrow> gate" where
  "gate_run tr = foldl gate_step gate_closed tr"






text \<open>A state of the generator and a state of the gate: the fast pool holds the samples of the window, never sixteen.\<close>

definition rng_rel :: "rng \<Rightarrow> gate \<Rightarrow> bool" where
  "rng_rel s g \<longleftrightarrow> pool0_n s = length (g_win g) \<and> length (pool0 s) = 16 \<and> take (pool0_n s) (pool0 s) = map fst (g_win g) \<and>
     pool_cls_win s = map (\<lambda>b. of_nat (32 * length (filter (\<lambda>(e, m). bit m b) (g_win g)))) [0..<5] \<and>
     pool_src_mask s = g_seen g \<and> hw_present s = g_hw g \<and> rng_ready_flag s = g_ready g"

definition slow_pool_ok :: "rng \<Rightarrow> bool" where
  "slow_pool_ok s \<longleftrightarrow> pool0_n s < 16 \<and> (pool1_n s = 0 \<or> pool1_n s = 1 \<and> unat (pool1_tick s) mod 16 < pool0_n s)"

text \<open>Fast key erasure: of every block of key stream the first half becomes the key, the second half is output. \<open>rng_before irqs s k\<close>
  is the state block \<open>k\<close> is generated from, \<open>rng_after irqs s n\<close> the state after \<open>n\<close> blocks. Without interrupts
  the stream is a function of the key, the nonce and the counter.\<close>

definition keystream :: "rng \<Rightarrow> bytes" where
  "keystream s = chacha20_encrypt (rng_key s) (rng_nonce s) (rng_counter s) (replicate 64 0)"

primrec rng_after :: "(nat \<Rightarrow> (bytes \<times> u32) list) \<Rightarrow> rng \<Rightarrow> nat \<Rightarrow> rng" where
  "rng_after irqs s 0 = s"
| "rng_after irqs s (Suc k) =
     (let q = stir_all (irqs k) (rng_after irqs s k) in q\<lparr>rng_counter := rng_counter q + 1, rng_key := take 32 (keystream q)\<rparr>)"

definition rng_before :: "(nat \<Rightarrow> (bytes \<times> u32) list) \<Rightarrow> rng \<Rightarrow> nat \<Rightarrow> rng" where
  "rng_before irqs s k = stir_all (irqs k) (rng_after irqs s k)"

fun fke_blocks :: "nat \<Rightarrow> bytes \<Rightarrow> bytes \<Rightarrow> u32 \<Rightarrow> bytes list" where
  "fke_blocks 0 nonce key c = []"
| "fke_blocks (Suc n) nonce key c =
     (let b = chacha20_encrypt key nonce c (replicate 64 0) in drop 32 b # fke_blocks n nonce (take 32 b) (c + 1))"

subsection \<open>The gate\<close>



lemma gate_run_snoc [simp]: "gate_run (tr @ [x]) = gate_step (gate_run tr) x" "gate_run [] = gate_closed"
  by (simp_all add: gate_run_def)















subsection \<open>Every call keeps the gate\<close>

definition rng_inv :: "rng \<Rightarrow> gate \<Rightarrow> bool" where
  "rng_inv s g \<longleftrightarrow> slow_pool_ok s \<and> rng_rel s g"


named_theorems rng_invs



lemma inv_output [rng_invs]: "rng_inv s g \<Longrightarrow> rng_inv (s\<lparr>rng_counter := c, rng_key := k\<rparr>) g" "rng_inv s g \<Longrightarrow> rng_inv (s\<lparr>rng_nonce := n\<rparr>) g"
  "rng_inv s g \<Longrightarrow> rng_inv (s\<lparr>rng_key := k\<rparr>) g"
  by (auto simp: rng_inv_def slow_pool_ok_def rng_rel_def)




lemma inv_rekey [rng_invs]: "rng_inv s g \<Longrightarrow> rng_inv (rng_rekey s) g"
  by (simp add: rng_rekey_def Let_def inv_output)

lemma inv_personalize [rng_invs]: "rng_inv s g \<Longrightarrow> rng_inv (rand_personalize d s) g"
  by (simp add: rand_personalize_def rng_invs)










subsection \<open>Output\<close>

lemma length_keystream [simp]: "length (keystream s) = 64"
  by (simp add: keystream_def)

lemma rng_after_shift:
  "rng_after irqs s (Suc n) = rng_after (\<lambda>k. irqs (Suc k)) (rng_after irqs s 1) n"
  by (induction n) (simp_all add: Let_def)

lemma rng_before_shift: "rng_before irqs s (Suc k) = rng_before (\<lambda>k. irqs (Suc k)) (rng_after irqs s 1) k"
  unfolding rng_before_def rng_after_shift ..

lemma rand_loop_after:
  "rand_loop irqs k s len =
     (let n = (len + 31) div 32; irq = (\<lambda>j. irqs (k + j))
      in (rng_after irq s n, take len (concat (map (\<lambda>j. drop 32 (keystream (rng_before irq s j))) [0..<n]))))"
proof (induction len arbitrary: k s rule: less_induct)
  case (less len)
  show ?case
  proof (cases "len = 0")
    case True
    then show ?thesis by (simp add: rand_loop.simps)
  next
    case False
    let ?n = "if len < 32 then len else 32" and ?q = "stir_all (irqs k) s" and ?irq = "\<lambda>j. irqs (k + j)"
    let ?s = "?q\<lparr>rng_counter := rng_counter ?q + 1, rng_key := take 32 (keystream ?q)\<rparr>" and ?m = "(len - ?n + 31) div 32"
    have n: "(len + 31) div 32 = Suc ?m" using False by (auto simp: div_if)
    have s1: "?s = rng_after ?irq s 1" by (simp add: Let_def)
    have b0: "keystream (rng_before ?irq s 0) = keystream ?q" by (simp add: rng_before_def)
    let ?out = "concat (map (\<lambda>j. drop 32 (keystream (rng_before (\<lambda>j. ?irq (Suc j)) (rng_after ?irq s 1) j))) [0..<?m])"
    have "rand_loop irqs k s len = (let (s, out) = rand_loop irqs (k + 1) ?s (len - ?n) in (s, take ?n (drop 32 (keystream ?q)) @ out))"
      using False by (simp add: rand_loop.simps [of irqs k s] rng_block_def keystream_def Let_def)
    also have "\<dots> = (rng_after (\<lambda>j. ?irq (Suc j)) ?s ?m, take ?n (drop 32 (keystream ?q)) @
        take (len - ?n) (concat (map (\<lambda>j. drop 32 (keystream (rng_before (\<lambda>j. ?irq (Suc j)) ?s j))) [0..<?m])))"
      using less.IH [of "len - ?n" "k + 1" ?s] False by (simp add: Let_def)
    also have "\<dots> = (rng_after ?irq s (Suc ?m), take ?n (drop 32 (keystream ?q)) @ take (len - ?n) ?out)"
      unfolding s1 rng_after_shift [of ?irq s ?m] ..
    also have "take ?n (drop 32 (keystream ?q)) @ take (len - ?n) ?out = take len (drop 32 (keystream ?q) @ ?out)"
      by (simp add: take_append)
    also have "drop 32 (keystream ?q) @ ?out = concat (map (\<lambda>j. drop 32 (keystream (rng_before ?irq s j))) [0..<Suc ?m])"
      by (simp only: map_upt_Suc concat.simps b0 rng_before_shift)
    finally show ?thesis unfolding n Let_def .
  qed
qed

lemma length_halves: "length (concat (map (\<lambda>j. drop 32 (keystream (f j))) [0..<n])) = 32 * n"
  by (induction n) simp_all

lemma quiet_fke:
  assumes "\<And>k. irqs k = []"
  shows "map (\<lambda>j. drop 32 (keystream (rng_before irqs s j))) [0..<n] = fke_blocks n (rng_nonce s) (rng_key s) (rng_counter s)"
proof -
  have "irqs = (\<lambda>_. [])" using assms by auto
  moreover have "map (\<lambda>j. drop 32 (keystream (rng_before (\<lambda>_. []) s j))) [0..<n] = fke_blocks n (rng_nonce s) (rng_key s) (rng_counter s)"
  proof (induction n arbitrary: s)
    case (Suc n)
    let ?s = "rng_after (\<lambda>_. []) s 1"
    have "keystream (rng_before (\<lambda>_. []) s 0) = chacha20_encrypt (rng_key s) (rng_nonce s) (rng_counter s) (replicate 64 0)"
      "rng_nonce ?s = rng_nonce s" "rng_key ?s = take 32 (chacha20_encrypt (rng_key s) (rng_nonce s) (rng_counter s) (replicate 64 0))"
      "rng_counter ?s = rng_counter s + 1"
      by (simp_all add: rng_before_def stir_all_def keystream_def Let_def)
    then show ?case using Suc [of ?s] by (simp only: map_upt_Suc rng_before_shift fke_blocks.simps Let_def)
  qed simp
  ultimately show ?thesis by simp
qed

text \<open>The guard of \<open>rand_bytes\<close>. The number of blocks is computed in 32 bits: for lengths above \<open>0xFFFFFFE0\<close> it wraps to zero.\<close>

lemma guard_blocks:
  fixes len :: u32
  shows "unat ((len + 31) div 32) = (if unat len \<le> 0xFFFFFFE0 then (unat len + 31) div 32 else 0)"
proof -
  have l: "unat len < 4294967296" using unsigned_less [of len] by simp
  have "unat (len + 31) = (unat len + 31) mod 4294967296" by (simp add: unat_word_ariths)
  then have "unat ((len + 31) div 32) = (unat len + 31) mod 4294967296 div 32" by (simp add: unat_div)
  moreover have "(unat len + 31) mod 4294967296 div 32 = 0" if "0xFFFFFFE0 < unat len"
  proof -
    have "(unat len + 31) mod 4294967296 = unat len + 31 - 4294967296" using l that by (subst le_mod_geq) simp_all
    then show ?thesis using l by simp
  qed
  ultimately show ?thesis using l by (cases "unat len \<le> 0xFFFFFFE0") simp_all
qed

lemma guard_sum:
  "(ucast c :: u64) + ucast n \<ge> 0xFFFFFFF0 \<longleftrightarrow> unat c + unat n \<ge> 0xFFFFFFF0" for c n :: u32
proof -
  have b: "unat w < 4294967296" for w :: u32 using unsigned_less [of w] by simp
  have u: "unat (ucast w :: u64) = unat w" for w :: u32
    using b [of w] by (simp add: unsigned_ucast_eq take_bit_nat_eq_self)
  have "unat ((ucast c :: u64) + ucast n) = unat c + unat n"
    using b [of c] b [of n] by (subst unat_plus_small) (simp_all only: u, simp)
  then show ?thesis by (simp add: word_le_nat_alt)
qed

lemma rand_bytes_eq:
  "rand_bytes t irqs s len out =
     (if \<not> rng_ready_flag s \<or> 0xFFFFFFF0 \<le> unat (rng_counter s) + unat ((len + 31) div 32) then (s, out, 0)
      else let n = (unat len + 31) div 32; s0 = s\<lparr>rng_nonce := mix_nonce t (rng_nonce s)\<rparr>
           in (rng_after irqs s0 n, blit out 0 (take (unat len) (concat (map (\<lambda>j. drop 32 (keystream (rng_before irqs s0 j))) [0..<n]))), 1))"
  unfolding rand_bytes_def Let_def guard_sum by (simp add: rand_loop_after Let_def)




text \<open>With the counter at its limit a request of \<open>0xFFFFFFE1\<close> bytes or more is served all the same.\<close>

lemma rand_bytes_wraps:
  assumes "rng_ready_flag s" "rng_counter s = 0xFFFFFFEF" "0xFFFFFFE0 < len"
  shows "snd (snd (rand_bytes t irqs s len out)) = 1" and "snd (snd (rand_bytes t irqs s 1 out')) = 0"
proof -
  have "unat ((len + 31) div 32) = 0" using assms(3) guard_blocks [of len] by (simp add: word_less_nat_alt)
  then show "snd (snd (rand_bytes t irqs s len out)) = 1" using assms by (simp add: rand_bytes_eq Let_def)
  show "snd (snd (rand_bytes t irqs s 1 out')) = 0" using assms by (simp add: rand_bytes_eq)
qed

subsection \<open>Properties\<close>







text \<open>C40. Random bytes, for requests of at most \<open>0xFFFFFFE0\<close> bytes (above that the count of blocks wraps). Before the
  generator is ready, or when the block counter would run out, \<open>rand_bytes\<close> returns 0 and changes neither the state nor the buffer.
  Otherwise it returns 1 and fills the buffer, whatever samples interrupts stir in before each block: block \<open>k\<close> of the output is the
  second half of the key stream of the state at that moment, and the first half has replaced the key before the next
  interrupt. Without interrupts the output is the fast-key-erasure stream of the key, the nonce mixed with the
  time stamp, and the counter.\<close>

theorem rand_bytes_output:
  assumes "length out = unat len" "unat len \<le> 0xFFFFFFE0"
  shows "let n = (unat len + 31) div 32; s0 = s\<lparr>rng_nonce := mix_nonce t (rng_nonce s)\<rparr>;
             refused = (\<not> rng_ready_flag s \<or> 0xFFFFFFF0 \<le> unat (rng_counter s) + n)
         in (refused \<longrightarrow> rand_bytes t irqs s len out = (s, out, 0)) \<and>
            (\<not> refused \<longrightarrow> rand_bytes t irqs s len out =
               (rng_after irqs s0 n, take (unat len) (concat (map (\<lambda>k. drop 32 (keystream (rng_before irqs s0 k))) [0..<n])), 1)) \<and>
            (\<not> refused \<and> (\<forall>k. irqs k = []) \<longrightarrow> fst (snd (rand_bytes t irqs s len out)) =
               take (unat len) (concat (fke_blocks n (rng_nonce s0) (rng_key s) (rng_counter s))))"
proof -
  let ?n = "(unat len + 31) div 32" and ?s = "s\<lparr>rng_nonce := mix_nonce t (rng_nonce s)\<rparr>"
  let ?bs = "take (unat len) (concat (map (\<lambda>k. drop 32 (keystream (rng_before irqs ?s k))) [0..<?n]))"
  let ?r = "\<not> rng_ready_flag s \<or> 0xFFFFFFF0 \<le> unat (rng_counter s) + ?n"
  have g: "unat ((len + 31) div 32) = ?n" using assms(2) by (simp add: guard_blocks)
  have "unat len \<le> 32 * ?n" by linarith
  then have "length ?bs = length out" using assms(1) by (simp add: length_halves)
  then have "blit out 0 ?bs = ?bs" by (rule blit_all)
  then have e: "rand_bytes t irqs s len out = (if ?r then (s, out, 0) else (rng_after irqs ?s ?n, ?bs, 1))"
    unfolding rand_bytes_eq g Let_def by simp
  have q: "map (\<lambda>k. drop 32 (keystream (rng_before irqs ?s k))) [0..<?n] = fke_blocks ?n (rng_nonce ?s) (rng_key s) (rng_counter s)"
    if "\<forall>k. irqs k = []" using quiet_fke [of irqs ?s ?n] that by simp
  show ?thesis
  proof (cases ?r)
    case True
    then show ?thesis unfolding Let_def e by (simp only: if_True simp_thms)
  next
    case False
    then show ?thesis unfolding Let_def e by (simp only: if_False simp_thms fst_conv snd_conv) (simp only: q simp_thms cong: imp_cong)
  qed
qed

theorem rand_bytes_output_witness:
  "rand_bytes 5 (\<lambda>_. [([7], 2)]) rng_boot 3 [9, 9, 9] = (rng_boot, [9, 9, 9], 0) \<and>
   snd (snd (rand_bytes 5 (\<lambda>_. [([7], 2)]) (rng_boot\<lparr>rng_ready_flag := True\<rparr>) 3 [9, 9, 9])) = 1"
  using rand_bytes_output [where out = "[9, 9, 9]" and len = 3 and s = rng_boot and t = 5 and irqs = "\<lambda>_. [([7], 2)]"]
    rand_bytes_output [where out = "[9, 9, 9]" and len = 3 and s = "rng_boot\<lparr>rng_ready_flag := True\<rparr>" and t = 5 and irqs = "\<lambda>_. [([7], 2)]"]
  by (simp add: rng_boot_def Let_def)

end
