(* ===== verification/Pmm.thy ===== *)
theory Pmm
  imports Prelude
begin

text \<open>
  The physical page allocator (\<open>src/memory.c\<close>, first half): a bitmap with one bit per 4 KB page.
  Each entry point runs with interrupts masked and the allocator's lock held, so its body is one
  atomic step here. Page numbers are below \<open>MAX_RAM_PAGES\<close>, so their 32-bit arithmetic does not
  wrap and is written on numbers; the bitmap keeps its bytes.
\<close>

unbundle bit_operations_syntax

subsection \<open>The model\<close>

definition PAGE_SIZE :: nat where "PAGE_SIZE = 4096"
definition MAX_RAM_PAGES :: nat where "MAX_RAM_PAGES = 896 * 256"
definition BITMAP_SIZE :: nat where "BITMAP_SIZE = MAX_RAM_PAGES div 8"

record pmm =
  bitmap :: bytes
  total_pages :: nat
  used_pages :: nat

definition bitmap_set :: "bytes \<Rightarrow> nat \<Rightarrow> bytes" where
  "bitmap_set bm page = bm[page div 8 := bm ! (page div 8) OR push_bit (page mod 8) 1]"

definition bitmap_clear :: "bytes \<Rightarrow> nat \<Rightarrow> bytes" where
  "bitmap_clear bm page = bm[page div 8 := bm ! (page div 8) AND NOT (push_bit (page mod 8) 1)]"

definition bitmap_test :: "bytes \<Rightarrow> nat \<Rightarrow> bool" where
  "bitmap_test bm page \<longleftrightarrow> bm ! (page div 8) AND push_bit (page mod 8) 1 \<noteq> 0"

text \<open>The scan \<open>for (i = 0; i < total_pages; i++) if (!bitmap_test(i))\<close>.\<close>

definition first_free :: "pmm \<Rightarrow> nat option" where
  "first_free s = List.find (\<lambda>i. \<not> bitmap_test (bitmap s) i) [0..<total_pages s]"

definition pmm_alloc_page :: "pmm \<Rightarrow> pmm \<times> u32" where
  "pmm_alloc_page s =
     (case first_free s of
        Some i \<Rightarrow> (s\<lparr>bitmap := bitmap_set (bitmap s) i, used_pages := used_pages s + 1\<rparr>, of_nat (i * PAGE_SIZE))
      | None \<Rightarrow> (s, 0))"

definition pmm_free_page :: "pmm \<Rightarrow> u32 \<Rightarrow> pmm" where
  "pmm_free_page s addr =
     (let page = unat addr div PAGE_SIZE
      in if page < total_pages s \<and> bitmap_test (bitmap s) page
         then s\<lparr>bitmap := bitmap_clear (bitmap s) page, used_pages := used_pages s - 1\<rparr>
         else s)"

definition pmm_get_free_pages :: "pmm \<Rightarrow> nat" where
  "pmm_get_free_pages s = total_pages s - used_pages s"

text \<open>The count at the end of \<open>memory_init\<close>.\<close>

definition count_used :: "bytes \<Rightarrow> nat \<Rightarrow> nat" where
  "count_used bm n = foldl (\<lambda>k i. if bitmap_test bm i then k + 1 else k) 0 [0..<n]"

subsection \<open>Invariant and abstraction\<close>

definition used_set :: "pmm \<Rightarrow> nat set" where
  "used_set s = {i. i < total_pages s \<and> bitmap_test (bitmap s) i}"

definition pmm_wf :: "pmm \<Rightarrow> bool" where
  "pmm_wf s \<longleftrightarrow> length (bitmap s) = BITMAP_SIZE \<and> total_pages s \<le> MAX_RAM_PAGES \<and>
     used_pages s = card (used_set s) \<and> (0 < total_pages s \<longrightarrow> bitmap_test (bitmap s) 0)"

subsection \<open>Bits\<close>

lemma bitmap_test_bit: "bitmap_test bm i \<longleftrightarrow> bit (bm ! (i div 8)) (i mod 8)"
  by (simp add: bitmap_test_def push_bit_eq_mult and_exp_eq_0_iff_not_bit)

lemma div_mod_eq: "i div 8 = j div 8 \<Longrightarrow> i mod 8 = j mod 8 \<Longrightarrow> i = j" for i j :: nat
  by (metis div_mult_mod_eq)

lemma test_set:
  assumes "i div 8 < length bm"
  shows "bitmap_test (bitmap_set bm i) j \<longleftrightarrow> j = i \<or> bitmap_test bm j"
proof (cases "j div 8 = i div 8")
  case True
  then show ?thesis
    using assms div_mod_eq [of j i]
    by (auto simp: bitmap_test_bit bitmap_set_def bit_simps)
qed (auto simp: bitmap_test_bit bitmap_set_def)

lemma test_clear:
  assumes "i div 8 < length bm"
  shows "bitmap_test (bitmap_clear bm i) j \<longleftrightarrow> j \<noteq> i \<and> bitmap_test bm j"
proof (cases "j div 8 = i div 8")
  case True
  then show ?thesis
    using assms div_mod_eq [of j i]
    by (auto simp: bitmap_test_bit bitmap_clear_def bit_simps)
qed (auto simp: bitmap_test_bit bitmap_clear_def)

lemma length_bitmap_set [simp]: "length (bitmap_set bm i) = length bm"
  by (simp add: bitmap_set_def)

lemma length_bitmap_clear [simp]: "length (bitmap_clear bm i) = length bm"
  by (simp add: bitmap_clear_def)

lemma finite_used [simp]: "finite (used_set s)"
  by (simp add: used_set_def)

lemma page_in_bitmap: "pmm_wf s \<Longrightarrow> i < total_pages s \<Longrightarrow> i div 8 < length (bitmap s)"
  by (simp add: pmm_wf_def BITMAP_SIZE_def MAX_RAM_PAGES_def less_mult_imp_div_less)

lemma page_addr: "i < MAX_RAM_PAGES \<Longrightarrow> unat (of_nat (i * PAGE_SIZE) :: u32) = i * PAGE_SIZE"
  by (intro unat_of_nat_small) (simp add: MAX_RAM_PAGES_def PAGE_SIZE_def)

lemma count_used_card: "count_used bm n = card {i. i < n \<and> bitmap_test bm i}"
proof (induction n)
  case (Suc n)
  have "{i. i < Suc n \<and> bitmap_test bm i} =
      (if bitmap_test bm n then insert n {i. i < n \<and> bitmap_test bm i} else {i. i < n \<and> bitmap_test bm i})"
    by (auto simp: less_Suc_eq)
  then show ?case using Suc by (simp add: count_used_def)
qed (simp add: count_used_def)

subsection \<open>The operations on used sets\<close>

lemma first_free_Some:
  "first_free s = Some i \<Longrightarrow> i < total_pages s \<and> i \<notin> used_set s \<and> (\<forall>j < i. j \<in> used_set s)"
  by (fastforce simp: first_free_def find_Some_iff used_set_def)

lemma first_free_None: "first_free s = None \<Longrightarrow> used_set s = {0..<total_pages s}"
  by (auto simp: first_free_def find_None_iff used_set_def)

lemma alloc_some:
  assumes "pmm_wf s" "first_free s = Some i"
  shows "used_set (fst (pmm_alloc_page s)) = insert i (used_set s)" "pmm_wf (fst (pmm_alloc_page s))"
    "snd (pmm_alloc_page s) = of_nat (i * PAGE_SIZE)" "0 < i"
proof -
  note i = first_free_Some [OF assms(2)]
  have b: "i div 8 < length (bitmap s)" using page_in_bitmap assms(1) i by blast
  show u: "used_set (fst (pmm_alloc_page s)) = insert i (used_set s)"
    using i assms(2) by (auto simp: pmm_alloc_page_def used_set_def test_set [OF b])
  show "0 < i" using i assms(1) by (cases i) (auto simp: pmm_wf_def used_set_def)
  show "pmm_wf (fst (pmm_alloc_page s))"
    unfolding pmm_wf_def u using assms i by (auto simp: pmm_alloc_page_def pmm_wf_def test_set [OF b])
  show "snd (pmm_alloc_page s) = of_nat (i * PAGE_SIZE)"
    using assms(2) by (simp add: pmm_alloc_page_def)
qed

lemma free_used:
  assumes "pmm_wf s"
  shows "used_set (pmm_free_page s a) = used_set s - {unat a div PAGE_SIZE}"
    "unat a div PAGE_SIZE \<noteq> 0 \<Longrightarrow> pmm_wf (pmm_free_page s a)"
    "total_pages (pmm_free_page s a) = total_pages s"
proof -
  let ?p = "unat a div PAGE_SIZE"
  show t: "total_pages (pmm_free_page s a) = total_pages s"
    by (simp add: pmm_free_page_def Let_def)
  show u: "used_set (pmm_free_page s a) = used_set s - {?p}"
  proof (cases "?p < total_pages s \<and> bitmap_test (bitmap s) ?p")
    case True
    then show ?thesis
      using test_clear [OF page_in_bitmap [OF assms], of ?p]
      by (auto simp: pmm_free_page_def Let_def used_set_def)
  qed (auto simp: pmm_free_page_def Let_def used_set_def)
  show "pmm_wf (pmm_free_page s a)" if "?p \<noteq> 0"
  proof (cases "?p \<in> used_set s")
    case True
    then show ?thesis
      unfolding pmm_wf_def u using assms that test_clear [OF page_in_bitmap [OF assms], of ?p]
      by (auto simp: pmm_free_page_def Let_def pmm_wf_def used_set_def)
  next
    case False
    then have "pmm_free_page s a = s" by (auto simp: pmm_free_page_def Let_def used_set_def)
    then show ?thesis using assms by simp
  qed
qed

subsection \<open>The interface of a page source\<close>

text \<open>What the users of the allocator (page tables, process stacks, the heap) rely on: a page that
  is handed out was not held before and stays held until it is freed.\<close>

primrec alloc_many :: "('s \<Rightarrow> 's \<times> 'a) \<Rightarrow> nat \<Rightarrow> 's \<Rightarrow> 's \<times> 'a list" where
  "alloc_many alloc 0 s = (s, [])"
| "alloc_many alloc (Suc n) s =
     (let (s, p) = alloc s; (s, ps) = alloc_many alloc n s in (s, p # ps))"

locale page_source =
  fixes alloc :: "'s \<Rightarrow> 's \<times> 'a"
    and release :: "'s \<Rightarrow> 'a \<Rightarrow> 's"
    and held :: "'s \<Rightarrow> 'a set"
    and wf :: "'s \<Rightarrow> bool"
    and null :: 'a
  assumes alloc_new: "wf s \<Longrightarrow> alloc s = (s', p) \<Longrightarrow> p \<noteq> null \<Longrightarrow>
      p \<notin> held s \<and> held s' = insert p (held s) \<and> wf s'"
    and alloc_null: "wf s \<Longrightarrow> alloc s = (s', null) \<Longrightarrow> s' = s"
    and release_held: "wf s \<Longrightarrow> p \<in> held s \<Longrightarrow> p \<noteq> null \<Longrightarrow>
      held (release s p) = held s - {p} \<and> wf (release s p)"
begin

lemma alloc_many_distinct:
  "wf s \<Longrightarrow> alloc_many alloc n s = (s', ps) \<Longrightarrow> null \<notin> set ps \<Longrightarrow>
   distinct ps \<and> set ps \<inter> held s = {} \<and> held s' = held s \<union> set ps \<and> wf s'"
proof (induction n arbitrary: s ps)
  case (Suc n)
  obtain s1 p where a: "alloc s = (s1, p)" by fastforce
  obtain qs where q: "alloc_many alloc n s1 = (s', qs)" "ps = p # qs"
    using Suc.prems(2) a by (auto split: prod.splits)
  have n: "p \<notin> held s \<and> held s1 = insert p (held s) \<and> wf s1"
    using alloc_new [OF Suc.prems(1) a] Suc.prems(3) q(2) by auto
  then show ?case using Suc.IH [of s1 qs] q Suc.prems(3) by auto
qed simp

lemma release_many:
  "wf s \<Longrightarrow> distinct ps \<Longrightarrow> set ps \<subseteq> held s \<Longrightarrow> null \<notin> set ps \<Longrightarrow>
   held (foldl release s ps) = held s - set ps \<and> wf (foldl release s ps)"
proof (induction ps arbitrary: s)
  case (Cons p ps)
  then have "held (release s p) = held s - {p}" "wf (release s p)" using release_held by auto
  then show ?case using Cons.IH [of "release s p"] Cons.prems by auto
qed simp

lemma borrow:
  assumes "wf s" "alloc_many alloc n s = (s', ps)" "null \<notin> set ps"
  shows "held (foldl release s' ps) = held s"
  using alloc_many_distinct [OF assms] release_many [of s' ps] assms(3) by auto

end

definition held_pages :: "pmm \<Rightarrow> u32 set" where
  "held_pages s = (\<lambda>i. of_nat (i * PAGE_SIZE)) ` used_set s"

lemma used_bound: "pmm_wf s \<Longrightarrow> i \<in> used_set s \<Longrightarrow> i < MAX_RAM_PAGES"
  by (auto simp: pmm_wf_def used_set_def)

lemma page_of_addr: "i < MAX_RAM_PAGES \<Longrightarrow> unat (of_nat (i * PAGE_SIZE) :: u32) div PAGE_SIZE = i"
  by (simp only: page_addr) (simp add: PAGE_SIZE_def)

lemma page_addr_inj:
  "i < MAX_RAM_PAGES \<Longrightarrow> j < MAX_RAM_PAGES \<Longrightarrow>
   (of_nat (i * PAGE_SIZE) :: u32) = of_nat (j * PAGE_SIZE) \<longleftrightarrow> i = j"
  by (metis page_of_addr)

lemma alloc_cases:
  assumes "pmm_wf s"
  obtains (page) i where "first_free s = Some i" "i < MAX_RAM_PAGES" "i \<notin> used_set s" "0 < i"
    "pmm_alloc_page s = (fst (pmm_alloc_page s), of_nat (i * PAGE_SIZE))" "of_nat (i * PAGE_SIZE) \<noteq> (0 :: u32)"
  | (none) "first_free s = None" "pmm_alloc_page s = (s, 0)"
proof (cases "first_free s")
  case None
  then show ?thesis by (intro none) (simp_all add: pmm_alloc_page_def)
next
  case (Some i)
  note a = alloc_some [OF assms Some] and f = first_free_Some [OF Some]
  have i: "i < MAX_RAM_PAGES" using f assms by (auto simp: pmm_wf_def)
  have "(of_nat (i * PAGE_SIZE) :: u32) \<noteq> of_nat (0 * PAGE_SIZE)"
    using page_addr_inj [OF i, of 0] a(4) by (simp add: MAX_RAM_PAGES_def)
  then show ?thesis using page [OF Some i] f a(3,4) by (metis mult_0 of_nat_0 prod.collapse)
qed

interpretation pages: page_source pmm_alloc_page pmm_free_page held_pages pmm_wf 0
proof
  fix s s' p
  assume w: "pmm_wf s" and a: "pmm_alloc_page s = (s', p)" and p: "p \<noteq> 0"
  show "p \<notin> held_pages s \<and> held_pages s' = insert p (held_pages s) \<and> pmm_wf s'"
  proof (cases rule: alloc_cases [OF w, case_names page none])
    case (page i)
    then have "p = of_nat (i * PAGE_SIZE)" using a by simp
    then show ?thesis
      using alloc_some [OF w page(1)] page(2,3) a used_bound [OF w] page_addr_inj [of i]
      by (auto simp: held_pages_def)
  next
    case none
    then show ?thesis using a p by simp
  qed
next
  fix s s'
  assume w: "pmm_wf s" and a: "pmm_alloc_page s = (s', 0)"
  show "s' = s" using a by (cases rule: alloc_cases [OF w, case_names page none]) auto
next
  fix s p
  assume w: "pmm_wf s" and p: "p \<in> held_pages s" "p \<noteq> 0"
  obtain i where i: "i \<in> used_set s" "p = of_nat (i * PAGE_SIZE)" using p by (auto simp: held_pages_def)
  have im: "i < MAX_RAM_PAGES" using used_bound [OF w i(1)] .
  have d: "unat p div PAGE_SIZE = i" unfolding i(2) by (rule page_of_addr [OF im])
  have "i \<noteq> 0" using i(2) p(2) by (cases i) auto
  then show "held_pages (pmm_free_page s p) = held_pages s - {p} \<and> pmm_wf (pmm_free_page s p)"
    using free_used [OF w, of p] d i(2) page_addr_inj [OF _ im] used_bound [OF w]
    by (auto simp: held_pages_def)
qed

subsection \<open>Properties\<close>

text \<open>Allocation hands out the lowest free page, marks exactly that page and counts it; it returns 0
  exactly when every managed page is in use, and then changes nothing. Page 0 is never handed
  out, so 0 is no page's address.\<close>

theorem pmm_alloc_lowest:
  assumes "pmm_wf s"
  shows "case pmm_alloc_page s of (s', p) \<Rightarrow> pmm_wf s' \<and>
    (if used_set s = {0..<total_pages s} then p = 0 \<and> s' = s
     else p \<noteq> 0 \<and> unat p mod 4096 = 0 \<and> unat p div 4096 < total_pages s \<and>
       unat p div 4096 \<notin> used_set s \<and> (\<forall>j < unat p div 4096. j \<in> used_set s) \<and>
       used_set s' = insert (unat p div 4096) (used_set s) \<and> used_pages s' = used_pages s + 1)"
proof (cases rule: alloc_cases [OF assms, case_names page none])
  case (page i)
  have "unat (of_nat (i * PAGE_SIZE) :: u32) = i * 4096" using page_addr [OF page(2)] by (simp add: PAGE_SIZE_def)
  moreover have "used_set s \<noteq> {0..<total_pages s}" using first_free_Some [OF page(1)] by auto
  ultimately show ?thesis
    using page first_free_Some [OF page(1)] alloc_some [OF assms page(1)]
    by (auto simp: pmm_alloc_page_def)
next
  case none
  then show ?thesis using assms first_free_None [OF none(1)] by simp
qed

theorem pmm_alloc_lowest_witness:
  "\<exists>s. used_set s = {0, 1} \<and> (case pmm_alloc_page s of (s', p) \<Rightarrow> p \<noteq> 0 \<and> unat p div 4096 \<notin> {0, 1})"
proof -
  obtain r :: bytes where r: "length r = 28671" using Ex_list_of_length by blast
  let ?s = "\<lparr>bitmap = 3 # r, total_pages = 4, used_pages = 2\<rparr> :: pmm"
  have t: "bitmap_test (3 # r) 0" "bitmap_test (3 # r) (Suc 0)" "\<not> bitmap_test (3 # r) 2"
    "\<not> bitmap_test (3 # r) 3"
    by (simp_all add: bitmap_test_def)
  have "i \<in> used_set ?s \<longleftrightarrow> i \<in> {0, 1}" for i
  proof -
    have "i < 4 \<Longrightarrow> i = 0 \<or> i = Suc 0 \<or> i = 2 \<or> i = 3" by linarith
    then show ?thesis using t by (auto simp: used_set_def)
  qed
  then have u: "used_set ?s = {0, 1}" by blast
  have w: "pmm_wf ?s" using t r by (simp add: pmm_wf_def u BITMAP_SIZE_def MAX_RAM_PAGES_def)
  have ne: "{0, 1} \<noteq> {0..<total_pages ?s}"
  proof
    assume "{0, 1} = {0..<total_pages ?s}"
    then have "(2 :: nat) \<in> {0, 1}" by simp
    then show False by simp
  qed
  obtain s' p where a: "pmm_alloc_page ?s = (s', p)" by fastforce
  have "p \<noteq> 0 \<and> unat p div 4096 \<notin> {0, 1}"
    using pmm_alloc_lowest [OF w, unfolded u a prod.case] ne by metis
  with u a show ?thesis by (intro exI [of _ ?s]) (simp only: prod.case simp_thms)
qed

text \<open>C33. Pages obtained by any number of allocations are pairwise different and none was held before,
  and giving them all back restores the set of held pages.\<close>

theorem pmm_pages_exclusive:
  assumes "pmm_wf s" and "alloc_many pmm_alloc_page n s = (s', ps)" and "0 \<notin> set ps"
  shows "distinct ps \<and> set ps \<inter> held_pages s = {} \<and> held_pages s' = held_pages s \<union> set ps \<and> pmm_wf s' \<and>
    held_pages (foldl pmm_free_page s' ps) = held_pages s"
  using pages.alloc_many_distinct [OF assms] pages.borrow [OF assms] by simp

theorem pmm_pages_exclusive_witness:
  "\<exists>s s' p q. alloc_many pmm_alloc_page 2 s = (s', [p, q]) \<and> p \<noteq> q \<and>
     held_pages (foldl pmm_free_page s' [p, q]) = held_pages s"
proof -
  obtain r :: bytes where r: "length r = 28671" using Ex_list_of_length by blast
  let ?s = "\<lparr>bitmap = 1 # r, total_pages = 3, used_pages = Suc 0\<rparr> :: pmm"
  have t: "bitmap_test (1 # r) 0" "\<not> bitmap_test (1 # r) (Suc 0)" "bitmap_test (3 # r) 0"
    "bitmap_test (3 # r) (Suc 0)" "\<not> bitmap_test (3 # r) 2" "\<not> bitmap_test (1 # r) 2"
    by (simp_all add: bitmap_test_def)
  have "i \<in> used_set ?s \<longleftrightarrow> i \<in> {0}" for i
  proof -
    have "i < 3 \<Longrightarrow> i = 0 \<or> i = Suc 0 \<or> i = 2" by linarith
    then show ?thesis using t by (auto simp: used_set_def)
  qed
  then have u: "used_set ?s = {0}" by blast
  have w: "pmm_wf ?s" using t r by (simp add: pmm_wf_def u BITMAP_SIZE_def MAX_RAM_PAGES_def)
  have r3: "[0..<3] = [0, Suc 0, 2]" by (simp add: upt_rec)
  have "alloc_many pmm_alloc_page 2 ?s =
      (\<lparr>bitmap = 7 # r, total_pages = 3, used_pages = 3\<rparr>, [4096, 8192])"
    using t by (simp add: numeral_2_eq_2 pmm_alloc_page_def first_free_def r3 bitmap_set_def PAGE_SIZE_def)
  with pmm_pages_exclusive [OF w this] show ?thesis
    by (intro exI [of _ ?s] exI [of _ "\<lparr>bitmap = 7 # r, total_pages = 3, used_pages = 3\<rparr>"]
        exI [of _ 4096] exI [of _ 8192]) simp
qed

text \<open>Freeing clears exactly the page that holds the address; freeing a free or an unmanaged page,
  a double free in particular, changes nothing.\<close>

theorem pmm_free_exact:
  assumes "pmm_wf s" and "4096 \<le> unat a"
  shows "pmm_wf (pmm_free_page s a) \<and> used_set (pmm_free_page s a) = used_set s - {unat a div 4096} \<and>
    used_pages (pmm_free_page s a) = used_pages s - (if unat a div 4096 \<in> used_set s then 1 else 0) \<and>
    (unat a div 4096 \<notin> used_set s \<longrightarrow> pmm_free_page s a = s) \<and>
    pmm_free_page (pmm_free_page s a) a = pmm_free_page s a"
proof -
  let ?p = "unat a div 4096"
  have p: "unat a div PAGE_SIZE = ?p" "?p \<noteq> 0" using assms(2) by (simp_all add: PAGE_SIZE_def div_eq_0_iff)
  have id: "pmm_free_page s a = s" if "?p \<notin> used_set s" for s
    using that p(1) by (auto simp: pmm_free_page_def Let_def used_set_def)
  note f = free_used [OF assms(1), of a, unfolded p(1)]
  have "used_pages (pmm_free_page s a) = used_pages s - 1" if "?p \<in> used_set s"
    using that p(1) by (auto simp: pmm_free_page_def Let_def used_set_def)
  then show ?thesis using f p(2) id [of s] id [of "pmm_free_page s a"] by auto
qed

theorem pmm_free_exact_witness:
  "\<exists>s. used_set s = {0} \<and> pmm_free_page s 8192 = s"
proof -
  obtain r :: bytes where r: "length r = 28671" using Ex_list_of_length by blast
  let ?s = "\<lparr>bitmap = 1 # r, total_pages = 3, used_pages = Suc 0\<rparr> :: pmm"
  have t: "bitmap_test (1 # r) 0" "\<not> bitmap_test (1 # r) (Suc 0)" "\<not> bitmap_test (1 # r) 2"
    by (simp_all add: bitmap_test_def)
  have "i \<in> used_set ?s \<longleftrightarrow> i \<in> {0}" for i
  proof -
    have "i < 3 \<Longrightarrow> i = 0 \<or> i = Suc 0 \<or> i = 2" by linarith
    then show ?thesis using t by (auto simp: used_set_def)
  qed
  then have u: "used_set ?s = {0}" by blast
  have "pmm_wf ?s" using t r by (simp add: pmm_wf_def u BITMAP_SIZE_def MAX_RAM_PAGES_def)
  from pmm_free_exact [OF this, of 8192] u show ?thesis by (intro exI [of _ ?s]) simp
qed

end
