(* ===== verification/Pmm_Boot.thy ===== *)
theory Pmm_Boot
  imports Pmm
begin

text \<open>
  The start of the page allocator (\<open>memory_init\<close> in \<open>src/memory.c\<close>): the boot loader's memory map decides which
  pages are free, the kernel image, the boot structures and the boot modules (eight at most) stay in use. Physical memory is a
  function of the address; the linker symbol \<open>_kernel_end\<close> is an argument. The loops whose counters come from
  the boot loader are partial functions with the value \<open>None\<close> where they do not return. The theorem
  gives the free pages exactly. Messages on the serial line are left out.
\<close>

unbundle bit_operations_syntax

subsection \<open>The model\<close>

definition phys32 :: "(u32 \<Rightarrow> u8) \<Rightarrow> u32 \<Rightarrow> u32" where
  "phys32 ram a = le32 (ram a) (ram (a + 1)) (ram (a + 2)) (ram (a + 3))"

definition phys64 :: "(u32 \<Rightarrow> u8) \<Rightarrow> u32 \<Rightarrow> u64" where
  "phys64 ram a = ucast (phys32 ram a) OR push_bit 32 (ucast (phys32 ram (a + 4)))"

text \<open>One entry of the map: base, length and type.\<close>

definition mem_region :: "u32 \<Rightarrow> u64 \<Rightarrow> u64 \<Rightarrow> u32 \<Rightarrow> bytes \<times> nat \<Rightarrow> bytes \<times> nat" where
  "mem_region kernel_end base len type = (\<lambda>(bm, tot).
     if type \<noteq> 1 \<or> len = 0 then (bm, tot)
     else let fin = base + len;
              cap = of_nat (MAX_RAM_PAGES * PAGE_SIZE);
              fin = (if fin > cap then cap else fin);
              lo = (if base < ucast kernel_end then ucast kernel_end else base);
              lo = (if lo < 0x100000 then 0x100000 else lo);
              lo = (lo + 0xFFF) AND NOT 0xFFF;
              fin = fin AND NOT 0xFFF
       in if fin \<le> lo then (bm, tot)
          else (foldl bitmap_clear bm [unat lo div PAGE_SIZE..<unat fin div PAGE_SIZE], max tot (unat fin div PAGE_SIZE)))"

partial_function (option) mem_map :: "(u32 \<Rightarrow> u8) \<Rightarrow> u32 \<Rightarrow> u32 \<Rightarrow> u32 \<Rightarrow> u32 \<Rightarrow> bytes \<times> nat \<Rightarrow> (bytes \<times> nat) option" where
  "mem_map ram map_addr map_len kernel_end off s =
     (if off + 24 \<le> map_len
      then let e = map_addr + off; esz = phys32 ram e
        in if esz < 20 then Some s
           else mem_map ram map_addr map_len kernel_end (off + (esz + 4))
             (mem_region kernel_end (phys64 ram (e + 4)) (phys64 ram (e + 12)) (phys32 ram (e + 20)) s)
      else Some s)"

text \<open>\<open>for (a = ...; a < stop; a += PAGE_SIZE) if (a / PAGE_SIZE < total_pages) bitmap_set(a / PAGE_SIZE)\<close>.\<close>

partial_function (option) reserve_from :: "nat \<Rightarrow> u32 \<Rightarrow> u32 \<Rightarrow> bytes \<Rightarrow> bytes option" where
  "reserve_from tot stop a bm =
     (if a < stop
      then reserve_from tot stop (a + 0x1000) (if unat a div PAGE_SIZE < tot then bitmap_set bm (unat a div PAGE_SIZE) else bm)
      else Some bm)"

definition reserve :: "nat \<Rightarrow> u32 \<Rightarrow> u32 \<Rightarrow> bytes \<Rightarrow> bytes option" where
  "reserve tot start stop bm = reserve_from tot stop (start AND NOT 0xFFF) bm"

definition reserve_string :: "nat \<Rightarrow> u32 \<Rightarrow> bytes \<Rightarrow> bytes" where
  "reserve_string tot mstr bm =
     (if mstr \<noteq> 0 then let pg = unat mstr div PAGE_SIZE in if pg < tot then bitmap_set bm pg else bm else bm)"

fun reserve_modules :: "(u32 \<Rightarrow> u8) \<Rightarrow> nat \<Rightarrow> u32 \<Rightarrow> nat list \<Rightarrow> bytes \<Rightarrow> bytes option" where
  "reserve_modules ram tot maddr [] bm = Some bm"
| "reserve_modules ram tot maddr (m # ms) bm =
     (let me = maddr + of_nat (m * 16) in
      case reserve tot (phys32 ram me) (phys32 ram (me + 4)) bm of
        None \<Rightarrow> None
      | Some bm \<Rightarrow> reserve_modules ram tot maddr ms (reserve_string tot (phys32 ram (me + 8)) bm))"

text \<open>The part that keeps the boot loader's structures, with \<open>flags\<close> bit 3 for the modules.\<close>

definition reserve_boot :: "(u32 \<Rightarrow> u8) \<Rightarrow> u32 \<Rightarrow> u32 \<Rightarrow> u32 \<Rightarrow> u32 \<Rightarrow> bytes \<times> nat \<Rightarrow> bytes option" where
  "reserve_boot ram mp flags map_addr map_len = (\<lambda>(bm, tot).
     case reserve tot mp (mp + 128) bm of
       None \<Rightarrow> None
     | Some bm \<Rightarrow>
       (case reserve tot map_addr (map_addr + map_len) bm of
          None \<Rightarrow> None
        | Some bm \<Rightarrow>
          if bit flags 3
          then let mcount = phys32 ram (mp + 20); maddr = phys32 ram (mp + 24) in
            (case reserve tot maddr (maddr + mcount * 16 + 16) bm of
               None \<Rightarrow> None
             | Some bm \<Rightarrow> reserve_modules ram tot maddr [0..<min (unat mcount) 8] bm)
          else Some bm))"

definition kernel_end_phys :: "u32 \<Rightarrow> u32" where
  "kernel_end_phys ksym = ((if ksym \<ge> 0xC0000000 then ksym - 0xC0000000 else ksym) + 0xFFF) AND NOT 0xFFF"

definition memory_init :: "(u32 \<Rightarrow> u8) \<Rightarrow> u32 \<Rightarrow> u32 \<Rightarrow> pmm option" where
  "memory_init ram mboot_phys ksym =
     (let mp = mboot_phys; flags = phys32 ram mp; upper = phys32 ram (mp + 8);
          bm = replicate BITMAP_SIZE 0xFF; kernel_end = kernel_end_phys ksym;
          map_len = (if bit flags 6 then phys32 ram (mp + 44) else 0);
          map_addr = (if bit flags 6 then phys32 ram (mp + 48) else 0);
          finish = (\<lambda>(bm, tot). \<lparr>bitmap = bm, total_pages = tot, used_pages = count_used bm tot\<rparr>)
      in if map_len \<noteq> 0
         then (case mem_map ram map_addr map_len kernel_end 0 (bm, 0) of
                 None \<Rightarrow> None
               | Some (bm, tot) \<Rightarrow>
                   (case reserve_boot ram mp flags map_addr map_len (bm, tot) of
                      None \<Rightarrow> None | Some bm \<Rightarrow> Some (finish (bm, tot))))
         else let kb = (if bit flags 0 then upper else 15 * 1024);
                  tot = unat (kb * 1024) div PAGE_SIZE;
                  tot = (if tot > MAX_RAM_PAGES then MAX_RAM_PAGES else tot)
           in Some (finish (foldl bitmap_clear bm [unat kernel_end div PAGE_SIZE..<tot], tot)))"

text \<open>A boot module: its address in the high alias, its length and its command line (0: none).\<close>

definition memory_boot_module :: "(u32 \<Rightarrow> u8) \<Rightarrow> u32 \<Rightarrow> int \<Rightarrow> (u32 \<times> u32 \<times> u32) option" where
  "memory_boot_module ram boot_info_phys idx =
     (if boot_info_phys = 0 then None
      else if \<not> bit (phys32 ram boot_info_phys) 3 then None
      else let mcount = phys32 ram (boot_info_phys + 20); maddr = phys32 ram (boot_info_phys + 24)
        in if idx < 0 \<or> nat idx \<ge> unat mcount then None
           else let me = maddr + of_int idx * 16; s = phys32 ram me; c = phys32 ram (me + 8)
             in Some (s + 0xC0000000, phys32 ram (me + 4) - s, if c \<noteq> 0 then c + 0xC0000000 else 0))"

subsection \<open>What the boot loader passes\<close>

text \<open>The entries of the map as they lie in memory: size field, base, length, type.\<close>

fun mmap_at :: "(u32 \<Rightarrow> u8) \<Rightarrow> u32 \<Rightarrow> (u32 \<times> u64 \<times> u64 \<times> u32) list \<Rightarrow> bool" where
  "mmap_at ram a [] \<longleftrightarrow> True"
| "mmap_at ram a ((esz, base, len, type) # es) \<longleftrightarrow>
     phys32 ram a = esz \<and> phys64 ram (a + 4) = base \<and> phys64 ram (a + 12) = len \<and> phys32 ram (a + 20) = type \<and>
     20 \<le> esz \<and> unat base + unat len + 4096 \<le> 2 ^ 64 \<and> mmap_at ram (a + (esz + 4)) es"

definition mmap_size :: "(u32 \<times> u64 \<times> u64 \<times> u32) list \<Rightarrow> nat" where
  "mmap_size es = sum_list (map (\<lambda>(esz, base, len, type). unat esz + 4) es)"

text \<open>Page \<open>i\<close> lies whole in a usable region, above the kernel image and the first megabyte.\<close>

definition region_page :: "nat \<Rightarrow> u64 \<Rightarrow> u64 \<Rightarrow> u32 \<Rightarrow> nat \<Rightarrow> bool" where
  "region_page kend base len type i \<longleftrightarrow> type = 1 \<and> i < MAX_RAM_PAGES \<and> kend \<le> i * 4096 \<and> 0x100000 \<le> i * 4096 \<and>
     unat base \<le> i * 4096 \<and> (i + 1) * 4096 \<le> unat base + unat len"

definition usable_page :: "nat \<Rightarrow> (u32 \<times> u64 \<times> u64 \<times> u32) list \<Rightarrow> nat \<Rightarrow> bool" where
  "usable_page kend es i \<longleftrightarrow> (\<exists>(esz, base, len, type) \<in> set es. region_page kend base len type i)"

definition pages_of :: "nat \<Rightarrow> nat \<Rightarrow> nat set" where
  "pages_of a b = {i. a div 4096 \<le> i \<and> i * 4096 < b}"

text \<open>What the boot loader left in memory: its information block, the memory map, the module table (with the spare entry
  after it), and of every module the image and the whole command line up to the terminating zero. The loader's other strings,
  the command line of the kernel among them, are not part of it.\<close>

definition string_pages :: "(u32 \<Rightarrow> u8) \<Rightarrow> u32 \<Rightarrow> nat set" where
  "string_pages ram a = {unat (a + of_nat k) div 4096 | k. \<forall>j < k. ram (a + of_nat j) \<noteq> 0}"

definition mod_field :: "(u32 \<Rightarrow> u8) \<Rightarrow> u32 \<Rightarrow> nat \<Rightarrow> u32 \<Rightarrow> u32" where
  "mod_field ram maddr m k = phys32 ram (maddr + of_nat (m * 16) + k)"

definition fixed_pages :: "(u32 \<Rightarrow> u8) \<Rightarrow> u32 \<Rightarrow> nat set" where
  "fixed_pages ram mp =
     (let map_len = phys32 ram (mp + 44); map_addr = phys32 ram (mp + 48); mcount = phys32 ram (mp + 20); maddr = phys32 ram (mp + 24)
      in pages_of (unat mp) (unat mp + 128) \<union> pages_of (unat map_addr) (unat map_addr + unat map_len) \<union>
        (if bit (phys32 ram mp) 3 then pages_of (unat maddr) (unat maddr + unat mcount * 16 + 16) else {}))"

definition boot_pages :: "(u32 \<Rightarrow> u8) \<Rightarrow> u32 \<Rightarrow> nat set" where
  "boot_pages ram mp =
     (let mcount = phys32 ram (mp + 20); maddr = phys32 ram (mp + 24)
      in fixed_pages ram mp \<union>
        (if bit (phys32 ram mp) 3
         then (\<Union>m < unat mcount. pages_of (unat (mod_field ram maddr m 0)) (unat (mod_field ram maddr m 4)) \<union>
           (if mod_field ram maddr m 8 \<noteq> 0 then string_pages ram (mod_field ram maddr m 8) else {}))
         else {}))"

text \<open>What the code keeps of it: of the first eight modules the image and the page the command line starts in. That is all of it
  when there are at most eight modules and every command line ends in the page it starts in.\<close>

definition module_pages :: "(u32 \<Rightarrow> u8) \<Rightarrow> u32 \<Rightarrow> nat \<Rightarrow> nat set" where
  "module_pages ram maddr m =
     (let me = maddr + of_nat (m * 16); mstr = phys32 ram (me + 8)
      in pages_of (unat (phys32 ram me)) (unat (phys32 ram (me + 4))) \<union> (if mstr \<noteq> 0 then {unat mstr div 4096} else {}))"

definition kept_pages :: "(u32 \<Rightarrow> u8) \<Rightarrow> u32 \<Rightarrow> nat set" where
  "kept_pages ram mp =
     (let map_len = phys32 ram (mp + 44); map_addr = phys32 ram (mp + 48); mcount = phys32 ram (mp + 20); maddr = phys32 ram (mp + 24)
      in pages_of (unat mp) (unat mp + 128) \<union> pages_of (unat map_addr) (unat map_addr + unat map_len) \<union>
        (if bit (phys32 ram mp) 3
         then pages_of (unat maddr) (unat maddr + unat mcount * 16 + 16) \<union> (\<Union>m < min (unat mcount) 8. module_pages ram maddr m)
         else {}))"

definition modules_fit :: "(u32 \<Rightarrow> u8) \<Rightarrow> u32 \<Rightarrow> bool" where
  "modules_fit ram mp \<longleftrightarrow>
     (let mcount = phys32 ram (mp + 20); maddr = phys32 ram (mp + 24)
      in bit (phys32 ram mp) 3 \<longrightarrow> mcount \<le> 8 \<and> (\<forall>m < unat mcount. let a = mod_field ram maddr m 8 in
           a \<noteq> 0 \<longrightarrow> (\<exists>k < 4096 - unat a mod 4096. ram (a + of_nat k) = 0)))"

text \<open>Boot information with a memory map: the map lies as described, and nothing reaches into the last page of the
  address space.\<close>

definition mboot_ok :: "(u32 \<Rightarrow> u8) \<Rightarrow> u32 \<Rightarrow> (u32 \<times> u64 \<times> u64 \<times> u32) list \<Rightarrow> bool" where
  "mboot_ok ram mp es \<longleftrightarrow>
     (let map_len = phys32 ram (mp + 44); map_addr = phys32 ram (mp + 48); mcount = phys32 ram (mp + 20); maddr = phys32 ram (mp + 24)
      in unat mp + 128 \<le> 0xFFFFF000 \<and> bit (phys32 ram mp) 6 \<and> es \<noteq> [] \<and> mmap_at ram map_addr es \<and> mmap_size es = unat map_len \<and>
        unat map_len < 2 ^ 31 \<and> unat map_addr + unat map_len \<le> 0xFFFFF000 \<and>
        (bit (phys32 ram mp) 3 \<longrightarrow> unat maddr + unat mcount * 16 + 16 \<le> 0xFFFFF000 \<and>
          (\<forall>m < min (unat mcount) 8. unat (phys32 ram (maddr + of_nat (m * 16) + 4)) \<le> 0xFFFFF000)))"

subsection \<open>Rounding and marking\<close>

lemma unat_and_not_mask: "unat (x AND NOT (mask n)) = unat x div 2 ^ n * 2 ^ n" for x :: "'a::len word"
proof -
  have "x AND NOT (mask n) = push_bit n (drop_bit n x)"
    by (rule bit_word_eqI) (auto simp: bit_and_iff bit_not_iff bit_mask_iff bit_push_bit_iff bit_drop_bit_eq)
  moreover have "unat x div 2 ^ n * 2 ^ n < 2 ^ LENGTH('a)"
    using div_times_less_eq_dividend [of "unat x" "2 ^ n"] unsigned_less [of x] le_less_trans by blast
  ultimately show ?thesis by (simp add: unat_push_bit unat_drop_bit)
qed

lemma page_mask: "(0xFFF :: u32) = mask 12" "(0xFFF :: u64) = mask 12"
  by (simp_all add: mask_eq_exp_minus_1)

lemma unat_page32: "unat (x AND NOT 0xFFF) = unat x div 4096 * 4096" for x :: u32
  unfolding page_mask unat_and_not_mask by simp

lemma unat_page64: "unat (x AND NOT 0xFFF) = unat x div 4096 * 4096" for x :: u64
  unfolding page_mask unat_and_not_mask by simp

lemma page_count: "q < (w + 4095) div 4096 \<longleftrightarrow> q * 4096 < w" for q w :: nat
proof
  show "q < (w + 4095) div 4096 \<Longrightarrow> q * 4096 < w" by linarith
  show "q * 4096 < w \<Longrightarrow> q < (w + 4095) div 4096" by linarith
qed

lemma page_below: "q < w div 4096 \<longleftrightarrow> (q + 1) * 4096 \<le> w" for q w :: nat
  using less_eq_div_iff_mult_less_eq [of 4096 "q + 1" w] by (simp add: Suc_le_eq)

lemma test_clear_all:
  "\<forall>j \<in> set js. j div 8 < length bm \<Longrightarrow> bitmap_test (foldl bitmap_clear bm js) i \<longleftrightarrow> bitmap_test bm i \<and> i \<notin> set js"
  by (induction js arbitrary: bm) (auto simp: test_clear)

lemma length_clear_all [simp]: "length (foldl bitmap_clear bm js) = length bm"
  by (induction js arbitrary: bm) simp_all

lemma mem_region_ok:
  assumes "length bm = BITMAP_SIZE" "tot \<le> MAX_RAM_PAGES" "unat base + unat len + 4096 \<le> 2 ^ 64"
    "mem_region kernel_end base len type (bm, tot) = (bm', tot')"
  shows "length bm' = BITMAP_SIZE \<and> tot \<le> tot' \<and> tot' \<le> MAX_RAM_PAGES \<and>
    (\<forall>i. region_page (unat kernel_end) base len type i \<longrightarrow> i < tot') \<and>
    (\<forall>i. bitmap_test bm' i \<longleftrightarrow> bitmap_test bm i \<and> \<not> region_page (unat kernel_end) base len type i)"
proof (cases "type \<noteq> 1 \<or> len = 0")
  case True
  then have "\<not> region_page (unat kernel_end) base len type i" for i by (auto simp: region_page_def)
  then show ?thesis using True assms by (simp add: mem_region_def)
next
  case False
  define cap :: nat where "cap = MAX_RAM_PAGES * 4096"
  define e0 where "e0 = (if base + len > of_nat (MAX_RAM_PAGES * PAGE_SIZE) then of_nat (MAX_RAM_PAGES * PAGE_SIZE) else base + len)"
  define l0 where "l0 = (let lo = (if base < ucast kernel_end then ucast kernel_end else base) in if lo < 0x100000 then 0x100000 else lo)"
  let ?lo = "unat ((l0 + 0xFFF) AND NOT 0xFFF)" and ?fin = "unat (e0 AND NOT 0xFFF)"
  have u: "unat (base + len) = unat base + unat len" using assms(3) by (intro unat_plus_small) simp
  have e0: "unat e0 = min (unat base + unat len) cap"
    by (auto simp: e0_def cap_def PAGE_SIZE_def MAX_RAM_PAGES_def word_less_nat_alt u min_def)
  have kb: "unat kernel_end < 4294967296" using unsigned_less [of kernel_end] by simp
  then have k: "unat (ucast kernel_end :: u64) = unat kernel_end" by (simp add: unsigned_ucast_eq take_bit_nat_eq_self)
  have l0: "unat l0 = max (max (unat base) (unat kernel_end)) 0x100000"
    by (auto simp: l0_def Let_def word_less_nat_alt k max_def)
  have "unat l0 + 4095 < 2 ^ 64" using assms(3) kb by (simp add: l0)
  then have l: "?lo div 4096 = (unat l0 + 4095) div 4096" unfolding unat_page64 by (subst unat_plus_small) simp_all
  have e: "?fin div 4096 = unat e0 div 4096" unfolding unat_page64 by simp
  have reg: "i \<in> set [?lo div 4096..<?fin div 4096] \<longleftrightarrow> region_page (unat kernel_end) base len type i" for i
  proof -
    have "?lo div 4096 \<le> i \<longleftrightarrow> unat l0 \<le> i * 4096" using page_count [of i "unat l0"] unfolding l by (simp add: not_less [symmetric])
    moreover have "i < ?fin div 4096 \<longleftrightarrow> (i + 1) * 4096 \<le> unat e0" unfolding e by (rule page_below)
    ultimately show ?thesis using False unfolding set_upt atLeastLessThan_iff region_page_def l0 e0 cap_def max.bounded_iff min.bounded_iff by auto
  qed
  have m: "?fin div 4096 \<le> MAX_RAM_PAGES" unfolding e e0 cap_def by simp
  have r: "mem_region kernel_end base len type (bm, tot) =
      (if ?fin \<le> ?lo then (bm, tot) else (foldl bitmap_clear bm [?lo div 4096..<?fin div 4096], max tot (?fin div 4096)))"
    using False unfolding mem_region_def e0_def l0_def Let_def PAGE_SIZE_def word_le_nat_alt by (simp only: prod.case if_False)
  have c: "bitmap_test (foldl bitmap_clear bm [?lo div 4096..<?fin div 4096]) i \<longleftrightarrow> bitmap_test bm i \<and> \<not> region_page (unat kernel_end) base len type i" for i
    unfolding reg [symmetric] using m assms(1) by (intro test_clear_all) (auto simp: BITMAP_SIZE_def MAX_RAM_PAGES_def)
  show ?thesis
  proof (cases "?fin \<le> ?lo")
    case True
    then have "?fin div 4096 \<le> ?lo div 4096" by (rule div_le_mono)
    then have "\<not> region_page (unat kernel_end) base len type i" for i using reg [of i] by simp
    then show ?thesis using True r assms by simp
  next
    case False
    then have "bm' = foldl bitmap_clear bm [?lo div 4096..<?fin div 4096]" "tot' = max tot (?fin div 4096)" using r assms(4) by simp_all
    moreover have "region_page (unat kernel_end) base len type i \<Longrightarrow> i < ?fin div 4096" for i using reg [of i] by simp
    ultimately show ?thesis using c m assms(1,2) by (simp only: length_clear_all) (simp add: less_max_iff_disj)
  qed
qed

subsection \<open>The map\<close>

abbreviation map_fold :: "u32 \<Rightarrow> bytes \<times> nat \<Rightarrow> (u32 \<times> u64 \<times> u64 \<times> u32) list \<Rightarrow> bytes \<times> nat" where
  "map_fold kernel_end \<equiv> foldl (\<lambda>s (esz, base, len, type). mem_region kernel_end base len type s)"

lemma mem_map_fold:
  assumes "unat map_len < 2 ^ 31"
  shows "mmap_at ram (map_addr + off) es \<Longrightarrow> unat off + mmap_size es = unat map_len \<Longrightarrow>
    mem_map ram map_addr map_len kernel_end off s = Some (map_fold kernel_end s es)"
proof (induction es arbitrary: off s)
  case Nil
  then have o: "unat off = unat map_len" by (simp add: mmap_size_def)
  then have "unat (off + 24) = unat map_len + 24" using assms by (subst unat_plus_small) simp_all
  then have "\<not> off + 24 \<le> map_len" by (simp add: word_le_nat_alt)
  then show ?case by (simp add: mem_map.simps)
next
  case (Cons x es)
  obtain esz base len type where x: "x = (esz, base, len, type)" by (cases x)
  have e: "20 \<le> unat esz" "phys32 ram (map_addr + off) = esz" "phys64 ram (map_addr + off + 4) = base" "phys64 ram (map_addr + off + 12) = len"
      "phys32 ram (map_addr + off + 20) = type" "mmap_at ram (map_addr + off + (esz + 4)) es"
    using Cons.prems(1) by (auto simp: x word_le_nat_alt)
  have z: "unat off + (unat esz + 4) + mmap_size es = unat map_len" using Cons.prems(2) by (simp add: x mmap_size_def)
  have "unat (off + 24) = unat off + 24" using z e(1) assms by (subst unat_plus_small) simp_all
  then have c: "off + 24 \<le> map_len" using z e(1) by (simp add: word_le_nat_alt)
  have "unat (esz + 4) = unat esz + 4" using z assms by (subst unat_plus_small) simp_all
  then have n: "unat (off + (esz + 4)) = unat off + (unat esz + 4)" using z assms by (subst unat_plus_small) simp_all
  have "\<not> esz < 20" using e(1) by (simp add: word_less_nat_alt)
  then have "mem_map ram map_addr map_len kernel_end off s =
      mem_map ram map_addr map_len kernel_end (off + (esz + 4)) (mem_region kernel_end base len type s)"
    using c e by (subst mem_map.simps) (simp add: Let_def)
  also have "\<dots> = Some (map_fold kernel_end (mem_region kernel_end base len type s) es)"
    using e(6) z n by (intro Cons.IH) (simp_all add: add.assoc)
  finally show ?case by (simp add: x)
qed

lemma map_fold_ok:
  "length bm = BITMAP_SIZE \<Longrightarrow> tot \<le> MAX_RAM_PAGES \<Longrightarrow> mmap_at ram a es \<Longrightarrow> map_fold kernel_end (bm, tot) es = (bm', tot') \<Longrightarrow>
   length bm' = BITMAP_SIZE \<and> tot \<le> tot' \<and> tot' \<le> MAX_RAM_PAGES \<and>
   (\<forall>i. usable_page (unat kernel_end) es i \<longrightarrow> i < tot') \<and>
   (\<forall>i. bitmap_test bm' i \<longleftrightarrow> bitmap_test bm i \<and> \<not> usable_page (unat kernel_end) es i)"
proof (induction es arbitrary: bm tot a)
  case Nil
  then show ?case by (simp add: usable_page_def)
next
  case (Cons x es)
  obtain esz base len type where x: "x = (esz, base, len, type)" by (cases x)
  obtain bm1 t1 where 1: "mem_region kernel_end base len type (bm, tot) = (bm1, t1)" by (cases "mem_region kernel_end base len type (bm, tot)")
  have b: "unat base + unat len + 4096 \<le> 2 ^ 64" "mmap_at ram (a + (esz + 4)) es" using Cons.prems(3) by (simp_all add: x)
  note r = mem_region_ok [OF Cons.prems(1,2) b(1) 1]
  have "map_fold kernel_end (bm1, t1) es = (bm', tot')" using Cons.prems(4) by (simp add: x 1)
  note s = Cons.IH [OF _ _ b(2) this]
  have u: "usable_page (unat kernel_end) (x # es) i \<longleftrightarrow> region_page (unat kernel_end) base len type i \<or> usable_page (unat kernel_end) es i" for i
    by (simp add: usable_page_def x)
  show ?case unfolding u using r s by (meson le_trans less_le_trans)
qed

subsection \<open>Reserved ranges\<close>

lemma reserve_from_ok:
  assumes "unat stop \<le> 0xFFFFF000" "tot \<le> MAX_RAM_PAGES"
  shows "length bm = BITMAP_SIZE \<Longrightarrow> unat a = q * 4096 \<Longrightarrow>
    \<exists>bm'. reserve_from tot stop a bm = Some bm' \<and> length bm' = BITMAP_SIZE \<and>
      (\<forall>i. bitmap_test bm' i \<longleftrightarrow> bitmap_test bm i \<or> (i < tot \<and> q \<le> i \<and> i * 4096 < unat stop))"
proof (induction "(unat stop + 4095) div 4096 - q" arbitrary: q a bm)
  case 0
  then have "\<not> q < (unat stop + 4095) div 4096" by simp
  then have s: "unat stop \<le> q * 4096" unfolding page_count by simp
  then have "\<not> a < stop" using 0 by (simp add: word_less_nat_alt)
  moreover have "\<not> (q \<le> i \<and> i * 4096 < unat stop)" for i using s mult_le_mono1 [of q i 4096] by linarith
  ultimately show ?case using 0 by (subst reserve_from.simps) auto
next
  case (Suc n)
  then have s: "q * 4096 < unat stop" unfolding page_count [symmetric] by simp
  then have a: "a < stop" using Suc by (simp add: word_less_nat_alt)
  have n: "unat (a + 0x1000) = Suc q * 4096" using s Suc assms(1) by (subst unat_plus_small) simp_all
  let ?b = "if unat a div PAGE_SIZE < tot then bitmap_set bm (unat a div PAGE_SIZE) else bm"
  have q: "unat a div PAGE_SIZE = q" using Suc by (simp add: PAGE_SIZE_def)
  have t: "bitmap_test ?b i \<longleftrightarrow> bitmap_test bm i \<or> (i < tot \<and> i = q)" for i
    using test_set [of q bm i] Suc.prems(1) assms(2) by (auto simp: q BITMAP_SIZE_def MAX_RAM_PAGES_def)
  have l: "length ?b = BITMAP_SIZE" using Suc.prems(1) by simp
  have m: "n = (unat stop + 4095) div 4096 - Suc q" using Suc(2) by simp
  obtain bm' where b: "reserve_from tot stop (a + 0x1000) ?b = Some bm'" "length bm' = BITMAP_SIZE"
      "\<And>i. bitmap_test bm' i \<longleftrightarrow> bitmap_test ?b i \<or> (i < tot \<and> Suc q \<le> i \<and> i * 4096 < unat stop)"
    using Suc.hyps(1) [OF m l n] by blast
  have "bitmap_test bm' i \<longleftrightarrow> bitmap_test bm i \<or> (i < tot \<and> q \<le> i \<and> i * 4096 < unat stop)" for i
    unfolding b(3) t using s by (auto simp: le_less Suc_le_eq)
  moreover have "reserve_from tot stop a bm = Some bm'" using a b(1) by (subst reserve_from.simps) simp
  ultimately show ?case using b(2) by blast
qed

lemma reserve_ok:
  assumes "unat stop \<le> 0xFFFFF000" "tot \<le> MAX_RAM_PAGES" "length bm = BITMAP_SIZE"
  obtains bm' where "reserve tot start stop bm = Some bm'" "length bm' = BITMAP_SIZE"
    "\<And>i. bitmap_test bm' i \<longleftrightarrow> bitmap_test bm i \<or> (i < tot \<and> i \<in> pages_of (unat start) (unat stop))"
  using reserve_from_ok [OF assms unat_page32, of start] that unfolding reserve_def pages_of_def mem_Collect_eq by blast

lemma reserve_string_ok:
  assumes "tot \<le> MAX_RAM_PAGES" "length bm = BITMAP_SIZE"
  shows "length (reserve_string tot mstr bm) = BITMAP_SIZE"
    "bitmap_test (reserve_string tot mstr bm) i \<longleftrightarrow> bitmap_test bm i \<or> (i < tot \<and> i \<in> (if mstr \<noteq> 0 then {unat mstr div 4096} else {}))"
proof -
  show "length (reserve_string tot mstr bm) = BITMAP_SIZE" using assms by (simp add: reserve_string_def Let_def)
  have "unat mstr div 4096 < tot \<Longrightarrow> unat mstr div 4096 div 8 < length bm" using assms by (simp add: BITMAP_SIZE_def MAX_RAM_PAGES_def)
  then show "bitmap_test (reserve_string tot mstr bm) i \<longleftrightarrow> bitmap_test bm i \<or> (i < tot \<and> i \<in> (if mstr \<noteq> 0 then {unat mstr div 4096} else {}))"
    by (auto simp: reserve_string_def Let_def PAGE_SIZE_def test_set)
qed

lemma reserve_modules_ok:
  "\<forall>m \<in> set ms. unat (phys32 ram (maddr + of_nat (m * 16) + 4)) \<le> 0xFFFFF000 \<Longrightarrow> tot \<le> MAX_RAM_PAGES \<Longrightarrow> length bm = BITMAP_SIZE \<Longrightarrow>
   \<exists>bm'. reserve_modules ram tot maddr ms bm = Some bm' \<and> length bm' = BITMAP_SIZE \<and>
     (\<forall>i. bitmap_test bm' i \<longleftrightarrow> bitmap_test bm i \<or> (i < tot \<and> i \<in> (\<Union>m \<in> set ms. module_pages ram maddr m)))"
proof (induction ms arbitrary: bm)
  case (Cons m ms)
  let ?me = "maddr + of_nat (m * 16)"
  obtain b1 where 1: "reserve tot (phys32 ram ?me) (phys32 ram (?me + 4)) bm = Some b1" "length b1 = BITMAP_SIZE"
      "\<And>i. bitmap_test b1 i \<longleftrightarrow> bitmap_test bm i \<or> (i < tot \<and> i \<in> pages_of (unat (phys32 ram ?me)) (unat (phys32 ram (?me + 4))))"
    by (rule reserve_ok [of "phys32 ram (?me + 4)" tot bm "phys32 ram ?me"]) (use Cons.prems in \<open>auto intro: that\<close>)
  note 2 = reserve_string_ok [OF Cons.prems(2) 1(2), of "phys32 ram (?me + 8)"]
  obtain b3 where 3: "reserve_modules ram tot maddr ms (reserve_string tot (phys32 ram (?me + 8)) b1) = Some b3" "length b3 = BITMAP_SIZE"
      "\<And>i. bitmap_test b3 i \<longleftrightarrow> bitmap_test (reserve_string tot (phys32 ram (?me + 8)) b1) i \<or> (i < tot \<and> i \<in> (\<Union>m \<in> set ms. module_pages ram maddr m))"
    using Cons.IH [OF _ Cons.prems(2) 2(1)] Cons.prems(1) by auto
  have "bitmap_test b3 i \<longleftrightarrow> bitmap_test bm i \<or> (i < tot \<and> i \<in> (\<Union>m \<in> set (m # ms). module_pages ram maddr m))" for i
    unfolding 3(3) 2(2) 1(3) by (auto simp: module_pages_def Let_def)
  then show ?case using 1(1) 3(1,2) by (simp add: Let_def)
qed simp

lemma reserve_boot_ok:
  assumes b: "mboot_ok ram mp es" and t: "tot \<le> MAX_RAM_PAGES" "length bm = BITMAP_SIZE"
  obtains bm' where "reserve_boot ram mp (phys32 ram mp) (phys32 ram (mp + 48)) (phys32 ram (mp + 44)) (bm, tot) = Some bm'" "length bm' = BITMAP_SIZE"
    "\<And>i. bitmap_test bm' i \<longleftrightarrow> bitmap_test bm i \<or> (i < tot \<and> i \<in> kept_pages ram mp)"
proof -
  let ?len = "phys32 ram (mp + 44)" and ?addr = "phys32 ram (mp + 48)" and ?n = "phys32 ram (mp + 20)" and ?tab = "phys32 ram (mp + 24)"
  have mp2: "unat mp + 128 \<le> 0xFFFFF000" using b by (simp add: mboot_ok_def Let_def)
  have mp1: "unat (mp + 128) = unat mp + 128" using mp2 by (subst unat_plus_small) simp_all
  note mp = mp1 mp2
  have ma: "unat (?addr + ?len) = unat ?addr + unat ?len" "unat ?addr + unat ?len \<le> 0xFFFFF000"
    using b by (auto simp: mboot_ok_def Let_def intro: unat_plus_small)
  obtain b1 where 1: "reserve tot mp (mp + 128) bm = Some b1" "length b1 = BITMAP_SIZE"
      "\<And>i. bitmap_test b1 i \<longleftrightarrow> bitmap_test bm i \<or> (i < tot \<and> i \<in> pages_of (unat mp) (unat (mp + 128)))"
    by (rule reserve_ok [of "mp + 128" tot bm mp]) (use mp t in \<open>auto intro: that\<close>)
  obtain b2 where 2: "reserve tot ?addr (?addr + ?len) b1 = Some b2" "length b2 = BITMAP_SIZE"
      "\<And>i. bitmap_test b2 i \<longleftrightarrow> bitmap_test b1 i \<or> (i < tot \<and> i \<in> pages_of (unat ?addr) (unat (?addr + ?len)))"
    by (rule reserve_ok [of "?addr + ?len" tot b1 ?addr]) (use ma t 1 in \<open>auto intro: that\<close>)
  show ?thesis
  proof (cases "bit (phys32 ram mp) 3")
    case False
    have "bitmap_test b2 i \<longleftrightarrow> bitmap_test bm i \<or> (i < tot \<and> i \<in> kept_pages ram mp)" for i
      unfolding 2(3) 1(3) mp(1) ma(1) using False by (auto simp: kept_pages_def Let_def)
    then show ?thesis using False 1(1) 2(1,2) by (intro that [of b2]) (simp_all add: reserve_boot_def)
  next
    case True
    then have m: "unat ?tab + unat ?n * 16 + 16 \<le> 0xFFFFF000" "\<forall>m \<in> set [0..<min (unat ?n) 8]. unat (phys32 ram (?tab + of_nat (m * 16) + 4)) \<le> 0xFFFFF000"
      using b by (auto simp: mboot_ok_def Let_def)
    have "unat (?n * 16) = unat ?n * 16" using m(1) by (subst unat_times_small) simp_all
    then have "unat (?tab + ?n * 16) = unat ?tab + unat ?n * 16" using m(1) by (subst unat_plus_small) simp_all
    then have e: "unat (?tab + ?n * 16 + 16) = unat ?tab + unat ?n * 16 + 16" using m(1) by (subst unat_plus_small) simp_all
    obtain b3 where 3: "reserve tot ?tab (?tab + ?n * 16 + 16) b2 = Some b3" "length b3 = BITMAP_SIZE"
        "\<And>i. bitmap_test b3 i \<longleftrightarrow> bitmap_test b2 i \<or> (i < tot \<and> i \<in> pages_of (unat ?tab) (unat (?tab + ?n * 16 + 16)))"
      by (rule reserve_ok [of "?tab + ?n * 16 + 16" tot b2 ?tab]) (use e m(1) t 2 in \<open>auto intro: that\<close>)
    obtain b4 where 4: "reserve_modules ram tot ?tab [0..<min (unat ?n) 8] b3 = Some b4" "length b4 = BITMAP_SIZE"
        "\<And>i. bitmap_test b4 i \<longleftrightarrow> bitmap_test b3 i \<or> (i < tot \<and> i \<in> (\<Union>m \<in> set [0..<min (unat ?n) 8]. module_pages ram ?tab m))"
      using reserve_modules_ok [OF m(2) t(1) 3(2)] by blast
    have "bitmap_test b4 i \<longleftrightarrow> bitmap_test bm i \<or> (i < tot \<and> i \<in> kept_pages ram mp)" for i
      unfolding 4(3) 3(3) 2(3) 1(3) mp(1) ma(1) e using True by (auto simp: kept_pages_def Let_def lessThan_atLeast0)
    then show ?thesis using True 1(1) 2(1) 3(1) 4(1,2) by (intro that [of b4]) (simp_all add: reserve_boot_def Let_def)
  qed
qed

lemma all_used: "i < MAX_RAM_PAGES \<Longrightarrow> bitmap_test (replicate BITMAP_SIZE 0xFF) i"
proof -
  assume i: "i < MAX_RAM_PAGES"
  have "(0xFF :: u8) = mask 8" by (simp add: mask_eq_exp_minus_1)
  then have "bit (0xFF :: u8) (i mod 8)" by (simp only: bit_mask_iff) simp
  then show ?thesis using i by (simp add: bitmap_test_bit BITMAP_SIZE_def MAX_RAM_PAGES_def)
qed

lemma finish_wf:
  assumes "length bm = BITMAP_SIZE" "tot \<le> MAX_RAM_PAGES" "0 < tot \<Longrightarrow> bitmap_test bm 0"
  shows "pmm_wf \<lparr>bitmap = bm, total_pages = tot, used_pages = count_used bm tot\<rparr>"
  using assms by (simp add: pmm_wf_def used_set_def count_used_card)

lemma not_usable_0: "\<not> usable_page k es 0"
  by (auto simp: usable_page_def region_page_def)

subsection \<open>What is kept and what the boot loader left\<close>

lemma string_start: "unat a div 4096 \<in> string_pages ram a"
  unfolding string_pages_def by (rule CollectI) (auto intro!: exI [of _ 0])

lemma string_in_page:
  assumes k: "k < 4096 - unat a mod 4096" "ram (a + of_nat k) = 0"
  shows "string_pages ram a = {unat a div 4096}"
proof -
  have "unat (a + of_nat j) div 4096 = unat a div 4096" if "\<forall>i < j. ram (a + of_nat i) \<noteq> 0" for j
  proof -
    have "j \<le> k" using that k(2) by (meson not_less)
    then have j: "unat a mod 4096 + j < 4096" using k(1) by simp
    have q: "unat a = 4096 * (unat a div 4096) + unat a mod 4096" by simp
    have "unat a < 4294967296" using unsigned_less [of a] by simp
    then have "unat a div 4096 < 1048576" by (simp add: less_mult_imp_div_less)
    then have l: "unat a + j < 4294967296" using j q by linarith
    have u: "unat (of_nat j :: u32) = j" by (rule unat_of_nat_small) (use j in simp)
    have "unat (a + of_nat j) = unat a + j" using unat_plus_small [of a "of_nat j"] u l by simp
    moreover have "(x + j) div 4096 = x div 4096" if "x mod 4096 + j < 4096" for x :: nat
    proof -
      have "x + j = (x mod 4096 + j) + x div 4096 * 4096" using div_mult_mod_eq [of x 4096] by linarith
      then have "(x + j) div 4096 = ((x mod 4096 + j) + x div 4096 * 4096) div 4096" by (rule arg_cong)
      also have "\<dots> = x div 4096" using that by (subst div_mult_self1) simp_all
      finally show ?thesis .
    qed
    ultimately show ?thesis using j by simp
  qed
  then show ?thesis using string_start [of a ram] unfolding string_pages_def by blast
qed

lemma module_pages_fields:
  "module_pages ram maddr m = pages_of (unat (mod_field ram maddr m 0)) (unat (mod_field ram maddr m 4)) \<union>
     (if mod_field ram maddr m 8 \<noteq> 0 then {unat (mod_field ram maddr m 8) div 4096} else {})"
  by (simp add: module_pages_def mod_field_def Let_def)

lemma kept_pages_fixed:
  "kept_pages ram mp = fixed_pages ram mp \<union>
     (if bit (phys32 ram mp) 3 then (\<Union>m < min (unat (phys32 ram (mp + 20))) 8. module_pages ram (phys32 ram (mp + 24)) m) else {})"
  by (simp add: kept_pages_def fixed_pages_def Let_def Un_assoc)

lemma kept_boot: "kept_pages ram mp \<subseteq> boot_pages ram mp"
proof -
  have "module_pages ram maddr m \<subseteq> pages_of (unat (mod_field ram maddr m 0)) (unat (mod_field ram maddr m 4)) \<union>
      (if mod_field ram maddr m 8 \<noteq> 0 then string_pages ram (mod_field ram maddr m 8) else {})" for maddr m
    unfolding module_pages_fields using string_start by auto
  then have "(\<Union>m < min n 8. module_pages ram maddr m) \<subseteq> (\<Union>m < n. pages_of (unat (mod_field ram maddr m 0)) (unat (mod_field ram maddr m 4)) \<union>
      (if mod_field ram maddr m 8 \<noteq> 0 then string_pages ram (mod_field ram maddr m 8) else {}))" for n maddr
    by (intro UN_mono) auto
  then show ?thesis unfolding kept_pages_fixed boot_pages_def Let_def by (cases "bit (phys32 ram mp) 3") (simp_all only: if_True if_False Un_mono order_refl)
qed

lemma kept_all:
  assumes "modules_fit ram mp"
  shows "kept_pages ram mp = boot_pages ram mp"
proof (cases "bit (phys32 ram mp) 3")
  case True
  let ?n = "phys32 ram (mp + 20)" and ?a = "phys32 ram (mp + 24)"
  have n: "unat ?n \<le> 8" using assms True by (simp add: modules_fit_def Let_def word_le_nat_alt)
  have "module_pages ram ?a m = pages_of (unat (mod_field ram ?a m 0)) (unat (mod_field ram ?a m 4)) \<union>
      (if mod_field ram ?a m 8 \<noteq> 0 then string_pages ram (mod_field ram ?a m 8) else {})" if m: "m < unat ?n" for m
  proof (cases "mod_field ram ?a m 8 = 0")
    case False
    then obtain k where "k < 4096 - unat (mod_field ram ?a m 8) mod 4096" "ram (mod_field ram ?a m 8 + of_nat k) = 0"
      using assms True m unfolding modules_fit_def Let_def by blast
    then have "string_pages ram (mod_field ram ?a m 8) = {unat (mod_field ram ?a m 8) div 4096}" by (rule string_in_page)
    then show ?thesis by (simp add: module_pages_fields)
  qed (simp add: module_pages_fields)
  then show ?thesis using True n unfolding kept_pages_fixed boot_pages_def Let_def by (simp add: min_absorb1)
qed (simp add: kept_pages_fixed boot_pages_def Let_def)

subsection \<open>Properties\<close>

lemma memory_init_core:
  assumes "mboot_ok ram mp es"
  shows "\<exists>s. memory_init ram mp ksym = Some s \<and> pmm_wf s \<and>
    (\<forall>i. i < total_pages s \<and> i \<notin> used_set s \<longleftrightarrow> usable_page (unat (kernel_end_phys ksym)) es i \<and> i \<notin> kept_pages ram mp)"
proof -
  let ?k = "kernel_end_phys ksym" and ?bm = "replicate BITMAP_SIZE 0xFF :: bytes"
  let ?len = "phys32 ram (mp + 44)" and ?addr = "phys32 ram (mp + 48)"
  have b: "bit (phys32 ram mp) 6" "es \<noteq> []" "mmap_at ram ?addr es" "mmap_size es = unat ?len" "unat ?len < 2 ^ 31"
    using assms by (auto simp: mboot_ok_def Let_def)
  have "0 < mmap_size es" using b(2) by (cases es) (auto simp: mmap_size_def)
  then have l: "?len \<noteq> 0" using b(4) by auto
  obtain bm1 tot where f: "map_fold ?k (?bm, 0) es = (bm1, tot)" by (cases "map_fold ?k (?bm, 0) es")
  have m: "mem_map ram ?addr ?len ?k 0 (?bm, 0) = Some (bm1, tot)" using mem_map_fold [OF b(5), of ram ?addr 0 es ?k] b(3,4) f by simp
  note o = map_fold_ok [OF _ _ b(3) f]
  have o1: "length bm1 = BITMAP_SIZE" "tot \<le> MAX_RAM_PAGES" using o by auto
  obtain bm2 where r: "reserve_boot ram mp (phys32 ram mp) ?addr ?len (bm1, tot) = Some bm2" "length bm2 = BITMAP_SIZE"
      "\<And>i. bitmap_test bm2 i \<longleftrightarrow> bitmap_test bm1 i \<or> (i < tot \<and> i \<in> kept_pages ram mp)"
    by (rule reserve_boot_ok [OF assms o1(2,1)]) (rule that)
  let ?s = "\<lparr>bitmap = bm2, total_pages = tot, used_pages = count_used bm2 tot\<rparr>"
  have init: "memory_init ram mp ksym = Some ?s" using b(1) l m r(1) by (simp add: memory_init_def Let_def)
  have t: "i < tot \<Longrightarrow> bitmap_test bm2 i \<longleftrightarrow> \<not> usable_page (unat ?k) es i \<or> i \<in> kept_pages ram mp" for i
    using o all_used [of i] r(3) [of i] by auto
  have "pmm_wf ?s" using t [of 0] not_usable_0 by (intro finish_wf r(2) o1(2)) simp
  moreover have "i < total_pages ?s \<and> i \<notin> used_set ?s \<longleftrightarrow> usable_page (unat ?k) es i \<and> i \<notin> kept_pages ram mp" for i
    using t [of i] o by (auto simp: used_set_def)
  ultimately show ?thesis using init by blast
qed

text \<open>C7. The allocator starts with exactly the right pages. When the boot loader passes a memory map, \<open>memory_init\<close>
  returns with a well-formed allocator whose free pages are the pages that lie whole in a usable region below the
  managed limit, above the kernel image and the first megabyte, and are not kept for the boot loader. What is kept is part of what
  the boot loader left (information block, map, module table, images and command lines of the modules), and with at
  most eight modules, whose command lines each end in the page they start in, it is all of that.\<close>

theorem memory_init_frees:
  assumes "mboot_ok ram mp es"
  shows "\<exists>s. memory_init ram mp ksym = Some s \<and> pmm_wf s \<and>
    (\<forall>i. i < total_pages s \<and> i \<notin> used_set s \<longleftrightarrow> usable_page (unat (kernel_end_phys ksym)) es i \<and> i \<notin> kept_pages ram mp) \<and>
    kept_pages ram mp \<subseteq> boot_pages ram mp \<and> (modules_fit ram mp \<longrightarrow> kept_pages ram mp = boot_pages ram mp)"
  using memory_init_core [OF assms, of ksym] kept_boot [of ram mp] kept_all [of ram mp] by blast

text \<open>A machine with one usable region from 1 MB to 8 MB, a kernel that ends at 2 MB, and one boot module of two pages at 3 MB
  with the command line \<open>m\<close>.\<close>

definition sample_ram :: "u32 \<Rightarrow> u8" where
  "sample_ram = (\<lambda>_. 0)(0x1000 := 0x48, 0x1014 := 1, 0x1019 := 0x30, 0x102C := 24, 0x1031 := 0x20, 0x2000 := 20, 0x2006 := 0x10,
     0x200E := 0x70, 0x2014 := 1, 0x3002 := 0x30, 0x3005 := 0x20, 0x3006 := 0x30, 0x3009 := 0x40, 0x4000 := 0x6D)"

lemma sample_fields:
  "phys32 sample_ram 0x1000 = 0x48" "phys32 sample_ram 0x1014 = 1" "phys32 sample_ram 0x1018 = 0x3000" "phys32 sample_ram 0x102C = 24"
  "phys32 sample_ram 0x1030 = 0x2000" "phys32 sample_ram 0x2000 = 20" "phys64 sample_ram 0x2004 = 0x100000" "phys64 sample_ram 0x200C = 0x700000"
  "phys32 sample_ram 0x2014 = 1" "phys32 sample_ram 0x3000 = 0x300000" "phys32 sample_ram 0x3004 = 0x302000" "phys32 sample_ram 0x3008 = 0x4000"
  "sample_ram 0x4001 = 0" "bit (0x48 :: u32) 3" "bit (0x48 :: u32) 6"
  by (simp_all add: phys32_def phys64_def le32_def sample_ram_def)

lemma sample_boot: "mboot_ok sample_ram 0x1000 [(20, 0x100000, 0x700000, 1)]"
  by (simp add: mboot_ok_def Let_def sample_fields mmap_size_def)

lemma sample_fit: "modules_fit sample_ram 0x1000"
proof -
  have "\<exists>k < 4096 - unat (0x4000 :: u32) mod 4096. sample_ram (0x4000 + of_nat k) = 0" by (rule exI [of _ 1]) (simp add: sample_fields)
  then show ?thesis by (simp add: modules_fit_def Let_def sample_fields mod_field_def)
qed

lemma sample_kept: "kept_pages sample_ram 0x1000 = {1, 2, 3, 4, 0x300, 0x301}"
  by (auto simp: kept_pages_def Let_def sample_fields pages_of_def module_pages_def)

lemma sample_usable: "usable_page (unat (kernel_end_phys 0xC0200000)) [(20, 0x100000, 0x700000, 1)] i \<longleftrightarrow> 0x200 \<le> i \<and> i < 0x800"
  by (auto simp: usable_page_def region_page_def MAX_RAM_PAGES_def kernel_end_phys_def)

theorem memory_init_frees_witness:
  "\<exists>s. memory_init sample_ram 0x1000 0xC0200000 = Some s \<and>
     (\<forall>i. i < total_pages s \<and> i \<notin> used_set s \<longleftrightarrow> 0x200 \<le> i \<and> i < 0x800 \<and> i \<noteq> 0x300 \<and> i \<noteq> 0x301) \<and>
     boot_pages sample_ram 0x1000 = {1, 2, 3, 4, 0x300, 0x301}"
  using memory_init_frees [OF sample_boot, where ksym = "0xC0200000"] sample_fit unfolding sample_kept sample_usable by fastforce

text \<open>Without a map the pages from the end of the kernel up to the reported size are free.\<close>

lemma memory_init_no_map:
  assumes "\<not> bit (phys32 ram mp) 6" "kernel_end_phys ksym \<noteq> 0"
  defines "kb \<equiv> if bit (phys32 ram mp) 0 then phys32 ram (mp + 8) else 15 * 1024"
  shows "\<exists>s. memory_init ram mp ksym = Some s \<and> pmm_wf s \<and> total_pages s = min (unat (kb * 1024) div 4096) MAX_RAM_PAGES \<and>
    (\<forall>i. i < total_pages s \<and> i \<notin> used_set s \<longleftrightarrow> unat (kernel_end_phys ksym) div 4096 \<le> i \<and> i < total_pages s)"
proof -
  define tot where "tot = min (unat (kb * 1024) div 4096) MAX_RAM_PAGES"
  let ?k = "unat (kernel_end_phys ksym) div 4096"
  let ?bm = "foldl bitmap_clear (replicate BITMAP_SIZE 0xFF) [?k..<tot]"
  have m: "memory_init ram mp ksym = Some \<lparr>bitmap = ?bm, total_pages = tot, used_pages = count_used ?bm tot\<rparr>"
    using assms(1) by (simp add: memory_init_def Let_def tot_def kb_def PAGE_SIZE_def min_def not_less)
  have t: "tot \<le> MAX_RAM_PAGES" by (simp add: tot_def)
  then have c: "bitmap_test ?bm i \<longleftrightarrow> bitmap_test (replicate BITMAP_SIZE 0xFF) i \<and> i \<notin> set [?k..<tot]" for i
    by (intro test_clear_all) (auto simp: BITMAP_SIZE_def MAX_RAM_PAGES_def)
  have "kernel_end_phys ksym = kernel_end_phys ksym AND NOT 0xFFF" by (simp add: kernel_end_phys_def and.assoc)
  then have "unat (kernel_end_phys ksym) = ?k * 4096" using unat_page32 [of "kernel_end_phys ksym"] by simp
  then have k: "0 < ?k" using assms(2) by (metis gr0I mult_0 unat_eq_zero)
  have "pmm_wf \<lparr>bitmap = ?bm, total_pages = tot, used_pages = count_used ?bm tot\<rparr>"
    using c [of 0] k all_used [of 0] t by (intro finish_wf) auto
  moreover have "i < tot \<and> i \<notin> used_set \<lparr>bitmap = ?bm, total_pages = tot, used_pages = count_used ?bm tot\<rparr> \<longleftrightarrow> ?k \<le> i \<and> i < tot" for i
    using c [of i] all_used [of i] t by (auto simp: used_set_def)
  ultimately show ?thesis using m by (simp add: tot_def)
qed

end
