(* ===== verification/Heap.thy ===== *)
theory Heap
  imports Pmm
begin

text \<open>
  The kernel heap (\<open>src/memory.c\<close>, second half): a segregated-fit allocator with boundary tags over
  one region of memory. The store maps the address of each 32-bit word to its value, so that a
  block's header, the list links inside a free block and a live block's payload all live in the
  same memory and may alias. Words and addresses are numbers: every sum the code forms stays
  below 2^32 because the region ends below 0xF8000000. The entry points hold the heap lock with
  interrupts masked and are atomic here. A list walk that would not end is \<open>None\<close>.
\<close>

unbundle bit_operations_syntax

subsection \<open>The model\<close>

definition HB_HDR :: nat where "HB_HDR = 16"
definition HB_ALIGN :: nat where "HB_ALIGN = 16"
definition HB_MIN :: nat where "HB_MIN = 32"
definition HB_USED :: nat where "HB_USED = 1"
definition HB_PFREE :: nat where "HB_PFREE = 2"
definition HB_MAGIC_U :: nat where "HB_MAGIC_U = 0xA110C8ED"
definition HB_MAGIC_F :: nat where "HB_MAGIC_F = 0xF4EEB10C"
definition HB_NBINS :: nat where "HB_NBINS = 64"
definition KERNEL_VBASE :: nat where "KERNEL_VBASE = 0xC0000000"

lemmas hb_consts = HB_HDR_def HB_ALIGN_def HB_MIN_def HB_USED_def HB_PFREE_def HB_NBINS_def

text \<open>The allocator's statics, with the memory and the page allocator it draws on;
  \<open>kernel_end\<close> is the address of the linker symbol \<open>_kernel_end\<close>.\<close>

record heap =
  hmem :: "nat \<Rightarrow> nat"
  h_pmm :: pmm
  kernel_end :: nat
  heap_start :: nat
  heap_end :: nat
  bins :: "nat list"
  bin_map :: u64
  heap_used :: nat
  heap_peak :: nat

text \<open>The fields of \<open>struct hblock\<close> by their offsets.\<close>

definition f_size :: "nat \<Rightarrow> nat" where "f_size b = b"
definition f_prev_size :: "nat \<Rightarrow> nat" where "f_prev_size b = b + 4"
definition f_magic :: "nat \<Rightarrow> nat" where "f_magic b = b + 8"
definition f_next :: "nat \<Rightarrow> nat" where "f_next b = b + 16"
definition f_prev :: "nat \<Rightarrow> nat" where "f_prev b = b + 20"

lemmas field_defs = f_size_def f_prev_size_def f_magic_def f_next_def f_prev_def

definition hset :: "nat \<Rightarrow> nat \<Rightarrow> heap \<Rightarrow> heap" where
  "hset a v h = h\<lparr>hmem := (hmem h)(a := v)\<rparr>"

definition HB_SIZE :: "heap \<Rightarrow> nat \<Rightarrow> nat" where
  "HB_SIZE h b = hmem h (f_size b) AND 0xFFFFFFF0"

definition HB_NEXT_BLK :: "heap \<Rightarrow> nat \<Rightarrow> nat" where
  "HB_NEXT_BLK h b = b + HB_SIZE h b"

text \<open>\<open>31 - __builtin_clz(sz)\<close> for a non-zero argument.\<close>

fun ilog2 :: "nat \<Rightarrow> nat" where
  "ilog2 n = (if n < 2 then 0 else Suc (ilog2 (n div 2)))"

declare ilog2.simps [simp del]

definition hb_bin :: "nat \<Rightarrow> nat" where
  "hb_bin sz =
     (if sz < 256 then drop_bit 4 sz
      else let lg = ilog2 sz; sub = drop_bit (lg - 2) sz AND 3; b = 16 + (lg - 8) * 4 + sub
        in if b < HB_NBINS then b else HB_NBINS - 1)"

definition hb_unlink :: "heap \<Rightarrow> nat \<Rightarrow> heap" where
  "hb_unlink h b =
     (let i = hb_bin (HB_SIZE h b);
          h = (if hmem h (f_prev b) \<noteq> 0 then hset (f_next (hmem h (f_prev b))) (hmem h (f_next b)) h
               else h\<lparr>bins := (bins h)[i := hmem h (f_next b)]\<rparr>);
          h = (if hmem h (f_next b) \<noteq> 0 then hset (f_prev (hmem h (f_next b))) (hmem h (f_prev b)) h else h)
      in if bins h ! i = 0 then h\<lparr>bin_map := bin_map h AND NOT (push_bit i 1)\<rparr> else h)"

definition hb_insert :: "heap \<Rightarrow> nat \<Rightarrow> heap" where
  "hb_insert h b =
     (let i = hb_bin (HB_SIZE h b);
          h = hset (f_magic b) HB_MAGIC_F h;
          h = hset (f_prev b) 0 h;
          h = hset (f_next b) (bins h ! i) h;
          h = (if bins h ! i \<noteq> 0 then hset (f_prev (bins h ! i)) b h else h);
          h = h\<lparr>bins := (bins h)[i := b], bin_map := bin_map h OR push_bit i 1\<rparr>;
          n = HB_NEXT_BLK h b
      in if n < heap_end h
         then let h = hset (f_prev_size n) (HB_SIZE h b) h
              in hset (f_size n) (hmem h (f_size n) OR HB_PFREE) h
         else h)"

text \<open>The scan of \<open>heap_init\<close> for the largest free run above the kernel: the pair is
  \<open>(run_start, run_len, free_pages)\<close>; \<open>i\<close> is the loop variable.\<close>

definition run_end :: "bytes \<Rightarrow> nat \<Rightarrow> nat \<Rightarrow> nat" where
  "run_end bm tp i = i + length (takeWhile (\<lambda>j. \<not> bitmap_test bm j) [i..<tp])"

function find_runs :: "bytes \<Rightarrow> nat \<Rightarrow> nat \<Rightarrow> nat \<times> nat \<times> nat \<Rightarrow> nat \<times> nat \<times> nat" where
  "find_runs bm tp i acc =
     (if i < tp then
        if bitmap_test bm i then find_runs bm tp (i + 1) acc
        else case acc of (run_start, run_len, free_pages) \<Rightarrow>
          let j2 = run_end bm tp i; free_pages = free_pages + (j2 - i);
              (run_len, run_start) = (if run_len < j2 - i then (j2 - i, i) else (run_len, run_start))
          in find_runs bm tp j2 (run_start, run_len, free_pages)
      else acc)"
  by pat_completeness auto
termination
proof (relation "measure (\<lambda>(bm, tp, i, acc). tp - i)", goal_cases)
  case (3 bm tp i acc a p b c j2 fp r rl rs)
  have "[i..<tp] = i # [Suc i..<tp]" using 3(1) by (simp add: upt_conv_Cons)
  then have "i < run_end bm tp i" using 3(2) by (simp add: run_end_def)
  then show ?case using 3 by simp
qed auto

declare find_runs.simps [simp del]

text \<open>The conversion of \<open>_kernel_end\<close> to a physical address and of the first page to an address wrap at 32 bits; below
  the end of the run everything is smaller.\<close>

definition heap_init :: "heap \<Rightarrow> heap" where
  "heap_init h =
     (let pm = h_pmm h;
          kend_phys = (kernel_end h + 2 ^ 32 - KERNEL_VBASE) mod 2 ^ 32;
          start_page = (kend_phys + PAGE_SIZE - 1) mod 2 ^ 32 div PAGE_SIZE;
          (run_start, run_len, free_pages) = find_runs (bitmap pm) (total_pages pm) start_page (0, 0, 0);
          start_page = (if run_len \<noteq> 0 then run_start else start_page);
          avail = run_len;
          reserve = free_pages div 6;
          reserve = (if reserve < 4096 then 4096 else reserve);
          pages = (if reserve < avail then avail - reserve else avail div 2);
          pages = (if 768 * 256 < pages then 768 * 256 else pages);
          pages = (if pages < 32 * 256 then (avail * 3) div 4 else pages);
          hs = (start_page * PAGE_SIZE + KERNEL_VBASE) mod 2 ^ 32;
          he = hs + pages * PAGE_SIZE;
          pm = pm\<lparr>bitmap := foldl bitmap_set (bitmap pm) (map (\<lambda>i. start_page + i) [0..<pages]),
                  used_pages := used_pages pm + pages\<rparr>;
          h = h\<lparr>h_pmm := pm, heap_start := hs, heap_end := he,
                bins := replicate HB_NBINS 0, bin_map := 0\<rparr>;
          sentinel = he - HB_HDR;
          h = hset (f_size sentinel) (HB_HDR OR HB_USED) h;
          h = hset (f_magic sentinel) HB_MAGIC_U h;
          b = hs;
          h = hset (f_size b) (he - hs - HB_HDR) h;
          h = hset (f_prev_size b) 0 h
      in hb_insert h b)"

partial_function (option) hb_scan :: "heap \<Rightarrow> nat \<Rightarrow> nat \<Rightarrow> nat option" where
  "hb_scan h need b =
     (if b = 0 then Some 0
      else if need \<le> HB_SIZE h b then Some b
      else hb_scan h need (hmem h (f_next b)))"

text \<open>\<open>__builtin_ctz\<close> of a non-zero 32-bit word.\<close>

definition ctz32 :: "u32 \<Rightarrow> nat" where
  "ctz32 w = length (takeWhile (\<lambda>i. \<not> bit w i) [0..<32])"

text \<open>A result of \<open>Some 0\<close> is the null pointer.\<close>

definition hb_find :: "heap \<Rightarrow> nat \<Rightarrow> nat option" where
  "hb_find h need =
     (let i = hb_bin need
      in case hb_scan h need (bins h ! i) of
           None \<Rightarrow> None
         | Some b \<Rightarrow>
             if b \<noteq> 0 then Some b
             else let m = (if i + 1 < 64 then bin_map h AND NOT (push_bit i 2 - 1) else 0)
               in if m = 0 then Some 0
                  else let lo = ucast m :: u32;
                           j = (if lo \<noteq> 0 then ctz32 lo else 32 + ctz32 (ucast (drop_bit 32 m)))
                    in Some (bins h ! j))"

text \<open>The part of \<open>kmalloc\<close> after a block was found: unlink it, split off the rest when it is large
  enough for a block of its own, mark and count it.\<close>

definition kmalloc_take :: "heap \<Rightarrow> nat \<Rightarrow> nat \<Rightarrow> heap" where
  "kmalloc_take h b need =
     (let h = hb_unlink h b;
          bsz = HB_SIZE h b;
          pflag = hmem h (f_size b) AND HB_PFREE;
          h = (if HB_MIN \<le> bsz - need
               then let r = b + need;
                        h = hset (f_size r) (bsz - need) h;
                        h = hset (f_prev_size r) 0 h;
                        h = hset (f_size b) (need OR HB_USED OR pflag) h
                    in hb_insert h r
               else let h = hset (f_size b) (bsz OR HB_USED OR pflag) h;
                        n = HB_NEXT_BLK h b
                    in if n < heap_end h
                       then hset (f_size n) (hmem h (f_size n) AND 0xFFFFFFFD) h else h);
          h = hset (f_magic b) HB_MAGIC_U h;
          h = h\<lparr>heap_used := heap_used h + HB_SIZE h b\<rparr>
      in if heap_peak h < heap_used h then h\<lparr>heap_peak := heap_used h\<rparr> else h)"

definition kmalloc_need :: "nat \<Rightarrow> nat" where
  "kmalloc_need size_req =
     (let need = (size_req + HB_HDR + HB_ALIGN - 1) AND 0xFFFFFFF0
      in if need < HB_MIN then HB_MIN else need)"

definition kmalloc :: "heap \<Rightarrow> nat \<Rightarrow> (heap \<times> nat) option" where
  "kmalloc h size_req =
     (let h = (if heap_start h = 0 then heap_init h else h)
      in if size_req = 0 \<or> heap_end h - heap_start h < size_req then Some (h, 0)
         else let need = kmalloc_need size_req
           in case hb_find h need of
                None \<Rightarrow> None
              | Some b \<Rightarrow>
                  if b = 0 then Some (h, 0) else Some (kmalloc_take h b need, b + HB_HDR))"

definition hb_valid :: "heap \<Rightarrow> nat \<Rightarrow> bool" where
  "hb_valid h p \<longleftrightarrow>
     \<not> (p < heap_start h + HB_HDR \<or> heap_end h \<le> p \<or> p AND (HB_ALIGN - 1) \<noteq> 0) \<and>
     (let b = p - HB_HDR in hmem h (f_magic b) = HB_MAGIC_U \<and> hmem h (f_size b) AND HB_USED \<noteq> 0)"

definition ksize :: "heap \<Rightarrow> nat \<Rightarrow> nat" where
  "ksize h ptr =
     (if ptr = 0 \<or> \<not> hb_valid h ptr then 0 else HB_SIZE h (ptr - HB_HDR) - HB_HDR)"

text \<open>The two merges of \<open>kfree\<close>. The first returns the heap and the grown size, the second the heap
  and the block to insert.\<close>

definition kfree_forward :: "heap \<Rightarrow> nat \<Rightarrow> nat \<Rightarrow> nat \<Rightarrow> heap \<times> nat" where
  "kfree_forward h b sz pflag =
     (let n = HB_NEXT_BLK h b
      in if n < heap_end h \<and> hmem h (f_size n) AND HB_USED = 0
         then let h = hb_unlink h n;
                  sz = sz + HB_SIZE h n;
                  h = hset (f_magic n) 0 h;
                  h = hset (f_size b) (sz OR pflag) h
              in (h, sz)
         else (h, sz))"

definition kfree_backward :: "heap \<Rightarrow> nat \<Rightarrow> nat \<Rightarrow> nat \<Rightarrow> heap \<times> nat" where
  "kfree_backward h b sz pflag =
     (if pflag \<noteq> 0
      then let p = b - hmem h (f_prev_size b);
               h = hb_unlink h p;
               h = hset (f_magic b) 0 h;
               sz = sz + HB_SIZE h p;
               h = hset (f_size p) (sz OR (hmem h (f_size p) AND HB_PFREE)) h
           in (h, p)
      else (h, b))"

definition kfree :: "heap \<Rightarrow> nat \<Rightarrow> heap" where
  "kfree h ptr =
     (if ptr = 0 then h
      else if \<not> hb_valid h ptr then h
      else let b = ptr - HB_HDR;
               sz = HB_SIZE h b;
               h = h\<lparr>heap_used := heap_used h - sz\<rparr>;
               pflag = hmem h (f_size b) AND HB_PFREE;
               h = hset (f_size b) (sz OR pflag) h;
               (h, sz) = kfree_forward h b sz pflag;
               (h, b) = kfree_backward h b sz pflag
           in hb_insert h b)"

text \<open>A byte store into a word.\<close>

definition set8 :: "nat \<Rightarrow> nat \<Rightarrow> heap \<Rightarrow> heap" where
  "set8 a v h =
     (let w = a - a mod 4; k = 8 * (a mod 4); x = hmem h w
      in hset w (x - (drop_bit k x mod 256) * 2 ^ k + v * 2 ^ k) h)"

definition kcalloc :: "heap \<Rightarrow> nat \<Rightarrow> nat \<Rightarrow> (heap \<times> nat) option" where
  "kcalloc h n size_req =
     (if size_req \<noteq> 0 \<and> 0xFFFFFFFF div size_req < n then Some (h, 0)
      else let t = n * size_req
        in case kmalloc h t of
             None \<Rightarrow> None
           | Some (h, p) \<Rightarrow>
               Some (if p \<noteq> 0 then foldl (\<lambda>h i. set8 (p + i) 0 h) h [0..<t] else h, p))"

definition krealloc :: "heap \<Rightarrow> nat \<Rightarrow> nat \<Rightarrow> (heap \<times> nat) option" where
  "krealloc h ptr size_req =
     (if ptr = 0 then kmalloc h size_req
      else if size_req = 0 then Some (kfree h ptr, 0)
      else if \<not> hb_valid h ptr then Some (h, 0)
      else let b = ptr - HB_HDR; have = HB_SIZE h b - HB_HDR
        in if size_req \<le> have then Some (h, ptr)
           else case kmalloc h size_req of
                  None \<Rightarrow> None
                | Some (h, q) \<Rightarrow>
                    if q = 0 then Some (h, 0)
                    else let h = foldl (\<lambda>h i. hset (q + 4 * i) (hmem h (ptr + 4 * i)) h) h [0..<have div 4]
                      in Some (kfree h ptr, q))"

text \<open>\<open>heap_stats\<close>: the walk over one bin, the search from the highest bin down, and the four results.\<close>

partial_function (option) hb_big :: "heap \<Rightarrow> nat \<Rightarrow> nat \<Rightarrow> nat option" where
  "hb_big h big b =
     (if b = 0 then Some big
      else hb_big h (if big < HB_SIZE h b then HB_SIZE h b else big) (hmem h (f_next b)))"

fun largest_free :: "heap \<Rightarrow> nat \<Rightarrow> nat option" where
  "largest_free h 0 = Some 0"
| "largest_free h (Suc i) =
     (case hb_big h 0 (bins h ! i) of
        None \<Rightarrow> None
      | Some big \<Rightarrow> if big = 0 then largest_free h i else Some big)"

definition heap_stats :: "heap \<Rightarrow> (heap \<times> nat \<times> nat \<times> nat \<times> nat) option" where
  "heap_stats h =
     (let h = (if heap_start h = 0 then heap_init h else h)
      in case largest_free h HB_NBINS of
           None \<Rightarrow> None
         | Some big \<Rightarrow> Some (h, heap_end h - heap_start h, heap_used h, heap_peak h, big))"

end
