(* ===== verification/Heap_Inv.thy ===== *)
theory Heap_Inv
  imports Heap
begin

text \<open>
  The heap's invariant: the region is tiled by blocks whose headers agree with their neighbours, and
  the 64 bins are doubly linked lists through exactly the free blocks of their size class. The
  operations \<open>hb_unlink\<close>, \<open>hb_insert\<close> and \<open>hb_find\<close> are described on the abstract block list and the
  abstract free lists.
\<close>

unbundle bit_operations_syntax

subsection \<open>Header words\<close>

definition hw :: "nat \<Rightarrow> bool \<Rightarrow> bool \<Rightarrow> nat" where
  "hw s u p = (s OR (if u then 1 else 0) OR (if p then 2 else 0))"

lemma bit_two: "bit (2 :: nat) n \<longleftrightarrow> n = 1"
proof -
  have e: "(2 :: nat) = push_bit 1 1" by simp
  show ?thesis unfolding e by (simp only: bit_push_bit_iff bit_1_iff) auto
qed

lemma bit_size: "16 dvd s \<Longrightarrow> bit s n \<Longrightarrow> 4 \<le> n" for s :: nat
proof -
  assume d: "16 dvd s" and b: "bit s n"
  obtain k where k: "s = push_bit 4 k" using d by (auto simp: push_bit_eq_mult mult.commute elim: dvdE)
  show ?thesis using b unfolding k by (simp only: bit_push_bit_iff)
qed

lemma bit_masks:
  "bit (0xFFFFFFF0 :: nat) n \<longleftrightarrow> 4 \<le> n \<and> n < 32"
  "bit (0xFFFFFFFD :: nat) n \<longleftrightarrow> n \<noteq> 1 \<and> n < 32"
proof -
  have e: "(0xFFFFFFF0 :: nat) = push_bit 4 (mask 28)" by (simp add: mask_eq_exp_minus_1 push_bit_eq_mult)
  show "bit (0xFFFFFFF0 :: nat) n \<longleftrightarrow> 4 \<le> n \<and> n < 32"
    unfolding e by (simp only: bit_push_bit_iff bit_mask_iff) auto
  have "(0xFFFFFFFD :: nat) = push_bit 2 (mask 30) + 1" by (simp add: mask_eq_exp_minus_1 push_bit_eq_mult)
  also have "\<dots> = (push_bit 2 (mask 30) OR 1)"
    by (rule disjunctive_add_eq_or, rule bit_eqI) (auto simp only: bit_and_iff bit_push_bit_iff bit_1_iff bit_0_eq)
  finally have e: "(0xFFFFFFFD :: nat) = (push_bit 2 (mask 30) OR 1)" .
  show "bit (0xFFFFFFFD :: nat) n \<longleftrightarrow> n \<noteq> 1 \<and> n < 32"
    unfolding e by (simp only: bit_or_iff bit_push_bit_iff bit_mask_iff bit_1_iff) auto
qed

lemma bit_small: "s < 2 ^ 32 \<Longrightarrow> bit s n \<Longrightarrow> n < 32" for s n :: nat
proof (rule ccontr)
  assume "s < 2 ^ 32" "bit s n" "\<not> n < 32"
  moreover then have "(2 :: nat) ^ 32 \<le> 2 ^ n" by (intro power_increasing) auto
  ultimately show False by (simp add: bit_iff_odd)
qed

lemma hw_ops:
  assumes "16 dvd s" "s < 2 ^ 32"
  shows "hw s u p AND 0xFFFFFFF0 = s"
    "(hw s u p AND 1 = 0) \<longleftrightarrow> \<not> u"
    "hw s u p AND 2 = (if p then 2 else 0)"
    "s OR 1 OR (if p then 2 else 0) = hw s True p"
    "s OR (if p then 2 else 0) = hw s False p"
    "hw s u p OR 2 = hw s u True"
    "hw s u p AND 0xFFFFFFFD = hw s u False"
    "s = hw s False False"
proof -
  have z: "bit s n \<Longrightarrow> 4 \<le> n \<and> n < 32" for n
    using bit_size [OF assms(1), of n] bit_small [OF assms(2), of n] by blast
  have z': "\<not> bit s 0" "\<not> bit s (Suc 0)" using z [of 0] z [of "Suc 0"] by auto
  note b = hw_def bit_and_iff bit_or_iff bit_masks bit_1_iff bit_1_iff [where 'a = nat, unfolded One_nat_def] bit_two
  show "hw s u p AND 0xFFFFFFF0 = s" by (rule bit_eqI) (auto simp: b dest: z)
  show "hw s u p AND 2 = (if p then 2 else 0)" by (rule bit_eqI) (auto simp: b z')
  show "s OR 1 OR (if p then 2 else 0) = hw s True p" by (simp add: hw_def)
  show "s OR (if p then 2 else 0) = hw s False p" by (simp add: hw_def)
  show "hw s u p OR 2 = hw s u True" by (rule bit_eqI) (auto simp: b)
  show "hw s u p AND 0xFFFFFFFD = hw s u False" by (rule bit_eqI) (auto simp: b z' dest: z)
  have "bit (hw s u p) 0 \<longleftrightarrow> u"
    unfolding hw_def bit_or_iff using z' by (auto simp only: bit_1_iff bit_two bit_0_eq split: if_split)
  then show "(hw s u p AND 1 = 0) \<longleftrightarrow> \<not> u"
    unfolding bit_0 by (auto simp add: and_one_eq mod_2_eq_odd)
  show "s = hw s False False" by (simp add: hw_def)
qed

subsection \<open>Size classes\<close>

lemma ilog2_bounds: "0 < n \<Longrightarrow> 2 ^ ilog2 n \<le> n \<and> n < 2 ^ (ilog2 n + 1)"
proof (induction n rule: ilog2.induct)
  case (1 n)
  show ?case
  proof (cases "n < 2")
    case True
    then show ?thesis using 1(2) by (simp add: ilog2.simps [of n])
  next
    case False
    then have "0 < n div 2" by simp
    with 1 False have "2 ^ ilog2 (n div 2) \<le> n div 2 \<and> n div 2 < 2 ^ (ilog2 (n div 2) + 1)" by simp
    then show ?thesis using False by (subst (1 2) ilog2.simps) auto
  qed
qed

text \<open>The class before the clamp, for sizes of 256 and more.\<close>

definition big_bin :: "nat \<Rightarrow> nat" where
  "big_bin sz = 4 * ilog2 sz + sz div 2 ^ (ilog2 sz - 2) - 20"

lemma big_bin_quot:
  assumes "256 \<le> sz"
  shows "8 \<le> ilog2 sz" "4 \<le> sz div 2 ^ (ilog2 sz - 2)" "sz div 2 ^ (ilog2 sz - 2) < 8"
proof -
  let ?l = "ilog2 sz"
  have b: "2 ^ ?l \<le> sz" "sz < 2 ^ (?l + 1)" using ilog2_bounds [of sz] assms by auto
  have "(2 :: nat) ^ 8 < 2 ^ (?l + 1)" using b(2) assms by simp
  then have "8 < ?l + 1" by (rule power_less_imp_less_exp [rotated]) simp
  then show l: "8 \<le> ?l" by simp
  have e: "(2 :: nat) ^ ?l = 4 * 2 ^ (?l - 2)" "(2 :: nat) ^ (?l + 1) = 8 * 2 ^ (?l - 2)"
    using power_add [of "2 :: nat" 2 "?l - 2"] power_add [of "2 :: nat" 3 "?l - 2"] l by simp_all
  show "4 \<le> sz div 2 ^ (?l - 2)" using b(1) unfolding e(1) by (simp add: less_eq_div_iff_mult_less_eq)
  show "sz div 2 ^ (?l - 2) < 8" using b(2) unfolding e(2) by (simp add: div_less_iff_less_mult)
qed

lemma hb_bin_big: "256 \<le> sz \<Longrightarrow> hb_bin sz = min (big_bin sz) 63"
proof -
  assume s: "256 \<le> sz"
  note q = big_bin_quot [OF s]
  let ?q = "sz div 2 ^ (ilog2 sz - 2)"
  have "x AND 3 = x mod 4" for x :: nat
    using take_bit_eq_mask [of 2 x] by (simp add: mask_eq_exp_minus_1 take_bit_eq_mod)
  then have "drop_bit (ilog2 sz - 2) sz AND 3 = ?q mod 4" by (simp add: drop_bit_eq_div)
  moreover have "?q mod 4 = ?q - 4" using q by (simp add: le_mod_geq)
  moreover have "16 + (ilog2 sz - 8) * 4 + (?q - 4) = big_bin sz"
    using q by (simp add: big_bin_def)
  ultimately show ?thesis
    using s by (simp add: hb_bin_def Let_def HB_NBINS_def min_def)
qed

lemma big_bin_mono: "256 \<le> a \<Longrightarrow> a \<le> b \<Longrightarrow> big_bin a \<le> big_bin b"
proof -
  assume a: "256 \<le> a" and ab: "a \<le> b"
  note qa = big_bin_quot [OF a] and qb = big_bin_quot [of b]
  show ?thesis
  proof (cases "ilog2 a = ilog2 b")
    case True
    then have "a div 2 ^ (ilog2 a - 2) \<le> b div 2 ^ (ilog2 b - 2)" using ab by (simp add: div_le_mono)
    then show ?thesis using True by (simp add: big_bin_def)
  next
    case False
    have "(2 :: nat) ^ ilog2 a < 2 ^ (ilog2 b + 1)"
      using ilog2_bounds [of a] ilog2_bounds [of b] a ab by linarith
    then have "ilog2 a < ilog2 b + 1" by (rule power_less_imp_less_exp [rotated]) simp
    then have "ilog2 a + 1 \<le> ilog2 b" using False by simp
    then show ?thesis using qa qb a ab by (simp add: big_bin_def)
  qed
qed

lemma hb_bin_mono: "a \<le> b \<Longrightarrow> hb_bin a \<le> hb_bin b"
proof -
  assume ab: "a \<le> b"
  have small: "hb_bin x = x div 16" if "x < 256" for x
    using that by (simp add: hb_bin_def drop_bit_eq_div)
  have big: "16 \<le> hb_bin x" if "256 \<le> x" for x
    using hb_bin_big [OF that] big_bin_quot [OF that] by (simp add: big_bin_def)
  consider "b < 256" | "a < 256" "256 \<le> b" | "256 \<le> a" by linarith
  then show ?thesis
  proof cases
    case 1
    then show ?thesis using small [of a] small [of b] ab by (simp add: div_le_mono)
  next
    case 2
    then have "hb_bin a < 16" using small [of a] by simp
    then show ?thesis using big [OF 2(2)] by simp
  next
    case 3
    then show ?thesis using big_bin_mono [OF 3 ab] hb_bin_big [of a] hb_bin_big [of b] ab by simp
  qed
qed

lemma hb_bin_less: "hb_bin sz < 64"
proof (cases "sz < 256")
  case True
  then show ?thesis by (simp add: hb_bin_def drop_bit_eq_div)
next
  case False
  then show ?thesis using hb_bin_big [of sz] by simp
qed

subsection \<open>Doubly linked segments\<close>

text \<open>\<open>dseg m p b xs q\<close>: starting at \<open>b\<close> with back pointer \<open>p\<close>, the links run through \<open>xs\<close> and
  reach \<open>q\<close>.\<close>

fun dseg :: "(nat \<Rightarrow> nat) \<Rightarrow> nat \<Rightarrow> nat \<Rightarrow> nat list \<Rightarrow> nat \<Rightarrow> bool" where
  "dseg m p b [] q \<longleftrightarrow> b = q"
| "dseg m p b (x # xs) q \<longleftrightarrow> b = x \<and> x \<noteq> 0 \<and> m (f_prev x) = p \<and> dseg m x (m (f_next x)) xs q"

definition far :: "nat \<Rightarrow> nat \<Rightarrow> bool" where
  "far x y \<longleftrightarrow> x + 32 \<le> y \<or> y + 32 \<le> x"

definition apart :: "nat set \<Rightarrow> bool" where
  "apart S \<longleftrightarrow> (\<forall>x \<in> S. \<forall>y \<in> S. x \<noteq> y \<longrightarrow> far x y) \<and> 0 \<notin> S"

lemma apart_far: "apart S \<Longrightarrow> x \<in> S \<Longrightarrow> y \<in> S \<Longrightarrow> x \<noteq> y \<Longrightarrow> far x y"
  by (auto simp: apart_def)

lemma apart_nz: "apart S \<Longrightarrow> x \<in> S \<Longrightarrow> x \<noteq> 0"
  by (metis apart_def)

lemma far_fields:
  "far x y \<Longrightarrow> f \<in> {f_size, f_prev_size, f_magic, f_next, f_prev} \<Longrightarrow>
   g \<in> {f_size, f_prev_size, f_magic, f_next, f_prev} \<Longrightarrow> f x \<noteq> g y"
  by (auto simp: far_def field_defs)

lemma same_fields [simp]:
  "f_next x \<noteq> f_prev x" "f_prev x \<noteq> f_next x" "f_size x \<noteq> f_next x" "f_size x \<noteq> f_prev x"
  "f_size x \<noteq> f_magic x" "f_size x \<noteq> f_prev_size x" "f_prev_size x \<noteq> f_magic x"
  "f_prev_size x \<noteq> f_size x" "f_magic x \<noteq> f_size x" "f_magic x \<noteq> f_prev_size x"
  "f_magic x \<noteq> f_next x" "f_magic x \<noteq> f_prev x" "f_prev_size x \<noteq> f_next x" "f_prev_size x \<noteq> f_prev x"
  "f_next x \<noteq> f_magic x" "f_prev x \<noteq> f_magic x" "f_next x \<noteq> f_size x" "f_prev x \<noteq> f_size x"
  "f_next x \<noteq> f_prev_size x" "f_prev x \<noteq> f_prev_size x"
  by (simp_all add: field_defs)

lemma field_inj [simp]:
  "f_next x = f_next y \<longleftrightarrow> x = y" "f_prev x = f_prev y \<longleftrightarrow> x = y" "f_size x = f_size y \<longleftrightarrow> x = y"
  "f_magic x = f_magic y \<longleftrightarrow> x = y" "f_prev_size x = f_prev_size y \<longleftrightarrow> x = y"
  by (simp_all add: field_defs)

definition links :: "nat set \<Rightarrow> nat set" where
  "links S = f_next ` S \<union> f_prev ` S"

lemma dseg_frame:
  "(\<And>a. a \<in> links (set xs) \<Longrightarrow> m' a = m a) \<Longrightarrow> dseg m' p b xs q \<longleftrightarrow> dseg m p b xs q"
  by (induction xs arbitrary: p b) (auto simp: links_def)

lemma dseg_append:
  "dseg m p b (xs @ ys) q \<longleftrightarrow> (\<exists>r. dseg m p b xs r \<and> dseg m (last (p # xs)) r ys q)"
  by (induction xs arbitrary: p b) auto

lemma links_apart:
  assumes "apart S" "x \<in> S" "X \<subseteq> S" "x \<notin> X" "f \<in> {f_size, f_prev_size, f_magic, f_next, f_prev}"
  shows "f x \<notin> links X"
proof
  assume "f x \<in> links X"
  then obtain y g where y: "y \<in> X" "f x = g y" "g \<in> {f_size, f_prev_size, f_magic, f_next, f_prev}"
    by (auto simp: links_def)
  have "far x y" using assms y(1) by (intro apart_far [OF assms(1)]) auto
  from far_fields [OF this assms(5) y(3)] y(2) show False by simp
qed

text \<open>Redirecting the link out of a segment, and the link back into one.\<close>

lemma dseg_new_end:
  assumes "dseg m p b xs q" "xs \<noteq> []" "distinct xs" "apart S" "set xs \<subseteq> S"
  shows "dseg (m(f_next (last xs) := q')) p b xs q'"
  using assms
proof (induction xs arbitrary: p b)
  case (Cons x xs)
  show ?case
  proof (cases "xs = []")
    case True
    then show ?thesis using Cons.prems by simp
  next
    case False
    then have l: "last xs \<noteq> x" "last xs \<in> S" using Cons.prems by auto
    then have "f_prev x \<noteq> f_next (last xs)"
      using Cons.prems far_fields [OF apart_far [of S x "last xs"], of f_prev f_next] by auto
    then show ?thesis using Cons False l by auto
  qed
qed simp

lemma dseg_new_start:
  assumes "dseg m p b (y # ys) q" "distinct (y # ys)" "apart S" "set (y # ys) \<subseteq> S"
  shows "dseg (m(f_prev y := p')) p' b (y # ys) q"
proof -
  have "f_prev y \<notin> links (set ys)" using assms by (intro links_apart [of S]) auto
  then have "dseg (m(f_prev y := p')) y (m (f_next y)) ys q \<longleftrightarrow> dseg m y (m (f_next y)) ys q"
    by (intro dseg_frame) auto
  then show ?thesis using assms(1) by simp
qed

subsection \<open>The bins\<close>

definition bins_ok :: "heap \<Rightarrow> (nat \<Rightarrow> nat list) \<Rightarrow> bool" where
  "bins_ok h L \<longleftrightarrow> length (bins h) = 64 \<and>
     (\<forall>i < 64. dseg (hmem h) 0 (bins h ! i) (L i) 0 \<and> distinct (L i) \<and> (bit (bin_map h) i \<longleftrightarrow> L i \<noteq> [])) \<and>
     (\<forall>i < 64. \<forall>j < 64. i \<noteq> j \<longrightarrow> set (L i) \<inter> set (L j) = {})"

definition listed :: "(nat \<Rightarrow> nat list) \<Rightarrow> nat set" where
  "listed L = (\<Union>i \<in> {0..<64}. set (L i))"

lemma listed_bin: "i < 64 \<Longrightarrow> set (L i) \<subseteq> listed L"
  by (auto simp: listed_def)

lemma links_mono: "X \<subseteq> Y \<Longrightarrow> links X \<subseteq> links Y"
  by (auto simp: links_def)

text \<open>Everything of the state but the memory and the bins.\<close>

definition frame_eq :: "heap \<Rightarrow> heap \<Rightarrow> bool" where
  "frame_eq h h' \<longleftrightarrow> h_pmm h' = h_pmm h \<and> kernel_end h' = kernel_end h \<and> heap_start h' = heap_start h \<and>
     heap_end h' = heap_end h \<and> heap_used h' = heap_used h \<and> heap_peak h' = heap_peak h"

lemma hset_simps [simp]:
  "hmem (hset a v h) = (hmem h)(a := v)" "bins (hset a v h) = bins h" "bin_map (hset a v h) = bin_map h"
  "heap_start (hset a v h) = heap_start h" "heap_end (hset a v h) = heap_end h" "h_pmm (hset a v h) = h_pmm h"
  "heap_used (hset a v h) = heap_used h" "heap_peak (hset a v h) = heap_peak h"
  "kernel_end (hset a v h) = kernel_end h"
  by (simp_all add: hset_def)

lemma bins_ok_zero: "bins_ok h L \<Longrightarrow> apart S \<Longrightarrow> listed L \<subseteq> S \<Longrightarrow> i < 64 \<Longrightarrow> bins h ! i = 0 \<longleftrightarrow> L i = []"
  by (cases "L i") (auto simp: bins_ok_def)

lemma bins_ok_frame:
  assumes "bins_ok h L" "bins h' = bins h" "bin_map h' = bin_map h"
    and "\<And>a. a \<in> links (listed L) \<Longrightarrow> hmem h' a = hmem h a"
  shows "bins_ok h' L"
proof -
  have "dseg (hmem h') 0 (bins h ! i) (L i) 0 \<longleftrightarrow> dseg (hmem h) 0 (bins h ! i) (L i) 0" if "i < 64" for i
    by (rule dseg_frame, rule assms(4)) (use links_mono [OF listed_bin [OF that]] in blast)
  then show ?thesis using assms(1-3) by (simp add: bins_ok_def)
qed

text \<open>Replacing one bin.\<close>

lemma bins_ok_update:
  assumes "bins_ok h L" "i < 64" "apart S" "listed L \<subseteq> S" "set xs \<subseteq> S"
    and "bins h' = (bins h)[i := b]" "dseg (hmem h') 0 b xs 0" "distinct xs"
    and "\<And>j. j < 64 \<Longrightarrow> bit (bin_map h') j \<longleftrightarrow> (if j = i then xs \<noteq> [] else bit (bin_map h) j)"
    and "\<And>j. j < 64 \<Longrightarrow> j \<noteq> i \<Longrightarrow> set xs \<inter> set (L j) = {}"
    and "\<And>j a. j < 64 \<Longrightarrow> j \<noteq> i \<Longrightarrow> a \<in> links (set (L j)) \<Longrightarrow> hmem h' a = hmem h a"
  shows "bins_ok h' (L(i := xs))"
proof -
  have "dseg (hmem h') 0 (bins h ! j) (L j) 0" if "j < 64" "j \<noteq> i" for j
  proof -
    have "dseg (hmem h') 0 (bins h ! j) (L j) 0 \<longleftrightarrow> dseg (hmem h) 0 (bins h ! j) (L j) 0"
      by (rule dseg_frame) (use assms(11) that in auto)
    then show ?thesis using assms(1) that by (simp add: bins_ok_def)
  qed
  then show ?thesis using assms(1,2,6-10) by (auto simp: bins_ok_def)
qed

lemma unlink_list:
  assumes "dseg m 0 h0 (xs @ b # ys) 0" "distinct (xs @ b # ys)" "apart S" "set (xs @ b # ys) \<subseteq> S"
  defines "m1 \<equiv> (if xs = [] then m else m(f_next (last xs) := m (f_next b)))"
  defines "m2 \<equiv> (if ys = [] then m1 else m1(f_prev (hd ys) := m (f_prev b)))"
  shows "m (f_prev b) = last (0 # xs)" "m (f_next b) = (if ys = [] then 0 else hd ys)"
    "dseg m2 0 (if xs = [] then m (f_next b) else h0) (xs @ ys) 0"
proof -
  obtain r where r: "dseg m 0 h0 xs r" "dseg m (last (0 # xs)) r (b # ys) 0"
    using assms(1) unfolding dseg_append by blast
  then have b: "r = b" "b \<noteq> 0" "m (f_prev b) = last (0 # xs)" "dseg m b (m (f_next b)) ys 0" by auto
  show "m (f_prev b) = last (0 # xs)" by fact
  show nx: "m (f_next b) = (if ys = [] then 0 else hd ys)" using b(4) by (cases ys) auto
  have d1: "dseg m1 0 (if xs = [] then m (f_next b) else h0) xs (m (f_next b))"
  proof (cases "xs = []")
    case False
    then show ?thesis using dseg_new_end [OF r(1) False, of S "m (f_next b)"] assms by (simp add: m1_def)
  qed simp
  have fy: "a \<in> links (set ys) \<Longrightarrow> m1 a = m a" for a
  proof (cases "xs = []")
    case False
    assume a: "a \<in> links (set ys)"
    have "last xs \<in> S" "last xs \<notin> set ys" using assms(2,4) last_in_set [OF False] by auto
    then have "f_next (last xs) \<notin> links (set ys)"
      using assms(3,4) by (intro links_apart [of S "last xs" _ f_next]) auto
    with a show ?thesis by (auto simp: m1_def)
  qed (simp add: m1_def)
  have d2: "dseg m1 b (m (f_next b)) ys 0" using b(4) dseg_frame [of ys m1 m] fy by blast
  have "dseg m2 0 (if xs = [] then m (f_next b) else h0) xs (m (f_next b)) \<and>
      dseg m2 (last (0 # xs)) (m (f_next b)) ys 0"
  proof (cases ys)
    case Nil
    then show ?thesis using d1 d2 by (simp add: m2_def)
  next
    case (Cons y ys')
    have "f_prev y \<notin> links (set xs)" using assms(2-4) Cons by (intro links_apart [of S y _ f_prev]) auto
    then have "m2 a = m1 a" if "a \<in> links (set xs)" for a using that Cons by (auto simp: m2_def)
    then have "dseg m2 0 (if xs = [] then m (f_next b) else h0) xs (m (f_next b))"
      using d1 dseg_frame [of xs m2 m1] by blast
    moreover have "dseg m2 (last (0 # xs)) (m (f_next b)) ys 0"
      using dseg_new_start [of m1 b "m (f_next b)" y ys' 0 S "m (f_prev b)"] d2 Cons assms(2-4) b(3)
      by (simp add: m2_def)
    ultimately show ?thesis by blast
  qed
  then show "dseg m2 0 (if xs = [] then m (f_next b) else h0) (xs @ ys) 0"
    unfolding dseg_append by blast
qed

lemma bit_clear: "i < 64 \<Longrightarrow> j < 64 \<Longrightarrow> bit (w AND NOT (push_bit i 1)) j \<longleftrightarrow> j \<noteq> i \<and> bit w j" for w :: u64
  by (auto simp: bit_simps)

lemma bit_set_or: "i < 64 \<Longrightarrow> j < 64 \<Longrightarrow> bit (w OR push_bit i 1) j \<longleftrightarrow> j = i \<or> bit w j" for w :: u64
  by (auto simp: bit_simps)

lemmas bit_map_simps = bit_clear bit_set_or bit_clear [unfolded push_bit_of_1] bit_set_or [unfolded push_bit_of_1]

lemma unlink_components:
  assumes "i = hb_bin (HB_SIZE h b)" "p = hmem h (f_prev b)" "n = hmem h (f_next b)"
    and "m1 = (if p \<noteq> 0 then (hmem h)(f_next p := n) else hmem h)" "m1 (f_next b) = n" "m1 (f_prev b) = p"
    and "bs = (if p \<noteq> 0 then bins h else (bins h)[i := n])"
  shows "hmem (hb_unlink h b) = (if n \<noteq> 0 then m1(f_prev n := p) else m1)"
    "bins (hb_unlink h b) = bs"
    "bin_map (hb_unlink h b) = (if bs ! i = 0 then bin_map h AND NOT (push_bit i 1) else bin_map h)"
    "frame_eq h (hb_unlink h b)"
proof -
  let ?h1 = "if p \<noteq> 0 then hset (f_next p) n h else h\<lparr>bins := (bins h)[i := n]\<rparr>"
  let ?h2 = "if n \<noteq> 0 then hset (f_prev n) p ?h1 else ?h1"
  have h1: "hmem ?h1 = m1" "bins ?h1 = bs" "bin_map ?h1 = bin_map h" "frame_eq h ?h1"
    using assms(4,7) by (simp_all add: frame_eq_def)
  have h2: "hmem ?h2 = (if n \<noteq> 0 then m1(f_prev n := p) else m1)" "bins ?h2 = bs" "bin_map ?h2 = bin_map h"
    "frame_eq h ?h2"
    using h1 by (simp_all add: frame_eq_def)
  obtain h2 where u: "hb_unlink h b = (if bins h2 ! i = 0 then h2\<lparr>bin_map := bin_map h2 AND NOT (push_bit i 1)\<rparr> else h2)"
    and h2: "hmem h2 = (if n \<noteq> 0 then m1(f_prev n := p) else m1)" "bins h2 = bs" "bin_map h2 = bin_map h"
      "frame_eq h h2"
  proof (rule that [OF _ h2])
    show "hb_unlink h b = (if bins ?h2 ! i = 0 then ?h2\<lparr>bin_map := bin_map ?h2 AND NOT (push_bit i 1)\<rparr> else ?h2)"
    unfolding hb_unlink_def Let_def assms(1) [symmetric] assms(2) [symmetric] assms(3) [symmetric]
      h1(1) assms(5,6) by (rule refl)
  qed
  show "hmem (hb_unlink h b) = (if n \<noteq> 0 then m1(f_prev n := p) else m1)" "bins (hb_unlink h b) = bs"
    "bin_map (hb_unlink h b) = (if bs ! i = 0 then bin_map h AND NOT (push_bit i 1) else bin_map h)"
    "frame_eq h (hb_unlink h b)"
    unfolding u using h2 by (simp_all add: frame_eq_def)
qed

lemma unlink_ok:
  assumes "bins_ok h L" "apart S" "listed L \<subseteq> S" "b \<in> set (L i)" "i = hb_bin (HB_SIZE h b)"
  shows "bins_ok (hb_unlink h b) (L(i := remove1 b (L i)))" "frame_eq h (hb_unlink h b)"
    "\<And>a. a \<notin> links (listed L) \<Longrightarrow> hmem (hb_unlink h b) a = hmem h a"
proof -
  have i: "i < 64" using hb_bin_less assms(5) by simp
  have iS: "set (L i) \<subseteq> S" using listed_bin [OF i] assms(3) by blast
  have dl: "dseg (hmem h) 0 (bins h ! i) (L i) 0" "distinct (L i)" using assms(1) i by (auto simp: bins_ok_def)
  obtain xs ys where L: "L i = xs @ b # ys" using split_list [OF assms(4)] by blast
  let ?m = "hmem h"
  let ?m1 = "if xs = [] then ?m else ?m(f_next (last xs) := ?m (f_next b))"
  let ?m2 = "if ys = [] then ?m1 else ?m1(f_prev (hd ys) := ?m (f_prev b))"
  let ?b = "if xs = [] then ?m (f_next b) else bins h ! i"
  note u = unlink_list [OF dl [unfolded L] assms(2), unfolded L [symmetric], OF iS]
  have nz: "x \<in> set (L i) \<Longrightarrow> x \<noteq> 0" for x using apart_nz [OF assms(2)] iS by auto
  have pz: "?m (f_prev b) = 0 \<longleftrightarrow> xs = []"
    using u(1) nz [of "last xs"] L by (auto simp: last_in_set)
  have far: "f_next b \<noteq> f_next (last xs)" "f_prev b \<noteq> f_next (last xs)" if "xs \<noteq> []"
  proof -
    have "last xs \<noteq> b" "last xs \<in> S" "b \<in> S" using that dl(2) iS L last_in_set [OF that] by auto
    then show "f_next b \<noteq> f_next (last xs)" "f_prev b \<noteq> f_next (last xs)"
      using far_fields [OF apart_far [OF assms(2), of b "last xs"], of f_prev f_next] by auto
  qed
  have m1: "?m1 (f_next b) = ?m (f_next b)" "?m1 (f_prev b) = ?m (f_prev b)" using far by auto
  have yz: "?m (f_next b) = 0 \<longleftrightarrow> ys = []" using u(2) nz [of "hd ys"] L by auto
  have bl: "bins h ! i = ?b \<longleftrightarrow> xs \<noteq> [] \<or> bins h ! i = ?m (f_next b)" by auto
  have len: "length (bins h) = 64" using assms(1) by (simp add: bins_ok_def)
  have un: "hmem (hb_unlink h b) = ?m2" "bins (hb_unlink h b) = (bins h)[i := ?b]"
    "bin_map (hb_unlink h b) = (if ?b = 0 then bin_map h AND NOT (push_bit i 1) else bin_map h)"
    "frame_eq h (hb_unlink h b)"
  proof -
    let ?p = "?m (f_prev b)" and ?n = "?m (f_next b)"
    have l: "xs \<noteq> [] \<Longrightarrow> ?p = last xs" "ys \<noteq> [] \<Longrightarrow> ?n = hd ys" using u(1,2) by auto
    have e1: "?m1 = (if ?p \<noteq> 0 then ?m(f_next ?p := ?n) else ?m)"
      using pz l(1) by (cases "xs = []") simp_all
    have eb: "(if ?p \<noteq> 0 then bins h else (bins h)[i := ?n]) = (bins h)[i := ?b]"
      by (cases "xs = []") (simp_all add: pz)
    have bi: "(bins h)[i := ?b] ! i = ?b" using i len by simp
    have e2: "?m2 = (if ?n \<noteq> 0 then ?m1(f_prev ?n := ?p) else ?m1)"
      using l(2) yz by (cases "ys = []") (simp_all only: if_True if_False simp_thms)
    note c = unlink_components [OF assms(5) refl refl e1 m1 refl, unfolded eb bi, folded e2]
    show "hmem (hb_unlink h b) = ?m2" "bins (hb_unlink h b) = (bins h)[i := ?b]"
      "bin_map (hb_unlink h b) = (if ?b = 0 then bin_map h AND NOT (push_bit i 1) else bin_map h)"
      "frame_eq h (hb_unlink h b)"
      by (rule c)+
  qed
  have same: "hmem (hb_unlink h b) a = ?m a" if "\<And>x. x \<in> set (L i) \<Longrightarrow> a \<noteq> f_next x \<and> a \<noteq> f_prev x" for a
  proof -
    have "xs \<noteq> [] \<Longrightarrow> a \<noteq> f_next (last xs)" "ys \<noteq> [] \<Longrightarrow> a \<noteq> f_prev (hd ys)"
      using that [of "last xs"] that [of "hd ys"] L by auto
    then show ?thesis unfolding un(1) by (cases "xs = []"; cases "ys = []") (simp_all only: if_True if_False simp_thms fun_upd_apply)
  qed
  show "frame_eq h (hb_unlink h b)" by (rule un(4))
  show "hmem (hb_unlink h b) a = hmem h a" if "a \<notin> links (listed L)" for a
  proof -
    have "a \<notin> links (set (L i))" using that links_mono [OF listed_bin [OF i]] by blast
    then show ?thesis by (intro same) (auto simp: links_def)
  qed
  have bz: "?b = 0 \<longleftrightarrow> xs @ ys = []" using yz bins_ok_zero [OF assms(1-3) i] L by auto
  show "bins_ok (hb_unlink h b) (L(i := remove1 b (L i)))"
  proof (rule bins_ok_update [OF assms(1) i assms(2,3) _ un(2)])
    have r: "remove1 b (L i) = xs @ ys" using L dl(2) by (simp add: remove1_append)
    show "set (remove1 b (L i)) \<subseteq> S" "distinct (remove1 b (L i))" using r iS L dl(2) by auto
    show "dseg (hmem (hb_unlink h b)) 0 ?b (remove1 b (L i)) 0" unfolding un(1) r by (rule u(3))
    show "bit (bin_map (hb_unlink h b)) j \<longleftrightarrow> (if j = i then remove1 b (L i) \<noteq> [] else bit (bin_map h) j)"
      if "j < 64" for j
      using that i bz assms(1,4) unfolding un(3) r by (auto simp: bit_map_simps bins_ok_def)
    show "set (remove1 b (L i)) \<inter> set (L j) = {}" if "j < 64" "j \<noteq> i" for j
      using that i assms(1) r L by (fastforce simp: bins_ok_def)
    show "hmem (hb_unlink h b) a = hmem h a" if "j < 64" "j \<noteq> i" "a \<in> links (set (L j))" for j a
    proof -
      have "set (L j) \<subseteq> S" "set (L i) \<inter> set (L j) = {}"
        using listed_bin [OF that(1), of L] assms(1,3) that i by (auto simp: bins_ok_def)
      then have "x \<in> set (L i) \<Longrightarrow> f_next x \<notin> links (set (L j)) \<and> f_prev x \<notin> links (set (L j))" for x
        using iS links_apart [OF assms(2), of x "set (L j)" f_next] links_apart [OF assms(2), of x "set (L j)" f_prev]
        by auto
      then show ?thesis using that(3) by (intro same) blast
    qed
  qed
qed

lemma insert_components:
  assumes "i = hb_bin s" "s = HB_SIZE h b" "h0 = bins h ! i" "f_prev h0 \<noteq> f_size b \<or> h0 = 0"
    and "m1 = (hmem h)(f_magic b := HB_MAGIC_F, f_prev b := 0, f_next b := h0)"
    and "m2 = (if h0 \<noteq> 0 then m1(f_prev h0 := b) else m1)"
    and "b + s \<noteq> b" "f_prev_size (b + s) \<noteq> f_size b"
  shows "hmem (hb_insert h b) = (if b + s < heap_end h
      then m2(f_prev_size (b + s) := s, f_size (b + s) := m2 (f_size (b + s)) OR HB_PFREE) else m2)"
    "bins (hb_insert h b) = (bins h)[i := b]" "bin_map (hb_insert h b) = bin_map h OR push_bit i 1"
    "frame_eq h (hb_insert h b)"
proof -
  let ?ha = "hset (f_next b) (bins h ! i) (hset (f_prev b) 0 (hset (f_magic b) HB_MAGIC_F h))"
  let ?hb = "if bins h ! i \<noteq> 0 then hset (f_prev (bins h ! i)) b ?ha else ?ha"
  define hc where "hc = ?hb\<lparr>bins := (bins ?hb)[i := b], bin_map := bin_map ?hb OR push_bit i 1\<rparr>"
  have hc: "hmem hc = m2" "bins hc = (bins h)[i := b]" "bin_map hc = bin_map h OR push_bit i 1" "frame_eq h hc"
    using assms(3,5,6) by (simp_all add: hc_def frame_eq_def)
  have sz: "HB_SIZE hc b = s" "HB_NEXT_BLK hc b = b + s"
    using assms(2,4,5,6) by (auto simp: HB_SIZE_def HB_NEXT_BLK_def hc(1))
  have "hb_insert h b = (if HB_NEXT_BLK hc b < heap_end hc
      then hset (f_size (HB_NEXT_BLK hc b)) (hmem (hset (f_prev_size (HB_NEXT_BLK hc b)) (HB_SIZE hc b) hc) (f_size (HB_NEXT_BLK hc b)) OR HB_PFREE)
        (hset (f_prev_size (HB_NEXT_BLK hc b)) (HB_SIZE hc b) hc) else hc)"
    unfolding hb_insert_def Let_def hset_simps(2) assms(2) [symmetric] assms(1) [symmetric] hc_def by (rule refl)
  then have u: "hb_insert h b = (if b + s < heap_end h
      then hset (f_size (b + s)) (m2 (f_size (b + s)) OR HB_PFREE) (hset (f_prev_size (b + s)) s hc) else hc)"
    using hc(4) by (simp add: sz hc(1) frame_eq_def)
  show "hmem (hb_insert h b) = (if b + s < heap_end h
      then m2(f_prev_size (b + s) := s, f_size (b + s) := m2 (f_size (b + s)) OR HB_PFREE) else m2)"
    "bins (hb_insert h b) = (bins h)[i := b]" "bin_map (hb_insert h b) = bin_map h OR push_bit i 1"
    "frame_eq h (hb_insert h b)"
    unfolding u using hc by (simp_all add: frame_eq_def)
qed

lemma insert_ok:
  assumes "bins_ok h L" "apart S" "listed L \<subseteq> S" "b \<in> S" "b \<notin> listed L"
    and "s = HB_SIZE h b" "32 \<le> s" "i = hb_bin s" "b + s < heap_end h" "b + s \<in> S"
  shows "bins_ok (hb_insert h b) (L(i := b # L i))" "frame_eq h (hb_insert h b)"
    "hmem (hb_insert h b) (f_magic b) = HB_MAGIC_F"
    "hmem (hb_insert h b) (f_prev_size (b + s)) = s"
    "hmem (hb_insert h b) (f_size (b + s)) = (hmem h (f_size (b + s)) OR HB_PFREE)"
    "\<And>a. a \<notin> links (insert b (listed L)) \<Longrightarrow> a \<noteq> f_magic b \<Longrightarrow> a \<noteq> f_prev_size (b + s) \<Longrightarrow>
       a \<noteq> f_size (b + s) \<Longrightarrow> hmem (hb_insert h b) a = hmem h a"
proof -
  let ?n = "b + s" and ?h0 = "bins h ! i"
  let ?m1 = "(hmem h)(f_magic b := HB_MAGIC_F, f_prev b := 0, f_next b := ?h0)"
  let ?m2 = "if ?h0 \<noteq> 0 then ?m1(f_prev ?h0 := b) else ?m1"
  have i: "i < 64" using hb_bin_less assms(8) by simp
  have dl: "dseg (hmem h) 0 ?h0 (L i) 0" "distinct (L i)" using assms(1) i by (auto simp: bins_ok_def)
  have iS: "set (L i) \<subseteq> S" "set (L i) \<subseteq> listed L" using listed_bin [OF i, of L] assms(3) by auto
  have h0: "?h0 \<in> set (L i)" "?h0 \<in> S" "?h0 \<noteq> b" if "?h0 \<noteq> 0"
    using dl(1) that iS assms(5) by (cases "L i"; auto)+
  have bn: "far b ?n" "?n \<noteq> b" using assms(7) by (auto simp: far_def)
  have hb: "far ?h0 b" if "?h0 \<noteq> 0" using apart_far [OF assms(2) h0(2) assms(4) h0(3)] that by auto
  have hn: "f_prev ?h0 \<noteq> f_size ?n" "f_prev ?h0 \<noteq> f_prev_size ?n" if "?h0 \<noteq> 0"
  proof -
    have "?h0 = ?n \<or> far ?h0 ?n" using apart_far [OF assms(2) h0(2) assms(10)] that by auto
    then show "f_prev ?h0 \<noteq> f_size ?n" "f_prev ?h0 \<noteq> f_prev_size ?n"
      using far_fields [of ?h0 ?n f_prev f_size] far_fields [of ?h0 ?n f_prev f_prev_size] by auto
  qed
  have c0: "f_prev ?h0 \<noteq> f_size b \<or> ?h0 = 0" using far_fields [OF hb, of f_prev f_size] by auto
  have c1: "f_prev_size ?n \<noteq> f_size b" using far_fields [OF bn(1), of f_size f_prev_size] by auto
  note c = insert_components [OF assms(8,6) refl c0 refl refl bn(2) c1]
  have m: "hmem (hb_insert h b) = ?m2(f_prev_size ?n := s, f_size ?n := ?m2 (f_size ?n) OR HB_PFREE)"
    unfolding c(1) using assms(9) by (simp only: if_True)
  have bf: "f b \<noteq> g ?n" if "f \<in> {f_size, f_prev_size, f_magic, f_next, f_prev}" "g \<in> {f_size, f_prev_size, f_magic, f_next, f_prev}" for f g
    using far_fields [OF bn(1) that] .
  have m2n: "?m2 (f_size ?n) = hmem h (f_size ?n)"
    using hn [THEN not_sym] bf [of f_magic f_size, THEN not_sym] bf [of f_prev f_size, THEN not_sym]
      bf [of f_next f_size, THEN not_sym] by simp
  show "frame_eq h (hb_insert h b)" by (rule c(4))
  show "hmem (hb_insert h b) (f_prev_size ?n) = s" unfolding m by simp
  show "hmem (hb_insert h b) (f_size ?n) = (hmem h (f_size ?n) OR HB_PFREE)" unfolding m m2n by simp
  show "hmem (hb_insert h b) (f_magic b) = HB_MAGIC_F"
    unfolding m using bf [of f_magic f_size] bf [of f_magic f_prev_size] far_fields [OF hb, of f_prev f_magic] by auto
  have fr: "hmem (hb_insert h b) a = hmem h a"
    if "a \<noteq> f_magic b" "a \<noteq> f_prev b" "a \<noteq> f_next b" "?h0 \<noteq> 0 \<longrightarrow> a \<noteq> f_prev ?h0" "a \<noteq> f_prev_size ?n" "a \<noteq> f_size ?n" for a
    unfolding m using that by (simp split: if_split)
  show "hmem (hb_insert h b) a = hmem h a"
    if "a \<notin> links (insert b (listed L))" "a \<noteq> f_magic b" "a \<noteq> f_prev_size ?n" "a \<noteq> f_size ?n" for a
    using that h0(1) iS(2) by (intro fr) (auto simp: links_def)
  show "bins_ok (hb_insert h b) (L(i := b # L i))"
  proof (rule bins_ok_update [OF assms(1) i assms(2,3) _ c(2)])
    show "set (b # L i) \<subseteq> S" "distinct (b # L i)" using iS assms(4,5) dl(2) by auto
    have nx: "hmem (hb_insert h b) (f_next b) = ?h0" "hmem (hb_insert h b) (f_prev b) = 0"
      unfolding m using bf [of f_next f_size] bf [of f_next f_prev_size] bf [of f_prev f_size]
        bf [of f_prev f_prev_size] far_fields [OF hb, of f_prev f_next] h0(3) by auto
    have ln: "f x \<noteq> f_prev_size ?n \<and> f x \<noteq> f_size ?n \<and> f x \<noteq> f_magic b \<and> f x \<noteq> f_prev b \<and> f x \<noteq> f_next b"
      if "x \<in> listed L" "f \<in> {f_next, f_prev}" for x f
    proof -
      have x: "x \<in> S" "x \<noteq> b" using that assms(3,5) by auto
      have "far x b" by (rule apart_far [OF assms(2) x(1) assms(4) x(2)])
      moreover have "x = ?n \<or> far x ?n" using apart_far [OF assms(2) x(1) assms(10)] by blast
      ultimately show ?thesis
        using that(2) far_fields [of x b f f_magic] far_fields [of x b f f_prev] far_fields [of x b f f_next]
          far_fields [of x ?n f f_prev_size] far_fields [of x ?n f f_size] by auto
    qed
    have ld: "hmem (hb_insert h b) a = (if ?h0 \<noteq> 0 \<and> a = f_prev ?h0 then b else hmem h a)"
      if "a \<in> links (listed L)" for a
    proof -
      from that consider x where "x \<in> listed L" "a = f_next x" | x where "x \<in> listed L" "a = f_prev x"
        unfolding links_def by blast
      then have "a \<noteq> f_prev_size ?n \<and> a \<noteq> f_size ?n \<and> a \<noteq> f_magic b \<and> a \<noteq> f_prev b \<and> a \<noteq> f_next b"
      proof cases
        case 1
        then show ?thesis using ln [OF 1(1), of f_next] by simp
      next
        case 2
        then show ?thesis using ln [OF 2(1), of f_prev] by simp
      qed
      then show ?thesis unfolding m by (cases "?h0 = 0") simp_all
    qed
    have "dseg (hmem (hb_insert h b)) b ?h0 (L i) 0"
    proof (cases "L i")
      case (Cons y ys)
      have y: "?h0 = y" "y \<noteq> 0" using dl(1) Cons by auto
      have "dseg ((hmem h)(f_prev y := b)) b ?h0 (y # ys) 0"
        using dseg_new_start [of "hmem h" 0 ?h0 y ys 0 S b] dl iS(1) assms(2) Cons by simp
      moreover have "hmem (hb_insert h b) a = ((hmem h)(f_prev y := b)) a" if "a \<in> links (set (y # ys))" for a
        using ld [of a] that links_mono [OF iS(2)] y Cons by auto
      ultimately show ?thesis using dseg_frame [of "y # ys"] Cons by metis
    qed (use dl(1) in simp)
    then show "dseg (hmem (hb_insert h b)) 0 b (b # L i) 0"
      using nx apart_nz [OF assms(2,4)] by simp
    show "bit (bin_map (hb_insert h b)) j \<longleftrightarrow> (if j = i then b # L i \<noteq> [] else bit (bin_map h) j)" if "j < 64" for j
      using that i unfolding c(3) by (simp add: bit_map_simps)
    show "set (b # L i) \<inter> set (L j) = {}" if "j < 64" "j \<noteq> i" for j
      using that i assms(1,5) listed_bin [OF that(1), of L] by (auto simp: bins_ok_def)
    show "hmem (hb_insert h b) a = hmem h a" if "j < 64" "j \<noteq> i" "a \<in> links (set (L j))" for j a
    proof -
      have j: "set (L j) \<subseteq> listed L" "set (L j) \<inter> set (L i) = {}"
        using listed_bin [OF that(1), of L] that i assms(1) by (auto simp: bins_ok_def)
      have "f_prev ?h0 \<notin> links (set (L j))" if "?h0 \<noteq> 0"
        using links_apart [OF assms(2) h0(2) [OF that], of "set (L j)" f_prev] h0(1) [OF that] j assms(3) by auto
      then have "\<not> (?h0 \<noteq> 0 \<and> a = f_prev ?h0)" using that(3) by blast
      then show ?thesis using ld [OF subsetD [OF links_mono [OF j(1)] that(3)]] by (simp only: if_False)
    qed
  qed
qed

end
