(* ===== verification/Heap_Ops.thy ===== *)
theory Heap_Ops
  imports Heap_Inv
begin

text \<open>
  The invariant of the whole heap and what \<open>hb_find\<close>, \<open>kmalloc\<close> and \<open>kfree\<close> do to the list of blocks.
\<close>

unbundle bit_operations_syntax

subsection \<open>Tilings\<close>

type_synonym blk = "nat \<times> nat \<times> bool"

text \<open>A cursor is the next block's address, whether the block before it is free, and its size.\<close>

fun tiles :: "(nat \<Rightarrow> nat) \<Rightarrow> nat \<times> bool \<times> nat \<Rightarrow> blk list \<Rightarrow> nat \<times> bool \<times> nat \<Rightarrow> bool" where
  "tiles m c [] c' \<longleftrightarrow> c = c'"
| "tiles m (a, pf, ps) ((b, s, u) # bs) c' \<longleftrightarrow>
     b = a \<and> 16 dvd s \<and> 0 < s \<and> s < 2 ^ 32 \<and> m (f_size b) = hw s u pf \<and> (pf \<longrightarrow> m (f_prev_size b) = ps) \<and>
     m (f_magic b) = (if u then HB_MAGIC_U else HB_MAGIC_F) \<and> \<not> (pf \<and> \<not> u) \<and>
     tiles m (a + s, \<not> u, s) bs c'"

definition addrs :: "blk list \<Rightarrow> nat set" where
  "addrs bs = fst ` set bs"

definition headers :: "nat set \<Rightarrow> nat set" where
  "headers S = f_size ` S \<union> f_prev_size ` S \<union> f_magic ` S"

lemma addrs_simps [simp]:
  "addrs [] = {}" "addrs (x # xs) = insert (fst x) (addrs xs)" "addrs (xs @ ys) = addrs xs \<union> addrs ys"
  by (auto simp: addrs_def)

lemma headersI [intro]:
  "x \<in> S \<Longrightarrow> f_size x \<in> headers S" "x \<in> S \<Longrightarrow> f_prev_size x \<in> headers S" "x \<in> S \<Longrightarrow> f_magic x \<in> headers S"
  by (auto simp: headers_def)

lemma tiles_append:
  "tiles m c (xs @ ys) c' \<longleftrightarrow> (\<exists>c1. tiles m c xs c1 \<and> tiles m c1 ys c')"
proof (induction xs arbitrary: c)
  case (Cons x xs)
  obtain a pf ps b s u where "c = (a, pf, ps)" "x = (b, s, u)" by (metis prod.exhaust)
  then show ?case using Cons by auto
qed simp

lemma tiles_frame:
  assumes "\<And>a. a \<in> headers (addrs bs) \<Longrightarrow> m' a = m a" "tiles m c bs c'"
  shows "tiles m' c bs c'"
  using assms
proof (induction bs arbitrary: c)
  case (Cons x xs)
  obtain a pf ps b s u where e: "c = (a, pf, ps)" "x = (b, s, u)" by (metis prod.exhaust)
  have "m' (f_size b) = m (f_size b)" "m' (f_prev_size b) = m (f_prev_size b)" "m' (f_magic b) = m (f_magic b)"
    using Cons.prems(1) e by auto
  moreover have "m' a = m a" if "a \<in> headers (addrs xs)" for a
    using Cons.prems(1) that by (auto simp: headers_def)
  ultimately show ?case using Cons e by auto
qed simp

lemma tiles_range:
  "tiles m (a, pf, ps) bs (e, pf', ps') \<Longrightarrow>
   a \<le> e \<and> (\<forall>(b, s, u) \<in> set bs. a \<le> b \<and> b + s \<le> e \<and> 16 dvd s \<and> s < 2 ^ 32)"
proof (induction bs arbitrary: a pf ps)
  case (Cons x xs)
  obtain b s u where x: "x = (b, s, u)" by (metis prod.exhaust)
  then show ?case using Cons.IH [of "a + s" "\<not> u" s] Cons.prems by fastforce
qed auto

lemma far_sym: "far x y \<longleftrightarrow> far y x"
  by (auto simp: far_def)

lemma apart_insert:
  assumes "apart R" "b \<noteq> 0" "\<And>y. y \<in> R \<Longrightarrow> y \<noteq> b \<Longrightarrow> far b y"
  shows "apart (insert b R)"
  unfolding apart_def
proof (intro conjI ballI impI)
  fix x y assume "x \<in> insert b R" "y \<in> insert b R" "x \<noteq> y"
  then show "far x y" using assms(1,3) far_sym by (metis apart_def insertE)
qed (use assms in \<open>auto simp: apart_def\<close>)

lemma apart_subset: "apart S \<Longrightarrow> T \<subseteq> S \<Longrightarrow> apart T"
  by (auto simp: apart_def)

lemma tiles_apart:
  assumes "tiles m (a, pf, ps) (bs @ [z]) (e, pf', ps')" "\<forall>(b, s, u) \<in> set bs. 32 \<le> s" "0 < a"
  shows "apart (addrs (bs @ [z])) \<and> (\<forall>x \<in> addrs (bs @ [z]). a \<le> x)"
  using assms
proof (induction bs arbitrary: a pf ps)
  case Nil
  then show ?case by (cases z) (auto simp: apart_def)
next
  case (Cons x xs)
  obtain b s u where x: "x = (b, s, u)" by (metis prod.exhaust)
  have s: "32 \<le> s" "b = a" using Cons.prems x by auto
  have "apart (addrs (xs @ [z])) \<and> (\<forall>x \<in> addrs (xs @ [z]). a + s \<le> x)"
    using Cons.IH [of "a + s" "\<not> u" s] Cons.prems x by auto
  then have r: "apart (addrs (xs @ [z]))" "\<And>y. y \<in> addrs (xs @ [z]) \<Longrightarrow> a + s \<le> y" by auto
  have f: "b + 32 \<le> y" if "y \<in> addrs (xs @ [z])" for y using r(2) [OF that] s by linarith
  have "apart (insert b (addrs (xs @ [z])))"
    by (rule apart_insert [OF r(1)]) (use f s Cons.prems(3) in \<open>simp_all add: far_def\<close>)
  moreover have "a \<le> y" if "y \<in> addrs (xs @ [z])" for y using f [OF that] s by linarith
  ultimately show ?case using s(2) x by simp
qed

lemma header_not_link:
  assumes "apart S" "x \<in> S" "X \<subseteq> S"
  shows "f_size x \<notin> links X" "f_prev_size x \<notin> links X" "f_magic x \<notin> links X"
proof -
  have "f x \<noteq> g y" if "f \<in> {f_size, f_prev_size, f_magic}" "g \<in> {f_next, f_prev}" "y \<in> X" for f g y
  proof (cases "y = x")
    case True
    then show ?thesis using that by auto
  next
    case False
    then have "far x y" using assms that by (intro apart_far [OF assms(1)]) auto
    from far_fields [OF this, of f g] that show ?thesis by auto
  qed
  then show "f_size x \<notin> links X" "f_prev_size x \<notin> links X" "f_magic x \<notin> links X"
    unfolding links_def by blast+
qed

lemma headers_links: "apart S \<Longrightarrow> X \<subseteq> S \<Longrightarrow> a \<in> headers S \<Longrightarrow> a \<notin> links X"
  using header_not_link [of S _ X] by (auto simp: headers_def)

subsection \<open>Free blocks by class\<close>

definition free_of :: "blk list \<Rightarrow> nat \<Rightarrow> nat set" where
  "free_of bs k = {b. \<exists>s. (b, s, False) \<in> set bs \<and> hb_bin s = k}"

lemma free_of_simps [simp]:
  "free_of [] k = {}" "free_of ((b, s, True) # bs) k = free_of bs k"
  "free_of ((b, s, False) # bs) k = (if hb_bin s = k then insert b (free_of bs k) else free_of bs k)"
  "free_of (xs @ ys) k = free_of xs k \<union> free_of ys k"
  by (auto simp: free_of_def)

lemma free_of_addrs: "free_of bs k \<subseteq> addrs bs"
  by (force simp: free_of_def addrs_def)

definition used_bytes :: "blk list \<Rightarrow> nat" where
  "used_bytes bs = sum_list (map (\<lambda>(b, s, u). if u then s else 0) bs)"

lemma used_bytes_simps [simp]:
  "used_bytes [] = 0" "used_bytes ((b, s, u) # bs) = (if u then s else 0) + used_bytes bs"
  "used_bytes (xs @ ys) = used_bytes xs + used_bytes ys"
  by (simp_all add: used_bytes_def)

subsection \<open>The invariant\<close>

definition sentinel :: "heap \<Rightarrow> blk" where
  "sentinel h = (heap_end h - 16, 16, True)"

definition heap_inv :: "heap \<Rightarrow> blk list \<Rightarrow> (nat \<Rightarrow> nat list) \<Rightarrow> bool" where
  "heap_inv h bs L \<longleftrightarrow>
     0 < heap_start h \<and> 16 dvd heap_start h \<and> heap_end h \<le> 0xF8000000 \<and> (\<forall>(b, s, u) \<in> set bs. 32 \<le> s) \<and>
     tiles (hmem h) (heap_start h, False, 0) (bs @ [sentinel h]) (heap_end h, False, 16) \<and>
     bins_ok h L \<and> (\<forall>k < 64. set (L k) = free_of bs k) \<and>
     heap_used h = used_bytes bs \<and> heap_used h \<le> heap_peak h"

lemma inv_apart: "heap_inv h bs L \<Longrightarrow> apart (addrs (bs @ [sentinel h]))"
  unfolding heap_inv_def using tiles_apart by blast

lemma inv_listed: "heap_inv h bs L \<Longrightarrow> listed L \<subseteq> addrs bs"
  using free_of_addrs unfolding heap_inv_def listed_def by fastforce

lemma inv_range:
  "heap_inv h bs L \<Longrightarrow> (b, s, u) \<in> set bs \<Longrightarrow>
     heap_start h \<le> b \<and> b + s + 16 \<le> heap_end h \<and> 16 dvd s \<and> 32 \<le> s \<and> s < 2 ^ 32"
  (is "?I \<Longrightarrow> _ \<Longrightarrow> _")
proof -
  assume i: ?I and b: "(b, s, u) \<in> set bs"
  then obtain c where c: "tiles (hmem h) (heap_start h, False, 0) bs c" "tiles (hmem h) c [sentinel h] (heap_end h, False, 16)"
    unfolding heap_inv_def tiles_append by blast
  obtain e pf ps where e: "c = (e, pf, ps)" by (metis prod.exhaust)
  then have "e + 16 = heap_end h" using c(2) by (auto simp: sentinel_def)
  then show ?thesis using tiles_range [OF c(1) [unfolded e]] b i by (fastforce simp: heap_inv_def)
qed

lemma tiles_member:
  "tiles m c bs c' \<Longrightarrow> (b, s, u) \<in> set bs \<Longrightarrow> \<exists>pf. m (f_size b) = hw s u pf \<and> 16 dvd s \<and> s < 2 ^ 32 \<and>
     m (f_magic b) = (if u then HB_MAGIC_U else HB_MAGIC_F)"
proof (induction bs arbitrary: c)
  case (Cons x xs)
  obtain a pf ps b' s' u' where "c = (a, pf, ps)" "x = (b', s', u')" by (metis prod.exhaust)
  then show ?case using Cons by auto
qed simp

lemma inv_member:
  assumes "heap_inv h bs L" "(b, s, u) \<in> set bs"
  shows "HB_SIZE h b = s" "hmem h (f_magic b) = (if u then HB_MAGIC_U else HB_MAGIC_F)"
    "hmem h (f_size b) AND HB_USED \<noteq> 0 \<longleftrightarrow> u"
proof -
  have t: "tiles (hmem h) (heap_start h, False, 0) (bs @ [sentinel h]) (heap_end h, False, 16)"
    using assms(1) by (simp add: heap_inv_def)
  obtain pf where m: "hmem h (f_size b) = hw s u pf" "16 dvd s" "s < 2 ^ 32"
    "hmem h (f_magic b) = (if u then HB_MAGIC_U else HB_MAGIC_F)"
    using tiles_member [OF t, of b s u] assms(2) by auto
  show "HB_SIZE h b = s" "hmem h (f_magic b) = (if u then HB_MAGIC_U else HB_MAGIC_F)"
    "hmem h (f_size b) AND HB_USED \<noteq> 0 \<longleftrightarrow> u"
    using m hw_ops [OF m(2,3)] by (simp_all add: HB_SIZE_def HB_USED_def)
qed

subsection \<open>Searching\<close>

lemma hb_scan_list:
  "dseg (hmem h) p b xs 0 \<Longrightarrow>
   hb_scan h need b = Some (case List.find (\<lambda>x. need \<le> HB_SIZE h x) xs of Some x \<Rightarrow> x | None \<Rightarrow> 0)"
proof (induction xs arbitrary: p b)
  case Nil
  then show ?case by (simp add: hb_scan.simps)
next
  case (Cons x xs)
  then show ?case by (subst hb_scan.simps) auto
qed

lemma ctz32_bit:
  assumes "w \<noteq> 0"
  shows "bit w (ctz32 w)" "ctz32 w < 32"
proof -
  let ?t = "takeWhile (\<lambda>i. \<not> bit w i) [0..<32]"
  obtain n where n: "bit w n" using assms bit_eqI [of w 0] by auto
  then have "n < 32" using bit_imp_le_length [OF n] by simp
  have "?t \<noteq> [0..<32]"
  proof
    assume "?t = [0..<32]"
    then have "\<not> bit w n" using \<open>n < 32\<close> takeWhile_eq_all_conv [of "\<lambda>i. \<not> bit w i" "[0..<32]"] by auto
    with n show False by simp
  qed
  then have l: "length ?t < 32"
    by (metis diff_zero length_takeWhile_le length_upt nat_less_le takeWhile_eq_take take_all_iff)
  then show "ctz32 w < 32" by (simp add: ctz32_def)
  show "bit w (ctz32 w)"
    using nth_length_takeWhile [of "\<lambda>i. \<not> bit w i" "[0..<32]"] l by (simp add: ctz32_def)
qed

lemma low_mask: "i < 63 \<Longrightarrow> j < 64 \<Longrightarrow> bit (w AND NOT (push_bit i 2 - 1)) j \<longleftrightarrow> i < j \<and> bit w j" for w :: u64
proof -
  assume i: "i < 63" and j: "j < 64"
  have "push_bit i 2 - 1 = (mask (Suc i) :: u64)" by (simp add: mask_eq_exp_minus_1 push_bit_eq_mult)
  then show ?thesis using j by (auto simp: bit_simps not_less_eq less_Suc_eq_le not_le)
qed

lemma ctz64:
  fixes m :: u64
  assumes "m \<noteq> 0"
  defines "lo \<equiv> ucast m :: u32"
  defines "j \<equiv> (if lo \<noteq> 0 then ctz32 lo else 32 + ctz32 (ucast (drop_bit 32 m)))"
  shows "j < 64 \<and> bit m j"
proof (cases "lo = 0")
  case True
  have "(ucast (drop_bit 32 m) :: u32) \<noteq> 0"
  proof
    assume z: "(ucast (drop_bit 32 m) :: u32) = 0"
    have "\<not> bit m n" for n
    proof (cases "n < 32")
      case True
      then show ?thesis using \<open>lo = 0\<close> bit_ucast_iff [of m n, where 'a = 32] unfolding lo_def by auto
    next
      case False
      then have "bit (ucast (drop_bit 32 m) :: u32) (n - 32) \<longleftrightarrow> n < 64 \<and> bit m n" by (auto simp: bit_simps)
      then show ?thesis using z bit_imp_le_length [of m n] by auto
    qed
    then have "m = 0" by (intro bit_eqI) simp
    then show False using assms(1) by simp
  qed
  from ctz32_bit [OF this] True show ?thesis by (auto simp: j_def bit_simps)
next
  case False
  from ctz32_bit [OF this] False show ?thesis by (auto simp: j_def lo_def bit_simps)
qed

lemma hb_find_ok:
  assumes "heap_inv h bs L"
  shows "\<exists>b. hb_find h need = Some b \<and>
    (if b = 0 then \<forall>(b', s, u) \<in> set bs. \<not> u \<longrightarrow> s < need else \<exists>s. (b, s, False) \<in> set bs \<and> need \<le> s)"
proof -
  let ?i = "hb_bin need"
  have i: "?i < 64" by (rule hb_bin_less)
  have bo: "dseg (hmem h) 0 (bins h ! k) (L k) 0" "bit (bin_map h) k \<longleftrightarrow> L k \<noteq> []" "set (L k) = free_of bs k"
    if "k < 64" for k using assms that by (auto simp: heap_inv_def bins_ok_def)
  have nz: "b \<noteq> 0" if "(b, s, u) \<in> set bs" for b s u
    using apart_nz [OF inv_apart [OF assms], of b] image_eqI [of b fst _ "set bs", OF _ that] by (simp add: addrs_def)
  have blk: "\<exists>s. (x, s, False) \<in> set bs \<and> hb_bin s = k \<and> HB_SIZE h x = s" if "k < 64" "x \<in> set (L k)" for k x
    using bo(3) [OF that(1)] that(2) inv_member(1) [OF assms] by (auto simp: free_of_def)
  show ?thesis
  proof (cases "List.find (\<lambda>x. need \<le> HB_SIZE h x) (L ?i)")
    case (Some x)
    then have x: "x \<in> set (L ?i)" "need \<le> HB_SIZE h x" by (auto simp: find_Some_iff)
    obtain s where s: "(x, s, False) \<in> set bs" "HB_SIZE h x = s" using blk [OF i x(1)] by blast
    have "hb_find h need = Some x"
      using hb_scan_list [OF bo(1) [OF i], of need] Some nz [OF s(1)] by (simp add: hb_find_def Let_def)
    then show ?thesis using s x(2) nz [OF s(1)] by auto
  next
    case None
    then have none: "x \<in> set (L ?i) \<Longrightarrow> HB_SIZE h x < need" for x by (auto simp: find_None_iff not_le)
    have sc: "hb_scan h need (bins h ! ?i) = Some 0" using hb_scan_list [OF bo(1) [OF i], of need] None by simp
    define m where "m = (if ?i + 1 < 64 then bin_map h AND NOT (push_bit ?i 2 - 1) else 0)"
    have mb: "bit m k \<longleftrightarrow> ?i < k \<and> bit (bin_map h) k" if "k < 64" for k
      using that low_mask [of ?i k] by (auto simp: m_def)
    show ?thesis
    proof (cases "m = 0")
      case True
      then have "hb_find h need = Some 0" using sc by (simp add: hb_find_def Let_def m_def)
      moreover have "s < need" if "(b', s, False) \<in> set bs" for b' s
      proof (rule ccontr)
        assume "\<not> s < need"
        then have k: "?i \<le> hb_bin s" using hb_bin_mono by simp
        have "b' \<in> set (L (hb_bin s))" using bo(3) [OF hb_bin_less] that by (auto simp: free_of_def)
        moreover have "\<not> ?i < hb_bin s"
          using mb [OF hb_bin_less, of s] bo(2) [OF hb_bin_less, of s] calculation True by auto
        ultimately have "HB_SIZE h b' < need" using none [of b'] k by simp
        with \<open>\<not> s < need\<close> inv_member(1) [OF assms that] show False by simp
      qed
      ultimately show ?thesis by auto
    next
      case False
      let ?j = "if (ucast m :: u32) \<noteq> 0 then ctz32 (ucast m) else 32 + ctz32 (ucast (drop_bit 32 m))"
      have j: "?j < 64" "bit m ?j" using ctz64 [OF False] by auto
      have f: "hb_find h need = Some (bins h ! ?j)"
        using sc False unfolding hb_find_def Let_def m_def [symmetric] by simp
      have "L ?j \<noteq> []" "?i < ?j" using mb [OF j(1)] bo(2) [OF j(1)] j(2) by auto
      then obtain x where x: "bins h ! ?j = x" "x \<in> set (L ?j)"
        using bo(1) [OF j(1)] by (cases "L ?j") auto
      obtain s where s: "(x, s, False) \<in> set bs" "hb_bin s = ?j" using blk [OF j(1) x(2)] by blast
      have "need \<le> s"
      proof (rule ccontr)
        assume "\<not> need \<le> s"
        then have "hb_bin s \<le> ?i" by (intro hb_bin_mono) simp
        with s(2) \<open>?i < ?j\<close> show False by linarith
      qed
      then show ?thesis using f x(1) s nz [OF s(1)] by auto
    qed
  qed
qed

end
