(* ===== verification/Heap_Alloc.thy ===== *)
theory Heap_Alloc
  imports Heap_Ops
begin

text \<open>
  \<open>kmalloc\<close> on the abstract heap: a free block that is large enough becomes used, the rest of it
  becomes a free block when it can hold one, and nothing else changes.
\<close>

unbundle bit_operations_syntax

lemma far_hdr [simp]:
  "far x y \<Longrightarrow> f_size x \<noteq> f_size y" "far x y \<Longrightarrow> f_size x \<noteq> f_prev_size y" "far x y \<Longrightarrow> f_size x \<noteq> f_magic y"
  "far x y \<Longrightarrow> f_prev_size x \<noteq> f_size y" "far x y \<Longrightarrow> f_prev_size x \<noteq> f_prev_size y"
  "far x y \<Longrightarrow> f_prev_size x \<noteq> f_magic y"
  "far x y \<Longrightarrow> f_magic x \<noteq> f_size y" "far x y \<Longrightarrow> f_magic x \<noteq> f_prev_size y" "far x y \<Longrightarrow> f_magic x \<noteq> f_magic y"
  by (auto simp: far_def field_defs)

lemma tiles_distinct: "tiles m c bs c' \<Longrightarrow> distinct (map fst bs)"
proof (induction bs arbitrary: c)
  case (Cons x xs)
  obtain a pf ps b s u where e: "c = (a, pf, ps)" "x = (b, s, u)" by (metis prod.exhaust)
  obtain e' pf' ps' where c': "c' = (e', pf', ps')" by (metis prod.exhaust)
  have t: "tiles m (a + s, \<not> u, s) xs c'" "0 < s" "b = a" using Cons.prems e by auto
  have "a \<notin> addrs xs" using tiles_range [OF t(1) [unfolded c']] t(2) by (fastforce simp: addrs_def)
  then show ?case using Cons.IH [OF t(1)] t(3) e by (simp add: addrs_def)
qed simp

text \<open>A block of the heap with its surroundings.\<close>

lemma inv_split:
  assumes "heap_inv h bs L" "(b, s, u) \<in> set bs"
  obtains xs ys pf ps ns nu zs where
    "bs = xs @ (b, s, u) # ys" "ys @ [sentinel h] = (b + s, ns, nu) # zs"
    "tiles (hmem h) (heap_start h, False, 0) xs (b, pf, ps)"
    "tiles (hmem h) (b, pf, ps) ((b, s, u) # (b + s, ns, nu) # zs) (heap_end h, False, 16)"
    "b \<notin> addrs xs \<union> addrs zs" "b + s \<notin> addrs xs \<union> addrs zs" "far b (b + s)"
    "addrs (bs @ [sentinel h]) = addrs xs \<union> {b, b + s} \<union> addrs zs" "addrs xs \<inter> addrs zs = {}"
proof -
  let ?F = "bs @ [sentinel h]"
  obtain xs ys where bs: "bs = xs @ (b, s, u) # ys" using split_list [OF assms(2)] by blast
  have t: "tiles (hmem h) (heap_start h, False, 0) ?F (heap_end h, False, 16)"
    using assms(1) by (simp add: heap_inv_def)
  obtain y zs where y: "ys @ [sentinel h] = y # zs" by (cases "ys @ [sentinel h]") auto
  obtain n ns nu where yn: "y = (n, ns, nu)" by (metis prod.exhaust)
  have F: "?F = xs @ (b, s, u) # (n, ns, nu) # zs" using bs y yn by simp
  obtain c where c: "tiles (hmem h) (heap_start h, False, 0) xs c"
    "tiles (hmem h) c ((b, s, u) # (n, ns, nu) # zs) (heap_end h, False, 16)"
    using t unfolding F tiles_append by blast
  obtain a pf ps where ce: "c = (a, pf, ps)" by (metis prod.exhaust)
  have n: "n = b + s" "a = b" using c(2) ce by auto
  have d: "distinct (map fst ?F)" by (rule tiles_distinct [OF t])
  have s32: "32 \<le> s" using assms by (auto simp: heap_inv_def)
  show ?thesis
  proof (rule that [OF bs])
    show "ys @ [sentinel h] = (b + s, ns, nu) # zs" using y yn n by simp
    show "tiles (hmem h) (heap_start h, False, 0) xs (b, pf, ps)" using c(1) ce n by simp
    show "tiles (hmem h) (b, pf, ps) ((b, s, u) # (b + s, ns, nu) # zs) (heap_end h, False, 16)"
      using c(2) ce n by simp
    show "b \<notin> addrs xs \<union> addrs zs" "b + s \<notin> addrs xs \<union> addrs zs" "addrs xs \<inter> addrs zs = {}"
      using d unfolding F n by (auto simp: addrs_def)
    show "far b (b + s)" using s32 by (simp add: far_def)
    show "addrs ?F = addrs xs \<union> {b, b + s} \<union> addrs zs" unfolding F n by auto
  qed
qed

lemma headers_mono: "X \<subseteq> Y \<Longrightarrow> headers X \<subseteq> headers Y"
  by (auto simp: headers_def)

lemma header_notin:
  assumes "apart S" "x \<in> S" "X \<subseteq> S" "x \<notin> X"
  shows "f_size x \<notin> headers X" "f_prev_size x \<notin> headers X" "f_magic x \<notin> headers X"
proof -
  have "far x y" if "y \<in> X" for y using assms that by (intro apart_far [OF assms(1)]) auto
  then show "f_size x \<notin> headers X" "f_prev_size x \<notin> headers X" "f_magic x \<notin> headers X"
    unfolding headers_def using far_hdr [of x] by auto
qed

lemma listed_sub: "(\<And>k. k < 64 \<Longrightarrow> set (L k) \<subseteq> X) \<Longrightarrow> listed L \<subseteq> X"
  unfolding listed_def by fastforce

lemma listed_free: "(\<And>k. k < 64 \<Longrightarrow> set (L k) \<subseteq> free_of bs k) \<Longrightarrow> listed L \<subseteq> addrs bs"
  by (rule listed_sub) (use free_of_addrs in blast)

lemma listed_insert: "listed (L(i := x # L i)) \<subseteq> insert x (listed L)"
  unfolding listed_def by (auto split: if_splits)

lemma listed_remove: "listed (L(i := remove1 x (L i))) \<subseteq> listed L"
proof (rule listed_sub)
  fix k :: nat assume "k < 64"
  then show "set ((L(i := remove1 x (L i))) k) \<subseteq> listed L"
    using listed_bin [of k L] set_remove1_subset [of x "L i"] by (cases "k = i") auto
qed

subsection \<open>Taking a block out of its bin\<close>

lemma inv_unlink:
  assumes inv: "heap_inv h bs L" and b: "(b, s, False) \<in> set bs"
  defines "L1 \<equiv> L(hb_bin s := remove1 b (L (hb_bin s)))"
  shows "bins_ok (hb_unlink h b) L1" "frame_eq h (hb_unlink h b)"
    "\<And>a. a \<notin> links (listed L) \<Longrightarrow> hmem (hb_unlink h b) a = hmem h a"
    "\<And>a. a \<in> headers (addrs (bs @ [sentinel h])) \<Longrightarrow> hmem (hb_unlink h b) a = hmem h a"
    "\<And>k. k < 64 \<Longrightarrow> set (L1 k) = free_of bs k - {b}"
    "HB_SIZE (hb_unlink h b) b = s"
proof -
  let ?S = "addrs (bs @ [sentinel h])"
  have S: "apart ?S" "listed L \<subseteq> ?S" using inv_apart [OF inv] inv_listed [OF inv] by auto
  have sz: "HB_SIZE h b = s" using inv_member [OF inv b] by simp
  have bL: "b \<in> set (L (hb_bin s))"
    using inv b hb_bin_less [of s] by (auto simp: heap_inv_def free_of_def)
  have bo: "bins_ok h L" using inv by (simp add: heap_inv_def)
  note u = unlink_ok [OF bo S bL, unfolded sz, OF refl]
  show "bins_ok (hb_unlink h b) L1" "frame_eq h (hb_unlink h b)"
    "\<And>a. a \<notin> links (listed L) \<Longrightarrow> hmem (hb_unlink h b) a = hmem h a"
    using u by (simp_all add: L1_def)
  show hd: "hmem (hb_unlink h b) a = hmem h a" if "a \<in> headers ?S" for a
    using headers_links [OF S that] by (rule u(3))
  have "b \<in> ?S" using image_eqI [OF _ b, of b fst] by (simp add: addrs_def)
  then have "f_size b \<in> headers ?S" by (rule headersI)
  then show "HB_SIZE (hb_unlink h b) b = s" using sz hd by (simp only: HB_SIZE_def)
  show "set (L1 k) = free_of bs k - {b}" if "k < 64" for k
  proof (cases "k = hb_bin s")
    case True
    have "distinct (L k)" using bo that by (simp add: bins_ok_def)
    then show ?thesis using inv that True by (simp add: L1_def heap_inv_def)
  next
    case False
    have "b \<notin> set (L k)" using bo bL that False hb_bin_less [of s] by (auto simp: bins_ok_def)
    then show ?thesis using inv that False by (auto simp: L1_def heap_inv_def)
  qed
qed

subsection \<open>Replacing a stretch of blocks\<close>

lemma tiles_replace:
  assumes "tiles m c xs c1" "tiles m c2 zs c3" "tiles m' c1 mid c2"
    and "\<And>a. a \<in> headers (addrs xs \<union> addrs zs) \<Longrightarrow> m' a = m a"
  shows "tiles m' c (xs @ mid @ zs) c3"
proof -
  have "headers (addrs xs) \<subseteq> headers (addrs xs \<union> addrs zs)" "headers (addrs zs) \<subseteq> headers (addrs xs \<union> addrs zs)"
    by (simp_all add: headers_mono)
  then have "tiles m' c xs c1" "tiles m' c2 zs c3"
    using tiles_frame [OF _ assms(1), of m'] tiles_frame [OF _ assms(2), of m'] assms(4) by blast+
  then show ?thesis using assms(3) unfolding tiles_append by blast
qed

lemma free_of_rest:
  assumes "distinct (map fst (xs @ (b, s, u) # ys))"
  shows "free_of (xs @ (b, s, u) # ys) k - {b} = free_of xs k \<union> free_of ys k"
proof -
  have "b \<notin> free_of xs k" "b \<notin> free_of ys k"
    using assms free_of_addrs [of xs k] free_of_addrs [of ys k] by (auto simp: addrs_def)
  then show ?thesis by (cases u) auto
qed

lemma inv_distinct: "heap_inv h bs L \<Longrightarrow> distinct (map fst (bs @ [sentinel h]))"
  unfolding heap_inv_def using tiles_distinct by blast

text \<open>The counters at the end of \<open>kmalloc\<close>.\<close>

lemma take_components:
  fixes h0 :: heap
  assumes "h2 = hset (f_magic b) HB_MAGIC_U h1"
    and "h' = (let h = h2\<lparr>heap_used := heap_used h2 + k\<rparr> in if heap_peak h < heap_used h then h\<lparr>heap_peak := heap_used h\<rparr> else h)"
  shows "hmem h' = (hmem h1)(f_magic b := HB_MAGIC_U)" "bins h' = bins h1" "bin_map h' = bin_map h1"
    "heap_start h' = heap_start h1" "heap_end h' = heap_end h1" "heap_used h' = heap_used h1 + k"
    "heap_used h' \<le> heap_peak h'"
    "h_pmm h' = h_pmm h1" "kernel_end h' = kernel_end h1"
  unfolding assms Let_def by simp_all

subsection \<open>A block that is taken whole\<close>

lemma take_whole:
  assumes inv: "heap_inv h bs L" and b: "(b, s, False) \<in> set bs" and n: "need \<le> s" "s - need < 32"
  defines "h' \<equiv> kmalloc_take h b need"
  defines "L' \<equiv> L(hb_bin s := remove1 b (L (hb_bin s)))"
  obtains xs ys where "bs = xs @ (b, s, False) # ys" "heap_inv h' (xs @ (b, s, True) # ys) L'"
    "heap_start h' = heap_start h" "heap_end h' = heap_end h"
    "\<And>a. a \<notin> links (listed L) \<Longrightarrow> a \<notin> headers (addrs (bs @ [sentinel h])) \<Longrightarrow> hmem h' a = hmem h a"
proof -
  let ?A = "addrs (bs @ [sentinel h])"
  obtain xs ys pf ps ns nu zs where sp: "bs = xs @ (b, s, False) # ys" "ys @ [sentinel h] = (b + s, ns, nu) # zs"
    "tiles (hmem h) (heap_start h, False, 0) xs (b, pf, ps)"
    "tiles (hmem h) (b, pf, ps) ((b, s, False) # (b + s, ns, nu) # zs) (heap_end h, False, 16)"
    "b \<notin> addrs xs \<union> addrs zs" "b + s \<notin> addrs xs \<union> addrs zs" "far b (b + s)"
    "?A = addrs xs \<union> {b, b + s} \<union> addrs zs"
    using inv_split [OF inv b] by metis
  note u = inv_unlink [OF inv b, folded L'_def]
  have rg: "b + s + 16 \<le> heap_end h" "16 dvd s" "s < 2 ^ 32" using inv_range [OF inv b] by auto
  have t: "pf = False" "nu = True" "16 dvd ns" "ns < 2 ^ 32" "0 < ns" "hmem h (f_size b) = hw s False False"
    "hmem h (f_size (b + s)) = hw ns True True" "tiles (hmem h) (b + s + ns, False, ns) zs (heap_end h, False, 16)"
    "hmem h (f_magic (b + s)) = HB_MAGIC_U" "0 < s"
    using sp(4) by auto
  have ap: "apart ?A" "listed L \<subseteq> ?A" using inv_apart [OF inv] inv_listed [OF inv] by auto
  have inA: "b \<in> ?A" "b + s \<in> ?A" unfolding sp(8) by auto
  define m1 where "m1 = hmem (hb_unlink h b)"
  have m1: "m1 a = hmem h a" if "a \<in> headers ?A" for a using u(4) [OF that] by (simp add: m1_def)
  have hdr: "m1 (f_size b) = hw s False False" "m1 (f_size (b + s)) = hw ns True True"
    "m1 (f_magic (b + s)) = HB_MAGIC_U"
    using m1 inA headersI t by simp_all
  let ?h2 = "hset (f_size (b + s)) (hw ns True False) (hset (f_size b) (hw s True False) (hb_unlink h b))"
  have fe: "heap_end (hb_unlink h b) = heap_end h" "heap_start (hb_unlink h b) = heap_start h"
    "heap_used (hb_unlink h b) = heap_used h"
    using u(2) by (simp_all add: frame_eq_def)
  have e: "h' = (let h = (hset (f_magic b) HB_MAGIC_U ?h2)\<lparr>heap_used := heap_used (hset (f_magic b) HB_MAGIC_U ?h2) + s\<rparr>
      in if heap_peak h < heap_used h then h\<lparr>heap_peak := heap_used h\<rparr> else h)"
  proof -
    have z0: "s OR HB_USED OR 0 = hw s True False" by (simp add: hw_def HB_USED_def)
    have z: "hw s False False AND HB_PFREE = 0"
      "HB_NEXT_BLK (hset (f_size b) (hw s True False) (hb_unlink h b)) b = b + s"
      "HB_SIZE (hset (f_magic b) HB_MAGIC_U ?h2) b = s"
      "hmem (hset (f_size b) (hw s True False) (hb_unlink h b)) (f_size (b + s)) AND 0xFFFFFFFD = hw ns True False"
      using hw_ops(1,3) [OF rg(2,3)] hw_ops(7) [OF t(3,4)] hdr \<open>0 < s\<close> sp(7)
      by (simp_all add: hb_consts HB_NEXT_BLK_def HB_SIZE_def m1_def)
    have w: "\<not> HB_MIN \<le> s - need" "b + s < heap_end h" using n rg by (simp_all add: HB_MIN_def)
    show ?thesis
      unfolding h'_def kmalloc_take_def
      by (simp only: Let_def u(6) hdr(1) [unfolded m1_def] z z0 w if_True if_False hset_simps(5) fe(1))
  qed
  note c = take_components [OF refl e]
  let ?m = "m1(f_size b := hw s True False, f_size (b + s) := hw ns True False, f_magic b := HB_MAGIC_U)"
  have hm: "hmem h' = ?m" unfolding c(1) by (simp add: m1_def)
  have far_n: "f_magic b \<noteq> f_size (b + s)" "f_size b \<noteq> f_size (b + s)" "f_magic b \<noteq> f_magic (b + s)"
    "f_size b \<noteq> f_magic (b + s)" using sp(7) t(10) by simp_all
  have nh: "a \<noteq> f_size b" "a \<noteq> f_size (b + s)" "a \<noteq> f_magic b" if "a \<in> headers (addrs xs \<union> addrs zs)" for a
    using that header_notin [OF ap(1) inA(1), of "addrs xs \<union> addrs zs"]
      header_notin [OF ap(1) inA(2), of "addrs xs \<union> addrs zs"] sp(5,6,8) by auto
  have tl: "tiles (hmem h') (heap_start h, False, 0) ((xs @ (b, s, True) # ys) @ [sentinel h]) (heap_end h, False, 16)"
  proof -
    have "tiles ?m (b, pf, ps) [(b, s, True), (b + s, ns, True)] (b + s + ns, False, ns)"
      using t rg hdr far_n by simp
    moreover have "?m a = hmem h a" if "a \<in> headers (addrs xs \<union> addrs zs)" for a
      using nh [OF that] m1 [of a] that headers_mono [of "addrs xs \<union> addrs zs" ?A] sp(8) by auto
    ultimately have "tiles ?m (heap_start h, False, 0) (xs @ [(b, s, True), (b + s, ns, True)] @ zs) (heap_end h, False, 16)"
      by (intro tiles_replace [OF sp(3) t(8)])
    then show ?thesis unfolding hm using sp(2) t(2) by simp
  qed
  have bo: "bins_ok h' L'"
  proof (rule bins_ok_frame [OF u(1)])
    fix a assume a: "a \<in> links (listed L')"
    have "listed L' \<subseteq> ?A"
      using listed_free [of L' bs] u(5) by auto
    then have "a \<noteq> f_size b" "a \<noteq> f_size (b + s)" "a \<noteq> f_magic b"
      using a header_not_link [OF ap(1) inA(1)] header_not_link [OF ap(1) inA(2)] by blast+
    then show "hmem h' a = hmem (hb_unlink h b) a" unfolding hm m1_def by simp
  qed (simp_all add: c)
  have "heap_inv h' (xs @ (b, s, True) # ys) L'"
    unfolding heap_inv_def
  proof (intro conjI)
    show "tiles (hmem h') (heap_start h', False, 0) ((xs @ (b, s, True) # ys) @ [sentinel h']) (heap_end h', False, 16)"
      using tl by (simp add: c fe sentinel_def)
    show "\<forall>k<64. set (L' k) = free_of (xs @ (b, s, True) # ys) k"
      using u(5) free_of_rest [of xs b s False ys] inv_distinct [OF inv] sp(1) by simp
    show "heap_used h' = used_bytes (xs @ (b, s, True) # ys)"
      using inv by (simp add: c fe heap_inv_def sp(1))
    show "heap_used h' \<le> heap_peak h'" by (rule c(7))
  qed (use inv bo in \<open>auto simp: heap_inv_def c fe sp(1)\<close>)
  then show ?thesis
  proof (rule that [OF sp(1)])
    show "heap_start h' = heap_start h" "heap_end h' = heap_end h" by (simp_all add: c fe)
    fix a assume a: "a \<notin> links (listed L)" "a \<notin> headers ?A"
    moreover have "a \<noteq> f_size b" "a \<noteq> f_size (b + s)" "a \<noteq> f_magic b" using a(2) inA headersI by metis+
    ultimately show "hmem h' a = hmem h a" unfolding hm using u(3) by (simp add: m1_def)
  qed
qed

subsection \<open>A block that is split\<close>

lemma tiles_order:
  "tiles m (a, pf, ps) bs (e, pf', ps') \<Longrightarrow> (b, s, u) \<in> set bs \<Longrightarrow> y \<in> addrs bs \<Longrightarrow> y \<le> b \<or> b + s \<le> y"
proof (induction bs arbitrary: a pf ps)
  case (Cons x xs)
  obtain b' s' u' where x: "x = (b', s', u')" by (metis prod.exhaust)
  have t: "tiles m (a + s', \<not> u', s') xs (e, pf', ps')" "b' = a" using Cons.prems x by auto
  have above: "a + s' \<le> z" if "z \<in> addrs xs" for z
    using tiles_range [OF t(1)] that by (fastforce simp: addrs_def)
  show ?case
  proof (cases "(b, s, u) = x")
    case True
    then show ?thesis using Cons.prems(3) above t(2) x by auto
  next
    case False
    then have b: "(b, s, u) \<in> set xs" using Cons.prems(2) by simp
    then have "b \<in> addrs xs" by (force simp: addrs_def)
    then show ?thesis using Cons.IH [OF t(1) b] Cons.prems(3) above [of b] t(2) x by auto
  qed
qed simp

lemma apart_split:
  assumes "heap_inv h bs L" "(b, s, u) \<in> set bs" "32 \<le> k" "k + 32 \<le> s"
  shows "apart (insert (b + k) (addrs (bs @ [sentinel h])))" "b + k \<notin> addrs (bs @ [sentinel h])"
proof -
  let ?A = "addrs (bs @ [sentinel h])"
  have t: "tiles (hmem h) (heap_start h, False, 0) (bs @ [sentinel h]) (heap_end h, False, 16)"
    using assms(1) by (simp add: heap_inv_def)
  have o: "y \<le> b \<or> b + s \<le> y" if "y \<in> ?A" for y
    using tiles_order [OF t, of b s u y] assms(2) that by simp
  then show "b + k \<notin> ?A" using assms(3,4) by fastforce
  show "apart (insert (b + k) ?A)"
  proof (rule apart_insert [OF inv_apart [OF assms(1)]])
    fix y assume "y \<in> ?A"
    then show "far (b + k) y" using o [of y] assms(3,4) by (auto simp: far_def)
  qed (use assms(3) in simp)
qed

lemma take_split:
  assumes inv: "heap_inv h bs L" and b: "(b, s, False) \<in> set bs"
    and n: "32 \<le> need" "16 dvd need" "need + 32 \<le> s"
  defines "h' \<equiv> kmalloc_take h b need" and "r \<equiv> b + need"
  defines "L1 \<equiv> L(hb_bin s := remove1 b (L (hb_bin s)))"
  defines "L' \<equiv> L1(hb_bin (s - need) := r # L1 (hb_bin (s - need)))"
  obtains xs ys where "bs = xs @ (b, s, False) # ys"
    "heap_inv h' (xs @ (b, need, True) # (r, s - need, False) # ys) L'"
    "heap_start h' = heap_start h" "heap_end h' = heap_end h"
    "\<And>a. a \<notin> links (insert r (listed L)) \<Longrightarrow> a \<notin> headers (insert r (addrs (bs @ [sentinel h]))) \<Longrightarrow>
       hmem h' a = hmem h a"
proof -
  let ?A = "addrs (bs @ [sentinel h])" and ?k = "s - need"
  let ?S = "insert r ?A"
  obtain xs ys pf ps ns nu zs where sp: "bs = xs @ (b, s, False) # ys" "ys @ [sentinel h] = (b + s, ns, nu) # zs"
    "tiles (hmem h) (heap_start h, False, 0) xs (b, pf, ps)"
    "tiles (hmem h) (b, pf, ps) ((b, s, False) # (b + s, ns, nu) # zs) (heap_end h, False, 16)"
    "b \<notin> addrs xs \<union> addrs zs" "b + s \<notin> addrs xs \<union> addrs zs" "far b (b + s)"
    "?A = addrs xs \<union> {b, b + s} \<union> addrs zs"
    using inv_split [OF inv b] by metis
  note u = inv_unlink [OF inv b, folded L1_def]
  have rg: "b + s + 16 \<le> heap_end h" "16 dvd s" "s < 2 ^ 32" using inv_range [OF inv b] by auto
  have t: "pf = False" "nu = True" "16 dvd ns" "ns < 2 ^ 32" "0 < ns" "hmem h (f_size b) = hw s False False"
    "hmem h (f_size (b + s)) = hw ns True True" "tiles (hmem h) (b + s + ns, False, ns) zs (heap_end h, False, 16)"
    "hmem h (f_magic (b + s)) = HB_MAGIC_U" "0 < s"
    using sp(4) by auto
  have k: "16 dvd ?k" "?k < 2 ^ 32" "32 \<le> ?k" "r + ?k = b + s" "need < 2 ^ 32"
    using rg n by (auto simp: r_def)
  have ap: "apart ?S" "r \<notin> ?A" using apart_split [OF inv b n(1,3)] by (simp_all add: r_def)
  have ls: "listed L \<subseteq> ?A" using inv_listed [OF inv] by auto
  have l1: "listed L1 \<subseteq> addrs bs" using listed_free [of L1 bs] u(5) by auto
  have inS: "b \<in> ?S" "b + s \<in> ?S" "r \<in> ?S" unfolding sp(8) by auto
  have fr: "far r b" "far r (b + s)" "far b r" "far (b + s) r" "far b (b + s)" "far (b + s) b"
    using n k by (auto simp: far_def r_def)
  have ne: "r \<noteq> b" "b \<noteq> r" "r \<noteq> b + s" "b + s \<noteq> r" "b + s \<noteq> b" "b \<noteq> b + s" using fr by (auto simp: far_def)
  let ?h1 = "hb_unlink h b"
  let ?h2 = "hset (f_size b) (hw need True False) (hset (f_prev_size r) 0 (hset (f_size r) ?k ?h1))"
  have fe: "heap_end ?h1 = heap_end h" "heap_start ?h1 = heap_start h" "heap_used ?h1 = heap_used h"
    using u(2) by (simp_all add: frame_eq_def)
  have hdr: "hmem ?h1 (f_size b) = hw s False False" "hmem ?h1 (f_size (b + s)) = hw ns True True"
    "hmem ?h1 (f_magic (b + s)) = HB_MAGIC_U"
    using u(4) headersI [of b ?A] headersI [of "b + s" ?A] t unfolding sp(8) by simp_all
  have b2: "bins_ok ?h2 L1"
  proof (rule bins_ok_frame [OF u(1)])
    fix a assume a: "a \<in> links (listed L1)"
    have "listed L1 \<subseteq> ?S" using l1 by auto
    from header_not_link [OF ap(1) inS(1) this] header_not_link [OF ap(1) inS(3) this] a
    have "a \<noteq> f_size b" "a \<noteq> f_size r" "a \<noteq> f_prev_size r" by auto
    then show "hmem ?h2 a = hmem ?h1 a" by simp
  qed simp_all
  have sz: "?k = HB_SIZE ?h2 r" using hw_ops(1) [OF k(1,2), of False False] fr(1) ne(1) by (simp add: HB_SIZE_def hw_def)
  have rl: "r \<notin> listed L1" "listed L1 \<subseteq> ?S" using ap(2) l1 by auto
  note i = insert_ok [OF b2 ap(1) rl(2) inS(3) rl(1) sz k(3) refl, folded L'_def, unfolded k(4)]
  have e: "h' = (let h = (hset (f_magic b) HB_MAGIC_U (hb_insert ?h2 r))\<lparr>heap_used := heap_used (hset (f_magic b) HB_MAGIC_U (hb_insert ?h2 r)) + HB_SIZE (hset (f_magic b) HB_MAGIC_U (hb_insert ?h2 r)) b\<rparr>
      in if heap_peak h < heap_used h then h\<lparr>heap_peak := heap_used h\<rparr> else h)"
  proof -
    have z0: "need OR HB_USED OR 0 = hw need True False" by (simp add: hw_def HB_USED_def)
    have z: "hw s False False AND HB_PFREE = 0" using hw_ops(3) [OF rg(2,3)] by (simp add: hb_consts)
    have w: "HB_MIN \<le> s - need" using n by (simp add: HB_MIN_def)
    show ?thesis
      unfolding h'_def kmalloc_take_def
      by (simp only: Let_def u(6) hdr(1) z z0 w if_True r_def)
  qed
  define h3 where "h3 = hb_insert ?h2 r"
  note e = e [folded h3_def] and i = i [folded h3_def]
  note c = take_components [OF refl e]
  have he: "b + s < heap_end ?h2" using rg by (simp add: fe)
  note i = i [OF he inS(2)]
  have f3: "heap_end h3 = heap_end h" "heap_start h3 = heap_start h" "heap_used h3 = heap_used h"
    using i(2) by (simp_all add: frame_eq_def fe)
  have nl: "f_size x \<notin> links (insert r (listed L1))" "f_prev_size x \<notin> links (insert r (listed L1))"
    "f_magic x \<notin> links (insert r (listed L1))" if "x \<in> ?S" for x
    using header_not_link [OF ap(1) that, of "insert r (listed L1)"] rl(2) inS(3) by auto
  have h3: "hmem h3 (f_size b) = hw need True False" "hmem h3 (f_size r) = hw ?k False False"
    "hmem h3 (f_magic r) = HB_MAGIC_F" "hmem h3 (f_size (b + s)) = hw ns True True"
    "hmem h3 (f_prev_size (b + s)) = ?k" "hmem h3 (f_magic (b + s)) = HB_MAGIC_U"
    using i(3-5) i(6) [OF nl(1) [OF inS(1)]] i(6) [OF nl(1) [OF inS(3)]] i(6) [OF nl(3) [OF inS(2)]]
      fr ne hdr hw_ops(6) [OF t(3,4)] by (simp_all add: HB_PFREE_def hw_def [of ?k])
  let ?X = "addrs xs \<union> addrs zs"
  have X: "?X \<subseteq> ?S" "b \<notin> ?X" "b + s \<notin> ?X" "r \<notin> ?X" using sp(5,6,8) ap(2) by auto
  have oh: "hmem h3 a = hmem h a" "a \<noteq> f_magic b" if "a \<in> headers ?X" for a
  proof -
    note nx = header_notin [OF ap(1) inS(1) X(1,2)] header_notin [OF ap(1) inS(2) X(1,3)]
      header_notin [OF ap(1) inS(3) X(1,4)]
    have a: "a \<noteq> f_size b" "a \<noteq> f_magic b" "a \<noteq> f_size (b + s)" "a \<noteq> f_prev_size (b + s)"
      "a \<noteq> f_size r" "a \<noteq> f_prev_size r" "a \<noteq> f_magic r" using that nx by metis+
    have "a \<in> headers ?S" "a \<in> headers ?A" using that headers_mono [OF X(1)] headers_mono [of ?X ?A] sp(8) by auto
    then have "a \<notin> links (insert r (listed L1))" "hmem ?h1 a = hmem h a"
      using headers_links [OF ap(1), of "insert r (listed L1)"] rl(2) inS(3) u(4) by auto
    then show "hmem h3 a = hmem h a" "a \<noteq> f_magic b" using i(6) [of a] a by simp_all
  qed
  have tl: "tiles (hmem h') (heap_start h, False, 0) ((xs @ (b, need, True) # (r, ?k, False) # ys) @ [sentinel h])
      (heap_end h, False, 16)"
  proof -
    have tt: "tiles (hmem h') (b, pf, ps) [(b, need, True), (r, ?k, False), (b + s, ns, True)] (b + s + ns, False, ns)"
      using t(1-5) k n h3 fr ne unfolding c(1) by (simp add: r_def [symmetric])
    have "tiles (hmem h') (heap_start h, False, 0) (xs @ [(b, need, True), (r, ?k, False), (b + s, ns, True)] @ zs)
        (heap_end h, False, 16)"
      by (rule tiles_replace [OF sp(3) t(8) tt]) (simp add: c(1) oh)
    then show ?thesis using sp(2) t(2) by simp
  qed
  have bo: "bins_ok h' L'"
  proof (rule bins_ok_frame [OF i(1)])
    fix a assume "a \<in> links (listed L')"
    moreover have "listed L' \<subseteq> insert r (listed L1)" unfolding L'_def by (rule listed_insert)
    ultimately have "a \<noteq> f_magic b" using links_mono nl(3) [OF inS(1)] by blast
    then show "hmem h' a = hmem h3 a" unfolding c(1) by simp
  qed (simp_all add: c)
  have hs: "HB_SIZE (hset (f_magic b) HB_MAGIC_U h3) b = need"
    using hw_ops(1) [OF n(2) k(5)] h3(1) by (simp add: HB_SIZE_def)
  have "heap_inv h' (xs @ (b, need, True) # (r, ?k, False) # ys) L'"
    unfolding heap_inv_def
  proof (intro conjI)
    show "tiles (hmem h') (heap_start h', False, 0) ((xs @ (b, need, True) # (r, ?k, False) # ys) @ [sentinel h'])
        (heap_end h', False, 16)"
      using tl by (simp add: c f3 sentinel_def)
    show "\<forall>k<64. set (L' k) = free_of (xs @ (b, need, True) # (r, ?k, False) # ys) k"
      using u(5) free_of_rest [of xs b s False ys] inv_distinct [OF inv] sp(1) by (auto simp: L'_def)
    show "heap_used h' = used_bytes (xs @ (b, need, True) # (r, ?k, False) # ys)"
      using inv by (simp add: c f3 hs heap_inv_def sp(1))
    show "heap_used h' \<le> heap_peak h'" by (rule c(7))
  qed (use inv bo n k in \<open>auto simp: heap_inv_def c f3 sp(1)\<close>)
  then show ?thesis
  proof (rule that [OF sp(1)])
    show "heap_start h' = heap_start h" "heap_end h' = heap_end h" by (simp_all add: c f3)
    fix a assume a: "a \<notin> links (insert r (listed L))" "a \<notin> headers ?S"
    have "listed L1 \<subseteq> listed L" unfolding L1_def by (rule listed_remove)
    then have "a \<notin> links (listed L)" "a \<notin> links (insert r (listed L1))"
      using a(1) links_mono [of "insert r (listed L1)" "insert r (listed L)"]
        links_mono [of "listed L" "insert r (listed L)"] by auto
    moreover have "a \<noteq> f_size b" "a \<noteq> f_magic b" "a \<noteq> f_size (b + s)" "a \<noteq> f_prev_size (b + s)"
      "a \<noteq> f_size r" "a \<noteq> f_prev_size r" "a \<noteq> f_magic r" using a(2) inS headersI by metis+
    ultimately show "hmem h' a = hmem h a" unfolding c(1) using u(3) [of a] i(6) [of a] by simp
  qed
qed

subsection \<open>Live payloads\<close>

text \<open>The payload of a used block meets no header and no list link.\<close>

lemma payload_safe:
  assumes inv: "heap_inv h bs L" and b: "(b, s, True) \<in> set bs" and a: "b + 16 \<le> a" "a < b + s"
  shows "a \<notin> headers (addrs (bs @ [sentinel h]))" "a \<notin> links (listed L)"
    "\<And>c t k. (c, t, False) \<in> set bs \<Longrightarrow> 32 \<le> k \<Longrightarrow> k + 32 \<le> t \<Longrightarrow>
       a \<notin> headers {c + k} \<and> a \<notin> links {c + k}"
proof -
  let ?A = "addrs (bs @ [sentinel h])"
  have t: "tiles (hmem h) (heap_start h, False, 0) (bs @ [sentinel h]) (heap_end h, False, 16)"
    using inv by (simp add: heap_inv_def)
  have bA: "b \<in> ?A" using b by (force simp: addrs_def)
  have o: "y = b \<or> y + 32 \<le> b \<or> b + s \<le> y" if "y \<in> ?A" for y
    using tiles_order [OF t, of b s True y] b that apart_far [OF inv_apart [OF inv] that bA] by (auto simp: far_def)
  have ub: "(b, s', False) \<notin> set bs" for s'
  proof
    assume f: "(b, s', False) \<in> set bs"
    show False using inv_member(3) [OF inv b] inv_member(3) [OF inv f] by simp
  qed
  show "a \<notin> headers ?A" using o a by (fastforce simp: headers_def field_defs)
  have "x \<noteq> b \<and> x \<in> ?A" if "x \<in> listed L" for x
    using that ub inv free_of_addrs [of bs] by (fastforce simp: listed_def heap_inv_def free_of_def)
  then show "a \<notin> links (listed L)" using o a by (fastforce simp: links_def field_defs)
  fix c t' k assume c: "(c, t', False) \<in> set bs" "32 \<le> k" "k + 32 \<le> t'"
  have cA: "c \<in> ?A" "c \<noteq> b" using c(1) ub by (force simp: addrs_def)+
  have "b \<le> c \<or> c + t' \<le> b" using tiles_order [OF t, of c t' False b] c(1) bA by simp
  then have "c + k + 32 \<le> b \<or> b + s \<le> c + k" using o [OF cA(1)] cA(2) c(2,3) by linarith
  then show "a \<notin> headers {c + k} \<and> a \<notin> links {c + k}" using a by (auto simp: headers_def links_def field_defs)
qed

text \<open>The live allocations of a list of blocks: pointer and usable bytes.\<close>

definition live :: "blk list \<Rightarrow> (nat \<times> nat) set" where
  "live bs = {(b + 16, s - 16) | b s. (b, s, True) \<in> set bs}"

lemma live_simps [simp]:
  "live [] = {}" "live ((b, s, True) # bs) = insert (b + 16, s - 16) (live bs)" "live ((b, s, False) # bs) = live bs"
  "live (xs @ ys) = live xs \<union> live ys"
  by (auto simp: live_def)

definition same_live :: "blk list \<Rightarrow> heap \<Rightarrow> heap \<Rightarrow> bool" where
  "same_live bs h h' \<longleftrightarrow> (\<forall>(p, k) \<in> live bs. \<forall>a \<in> {p..<p + k}. hmem h' a = hmem h a)"

lemma take_ok:
  assumes inv: "heap_inv h bs L" and b: "(b, s, False) \<in> set bs" and n: "32 \<le> need" "16 dvd need" "need \<le> s"
  shows "\<exists>bs' L' k. heap_inv (kmalloc_take h b need) bs' L' \<and> need \<le> k \<and>
    live bs' = insert (b + 16, k - 16) (live bs) \<and> same_live bs h (kmalloc_take h b need) \<and>
    heap_start (kmalloc_take h b need) = heap_start h \<and> heap_end (kmalloc_take h b need) = heap_end h"
proof (cases "need + 32 \<le> s")
  case True
  obtain xs ys L' where t: "bs = xs @ (b, s, False) # ys"
    "heap_inv (kmalloc_take h b need) (xs @ (b, need, True) # (b + need, s - need, False) # ys) L'"
    "heap_start (kmalloc_take h b need) = heap_start h" "heap_end (kmalloc_take h b need) = heap_end h"
    "\<And>a. a \<notin> links (insert (b + need) (listed L)) \<Longrightarrow> a \<notin> headers (insert (b + need) (addrs (bs @ [sentinel h]))) \<Longrightarrow>
       hmem (kmalloc_take h b need) a = hmem h a"
    using take_split [OF inv b n(1,2) True] by metis
  have "same_live bs h (kmalloc_take h b need)"
    unfolding same_live_def live_def
  proof (clarify, rule t(5))
    fix c t' a assume c: "(c, t', True) \<in> set bs" "a \<in> {c + 16..<c + 16 + (t' - 16)}"
    then have a: "c + 16 \<le> a" "a < c + t'" by auto
    note p = payload_safe [OF inv c(1) a] payload_safe(3) [OF inv c(1) a b n(1) True]
    show "a \<notin> links (insert (b + need) (listed L))" using p by (auto simp: links_def)
    show "a \<notin> headers (insert (b + need) (addrs (bs @ [sentinel h])))" using p by (auto simp: headers_def)
  qed
  then show ?thesis
    using t by (intro exI [of _ "xs @ (b, need, True) # (b + need, s - need, False) # ys"] exI [of _ L'] exI [of _ need]) auto
next
  case False
  then have "s - need < 32" using n by simp
  then obtain xs ys L' where t: "bs = xs @ (b, s, False) # ys"
    "heap_inv (kmalloc_take h b need) (xs @ (b, s, True) # ys) L'"
    "heap_start (kmalloc_take h b need) = heap_start h" "heap_end (kmalloc_take h b need) = heap_end h"
    "\<And>a. a \<notin> links (listed L) \<Longrightarrow> a \<notin> headers (addrs (bs @ [sentinel h])) \<Longrightarrow>
       hmem (kmalloc_take h b need) a = hmem h a"
    using take_whole [OF inv b n(3)] by metis
  have "same_live bs h (kmalloc_take h b need)"
    unfolding same_live_def live_def
  proof (clarify, rule t(5))
    fix c t' a assume c: "(c, t', True) \<in> set bs" "a \<in> {c + 16..<c + 16 + (t' - 16)}"
    then have a: "c + 16 \<le> a" "a < c + t'" by auto
    show "a \<notin> links (listed L)" "a \<notin> headers (addrs (bs @ [sentinel h]))" using payload_safe [OF inv c(1) a] by auto
  qed
  then show ?thesis
    using t n(3) by (intro exI [of _ "xs @ (b, s, True) # ys"] exI [of _ L'] exI [of _ s]) auto
qed

subsection \<open>The request\<close>

lemma and_align: "x < 2 ^ 32 \<Longrightarrow> x AND 0xFFFFFFF0 = x - x mod 16" for x :: nat
proof -
  assume x: "x < 2 ^ 32"
  have "x - x mod 16 = 16 * (x div 16)" by (metis minus_mod_eq_mult_div)
  then have d: "16 dvd x - x mod 16" by simp
  have "x AND 0xFFFFFFF0 = push_bit 4 (drop_bit 4 x)"
    by (rule bit_eqI) (auto simp only: bit_and_iff bit_masks bit_push_bit_iff bit_drop_bit_eq o_def le_add_diff_inverse dest: bit_small [OF x])
  also have "\<dots> = x - x mod 16" by (simp add: push_bit_eq_mult drop_bit_eq_div minus_mod_eq_mult_div)
  finally show ?thesis .
qed

lemma kmalloc_need_ok:
  assumes "n < 0xFFFFFF00"
  shows "32 \<le> kmalloc_need n" "16 dvd kmalloc_need n" "n + 16 \<le> kmalloc_need n" "kmalloc_need n < n + 48"
proof -
  let ?x = "n + 31"
  have e: "kmalloc_need n = max 32 (?x - ?x mod 16)"
    using and_align [of ?x] assms by (simp add: kmalloc_need_def hb_consts max_def Let_def add.commute)
  have d: "16 dvd ?x - ?x mod 16" "?x mod 16 < 16" by (simp_all add: dvd_minus_mod)
  show "32 \<le> kmalloc_need n" "16 dvd kmalloc_need n" "n + 16 \<le> kmalloc_need n" "kmalloc_need n < n + 48"
    unfolding e using d by (auto simp: max_def)
qed

lemma kmalloc_cases:
  assumes inv: "heap_inv h bs L"
  obtains (none) "kmalloc h n = Some (h, 0)"
      "n = 0 \<or> heap_end h - heap_start h < n \<or> (\<forall>(b, s, u) \<in> set bs. \<not> u \<longrightarrow> s < kmalloc_need n)"
  | (took) b s where "0 < n" "n \<le> heap_end h - heap_start h" "kmalloc h n = Some (kmalloc_take h b (kmalloc_need n), b + 16)"
      "(b, s, False) \<in> set bs" "kmalloc_need n \<le> s" "b \<noteq> 0"
proof -
  have hs: "heap_start h \<noteq> 0" using inv by (simp add: heap_inv_def)
  obtain b where f: "hb_find h (kmalloc_need n) = Some b" "if b = 0 then \<forall>(b', s, u) \<in> set bs. \<not> u \<longrightarrow> s < kmalloc_need n
      else \<exists>s. (b, s, False) \<in> set bs \<and> kmalloc_need n \<le> s"
    using hb_find_ok [OF inv, of "kmalloc_need n"] by blast
  consider "n = 0 \<or> heap_end h - heap_start h < n" | "\<not> (n = 0 \<or> heap_end h - heap_start h < n)" "b = 0"
    | "\<not> (n = 0 \<or> heap_end h - heap_start h < n)" "b \<noteq> 0" by blast
  then show ?thesis
  proof cases
    case 1
    then show ?thesis using hs by (intro none) (auto simp: kmalloc_def Let_def)
  next
    case 2
    then show ?thesis using hs f by (intro none) (auto simp: kmalloc_def Let_def)
  next
    case 3
    then obtain s where "(b, s, False) \<in> set bs" "kmalloc_need n \<le> s" using f(2) by auto
    moreover have "kmalloc h n = Some (kmalloc_take h b (kmalloc_need n), b + 16)"
      using hs f(1) 3 by (auto simp: kmalloc_def Let_def HB_HDR_def)
    ultimately show ?thesis using 3 by (intro took) auto
  qed
qed

lemma kmalloc_spec:
  assumes inv: "heap_inv h bs L"
  shows "\<exists>h' p. kmalloc h n = Some (h', p) \<and>
    (if p = 0 then h' = h \<and>
       (n = 0 \<or> heap_end h - heap_start h < n \<or> (\<forall>(b, s, u) \<in> set bs. \<not> u \<longrightarrow> s < kmalloc_need n))
     else \<exists>bs' L' k. heap_inv h' bs' L' \<and> live bs' = insert (p, k) (live bs) \<and> n \<le> k \<and>
       same_live bs h h' \<and> heap_start h' = heap_start h \<and> heap_end h' = heap_end h)"
  using inv
proof (cases rule: kmalloc_cases [of h bs L n, case_names none took])
  case none
  then show ?thesis by auto
next
  case (took b s)
  have "heap_end h \<le> 0xF8000000" using inv by (simp add: heap_inv_def)
  then have n: "n < 0xFFFFFF00" using took(2) by linarith
  note need = kmalloc_need_ok [OF n]
  obtain bs' L' k where "heap_inv (kmalloc_take h b (kmalloc_need n)) bs' L'" "kmalloc_need n \<le> k"
    "live bs' = insert (b + 16, k - 16) (live bs)" "same_live bs h (kmalloc_take h b (kmalloc_need n))"
    "heap_start (kmalloc_take h b (kmalloc_need n)) = heap_start h" "heap_end (kmalloc_take h b (kmalloc_need n)) = heap_end h"
    using take_ok [OF inv took(4) need(1,2) took(5)] by blast
  moreover from this have "n \<le> k - 16" using need(3) by linarith
  ultimately show ?thesis using took(3) by auto
qed

text \<open>Two live allocations do not overlap, and each lies in the region, aligned.\<close>

lemma live_bounds:
  assumes "heap_inv h bs L" "(p, k) \<in> live bs"
  shows "heap_start h + 16 \<le> p" "p + k + 16 \<le> heap_end h" "16 dvd p" "16 \<le> k" "p \<noteq> 0"
proof -
  obtain b s where b: "p = b + 16" "k = s - 16" "(b, s, True) \<in> set bs" using assms(2) by (auto simp: live_def)
  note r = inv_range [OF assms(1) b(3)]
  show "heap_start h + 16 \<le> p" "p + k + 16 \<le> heap_end h" "16 \<le> k" "p \<noteq> 0" using r b by auto
  have t: "tiles (hmem h) (heap_start h, False, 0) (bs @ [sentinel h]) (heap_end h, False, 16)" "16 dvd heap_start h"
    using assms(1) by (auto simp: heap_inv_def)
  have "16 dvd b" if "tiles m (a, q) cs c'" "16 dvd a" "(b, s, u) \<in> set cs" for m a q cs c' u
    using that by (induction cs arbitrary: a q) (auto simp: dvd_add)
  from this [OF t] b(3) have "16 dvd b" by auto
  then show "16 dvd p" using b(1) by simp
qed

lemma live_disjoint:
  assumes "heap_inv h bs L" "(p, k) \<in> live bs" "(q, j) \<in> live bs" "(p, k) \<noteq> (q, j)"
  shows "p + k + 16 \<le> q \<or> q + j + 16 \<le> p"
proof -
  obtain b s where b: "p = b + 16" "k = s - 16" "(b, s, True) \<in> set bs" using assms(2) by (auto simp: live_def)
  obtain c t where c: "q = c + 16" "j = t - 16" "(c, t, True) \<in> set bs" using assms(3) by (auto simp: live_def)
  have ti: "tiles (hmem h) (heap_start h, False, 0) (bs @ [sentinel h]) (heap_end h, False, 16)"
    using assms(1) by (auto simp: heap_inv_def)
  have A: "b \<in> addrs (bs @ [sentinel h])" "c \<in> addrs (bs @ [sentinel h])" using b(3) c(3) by (force simp: addrs_def)+
  have "b \<noteq> c" using assms(4) b(1,2) c(1,2) inv_member(1) [OF assms(1) b(3)] inv_member(1) [OF assms(1) c(3)] by auto
  then show ?thesis
    using tiles_order [OF ti, of b s True c] tiles_order [OF ti, of c t True b] A b c
      inv_range [OF assms(1) b(3)] inv_range [OF assms(1) c(3)] by auto
qed

end
