(* ===== verification/Heap_Free.thy ===== *)
theory Heap_Free
  imports Heap_Alloc
begin

text \<open>
  \<open>kfree\<close> on the abstract heap. Between the moment a used block loses its mark and the moment it is
  put into a bin, the heap is \<^emph>\<open>detached\<close> around one block: all other blocks satisfy the invariant.
  Each part of \<open>kfree\<close> takes a detached heap to a detached heap, and the insertion closes it.
\<close>

unbundle bit_operations_syntax

definition det :: "heap \<Rightarrow> blk list \<Rightarrow> nat \<Rightarrow> nat \<Rightarrow> blk list \<Rightarrow> (nat \<Rightarrow> nat list) \<Rightarrow> bool \<Rightarrow> bool \<Rightarrow> bool" where
  "det h xs b s ys L pf nu \<longleftrightarrow>
     (\<exists>ps ns nf zs. tiles (hmem h) (heap_start h, False, 0) xs (b, pf, ps) \<and> (pf \<longrightarrow> hmem h (f_prev_size b) = ps) \<and>
        ys @ [sentinel h] = (b + s, ns, nu) # zs \<and> 16 dvd ns \<and> 0 < ns \<and> ns < 2 ^ 32 \<and>
        hmem h (f_size (b + s)) = hw ns nu nf \<and>
        hmem h (f_magic (b + s)) = (if nu then HB_MAGIC_U else HB_MAGIC_F) \<and>
        tiles (hmem h) (b + s + ns, \<not> nu, ns) zs (heap_end h, False, 16)) \<and>
     hmem h (f_size b) = hw s False pf \<and> 16 dvd s \<and> 32 \<le> s \<and> b + s + 16 \<le> heap_end h \<and>
     0 < heap_start h \<and> 16 dvd heap_start h \<and> heap_end h \<le> 0xF8000000 \<and> (\<forall>(b, s, u) \<in> set xs \<union> set ys. 32 \<le> s) \<and>
     apart (insert b (addrs xs \<union> addrs (ys @ [sentinel h]))) \<and> b \<notin> addrs xs \<union> addrs (ys @ [sentinel h]) \<and>
     distinct (map fst (xs @ ys @ [sentinel h])) \<and>
     bins_ok h L \<and> (\<forall>k < 64. set (L k) = free_of xs k \<union> free_of ys k) \<and>
     heap_used h = used_bytes xs + used_bytes ys \<and> heap_used h \<le> heap_peak h"

text \<open>The words the rest of \<open>kfree\<close> may write.\<close>

definition foot :: "heap \<Rightarrow> blk list \<Rightarrow> nat \<Rightarrow> blk list \<Rightarrow> (nat \<Rightarrow> nat list) \<Rightarrow> nat set" where
  "foot h xs b ys L = headers (insert b (addrs xs \<union> addrs (ys @ [sentinel h]))) \<union> links (insert b (listed L))"

lemma sentinel_cong: "heap_end h' = heap_end h \<Longrightarrow> sentinel h' = sentinel h"
  by (simp add: sentinel_def)

lemma det_listed: "det h xs b s ys L pf nu \<Longrightarrow> listed L \<subseteq> addrs xs \<union> addrs (ys @ [sentinel h])"
proof (rule listed_sub)
  fix k :: nat assume "det h xs b s ys L pf nu" "k < 64"
  then have "set (L k) = free_of xs k \<union> free_of ys k" by (simp add: det_def)
  then show "set (L k) \<subseteq> addrs xs \<union> addrs (ys @ [sentinel h])" using free_of_addrs [of xs k] free_of_addrs [of ys k] by auto
qed

subsection \<open>Marking the block free\<close>

lemma det_start:
  assumes inv: "heap_inv h bs L" and b: "(b, s, True) \<in> set bs"
  defines "h0 \<equiv> hset (f_size b) (s OR (hmem h (f_size b) AND HB_PFREE)) (h\<lparr>heap_used := heap_used h - s\<rparr>)"
  obtains xs ys pf nu where "bs = xs @ (b, s, True) # ys" "det h0 xs b s ys L pf nu"
    "hmem h (f_size b) AND HB_PFREE = (if pf then 2 else 0)"
proof -
  let ?A = "addrs (bs @ [sentinel h])"
  obtain xs ys pf ps ns nu zs where sp: "bs = xs @ (b, s, True) # ys" "ys @ [sentinel h] = (b + s, ns, nu) # zs"
    "tiles (hmem h) (heap_start h, False, 0) xs (b, pf, ps)"
    "tiles (hmem h) (b, pf, ps) ((b, s, True) # (b + s, ns, nu) # zs) (heap_end h, False, 16)"
    "b \<notin> addrs xs \<union> addrs zs" "b + s \<notin> addrs xs \<union> addrs zs" "far b (b + s)"
    "?A = addrs xs \<union> {b, b + s} \<union> addrs zs"
    using inv_split [OF inv b] by metis
  have rg: "b + s + 16 \<le> heap_end h" "16 dvd s" "s < 2 ^ 32" "32 \<le> s" using inv_range [OF inv b] by auto
  have t: "16 dvd ns" "ns < 2 ^ 32" "0 < ns" "hmem h (f_size b) = hw s True pf" "pf \<longrightarrow> hmem h (f_prev_size b) = ps"
    "hmem h (f_size (b + s)) = hw ns nu False" "tiles (hmem h) (b + s + ns, \<not> nu, ns) zs (heap_end h, False, 16)"
    "hmem h (f_magic (b + s)) = (if nu then HB_MAGIC_U else HB_MAGIC_F)"
    using sp(4) by auto
  have e: "s OR (hmem h (f_size b) AND HB_PFREE) = hw s False pf" "hmem h (f_size b) AND HB_PFREE = (if pf then 2 else 0)"
    using hw_ops(3,5) [OF rg(2,3)] t(4) by (simp_all add: HB_PFREE_def)
  have m: "hmem h0 = (hmem h)(f_size b := hw s False pf)" unfolding h0_def e(1) by simp
  have inA: "b \<in> ?A" "b + s \<in> ?A" unfolding sp(8) by auto
  have nx: "f_size b \<notin> headers (addrs xs \<union> addrs zs)"
    using header_notin [OF inv_apart [OF inv] inA(1), of "addrs xs \<union> addrs zs"] sp(5,8) by auto
  have tf: "tiles (hmem h0) c cs c'" if "tiles (hmem h) c cs c'" "addrs cs \<subseteq> addrs xs \<union> addrs zs" for c cs c'
    using that(1)
  proof (rule tiles_frame [rotated])
    fix a assume "a \<in> headers (addrs cs)"
    then have "a \<noteq> f_size b" using nx headers_mono [OF that(2)] by auto
    then show "hmem h0 a = hmem h a" by (simp add: m)
  qed
  have se: "sentinel h0 = sentinel h" "heap_start h0 = heap_start h" "heap_end h0 = heap_end h" "bins h0 = bins h"
    "bin_map h0 = bin_map h" by (simp_all add: h0_def sentinel_def)
  have A: "?A = insert b (addrs xs \<union> addrs (ys @ [sentinel h]))" using sp(1) by auto
  have bo: "bins_ok h0 L"
  proof (rule bins_ok_frame [of h])
    fix a assume "a \<in> links (listed L)"
    moreover have "listed L \<subseteq> ?A" using inv_listed [OF inv] by auto
    ultimately have "a \<noteq> f_size b" using header_not_link(1) [OF inv_apart [OF inv] inA(1)] by metis
    then show "hmem h0 a = hmem h a" by (simp add: m)
  qed (use inv in \<open>simp_all add: se heap_inv_def\<close>)
  have "det h0 xs b s ys L pf nu"
    unfolding det_def se
  proof (intro conjI exI)
    show "tiles (hmem h0) (heap_start h, False, 0) xs (b, pf, ps)" using sp(3) by (rule tf) auto
    show "tiles (hmem h0) (b + s + ns, \<not> nu, ns) zs (heap_end h, False, 16)" using t(7) by (rule tf) auto
    show "pf \<longrightarrow> hmem h0 (f_prev_size b) = ps" using t(5) by (simp add: m)
    show "hmem h0 (f_size (b + s)) = hw ns nu False" "hmem h0 (f_magic (b + s)) = (if nu then HB_MAGIC_U else HB_MAGIC_F)"
      using t(6,8) sp(7) rg(4) by (simp_all add: m far_hdr(3) [THEN not_sym])
    show "apart (insert b (addrs xs \<union> addrs (ys @ [sentinel h])))" using inv_apart [OF inv] unfolding A .
    show "b \<notin> addrs xs \<union> addrs (ys @ [sentinel h])" using sp(2,5) rg(4) by simp
    show "distinct (map fst (xs @ ys @ [sentinel h]))" using inv_distinct [OF inv] sp(1) by auto
    show "heap_used h0 = used_bytes xs + used_bytes ys" "heap_used h0 \<le> heap_peak h0"
      using inv by (auto simp: h0_def heap_inv_def sp(1))
    show "\<forall>k<64. set (L k) = free_of xs k \<union> free_of ys k" using inv by (simp add: heap_inv_def sp(1))
    show "\<forall>(b, s, u)\<in>set xs \<union> set ys. 32 \<le> s" using inv by (auto simp: heap_inv_def sp(1))
  qed (use t sp(2) rg inv bo m in \<open>auto simp: heap_inv_def\<close>)
  with sp(1) e(2) show ?thesis by (intro that)
qed

subsection \<open>Unlinking a neighbour\<close>

lemma det_unlink:
  assumes d: "det h xs b s ys L pf nu" and x: "(x, t, False) \<in> set xs \<union> set ys" "HB_SIZE h x = t"
  defines "L1 \<equiv> L(hb_bin t := remove1 x (L (hb_bin t)))" and "S \<equiv> insert b (addrs xs \<union> addrs (ys @ [sentinel h]))"
  shows "bins_ok (hb_unlink h x) L1" "frame_eq h (hb_unlink h x)"
    "\<And>a. a \<notin> links (listed L) \<Longrightarrow> hmem (hb_unlink h x) a = hmem h a"
    "\<And>a. a \<in> headers S \<Longrightarrow> hmem (hb_unlink h x) a = hmem h a"
    "\<And>k. k < 64 \<Longrightarrow> set (L1 k) = (free_of xs k \<union> free_of ys k) - {x}"
    "HB_SIZE (hb_unlink h x) x = t" "listed L1 \<subseteq> listed L" "x \<in> listed L"
proof -
  have bo: "bins_ok h L" "\<And>k. k < 64 \<Longrightarrow> set (L k) = free_of xs k \<union> free_of ys k" "apart S"
    using d unfolding det_def S_def by blast+
  have S: "listed L \<subseteq> S" using det_listed [OF d] by (auto simp: S_def)
  have xL: "x \<in> set (L (hb_bin t))" using bo(2) [OF hb_bin_less] x(1) by (auto simp: free_of_def)
  note u = unlink_ok [OF bo(1,3) S xL, unfolded x(2), OF refl]
  show "bins_ok (hb_unlink h x) L1" "frame_eq h (hb_unlink h x)"
    "\<And>a. a \<notin> links (listed L) \<Longrightarrow> hmem (hb_unlink h x) a = hmem h a"
    using u by (simp_all add: L1_def)
  show hd: "hmem (hb_unlink h x) a = hmem h a" if "a \<in> headers S" for a
    using headers_links [OF bo(3) S that] by (rule u(3))
  show "listed L1 \<subseteq> listed L" unfolding L1_def by (rule listed_remove)
  show xl: "x \<in> listed L" using listed_bin [OF hb_bin_less] xL by blast
  then have "f_size x \<in> headers S" using S by (intro headersI) blast
  then show "HB_SIZE (hb_unlink h x) x = t" using x(2) hd by (simp only: HB_SIZE_def)
  show "set (L1 k) = (free_of xs k \<union> free_of ys k) - {x}" if "k < 64" for k
  proof (cases "k = hb_bin t")
    case True
    have "distinct (L k)" using bo(1) that by (simp add: bins_ok_def)
    then show ?thesis using bo(2) [OF that] True by (simp add: L1_def)
  next
    case False
    have "x \<notin> set (L k)" using bo(1) xL that False hb_bin_less [of t] by (auto simp: bins_ok_def)
    then show ?thesis using bo(2) [OF that] False by (simp add: L1_def)
  qed
qed

subsection \<open>Merging forward\<close>

lemma det_forward:
  assumes d: "det h xs b s ys L pf nu" and pfl: "pflag = (if pf then 2 else 0)"
  obtains h' s' ys' L' where "kfree_forward h b s pflag = (h', s')" "det h' xs b s' ys' L' pf True"
    "live ys' = live ys" "foot h' xs b ys' L' \<subseteq> foot h xs b ys L" "\<And>a. a \<notin> foot h xs b ys L \<Longrightarrow> hmem h' a = hmem h a"
    "heap_start h' = heap_start h" "heap_end h' = heap_end h"
proof -
  let ?S = "insert b (addrs xs \<union> addrs (ys @ [sentinel h]))"
  from d obtain ps ns nf zs where o: "tiles (hmem h) (heap_start h, False, 0) xs (b, pf, ps)"
      "pf \<longrightarrow> hmem h (f_prev_size b) = ps" "ys @ [sentinel h] = (b + s, ns, nu) # zs" "16 dvd ns" "0 < ns" "ns < 2 ^ 32"
      "hmem h (f_size (b + s)) = hw ns nu nf" "hmem h (f_magic (b + s)) = (if nu then HB_MAGIC_U else HB_MAGIC_F)"
      "tiles (hmem h) (b + s + ns, \<not> nu, ns) zs (heap_end h, False, 16)"
    and g: "hmem h (f_size b) = hw s False pf" "16 dvd s" "32 \<le> s" "b + s + 16 \<le> heap_end h" "0 < heap_start h"
      "16 dvd heap_start h" "heap_end h \<le> 0xF8000000" "\<forall>(b, s, u) \<in> set xs \<union> set ys. 32 \<le> s" "apart ?S"
      "b \<notin> addrs xs \<union> addrs (ys @ [sentinel h])" "distinct (map fst (xs @ ys @ [sentinel h]))"
      "heap_used h = used_bytes xs + used_bytes ys" "heap_used h \<le> heap_peak h"
    unfolding det_def by blast
  let ?n = "b + s"
  have s32: "s < 2 ^ 32" using g(4,7) by simp
  have nb: "HB_NEXT_BLK h b = ?n" "hmem h (f_size ?n) AND HB_USED = 0 \<longleftrightarrow> \<not> nu" "HB_SIZE h ?n = ns"
    using g(1) o(7) hw_ops(1,2) [OF g(2) s32] hw_ops(1,2) [OF o(4,6)]
    by (simp_all add: HB_NEXT_BLK_def HB_SIZE_def HB_USED_def)
  show ?thesis
  proof (cases nu)
    case True
    have "kfree_forward h b s pflag = (h, s)"
      using True nb(1,2) by (simp add: kfree_forward_def Let_def)
    then show ?thesis using d True by (intro that [of h s ys L]) auto
  next
    case False
    then obtain ys' where ys: "ys = (?n, ns, False) # ys'" "zs = ys' @ [sentinel h]"
      using o(3) by (cases ys) (auto simp: sentinel_def)
    have x: "(?n, ns, False) \<in> set xs \<union> set ys" using ys by simp
    note u = det_unlink [OF d x nb(3)]
    let ?L1 = "L(hb_bin ns := remove1 ?n (L (hb_bin ns)))" and ?h1 = "hb_unlink h ?n"
    define h' where "h' = hset (f_size b) (hw (s + ns) False pf) (hset (f_magic ?n) 0 ?h1)"
    have "zs \<noteq> []" using ys(2) by simp
    then obtain nn ns2 nu2 zs2 where z: "zs = (nn, ns2, nu2) # zs2" by (metis list.exhaust prod.exhaust)
    have t: "nn = ?n + ns" "nu2 = True" "16 dvd ns2" "0 < ns2" "ns2 < 2 ^ 32" "hmem h (f_size nn) = hw ns2 True True"
      "hmem h (f_magic nn) = HB_MAGIC_U" "tiles (hmem h) (nn + ns2, False, ns2) zs2 (heap_end h, False, 16)"
      using o(9) False unfolding z by auto
    have le: "?n + ns + 16 \<le> heap_end h"
    proof -
      obtain c where c: "tiles (hmem h) (?n + ns, True, ns) ys' c" "tiles (hmem h) c [sentinel h] (heap_end h, False, 16)"
        using o(9) False unfolding ys(2) tiles_append by auto
      obtain e q where e: "c = (e, q)" by (metis prod.exhaust)
      obtain pf' ps' where q: "q = (pf', ps')" by (metis prod.exhaust)
      have "e + 16 = heap_end h" using c(2) e q by (auto simp: sentinel_def)
      then show ?thesis using tiles_range [OF c(1) [unfolded e q]] by linarith
    qed
    have ss: "s + ns < 2 ^ 32" "16 dvd s + ns" using le g(2,7) o(4) by auto
    have inS: "?n \<in> ?S" "b \<in> ?S" "nn \<in> ?S" unfolding o(3) z by simp_all
    have nn: "nn \<noteq> b" "nn \<noteq> ?n" using t(1) o(5) by auto
    have far: "far b ?n" "far ?n b" "far b nn" "far nn b" "far nn ?n"
      using apart_far [OF g(9)] inS nn g(3) by auto
    have fw: "kfree_forward h b s pflag = (h', s + ns)"
    proof -
      have w: "?n < heap_end h" "hmem h (f_size ?n) AND HB_USED = 0" using le nb(2) False by auto
      have v: "(s + ns) OR pflag = hw (s + ns) False pf" using hw_ops(5) [OF ss(2,1), of pf] pfl by simp
      show ?thesis unfolding kfree_forward_def nb(1) Let_def h'_def using w by (simp only: u(6) v simp_thms if_True)
    qed
    have m: "hmem h' = (hmem ?h1)(f_magic ?n := 0, f_size b := hw (s + ns) False pf)" by (simp add: h'_def)
    have se: "sentinel h' = sentinel h" "heap_start h' = heap_start h" "heap_end h' = heap_end h"
      "heap_used h' = heap_used h" "heap_peak h' = heap_peak h" "bins h' = bins ?h1" "bin_map h' = bin_map ?h1"
      using u(2) by (simp_all add: h'_def sentinel_def frame_eq_def)
    let ?X = "addrs xs \<union> addrs zs"
    have X: "?X \<subseteq> ?S" "b \<notin> ?X" "?n \<notin> ?X" using g(10,11) ys by (auto simp: addrs_def)
    have same: "hmem h' a = hmem h a" if "a \<in> headers ?X" for a
      using that u(4) [of a] headers_mono [OF X(1)] header_notin [OF g(9) inS(2) X(1,2)] header_notin [OF g(9) inS(1) X(1,3)]
      unfolding m by (auto simp del: addrs_simps)
    have tf: "tiles (hmem h') c cs c'" if "tiles (hmem h) c cs c'" "addrs cs \<subseteq> ?X" for c cs c'
      using tiles_frame [OF _ that(1), of "hmem h'"] same headers_mono [OF that(2)] by blast
    have bo: "bins_ok h' ?L1"
    proof (rule bins_ok_frame [OF u(1)])
      fix a assume "a \<in> links (listed ?L1)"
      moreover have "listed ?L1 \<subseteq> ?S" using u(7) det_listed [OF d] by auto
      ultimately have "a \<noteq> f_size b" "a \<noteq> f_magic ?n"
        using header_not_link(1) [OF g(9) inS(2)] header_not_link(3) [OF g(9) inS(1)] by metis+
      then show "hmem h' a = hmem ?h1 a" by (simp add: m)
    qed (simp_all add: se)
    have "det h' xs b (s + ns) ys' ?L1 pf True"
      unfolding det_def se
    proof (intro conjI exI)
      show "tiles (hmem h') (heap_start h, False, 0) xs (b, pf, ps)" using o(1) by (rule tf) auto
      show "tiles (hmem h') (b + (s + ns) + ns2, \<not> True, ns2) zs2 (heap_end h, False, 16)"
        using tf [OF t(8)] z t(1) by (simp add: add.assoc subset_iff)
      show "ys' @ [sentinel h] = (b + (s + ns), ns2, True) # zs2" using ys z t by (simp add: add.assoc)
      have "f_size nn \<in> headers ?X" "f_magic nn \<in> headers ?X" using z by (auto simp: headers_def)
      then show "hmem h' (f_size (b + (s + ns))) = hw ns2 True True"
        "hmem h' (f_magic (b + (s + ns))) = (if True then HB_MAGIC_U else HB_MAGIC_F)"
        using same t(1,6,7) by (simp_all add: add.assoc)
      show "pf \<longrightarrow> hmem h' (f_prev_size b) = ps"
        using o(2) far u(4) [of "f_prev_size b"] headersI(2) [OF inS(2)] by (simp add: m)
      show "apart (insert b (addrs xs \<union> addrs (ys' @ [sentinel h])))"
        using g(9) by (rule apart_subset) (auto simp: ys)
      show "b \<notin> addrs xs \<union> addrs (ys' @ [sentinel h])" using g(10) by (auto simp: ys)
      show "distinct (map fst (xs @ ys' @ [sentinel h]))" using g(11) by (auto simp: ys)
      show "\<forall>k<64. set (?L1 k) = free_of xs k \<union> free_of ys' k"
      proof (intro allI impI)
        fix k :: nat assume "k < 64"
        moreover have "?n \<notin> free_of xs k \<union> free_of ys' k"
          using X(3) free_of_addrs [of xs k] free_of_addrs [of ys' k] ys(2) by auto
        ultimately show "set (?L1 k) = free_of xs k \<union> free_of ys' k" using u(5) [of k] ys(1) by auto
      qed
      show "heap_used h = used_bytes xs + used_bytes ys'" using g(12) ys by simp
      show "\<forall>(b, s, u)\<in>set xs \<union> set ys'. 32 \<le> s" using g(8) ys by auto
      show "hmem h' (f_size b) = hw (s + ns) False pf" by (simp add: m)
    qed (use t g le ss bo in \<open>auto simp: add.assoc\<close>)
    then show ?thesis
    proof (rule that [OF fw])
      show "live ys' = live ys" using ys by simp
      show "foot h' xs b ys' ?L1 \<subseteq> foot h xs b ys L"
        unfolding foot_def se using u(7) ys by (intro Un_mono headers_mono links_mono) auto
      fix a assume a: "a \<notin> foot h xs b ys L"
      then have "a \<notin> headers ?S" "a \<notin> links (listed L)" by (auto simp: foot_def links_def)
      then show "hmem h' a = hmem h a" using u(3) [of a] headersI(1) [OF inS(2)] headersI(3) [OF inS(1)]
        unfolding m by (auto simp del: addrs_simps)
    qed (simp_all add: se)
  qed
qed

subsection \<open>Merging backward\<close>

lemma tiles_last:
  assumes "tiles m (a, False, z) xs (b, True, ps)"
  obtains xs' p ps' where "xs = xs' @ [(p, ps, False)]" "tiles m (a, False, z) xs' (p, False, ps')" "b = p + ps"
    "m (f_size p) = hw ps False False" "16 dvd ps" "ps < 2 ^ 32" "0 < ps"
proof (cases xs rule: rev_cases)
  case Nil
  then show ?thesis using assms by simp
next
  case (snoc xs' x)
  obtain p s u where x: "x = (p, s, u)" by (metis prod.exhaust)
  obtain c where c: "tiles m (a, False, z) xs' c" "tiles m c [(p, s, u)] (b, True, ps)"
    using assms unfolding snoc x tiles_append by blast
  obtain e pf ps' where e: "c = (e, pf, ps')" by (metis prod.exhaust)
  have "u = False" "s = ps" "pf = False" "e = p" "b = p + ps" "m (f_size p) = hw ps False False" "16 dvd ps" "ps < 2 ^ 32" "0 < ps"
    using c(2) unfolding e by auto
  then show ?thesis using c(1) snoc x unfolding e by (intro that [of xs' p ps']) auto
qed

lemma det_backward:
  assumes d: "det h xs b s ys L pf nu" and pfl: "pflag = (if pf then 2 else 0)"
  obtains h' b' s' xs' L' where "kfree_backward h b s pflag = (h', b')" "det h' xs' b' s' ys L' False nu"
    "b' \<noteq> b \<Longrightarrow> hmem h' (f_magic b) = 0 \<and> f_magic b \<notin> foot h' xs' b' ys L'"
    "live xs' = live xs" "foot h' xs' b' ys L' \<subseteq> foot h xs b ys L" "\<And>a. a \<notin> foot h xs b ys L \<Longrightarrow> hmem h' a = hmem h a"
    "heap_start h' = heap_start h" "heap_end h' = heap_end h"
proof (cases pf)
  case False
  then have "kfree_backward h b s pflag = (h, b)" using pfl by (simp add: kfree_backward_def)
  then show ?thesis using d False by (intro that [of h b xs s L]) auto
next
  case True
  let ?S = "insert b (addrs xs \<union> addrs (ys @ [sentinel h]))"
  have "det h xs b s ys L True nu" using d True by simp
  then obtain ps ns nf zs where o: "tiles (hmem h) (heap_start h, False, 0) xs (b, True, ps)"
      "hmem h (f_prev_size b) = ps" "ys @ [sentinel h] = (b + s, ns, nu) # zs" "16 dvd ns" "0 < ns" "ns < 2 ^ 32"
      "hmem h (f_size (b + s)) = hw ns nu nf" "hmem h (f_magic (b + s)) = (if nu then HB_MAGIC_U else HB_MAGIC_F)"
      "tiles (hmem h) (b + s + ns, \<not> nu, ns) zs (heap_end h, False, 16)"
    and g: "hmem h (f_size b) = hw s False True" "16 dvd s" "32 \<le> s" "b + s + 16 \<le> heap_end h" "0 < heap_start h"
      "16 dvd heap_start h" "heap_end h \<le> 0xF8000000" "\<forall>(b, s, u) \<in> set xs \<union> set ys. 32 \<le> s" "apart ?S"
      "b \<notin> addrs xs \<union> addrs (ys @ [sentinel h])" "distinct (map fst (xs @ ys @ [sentinel h]))"
      "heap_used h = used_bytes xs + used_bytes ys" "heap_used h \<le> heap_peak h"
    unfolding det_def by blast
  obtain xs' p ps' where l: "xs = xs' @ [(p, ps, False)]" "tiles (hmem h) (heap_start h, False, 0) xs' (p, False, ps')"
    "b = p + ps" "hmem h (f_size p) = hw ps False False" "16 dvd ps" "ps < 2 ^ 32" "0 < ps"
    using tiles_last [OF o(1)] by blast
  have sz: "HB_SIZE h p = ps" using l(4) hw_ops(1) [OF l(5,6)] by (simp add: HB_SIZE_def)
  have x: "(p, ps, False) \<in> set xs \<union> set ys" using l(1) by simp
  note u = det_unlink [OF d x sz]
  let ?L1 = "L(hb_bin ps := remove1 p (L (hb_bin ps)))" and ?h1 = "hb_unlink h p"
  define h' where "h' = hset (f_size p) (hw (s + ps) False False) (hset (f_magic b) 0 ?h1)"
  have e: "p + (s + ps) = b + s" using l(3) by simp
  have ss: "s + ps < 2 ^ 32" "16 dvd s + ps" using e g(2,4,7) l(5) by auto
  have inS: "p \<in> ?S" "b \<in> ?S" "b + s \<in> ?S" unfolding o(3) l(1) by simp_all
  have pb: "p \<noteq> b" using l(3,7) by simp
  have far: "far b p" "far p b" using apart_far [OF g(9)] inS pb by auto
  have hp: "hmem ?h1 (f_size p) = hw ps False False" using u(4) [OF headersI(1) [OF inS(1)]] l(4) by simp
  have bw: "kfree_backward h b s pflag = (h', p)"
  proof -
    have w: "pflag \<noteq> 0" "b - hmem h (f_prev_size b) = p" using pfl True o(2) l(3) by auto
    have v: "HB_SIZE (hset (f_magic b) 0 ?h1) p = ps" "hmem (hset (f_magic b) 0 ?h1) (f_size p) AND HB_PFREE = 0"
      using hp far hw_ops(1,3) [OF l(5,6)] by (simp_all add: HB_SIZE_def HB_PFREE_def)
    have "(s + ps) OR 0 = hw (s + ps) False False" by (simp add: hw_def)
    then show ?thesis unfolding kfree_backward_def h'_def using w by (simp only: Let_def v simp_thms if_True)
  qed
  have m: "hmem h' = (hmem ?h1)(f_magic b := 0, f_size p := hw (s + ps) False False)" by (simp add: h'_def)
  have se: "sentinel h' = sentinel h" "heap_start h' = heap_start h" "heap_end h' = heap_end h"
    "heap_used h' = heap_used h" "heap_peak h' = heap_peak h" "bins h' = bins ?h1" "bin_map h' = bin_map ?h1"
    using u(2) by (simp_all add: h'_def sentinel_def frame_eq_def)
  let ?X = "addrs xs' \<union> addrs (ys @ [sentinel h])"
  have X: "?X \<subseteq> ?S" "b \<notin> ?X" "p \<notin> ?X" using g(10,11) l(1) by (auto simp: addrs_def)
  have same: "hmem h' a = hmem h a" if "a \<in> headers ?X" for a
    using that u(4) [of a] headers_mono [OF X(1)] header_notin [OF g(9) inS(2) X(1,2)] header_notin [OF g(9) inS(1) X(1,3)]
    unfolding m by (auto simp del: addrs_simps)
  have tf: "tiles (hmem h') c cs c'" if "tiles (hmem h) c cs c'" "addrs cs \<subseteq> ?X" for c cs c'
    using tiles_frame [OF _ that(1), of "hmem h'"] same headers_mono [OF that(2)] by blast
  have bo: "bins_ok h' ?L1"
  proof (rule bins_ok_frame [OF u(1)])
    fix a assume "a \<in> links (listed ?L1)"
    moreover have "listed ?L1 \<subseteq> ?S" using u(7) det_listed [OF d] by auto
    ultimately have "a \<noteq> f_size p" "a \<noteq> f_magic b"
      using header_not_link(1) [OF g(9) inS(1)] header_not_link(3) [OF g(9) inS(2)] by metis+
    then show "hmem h' a = hmem ?h1 a" by (simp add: m)
  qed (simp_all add: se)
  have "det h' xs' p (s + ps) ys ?L1 False nu"
    unfolding det_def se e
  proof (intro conjI exI)
    show "tiles (hmem h') (heap_start h, False, 0) xs' (p, False, ps')" using l(2) by (rule tf) auto
    show "tiles (hmem h') (b + s + ns, \<not> nu, ns) zs (heap_end h, False, 16)" using o(9) by (rule tf) (auto simp: o(3) simp del: addrs_simps(3))
    show "ys @ [sentinel h] = (b + s, ns, nu) # zs" by (rule o(3))
    have "b + s \<in> ?X" unfolding o(3) by simp
    then show "hmem h' (f_size (b + s)) = hw ns nu nf" "hmem h' (f_magic (b + s)) = (if nu then HB_MAGIC_U else HB_MAGIC_F)"
      using same headersI o(7,8) by metis+
    show "apart (insert p (addrs xs' \<union> addrs (ys @ [sentinel h])))" using g(9) by (rule apart_subset) (auto simp: l(1))
    show "p \<notin> addrs xs' \<union> addrs (ys @ [sentinel h])" by (rule X(3))
    show "distinct (map fst (xs' @ ys @ [sentinel h]))" using g(11) by (auto simp: l(1))
    show "\<forall>k<64. set (?L1 k) = free_of xs' k \<union> free_of ys k"
    proof (intro allI impI)
      fix k :: nat assume "k < 64"
      moreover have "p \<notin> free_of xs' k \<union> free_of ys k"
        using X(3) free_of_addrs [of xs' k] free_of_addrs [of ys k] by auto
      ultimately show "set (?L1 k) = free_of xs' k \<union> free_of ys k" using u(5) [of k] l(1) by auto
    qed
    show "heap_used h = used_bytes xs' + used_bytes ys" using g(12) l(1) by simp
    show "\<forall>(b, s, u)\<in>set xs' \<union> set ys. 32 \<le> s" using g(8) l(1) by auto
    show "hmem h' (f_size p) = hw (s + ps) False False" by (simp add: m)
  qed (use o g ss bo in auto)
  then show ?thesis
  proof (rule that [OF bw])
    have "f_magic b \<notin> headers (insert p ?X)" using header_notin(3) [OF g(9) inS(2), of "insert p ?X"] X inS(1) pb by auto
    moreover have "f_magic b \<notin> links (insert p (listed ?L1))"
      using header_not_link(3) [OF g(9) inS(2), of "insert p (listed ?L1)"] u(7) det_listed [OF d] inS(1) by auto
    moreover have "hmem h' (f_magic b) = 0" using far by (simp add: m)
    ultimately show "hmem h' (f_magic b) = 0 \<and> f_magic b \<notin> foot h' xs' p ys ?L1" by (simp add: foot_def se)
    show "live xs' = live xs" using l(1) by simp
    show "foot h' xs' p ys ?L1 \<subseteq> foot h xs b ys L"
      unfolding foot_def se using u(7,8) l(1) by (intro Un_mono headers_mono links_mono) auto
    fix a assume a: "a \<notin> foot h xs b ys L"
    then have "a \<notin> headers ?S" "a \<notin> links (listed L)" by (auto simp: foot_def links_def)
    then show "hmem h' a = hmem h a" using u(3) [of a] headersI(1) [OF inS(1)] headersI(3) [OF inS(2)]
      unfolding m by (auto simp del: addrs_simps)
  qed (simp_all add: se)
qed

subsection \<open>Putting the block into its bin\<close>

lemma det_close:
  assumes d: "det h xs b s ys L False True"
  shows "heap_inv (hb_insert h b) (xs @ (b, s, False) # ys) (L(hb_bin s := b # L (hb_bin s)))"
    "\<And>a. a \<notin> foot h xs b ys L \<Longrightarrow> hmem (hb_insert h b) a = hmem h a"
    "heap_start (hb_insert h b) = heap_start h" "heap_end (hb_insert h b) = heap_end h"
proof -
  let ?S = "insert b (addrs xs \<union> addrs (ys @ [sentinel h]))" and ?L1 = "L(hb_bin s := b # L (hb_bin s))"
  from d obtain ps ns nf zs where o: "tiles (hmem h) (heap_start h, False, 0) xs (b, False, ps)"
      "ys @ [sentinel h] = (b + s, ns, True) # zs" "16 dvd ns" "0 < ns" "ns < 2 ^ 32"
      "hmem h (f_size (b + s)) = hw ns True nf" "hmem h (f_magic (b + s)) = HB_MAGIC_U"
      "tiles (hmem h) (b + s + ns, False, ns) zs (heap_end h, False, 16)"
    and g: "hmem h (f_size b) = hw s False False" "16 dvd s" "32 \<le> s" "b + s + 16 \<le> heap_end h" "0 < heap_start h"
      "16 dvd heap_start h" "heap_end h \<le> 0xF8000000" "\<forall>(b, s, u) \<in> set xs \<union> set ys. 32 \<le> s" "apart ?S"
      "b \<notin> addrs xs \<union> addrs (ys @ [sentinel h])" "distinct (map fst (xs @ ys @ [sentinel h]))"
      "heap_used h = used_bytes xs + used_bytes ys" "heap_used h \<le> heap_peak h" "bins_ok h L"
      "\<And>k. k < 64 \<Longrightarrow> set (L k) = free_of xs k \<union> free_of ys k"
    unfolding det_def not_True_eq_False if_True by blast
  let ?n = "b + s"
  have s32: "s < 2 ^ 32" using g(4,7) by simp
  have inS: "b \<in> ?S" "?n \<in> ?S" unfolding o(2) by simp_all
  have ls: "listed L \<subseteq> ?S" "b \<notin> listed L" using det_listed [OF d] g(10) by auto
  have sz: "s = HB_SIZE h b" using g(1) hw_ops(1) [OF g(2) s32] by (simp add: HB_SIZE_def)
  have le: "?n < heap_end h" using g(4) by simp
  note i = insert_ok [OF g(14,9) ls(1) inS(1) ls(2) sz g(3) refl le inS(2)]
  let ?h = "hb_insert h b"
  have far: "far b ?n" "far ?n b" using g(3) by (auto simp: far_def)
  have n0: "b \<noteq> ?n" "0 < s" using g(3) by auto
  have nl: "f_size x \<notin> links (insert b (listed L))" "f_prev_size x \<notin> links (insert b (listed L))"
    "f_magic x \<notin> links (insert b (listed L))" if "x \<in> ?S" for x
    using header_not_link [OF g(9) that, of "insert b (listed L)"] ls(1) inS(1) by auto
  let ?X = "addrs xs \<union> addrs zs"
  have dz: "distinct (map fst (xs @ (?n, ns, True) # zs))" using g(11) o(2) by simp
  have X: "?X \<subseteq> ?S" "b \<notin> ?X" "?n \<notin> ?X"
  proof -
    show "?X \<subseteq> ?S" "b \<notin> ?X" using g(10) unfolding o(2) by auto
    show "?n \<notin> ?X" using dz by (auto simp: addrs_def)
  qed
  have same: "hmem ?h a = hmem h a" if "a \<in> headers ?X" for a
  proof (rule i(6))
    show "a \<notin> links (insert b (listed L))"
      using headers_links [OF g(9), of "insert b (listed L)" a] ls(1) inS(1) headers_mono [OF X(1)] that by auto
    show "a \<noteq> f_magic b" "a \<noteq> f_prev_size ?n" "a \<noteq> f_size ?n"
      using that header_notin [OF g(9) inS(1) X(1,2)] header_notin [OF g(9) inS(2) X(1,3)] by metis+
  qed
  have hd: "hmem ?h (f_size b) = hw s False False" "hmem ?h (f_size ?n) = hw ns True True" "hmem ?h (f_magic ?n) = HB_MAGIC_U"
    using i(5) i(6) [OF nl(1) [OF inS(1)]] i(6) [OF nl(3) [OF inS(2)]] far n0 g(1) o(6,7) hw_ops(6) [OF o(3,5)]
    by (simp_all add: HB_PFREE_def)
  have fe: "heap_start ?h = heap_start h" "heap_end ?h = heap_end h" "heap_used ?h = heap_used h" "heap_peak ?h = heap_peak h"
    using i(2) by (simp_all add: frame_eq_def)
  have tt: "tiles (hmem ?h) (b, False, ps) [(b, s, False), (?n, ns, True)] (?n + ns, False, ns)"
    using hd i(3,4) g(2,3) s32 n0 o(3-5) by simp
  have tl: "tiles (hmem ?h) (heap_start h, False, 0) (xs @ [(b, s, False), (?n, ns, True)] @ zs) (heap_end h, False, 16)"
    by (rule tiles_replace [OF o(1,8) tt]) (rule same)
  show "heap_inv ?h (xs @ (b, s, False) # ys) ?L1"
    unfolding heap_inv_def
  proof (intro conjI)
    show "tiles (hmem ?h) (heap_start ?h, False, 0) ((xs @ (b, s, False) # ys) @ [sentinel ?h]) (heap_end ?h, False, 16)"
      using tl o(2) by (simp add: fe sentinel_def)
    show "\<forall>k<64. set (?L1 k) = free_of (xs @ (b, s, False) # ys) k" using g(15) hb_bin_less [of s] by auto
    show "bins_ok ?h ?L1" by (rule i(1))
    show "\<forall>(b, s, u)\<in>set (xs @ (b, s, False) # ys). 32 \<le> s" using g(3,8) by auto
  qed (use g in \<open>simp_all add: fe\<close>)
  show "heap_start ?h = heap_start h" "heap_end ?h = heap_end h" by (rule fe)+
  fix a assume a: "a \<notin> foot h xs b ys L"
  then have "a \<notin> headers ?S" "a \<notin> links (insert b (listed L))" by (auto simp: foot_def)
  then show "hmem ?h a = hmem h a" using headersI [OF inS(1)] headersI [OF inS(2)] by (intro i(6)) (auto simp del: addrs_simps)
qed

subsection \<open>Freeing\<close>

lemma and_15: "16 dvd p \<Longrightarrow> p AND 15 = 0" for p :: nat
  using take_bit_eq_mask [of 4 p] by (simp add: mask_eq_exp_minus_1 take_bit_eq_mod)

lemma hb_valid_live:
  assumes "heap_inv h bs L" "(b, s, True) \<in> set bs"
  shows "hb_valid h (b + 16)"
proof -
  have "(b + 16, s - 16) \<in> live bs" using assms(2) by (auto simp: live_def)
  note l = live_bounds [OF assms(1) this]
  have "(b + 16) AND 15 = 0" by (rule and_15 [OF l(3)])
  then show ?thesis
    using l inv_member [OF assms] by (auto simp: hb_valid_def Let_def hb_consts)
qed

lemma magic_ne: "HB_MAGIC_F \<noteq> HB_MAGIC_U" "0 \<noteq> HB_MAGIC_U"
  by (simp_all add: HB_MAGIC_F_def HB_MAGIC_U_def)

lemma hb_valid_free: "heap_inv h bs L \<Longrightarrow> (b, s, False) \<in> set bs \<Longrightarrow> \<not> hb_valid h (b + 16)"
  using inv_member(2) [of h bs L b s False] magic_ne by (simp add: hb_valid_def Let_def HB_HDR_def)

lemma foot_payload:
  assumes inv: "heap_inv h bs L" and b: "(b, s, True) \<in> set bs" and c: "(c, t, True) \<in> set bs" "c \<noteq> b"
    and a: "c + 16 \<le> a" "a < c + t" and bs: "bs = xs @ (b, s, True) # ys" and e: "heap_end h' = heap_end h"
  shows "a \<notin> foot h' xs b ys L"
proof -
  have A: "insert b (addrs xs \<union> addrs (ys @ [sentinel h'])) = addrs (bs @ [sentinel h])"
    by (auto simp: bs sentinel_cong [OF e])
  have "b \<in> addrs (bs @ [sentinel h])" "c \<in> addrs (bs @ [sentinel h])" using b c by (force simp: addrs_def)+
  then have "far b c" using apart_far [OF inv_apart [OF inv]] c(2) by blast
  moreover have "b \<le> c \<or> c + t \<le> b"
    using tiles_order [of "hmem h" "heap_start h" False 0 "bs @ [sentinel h]" "heap_end h" False 16 c t True b] inv c(1)
      \<open>b \<in> addrs _\<close> by (simp add: heap_inv_def)
  ultimately have "a \<notin> links {b}" using a by (auto simp: links_def field_defs far_def)
  then show ?thesis
    using payload_safe(1,2) [OF inv c(1) a] unfolding foot_def A by (auto simp: links_def)
qed

lemma kfree_spec:
  assumes inv: "heap_inv h bs L" and b: "(b, s, True) \<in> set bs"
  obtains bs' L' where "heap_inv (kfree h (b + 16)) bs' L'" "live bs' = live bs - {(b + 16, s - 16)}"
    "\<And>c t a. (c, t, True) \<in> set bs \<Longrightarrow> c \<noteq> b \<Longrightarrow> c + 16 \<le> a \<Longrightarrow> a < c + t \<Longrightarrow> hmem (kfree h (b + 16)) a = hmem h a"
    "hmem (kfree h (b + 16)) (f_magic b) \<noteq> HB_MAGIC_U"
    "heap_start (kfree h (b + 16)) = heap_start h" "heap_end (kfree h (b + 16)) = heap_end h"
proof -
  have sz: "HB_SIZE h b = s" by (rule inv_member [OF inv b])
  let ?f = "hmem h (f_size b) AND HB_PFREE"
  define h0 where "h0 = hset (f_size b) (s OR ?f) (h\<lparr>heap_used := heap_used h - s\<rparr>)"
  have m0: "hmem h0 a = hmem h a" if "a \<noteq> f_size b" for a using that by (simp add: h0_def)
  obtain xs ys pf nu where d0: "bs = xs @ (b, s, True) # ys" "det h0 xs b s ys L pf nu" "?f = (if pf then 2 else 0)"
    using det_start [OF inv b, folded h0_def] by blast
  obtain h1 s1 ys1 L1 where d1: "kfree_forward h0 b s ?f = (h1, s1)" "det h1 xs b s1 ys1 L1 pf True" "live ys1 = live ys"
    "foot h1 xs b ys1 L1 \<subseteq> foot h0 xs b ys L" "\<And>a. a \<notin> foot h0 xs b ys L \<Longrightarrow> hmem h1 a = hmem h0 a"
    "heap_start h1 = heap_start h0" "heap_end h1 = heap_end h0"
    using det_forward [OF d0(2,3)] by metis
  obtain h2 b2 s2 xs2 L2 where d2: "kfree_backward h1 b s1 ?f = (h2, b2)" "det h2 xs2 b2 s2 ys1 L2 False True"
    "b2 \<noteq> b \<Longrightarrow> hmem h2 (f_magic b) = 0 \<and> f_magic b \<notin> foot h2 xs2 b2 ys1 L2" "live xs2 = live xs"
    "foot h2 xs2 b2 ys1 L2 \<subseteq> foot h1 xs b ys1 L1" "\<And>a. a \<notin> foot h1 xs b ys1 L1 \<Longrightarrow> hmem h2 a = hmem h1 a"
    "heap_start h2 = heap_start h1" "heap_end h2 = heap_end h1"
    using det_backward [OF d1(2) d0(3)] by metis
  note c = det_close [OF d2(2)]
  have k: "kfree h (b + 16) = hb_insert h2 b2"
    using hb_valid_live [OF inv b] d1(1) d2(1) unfolding h0_def
    by (simp add: kfree_def Let_def HB_HDR_def sz)
  have e0: "heap_end h0 = heap_end h" "heap_start h0 = heap_start h" by (simp_all add: h0_def)
  show ?thesis
  proof (rule that)
    show "heap_inv (kfree h (b + 16)) (xs2 @ (b2, s2, False) # ys1) (L2(hb_bin s2 := b2 # L2 (hb_bin s2)))"
      unfolding k by (rule c)
    have "(b + 16, s - 16) \<notin> live xs \<union> live ys"
      using inv_distinct [OF inv] unfolding d0(1) by (auto simp: live_def image_iff)
    then show "live (xs2 @ (b2, s2, False) # ys1) = live bs - {(b + 16, s - 16)}"
      using d1(3) d2(4) d0(1) by auto
    show "hmem (kfree h (b + 16)) a = hmem h a"
      if "(c, t, True) \<in> set bs" "c \<noteq> b" "c + 16 \<le> a" "a < c + t" for c t a
    proof -
      have f: "a \<notin> foot h0 xs b ys L" by (rule foot_payload [OF inv b that d0(1) e0(1)])
      then have "a \<noteq> f_size b" by (auto simp: foot_def headers_def)
      moreover have "a \<notin> foot h1 xs b ys1 L1" "a \<notin> foot h2 xs2 b2 ys1 L2" using f d1(4) d2(5) by blast+
      ultimately show ?thesis unfolding k using f d1(5) d2(6) c(2) m0 by simp
    qed
    show "hmem (kfree h (b + 16)) (f_magic b) \<noteq> HB_MAGIC_U"
    proof (cases "b2 = b")
      case True
      have "(b, s2, False) \<in> set (xs2 @ (b2, s2, False) # ys1)" using True by simp
      from inv_member(2) [OF c(1) this] show ?thesis unfolding k using magic_ne by simp
    next
      case False
      then show ?thesis unfolding k using d2(3) c(2) [of "f_magic b"] magic_ne by simp
    qed
  qed (simp_all add: k c d1 d2 e0)
qed

end
