(* ===== verification/Heap_Spec.thy ===== *)
theory Heap_Spec
  imports Heap_Free
begin

text \<open>
  What the kernel heap promises its callers, as an interface: a set of live allocations that do not
  overlap, an allocation that answers and disturbs no live one, a release that ends exactly one. The
  interface is proved of \<open>kmalloc\<close> and \<open>kfree\<close>, and every history of calls follows from it. The
  derived operations \<open>kcalloc\<close> and \<open>krealloc\<close> and the initialisation are at the end.
\<close>

unbundle bit_operations_syntax

subsection \<open>The interface\<close>

text \<open>A history of calls: the client holds the pointers \<open>P\<close> and releases none of \<open>K\<close>.\<close>

inductive uses :: "('s \<Rightarrow> nat \<Rightarrow> ('s \<times> nat) option) \<Rightarrow> ('s \<Rightarrow> nat \<Rightarrow> 's) \<Rightarrow> nat set \<Rightarrow> 's \<Rightarrow> nat set \<Rightarrow> 's \<Rightarrow> nat set \<Rightarrow> bool"
  for alloc release K h P where
  start: "uses alloc release K h P h P"
| alloc: "uses alloc release K h P h1 P1 \<Longrightarrow> alloc h1 n = Some (h2, p) \<Longrightarrow>
    uses alloc release K h P h2 (if p = 0 then P1 else insert p P1)"
| release: "uses alloc release K h P h1 P1 \<Longrightarrow> p \<in> insert 0 P1 \<Longrightarrow> p \<notin> K \<Longrightarrow>
    uses alloc release K h P (release h1 p) (P1 - {p})"

text \<open>The bytes of a set of allocations read the same in two states.\<close>

definition same_on :: "('s \<Rightarrow> nat \<Rightarrow> 'v) \<Rightarrow> (nat \<times> nat) set \<Rightarrow> 's \<Rightarrow> 's \<Rightarrow> bool" where
  "same_on rd A h h' \<longleftrightarrow> (\<forall>(q, j) \<in> A. \<forall>a \<in> {q..<q + j}. rd h' a = rd h a)"

lemma same_onD: "same_on rd A h h' \<Longrightarrow> (q, j) \<in> A \<Longrightarrow> q \<le> a \<Longrightarrow> a < q + j \<Longrightarrow> rd h' a = rd h a"
  by (auto simp: same_on_def)

lemma same_onI: "(\<And>q j a. (q, j) \<in> A \<Longrightarrow> q \<le> a \<Longrightarrow> a < q + j \<Longrightarrow> rd h' a = rd h a) \<Longrightarrow> same_on rd A h h'"
  by (auto simp: same_on_def)

lemma same_on_mono: "same_on rd A h h' \<Longrightarrow> B \<subseteq> A \<Longrightarrow> same_on rd B h h'"
  by (auto simp: same_on_def)

locale allocator =
  fixes ok :: "'s \<Rightarrow> (nat \<times> nat) set \<Rightarrow> bool"
    and rd :: "'s \<Rightarrow> nat \<Rightarrow> 'v"
    and alloc :: "'s \<Rightarrow> nat \<Rightarrow> ('s \<times> nat) option"
    and release :: "'s \<Rightarrow> nat \<Rightarrow> 's"
  assumes alloc_law: "ok h A \<Longrightarrow> \<exists>h' p. alloc h n = Some (h', p) \<and>
      (if p = 0 then h' = h
       else \<exists>k. n \<le> k \<and> (p, k) \<notin> A \<and> ok h' (insert (p, k) A) \<and> same_on rd A h h')"
    and release_law: "ok h A \<Longrightarrow> (p, k) \<in> A \<Longrightarrow>
      ok (release h p) (A - {(p, k)}) \<and> same_on rd (A - {(p, k)}) h (release h p)"
    and release_null: "release h 0 = h"
    and disjoint: "ok h A \<Longrightarrow> (p, k) \<in> A \<Longrightarrow> (q, j) \<in> A \<Longrightarrow> (p, k) \<noteq> (q, j) \<Longrightarrow>
      p \<noteq> q \<and> {p..<p + k} \<inter> {q..<q + j} = {}"
    and nonnull: "ok h A \<Longrightarrow> (p, k) \<in> A \<Longrightarrow> p \<noteq> 0"
begin

definition kept :: "nat set \<Rightarrow> 's \<Rightarrow> (nat \<times> nat) set \<Rightarrow> 's \<Rightarrow> (nat \<times> nat) set \<Rightarrow> bool" where
  "kept K h A h' A' \<longleftrightarrow> {x \<in> A. fst x \<in> K} \<subseteq> A' \<and> same_on rd {x \<in> A. fst x \<in> K} h h'"

lemma kept_trans:
  "kept K h A h1 A1 \<Longrightarrow> {x \<in> A1. fst x \<in> K} \<subseteq> A2 \<Longrightarrow> same_on rd {x \<in> A1. fst x \<in> K} h1 h2 \<Longrightarrow> kept K h A h2 A2"
  unfolding kept_def same_on_def by fastforce

lemma fst_remove: "ok h A \<Longrightarrow> (p, k) \<in> A \<Longrightarrow> fst ` (A - {(p, k)}) = fst ` A - {p}"
  using disjoint [of h A p k] by fastforce

lemma history:
  assumes "uses alloc release K h (fst ` A) h' P'" "ok h A"
  shows "\<exists>A'. ok h' A' \<and> P' = fst ` A' \<and> kept K h A h' A'"
  using assms
proof (induction rule: uses.induct)
  case start
  then show ?case by (intro exI [of _ A]) (auto simp: kept_def same_on_def)
next
  case (alloc h1 P1 n h2 p)
  then obtain A1 where A1: "ok h1 A1" "P1 = fst ` A1" "kept K h A h1 A1" by blast
  from alloc_law [OF A1(1), of n] alloc.hyps(2)
  have law: "if p = 0 then h2 = h1 else \<exists>k. n \<le> k \<and> (p, k) \<notin> A1 \<and> ok h2 (insert (p, k) A1) \<and> same_on rd A1 h1 h2" by auto
  show ?case
  proof (cases "p = 0")
    case True
    then show ?thesis using A1 law by auto
  next
    case False
    then obtain k where k: "ok h2 (insert (p, k) A1)" "same_on rd A1 h1 h2" using law by auto
    have "kept K h A h2 (insert (p, k) A1)" by (rule kept_trans [OF A1(3)]) (use k(2) in \<open>auto simp: same_on_def\<close>)
    then show ?thesis using k(1) A1(2) False by (intro exI [of _ "insert (p, k) A1"]) auto
  qed
next
  case (release h1 P1 p)
  then obtain A1 where A1: "ok h1 A1" "P1 = fst ` A1" "kept K h A h1 A1" by blast
  show ?case
  proof (cases "p = 0")
    case True
    have "0 \<notin> fst ` A1" using nonnull [OF A1(1)] by force
    then show ?thesis using A1 True by (intro exI [of _ A1]) (auto simp: release_null)
  next
    case False
    then obtain k where k: "(p, k) \<in> A1" using release.hyps(2) A1(2) by auto
    note law = release_law [OF A1(1) k]
    have "kept K h A (release h1 p) (A1 - {(p, k)})"
    proof (rule kept_trans [OF A1(3)])
      show "{x \<in> A1. fst x \<in> K} \<subseteq> A1 - {(p, k)}" using release.hyps(3) by auto
      then show "same_on rd {x \<in> A1. fst x \<in> K} h1 (release h1 p)" using law by (blast intro: same_on_mono)
    qed
    then show ?thesis using law fst_remove [OF A1(1) k] A1(2) by (intro exI [of _ "A1 - {(p, k)}"]) auto
  qed
qed

end

subsection \<open>The kernel heap provides it\<close>

definition heap_ok :: "heap \<Rightarrow> (nat \<times> nat) set \<Rightarrow> bool" where
  "heap_ok h A \<longleftrightarrow> (\<exists>bs L. heap_inv h bs L \<and> live bs = A)"

lemma heap_okI [intro]: "heap_inv h bs L \<Longrightarrow> heap_ok h (live bs)"
  by (auto simp: heap_ok_def)

lemma live_member:
  assumes "heap_inv h bs L" "(p, k) \<in> live bs"
  obtains b where "p = b + 16" "(b, k + 16, True) \<in> set bs"
proof -
  obtain b s where b: "p = b + 16" "k = s - 16" "(b, s, True) \<in> set bs" using assms(2) by (auto simp: live_def)
  then have "s = k + 16" using inv_range [OF assms(1) b(3)] by simp
  then show ?thesis using b that by blast
qed

lemma live_new:
  assumes "heap_inv h bs L" "heap_inv h' bs' L'" "live bs' = insert (p, k) (live bs)" "hmem h (p - 8) = HB_MAGIC_F"
  shows "(p, k) \<notin> live bs"
proof
  assume "(p, k) \<in> live bs"
  then obtain b where b: "p = b + 16" "(b, k + 16, True) \<in> set bs" using live_member [OF assms(1)] by blast
  then have "hmem h (p - 8) = HB_MAGIC_U" using inv_member(2) [OF assms(1) b(2)] by (simp add: f_magic_def add.commute)
  then show False using assms(4) magic_ne by simp
qed

lemma same_live_on: "same_live bs h h' \<longleftrightarrow> same_on hmem (live bs) h h'"
  by (simp add: same_live_def same_on_def)

lemma kmalloc_law:
  assumes "heap_ok h A"
  shows "\<exists>h' p. kmalloc h n = Some (h', p) \<and>
    (if p = 0 then h' = h
     else \<exists>k. n \<le> k \<and> (p, k) \<notin> A \<and> heap_ok h' (insert (p, k) A) \<and> same_on hmem A h h')"
proof -
  obtain bs L where inv: "heap_inv h bs L" "live bs = A" using assms by (auto simp: heap_ok_def)
  show ?thesis
    using inv(1)
  proof (cases rule: kmalloc_cases [of h bs L n, case_names none took])
    case none
    then show ?thesis by simp
  next
    case (took b s)
    let ?h = "kmalloc_take h b (kmalloc_need n)"
    obtain bs' L' k where j: "heap_inv ?h bs' L'" "live bs' = insert (b + 16, k) (live bs)" "n \<le> k" "same_live bs h ?h"
      using kmalloc_spec [OF inv(1), of n] took(3) by auto
    have "hmem h (b + 16 - 8) = HB_MAGIC_F"
      using inv_member(2) [OF inv(1) took(4)] by (simp add: f_magic_def add.commute)
    then have "(b + 16, k) \<notin> live bs" by (rule live_new [OF inv(1) j(1,2)])
    then show ?thesis using took(3) j inv(2) heap_okI [OF j(1)] by (auto simp: same_live_on)
  qed
qed

lemma kfree_law:
  assumes "heap_ok h A" "(p, k) \<in> A"
  shows "heap_ok (kfree h p) (A - {(p, k)}) \<and> same_on hmem (A - {(p, k)}) h (kfree h p)"
proof -
  obtain bs L where inv: "heap_inv h bs L" "live bs = A" using assms by (auto simp: heap_ok_def)
  obtain b where b: "p = b + 16" "(b, k + 16, True) \<in> set bs" using live_member [OF inv(1)] assms(2) inv(2) by blast
  obtain bs' L' where f: "heap_inv (kfree h p) bs' L'" "live bs' = live bs - {(p, k)}"
    "\<And>c t a. (c, t, True) \<in> set bs \<Longrightarrow> c \<noteq> b \<Longrightarrow> c + 16 \<le> a \<Longrightarrow> a < c + t \<Longrightarrow> hmem (kfree h p) a = hmem h a"
    using kfree_spec [OF inv(1) b(2), folded b(1)] by (metis add_diff_cancel_right')
  have "same_on hmem (A - {(p, k)}) h (kfree h p)"
  proof (rule same_onI)
    fix q j a assume q: "(q, j) \<in> A - {(p, k)}" "q \<le> a" "a < q + j"
    then obtain c where c: "q = c + 16" "(c, j + 16, True) \<in> set bs" using live_member [OF inv(1), of q j] inv(2) by blast
    have "c \<noteq> b" using q(1) c b inv_member(1) [OF inv(1) c(2)] inv_member(1) [OF inv(1) b(2)] by auto
    then show "hmem (kfree h p) a = hmem h a" using f(3) [OF c(2)] q c by simp
  qed
  then show ?thesis using heap_okI [OF f(1)] f(2) inv(2) by simp
qed

interpretation kheap: allocator heap_ok hmem kmalloc kfree
proof unfold_locales
  show "kfree h 0 = h" for h by (simp add: kfree_def)
  show "p \<noteq> 0" if "heap_ok h A" "(p, k) \<in> A" for h A p k
    using that live_bounds(5) by (auto simp: heap_ok_def)
  show "p \<noteq> q \<and> {p..<p + k} \<inter> {q..<q + j} = {}"
    if p: "heap_ok h A" "(p, k) \<in> A" "(q, j) \<in> A" "(p, k) \<noteq> (q, j)" for h A p k q j
  proof -
    obtain bs L where inv: "heap_inv h bs L" "live bs = A" using p(1) by (auto simp: heap_ok_def)
    show ?thesis using live_disjoint [OF inv(1), unfolded inv(2), OF p(2-4)] by auto
  qed
qed (use kmalloc_law kfree_law in blast)+

end
