(* ===== verification/Heap_Client.thy ===== *)
theory Heap_Client
  imports Heap_Spec
begin

text \<open>
  The start of the heap (\<open>heap_init\<close>), the operations built on \<open>kmalloc\<close> and \<open>kfree\<close>
  (\<open>kcalloc\<close>, \<open>krealloc\<close>), the statistics, and the properties of the heap as a whole.
\<close>

unbundle bit_operations_syntax

subsection \<open>Initialisation\<close>

lemma run_end_bounds:
  assumes "i < tp" "\<not> bitmap_test bm i"
  shows "i < run_end bm tp i" "run_end bm tp i \<le> tp" "\<And>j. i \<le> j \<Longrightarrow> j < run_end bm tp i \<Longrightarrow> \<not> bitmap_test bm j"
proof -
  let ?t = "takeWhile (\<lambda>j. \<not> bitmap_test bm j) [i..<tp]"
  have "[i..<tp] = i # [Suc i..<tp]" using assms(1) by (simp add: upt_conv_Cons)
  then show "i < run_end bm tp i" using assms(2) by (simp add: run_end_def)
  have l: "length ?t \<le> tp - i" using length_takeWhile_le [of _ "[i..<tp]"] by simp
  then show "run_end bm tp i \<le> tp" using assms(1) by (simp add: run_end_def)
  fix j assume j: "i \<le> j" "j < run_end bm tp i"
  then have k: "j - i < length ?t" by (simp add: run_end_def)
  then have "?t ! (j - i) = j" using takeWhile_nth [OF k] l j(1) by simp
  then show "\<not> bitmap_test bm j" using nth_mem [OF k] set_takeWhileD by fastforce
qed

text \<open>The run that is found is inside the range and entirely free.\<close>

definition free_run :: "bytes \<Rightarrow> nat \<Rightarrow> nat \<Rightarrow> nat \<times> nat \<times> nat \<Rightarrow> bool" where
  "free_run bm lo tp acc \<longleftrightarrow> (case acc of (rs, rl, fp) \<Rightarrow>
     0 < rl \<longrightarrow> lo \<le> rs \<and> rs + rl \<le> tp \<and> (\<forall>j. rs \<le> j \<and> j < rs + rl \<longrightarrow> \<not> bitmap_test bm j))"

lemma find_runs_free:
  "free_run bm lo tp acc \<Longrightarrow> lo \<le> i \<Longrightarrow> free_run bm lo tp (find_runs bm tp i acc)"
proof (induction bm tp i acc rule: find_runs.induct)
  case (1 bm tp i acc)
  obtain rs rl fp where acc: "acc = (rs, rl, fp)" by (metis prod.exhaust)
  consider "\<not> i < tp" | "i < tp" "bitmap_test bm i" | "i < tp" "\<not> bitmap_test bm i" by blast
  then show ?case
  proof cases
    case 1
    then show ?thesis using "1.prems" by (simp add: find_runs.simps [of bm tp i])
  next
    case 2
    then show ?thesis using "1.IH"(1) "1.prems" by (simp add: find_runs.simps [of bm tp i])
  next
    case 3
    let ?e = "run_end bm tp i"
    note r = run_end_bounds [OF 3]
    let ?acc = "(if rl < ?e - i then i else rs, if rl < ?e - i then ?e - i else rl, fp + (?e - i))"
    have "free_run bm lo tp ?acc"
      using "1.prems" r by (auto simp: free_run_def acc)
    then have "free_run bm lo tp (find_runs bm tp ?e ?acc)"
      using "1.IH"(2) [OF 3 acc [symmetric] refl refl refl refl, of "fst (snd ?acc)" "fst ?acc"] r(1) "1.prems"(2)
      by auto
    then show ?thesis using 3 acc by (subst find_runs.simps) (auto simp: Let_def)
  qed
qed

lemma test_set_all:
  assumes "\<And>i. i \<in> set ps \<Longrightarrow> i div 8 < length bm"
  shows "bitmap_test (foldl bitmap_set bm ps) j \<longleftrightarrow> j \<in> set ps \<or> bitmap_test bm j"
  using assms
proof (induction ps arbitrary: bm)
  case (Cons p ps)
  then show ?case using test_set [of p bm j] by auto
qed simp

text \<open>The number of pages the heap takes of a run.\<close>

definition heap_pages :: "nat \<Rightarrow> nat \<Rightarrow> nat" where
  "heap_pages avail fp =
     (let reserve = (if fp div 6 < 4096 then 4096 else fp div 6);
          pages = (if reserve < avail then avail - reserve else avail div 2);
          pages = (if 768 * 256 < pages then 768 * 256 else pages)
      in if pages < 32 * 256 then (avail * 3) div 4 else pages)"

lemma heap_pages_bounds: "2 \<le> rl \<Longrightarrow> 1 \<le> heap_pages rl fp \<and> heap_pages rl fp \<le> rl"
  by (auto simp: heap_pages_def Let_def)

definition init_page :: "heap \<Rightarrow> nat" where
  "init_page h = ((kernel_end h + 2 ^ 32 - KERNEL_VBASE) mod 2 ^ 32 + PAGE_SIZE - 1) mod 2 ^ 32 div PAGE_SIZE"

lemma high_page: "p < 0x38000 \<Longrightarrow> (p * PAGE_SIZE + KERNEL_VBASE) mod 2 ^ 32 = p * PAGE_SIZE + KERNEL_VBASE"
  by (simp add: PAGE_SIZE_def KERNEL_VBASE_def)

lemma heap_init_shape:
  assumes "find_runs (bitmap (h_pmm h)) (total_pages (h_pmm h)) (init_page h) (0, 0, 0) = (rs, rl, fp)" "0 < rl" "rs < 0x38000"
  defines "n \<equiv> heap_pages rl fp" and "hs \<equiv> rs * PAGE_SIZE + KERNEL_VBASE"
  defines "he \<equiv> hs + n * PAGE_SIZE"
  obtains h3 where "heap_init h = hb_insert h3 hs"
    "hmem h3 = (hmem h)(f_size (he - 16) := 17, f_magic (he - 16) := HB_MAGIC_U, f_size hs := he - hs - 16, f_prev_size hs := 0)"
    "heap_start h3 = hs" "heap_end h3 = he" "bins h3 = replicate 64 0" "bin_map h3 = 0"
    "heap_used h3 = heap_used h" "heap_peak h3 = heap_peak h"
    "bitmap (h_pmm h3) = foldl bitmap_set (bitmap (h_pmm h)) (map (\<lambda>i. rs + i) [0..<n])"
    "total_pages (h_pmm h3) = total_pages (h_pmm h)"
proof -
  let ?h = "h\<lparr>h_pmm := (h_pmm h)\<lparr>bitmap := foldl bitmap_set (bitmap (h_pmm h)) (map (\<lambda>i. rs + i) [0..<n]),
      used_pages := used_pages (h_pmm h) + n\<rparr>, heap_start := hs, heap_end := he, bins := replicate HB_NBINS 0, bin_map := 0\<rparr>"
  let ?h3 = "hset (f_prev_size hs) 0 (hset (f_size hs) (he - hs - HB_HDR)
      (hset (f_magic (he - HB_HDR)) HB_MAGIC_U (hset (f_size (he - HB_HDR)) (HB_HDR OR HB_USED) ?h)))"
  have o: "(16 :: nat) OR 1 = 17" by simp
  have rs: "(if rl \<noteq> 0 then rs else init_page h) = rs" using assms(2) by simp
  show ?thesis
  proof (rule that [of ?h3])
    show "heap_init h = hb_insert ?h3 hs"
      unfolding he_def n_def heap_pages_def hs_def heap_init_def Let_def init_page_def [symmetric] assms(1) prod.case rs
        high_page [OF assms(3)]
      by (rule refl)
  qed (simp_all add: HB_HDR_def HB_NBINS_def HB_USED_def o)
qed

lemma heap_init_ok:
  assumes r: "find_runs (bitmap (h_pmm h)) (total_pages (h_pmm h)) (init_page h) (0, 0, 0) = (rs, rl, fp)"
    and "2 \<le> rl" "rs + rl \<le> 0x38000" "heap_used h = 0"
  shows "heap_ok (heap_init h) {}" "heap_start (heap_init h) = rs * PAGE_SIZE + KERNEL_VBASE"
    "heap_end (heap_init h) = heap_start (heap_init h) + heap_pages rl fp * PAGE_SIZE"
    "\<exists>L. heap_inv (heap_init h)
       [(heap_start (heap_init h), heap_end (heap_init h) - heap_start (heap_init h) - 16, False)] L"
proof -
  define n where "n = heap_pages rl fp"
  define hs where "hs = rs * PAGE_SIZE + KERNEL_VBASE"
  define he where "he = hs + n * PAGE_SIZE"
  have rl: "0 < rl" and top: "rs < 0x38000" using assms(2,3) by simp_all
  obtain h3 where h3: "heap_init h = hb_insert h3 hs"
    "hmem h3 = (hmem h)(f_size (he - 16) := 17, f_magic (he - 16) := HB_MAGIC_U, f_size hs := he - hs - 16, f_prev_size hs := 0)"
    "heap_start h3 = hs" "heap_end h3 = he" "bins h3 = replicate 64 0" "bin_map h3 = 0"
    "heap_used h3 = heap_used h" "heap_peak h3 = heap_peak h"
    by (rule heap_init_shape [OF r rl top, folded n_def hs_def, folded he_def])
  have n: "1 \<le> n" "n \<le> rl" using heap_pages_bounds [OF assms(2)] by (simp_all add: n_def)
  have b: "hs + 4096 \<le> he" "he \<le> 0xF8000000" "16 dvd hs" "16 dvd he" "0 < hs"
    using n assms(3) by (auto simp: he_def hs_def PAGE_SIZE_def KERNEL_VBASE_def)
  let ?s = "he - hs - 16"
  have e: "hs + ?s = he - 16" "16 dvd ?s" "32 \<le> ?s" using b by auto
  have far: "far hs (he - 16)" "far (he - 16) hs" "hs \<noteq> he - 16" using b by (auto simp: far_def)
  have "det h3 [] hs ?s [] (\<lambda>_. []) False True"
    unfolding det_def
  proof (intro conjI exI)
    show "tiles (hmem h3) (heap_start h3, False, 0) [] (hs, False, 0)" by (simp add: h3)
    show "[] @ [sentinel h3] = (hs + ?s, 16, True) # []" unfolding e(1) by (simp add: sentinel_def h3)
    show "tiles (hmem h3) (hs + ?s + 16, \<not> True, 16) [] (heap_end h3, False, 16)" using b by (simp add: h3)
    show "hmem h3 (f_size (hs + ?s)) = hw 16 True False" "hmem h3 (f_magic (hs + ?s)) = (if True then HB_MAGIC_U else HB_MAGIC_F)"
      unfolding e(1) using far by (simp_all add: h3 hw_def)
    show "hmem h3 (f_size hs) = hw ?s False False" using far by (simp add: h3 hw_def)
    show "apart (insert hs (addrs [] \<union> addrs ([] @ [sentinel h3])))"
      using far b by (auto simp: apart_def sentinel_def h3)
    show "bins_ok h3 (\<lambda>_. [])" by (auto simp: bins_ok_def h3)
    show "hs \<notin> addrs [] \<union> addrs ([] @ [sentinel h3])" using far by (simp add: sentinel_def h3)
    show "hs + ?s + 16 \<le> heap_end h3" using b by (simp add: h3)
  qed (use b e assms(4) in \<open>simp_all add: h3\<close>)
  note c = det_close [OF this]
  show "heap_ok (heap_init h) {}" using heap_okI [OF c(1)] by (simp add: h3)
  show "heap_start (heap_init h) = rs * PAGE_SIZE + KERNEL_VBASE"
    "heap_end (heap_init h) = heap_start (heap_init h) + heap_pages rl fp * PAGE_SIZE"
    using c(3,4) by (simp_all add: h3 hs_def he_def n_def)
  show "\<exists>L. heap_inv (heap_init h)
      [(heap_start (heap_init h), heap_end (heap_init h) - heap_start (heap_init h) - 16, False)] L"
    using c(1,3,4) h3(1,3,4) by (intro exI) simp
qed

subsection \<open>Writing into live memory\<close>

lemma inv_write:
  assumes inv: "heap_inv h bs L" and p: "(p, k) \<in> live bs" "p \<le> a" "a < p + k"
  shows "heap_inv (hset a v h) bs L"
proof -
  obtain b where b: "p = b + 16" "(b, k + 16, True) \<in> set bs" using live_member [OF inv p(1)] by blast
  have a: "b + 16 \<le> a" "a < b + (k + 16)" using p b by auto
  note s = payload_safe(1,2) [OF inv b(2) a]
  have "tiles ((hmem h)(a := v)) (heap_start h, False, 0) (bs @ [sentinel h]) (heap_end h, False, 16)"
  proof (rule tiles_frame)
    show "tiles (hmem h) (heap_start h, False, 0) (bs @ [sentinel h]) (heap_end h, False, 16)" using inv by (simp add: heap_inv_def)
    show "((hmem h)(a := v)) c = hmem h c" if "c \<in> headers (addrs (bs @ [sentinel h]))" for c
      using s(1) that by (metis fun_upd_other)
  qed
  moreover have "bins_ok (hset a v h) L" 
  proof (rule bins_ok_frame)
    show "bins_ok h L" using inv by (simp add: heap_inv_def)
    show "hmem (hset a v h) c = hmem h c" if "c \<in> links (listed L)" for c
      using s(2) that by (metis fun_upd_other hset_simps(1))
  qed simp_all
  moreover have "sentinel (hset a v h) = sentinel h" by (simp add: sentinel_def)
  ultimately show ?thesis using inv by (simp add: heap_inv_def)
qed

lemma ok_write:
  assumes "heap_ok h A" "(p, k) \<in> A" "p \<le> a" "a < p + k"
  shows "heap_ok (hset a v h) A" "same_on hmem (A - {(p, k)}) h (hset a v h)"
proof -
  show "heap_ok (hset a v h) A" using assms inv_write unfolding heap_ok_def by blast
  show "same_on hmem (A - {(p, k)}) h (hset a v h)"
  proof (rule same_onI)
    fix q j c assume q: "(q, j) \<in> A - {(p, k)}" "q \<le> c" "c < q + j"
    then have "{p..<p + k} \<inter> {q..<q + j} = {}" using kheap.disjoint [OF assms(1,2), of q j] by blast
    moreover have "a \<in> {p..<p + k}" "c \<in> {q..<q + j}" using q assms(3,4) by auto
    ultimately have "c \<noteq> a" by blast
    then show "hmem (hset a v h) c = hmem h c" by simp
  qed
qed

lemma same_on_trans: "same_on rd A h h1 \<Longrightarrow> same_on rd A h1 h2 \<Longrightarrow> same_on rd A h h2"
  unfolding same_on_def by fastforce

lemma ok_writes:
  assumes "heap_ok h A" "(p, k) \<in> A" "\<And>a v. (a, v) \<in> set ws \<Longrightarrow> p \<le> a \<and> a < p + k"
  shows "heap_ok (fold (\<lambda>(a, v). hset a v) ws h) A \<and>
    same_on hmem (A - {(p, k)}) h (fold (\<lambda>(a, v). hset a v) ws h)"
  using assms
proof (induction ws arbitrary: h)
  case (Cons w ws)
  obtain a v where w: "w = (a, v)" by (metis prod.exhaust)
  have "p \<le> a" "a < p + k" using Cons.prems(3) [of a v] w by auto
  note o = ok_write [OF Cons.prems(1,2) this, of v]
  have "heap_ok (fold (\<lambda>(a, v). hset a v) ws (hset a v h)) A \<and>
    same_on hmem (A - {(p, k)}) (hset a v h) (fold (\<lambda>(a, v). hset a v) ws (hset a v h))"
    using Cons.prems(2,3) by (intro Cons.IH o(1)) auto
  then show ?case using o(2) same_on_trans w by fastforce
qed (simp add: same_on_def)

lemma fold_word: "hmem (fold (\<lambda>(a, v). hset a v) ws h) a = (case map_of (rev ws) a of Some v \<Rightarrow> v | None \<Rightarrow> hmem h a)"
  by (induction ws arbitrary: h) (auto split: option.splits simp: map_add_def)

subsection \<open>Resizing\<close>

lemma copy_fold:
  assumes "ptr + 4 * n \<le> q \<or> q + 4 * n \<le> ptr"
  shows "foldl (\<lambda>h i. hset (q + 4 * i) (hmem h (ptr + 4 * i)) h) h [0..<n]
    = fold (\<lambda>(a, v). hset a v) (map (\<lambda>i. (q + 4 * i, hmem h (ptr + 4 * i))) [0..<n]) h"
  using assms
proof (induction n)
  case (Suc n)
  let ?w = "map (\<lambda>i. (q + 4 * i, hmem h (ptr + 4 * i))) [0..<n]"
  have "ptr + 4 * n \<notin> (\<lambda>i. q + 4 * i) ` {0..<n}" using Suc.prems by auto
  then have "map_of (rev ?w) (ptr + 4 * n) = None" by (simp add: map_of_eq_None_iff image_image)
  then have "hmem (fold (\<lambda>(a, v). hset a v) ?w h) (ptr + 4 * n) = hmem h (ptr + 4 * n)" by (simp add: fold_word)
  moreover have "ptr + 4 * n \<le> q \<or> q + 4 * n \<le> ptr" using Suc.prems by auto
  ultimately show ?case using Suc.IH by simp
qed simp

lemma copy_word:
  assumes "i < n"
  shows "hmem (fold (\<lambda>(a, v). hset a v) (map (\<lambda>i. (q + 4 * i, m (ptr + 4 * i))) [0..<n]) h) (q + 4 * i) = m (ptr + 4 * i)"
proof -
  let ?w = "map (\<lambda>i. (q + 4 * i, m (ptr + 4 * i))) [0..<n]"
  have "distinct (map fst (rev ?w))" by (simp add: rev_map [symmetric] comp_def distinct_map inj_on_def)
  moreover have "(q + 4 * i, m (ptr + 4 * i)) \<in> set (rev ?w)" using assms by force
  ultimately have "map_of (rev ?w) (q + 4 * i) = Some (m (ptr + 4 * i))" by (rule map_of_is_SomeI)
  then show ?thesis by (simp only: fold_word option.case)
qed

lemma hb_live:
  assumes "heap_ok h A" "(p, k) \<in> A"
  shows "hb_valid h p" "HB_SIZE h (p - HB_HDR) - HB_HDR = k" "4 dvd k" "p \<noteq> 0" "ksize h p = k" "16 dvd p"
proof -
  obtain bs L where inv: "heap_inv h bs L" "live bs = A" using assms by (auto simp: heap_ok_def)
  obtain b where b: "p = b + 16" "(b, k + 16, True) \<in> set bs" using live_member [OF inv(1)] assms(2) inv(2) by blast
  show v: "hb_valid h p" using hb_valid_live [OF inv(1) b(2)] b(1) by simp
  show sz: "HB_SIZE h (p - HB_HDR) - HB_HDR = k" using inv_member(1) [OF inv(1) b(2)] b(1) by (simp add: HB_HDR_def)
  have "16 dvd k + 16" using inv_range [OF inv(1) b(2)] by simp
  then show "4 dvd k" by presburger
  show "p \<noteq> 0" "16 dvd p" using live_bounds [OF inv(1)] assms(2) inv(2) by auto
  then show "ksize h p = k" using v sz by (simp add: ksize_def)
qed

lemma krealloc_moves:
  assumes ok: "heap_ok h A" and p: "(p, k) \<in> A" and n: "k < n"
  shows "\<exists>h' q. krealloc h p n = Some (h', q) \<and>
    (if q = 0 then h' = h
     else \<exists>j. n \<le> j \<and> heap_ok h' (insert (q, j) (A - {(p, k)})) \<and> same_on hmem (A - {(p, k)}) h h' \<and>
       (\<forall>i < k div 4. hmem h' (q + 4 * i) = hmem h (p + 4 * i)))"
proof -
  note hb = hb_live [OF ok p]
  obtain h1 q where q: "kmalloc h n = Some (h1, q)" "if q = 0 then h1 = h
     else \<exists>j. n \<le> j \<and> (q, j) \<notin> A \<and> heap_ok h1 (insert (q, j) A) \<and> same_on hmem A h h1"
    using kheap.alloc_law [OF ok, of n] by blast
  show ?thesis
  proof (cases "q = 0")
    case True
    then show ?thesis using q hb n by (auto simp: krealloc_def Let_def)
  next
    case False
    then obtain j where j: "n \<le> j" "(q, j) \<notin> A" "heap_ok h1 (insert (q, j) A)" "same_on hmem A h h1" using q(2) by auto
    let ?ws = "map (\<lambda>i. (q + 4 * i, hmem h1 (p + 4 * i))) [0..<k div 4]"
    let ?h2 = "fold (\<lambda>(a, v). hset a v) ?ws h1"
    have k4: "4 * (k div 4) = k" using hb(3) by simp
    have "{p..<p + k} \<inter> {q..<q + j} = {}" using kheap.disjoint [OF j(3), of p k q j] p j(2) by auto
    moreover have "0 < k" using p ok live_bounds(4) by (fastforce simp: heap_ok_def)
    ultimately have dj: "p + k \<le> q \<or> q + j \<le> p" using j(1) n by (auto simp: disjoint_iff not_le)
    have w: "q \<le> a \<and> a < q + j" if "(a, v) \<in> set ?ws" for a v using that k4 j(1) n by auto
    have o2: "heap_ok ?h2 (insert (q, j) A) \<and> same_on hmem (insert (q, j) A - {(q, j)}) h1 ?h2"
      by (rule ok_writes [OF j(3) insertI1]) (rule w)
    note o = o2 [THEN conjunct1] o2 [THEN conjunct2]
    have fr: "(p, k) \<in> insert (q, j) A" using p by simp
    note f = kheap.release_law [OF o(1) fr]
    have "p + 4 * (k div 4) \<le> q \<or> q + 4 * (k div 4) \<le> p" using dj k4 j(1) n by linarith
    from copy_fold [OF this] have r: "krealloc h p n = Some (kfree ?h2 p, q)"
      using q(1) False hb n by (simp add: krealloc_def Let_def)
    have ne: "(p, k) \<noteq> (q, j)" using p j(2) by auto
    have A: "insert (q, j) A - {(p, k)} = insert (q, j) (A - {(p, k)})" using ne by auto
    have s1: "same_on hmem (A - {(p, k)}) h (kfree ?h2 p)"
    proof (rule same_onI)
      fix x y a assume x: "(x, y) \<in> A - {(p, k)}" "x \<le> a" "a < x + y"
      then have "(x, y) \<in> insert (q, j) A - {(p, k)}" "(x, y) \<in> insert (q, j) A - {(q, j)}" "(x, y) \<in> A" using j(2) by auto
      then have "hmem (kfree ?h2 p) a = hmem ?h2 a" "hmem ?h2 a = hmem h1 a" "hmem h1 a = hmem h a"
        using same_onD [OF f [THEN conjunct2], of x y a] same_onD [OF o(2), of x y a] same_onD [OF j(4), of x y a] x(2,3)
        by blast+
      then show "hmem (kfree ?h2 p) a = hmem h a" by simp
    qed
    have s2: "hmem (kfree ?h2 p) (q + 4 * i) = hmem h (p + 4 * i)" if i: "i < k div 4" for i
    proof -
      have "q + 4 * i < q + j" "p + 4 * i < p + k" using i k4 j(1) n by linarith+
      then have "hmem (kfree ?h2 p) (q + 4 * i) = hmem ?h2 (q + 4 * i)" "hmem h1 (p + 4 * i) = hmem h (p + 4 * i)"
        using same_onD [OF f [THEN conjunct2], of q j] same_onD [OF j(4) p] ne by auto
      then show ?thesis using copy_word [OF i] by simp
    qed
    show ?thesis using r False j(1) f s1 s2 A by auto
  qed
qed

subsection \<open>Zeroed memory\<close>

definition get8 :: "heap \<Rightarrow> nat \<Rightarrow> nat" where
  "get8 h a = hmem h (a - a mod 4) div 2 ^ (8 * (a mod 4)) mod 256"

lemma split_byte: "x = x div 2 ^ (k + 8) * 2 ^ (k + 8) + (x div 2 ^ k mod 256) * 2 ^ k + x mod 2 ^ k" for x :: nat
proof -
  have "x div 2 ^ k = x div 2 ^ (k + 8) * 256 + x div 2 ^ k mod 256"
    by (simp add: power_add div_mult2_eq div_mult_mod_eq)
  then have "x = (x div 2 ^ (k + 8) * 256 + x div 2 ^ k mod 256) * 2 ^ k + x mod 2 ^ k"
    by (metis div_mult_mod_eq)
  then show ?thesis by (simp add: power_add algebra_simps)
qed

lemma byte_replace:
  fixes x v k :: nat
  assumes "v < 256"
  defines "y \<equiv> x - (x div 2 ^ k mod 256) * 2 ^ k + v * 2 ^ k"
  shows "y div 2 ^ k mod 256 = v" "y div 2 ^ (k + 8) = x div 2 ^ (k + 8)" "y mod 2 ^ k = x mod 2 ^ k"
proof -
  let ?h = "x div 2 ^ (k + 8)" and ?l = "x mod 2 ^ k"
  have y: "y = (?h * 256 + v) * 2 ^ k + ?l"
    unfolding y_def by (subst (1) split_byte [of x k]) (simp add: power_add algebra_simps)
  have l: "?l < 2 ^ k" by simp
  have d: "y div 2 ^ k = ?h * 256 + v" unfolding y using l by simp
  show "y div 2 ^ k mod 256 = v" using d assms(1) by simp
  show "y div 2 ^ (k + 8) = ?h" using d assms(1) by (simp add: power_add div_mult2_eq)
  show "y mod 2 ^ k = ?l" unfolding y by simp
qed

lemma byte_other:
  fixes x y :: nat
  assumes "y div 2 ^ (k + 8) = x div 2 ^ (k + 8)" "y mod 2 ^ k = x mod 2 ^ k" "j + 8 \<le> k \<or> k + 8 \<le> j"
  shows "y div 2 ^ j mod 256 = x div 2 ^ j mod 256"
proof (cases "k + 8 \<le> j")
  case True
  then have "z div 2 ^ j = z div 2 ^ (k + 8) div 2 ^ (j - (k + 8))" for z :: nat
    by (simp add: div_mult2_eq [symmetric] power_add [symmetric])
  then show ?thesis using assms(1) by simp
next
  case False
  then have j: "j + 8 \<le> k" using assms(3) by simp
  have "z div 2 ^ j mod 2 ^ 8 = z mod 2 ^ k div 2 ^ j mod 2 ^ 8" for z :: nat
  proof -
    have "z mod 2 ^ k div 2 ^ j = z div 2 ^ j mod 2 ^ (k - j)" using j div_exp_mod_exp_eq [of z j "k - j"] by simp
    moreover have "(2 :: nat) ^ 8 dvd 2 ^ (k - j)" using j by (intro le_imp_power_dvd) simp
    ultimately show ?thesis using mod_mod_cancel by metis
  qed
  from this [of x] this [of y] show ?thesis using assms(2) by simp
qed

lemma get8_set8:
  assumes "v < 256"
  shows "get8 (set8 a v h) c = (if c = a then v else get8 h c)"
proof (cases "c - c mod 4 = a - a mod 4")
  case False
  then show ?thesis by (auto simp: get8_def set8_def Let_def drop_bit_eq_div)
next
  case True
  let ?k = "8 * (a mod 4)" and ?j = "8 * (c mod 4)" and ?x = "hmem h (a - a mod 4)"
  let ?y = "?x - (?x div 2 ^ ?k mod 256) * 2 ^ ?k + v * 2 ^ ?k"
  note b = byte_replace [OF assms, of ?x ?k]
  have g: "get8 (set8 a v h) c = ?y div 2 ^ ?j mod 256" "get8 h c = ?x div 2 ^ ?j mod 256"
    unfolding get8_def set8_def Let_def drop_bit_eq_div True by simp_all
  show ?thesis
  proof (cases "c = a")
    case True
    show ?thesis using g(1) b(1) unfolding True by (simp only: simp_thms if_True)
  next
    case False
    have "c mod 4 \<le> c" "a mod 4 \<le> a" by simp_all
    then have "c mod 4 \<noteq> a mod 4" using True False by linarith
    then have "?j + 8 \<le> ?k \<or> ?k + 8 \<le> ?j" by linarith
    from byte_other [OF b(2,3) this] show ?thesis using g False by (simp only: if_False)
  qed
qed

lemma zero_fill:
  assumes "heap_ok h A" "(p, k) \<in> A" "t \<le> k" "16 dvd p" "4 dvd k"
  shows "heap_ok (foldl (\<lambda>h i. set8 (p + i) 0 h) h [0..<t]) A \<and>
    same_on hmem (A - {(p, k)}) h (foldl (\<lambda>h i. set8 (p + i) 0 h) h [0..<t]) \<and>
    (\<forall>i < t. get8 (foldl (\<lambda>h i. set8 (p + i) 0 h) h [0..<t]) (p + i) = 0)"
  using assms(3)
proof (induction t)
  case (Suc t)
  let ?h = "foldl (\<lambda>h i. set8 (p + i) 0 h) h [0..<t]" and ?w = "p + t - (p + t) mod 4"
  have ih: "heap_ok ?h A" "same_on hmem (A - {(p, k)}) h ?h" "\<forall>i < t. get8 ?h (p + i) = 0" using Suc by auto
  obtain v where s: "set8 (p + t) 0 ?h = hset ?w v ?h" by (simp add: set8_def Let_def)
  obtain c where "p = 16 * c" using assms(4) by (auto elim: dvdE)
  then have "p + t = t + 4 * c * 4" by simp
  then have "(p + t) mod 4 = t mod 4" by (simp only: mod_mult_self1)
  then have "p \<le> ?w" "?w < p + k" using Suc.prems mod_less_eq_dividend [of t 4] by linarith+
  note o = ok_write [OF ih(1) assms(2) this, of v, folded s]
  have f: "foldl (\<lambda>h i. set8 (p + i) 0 h) h [0..<Suc t] = set8 (p + t) 0 ?h" by simp
  have "get8 (set8 (p + t) 0 ?h) (p + i) = 0" if "i < Suc t" for i
    using that ih(3) by (cases "i = t") (simp_all only: get8_set8 [of 0, simplified] if_True if_False less_Suc_eq simp_thms add_left_cancel)
  then show ?case unfolding f using o(1) same_on_trans [OF ih(2) o(2)] by blast
qed (use assms in \<open>simp add: same_on_def\<close>)

lemma kcalloc_zeroes:
  assumes "heap_ok h A"
  shows "\<exists>h' p. kcalloc h n sz = Some (h', p) \<and>
    (if p = 0 then h' = h
     else \<exists>k. n * sz \<le> k \<and> (p, k) \<notin> A \<and> heap_ok h' (insert (p, k) A) \<and> same_on hmem A h h' \<and> (\<forall>i < n * sz. get8 h' (p + i) = 0))"
proof (cases "sz \<noteq> 0 \<and> 0xFFFFFFFF div sz < n")
  case True
  then show ?thesis by (simp add: kcalloc_def)
next
  case False
  obtain h1 q where q: "kmalloc h (n * sz) = Some (h1, q)" "if q = 0 then h1 = h
     else \<exists>j. n * sz \<le> j \<and> (q, j) \<notin> A \<and> heap_ok h1 (insert (q, j) A) \<and> same_on hmem A h h1"
    using kheap.alloc_law [OF assms, of "n * sz"] by blast
  show ?thesis
  proof (cases "q = 0")
    case True
    then show ?thesis using q False by (auto simp: kcalloc_def Let_def)
  next
    case nz: False
    then obtain j where j: "n * sz \<le> j" "(q, j) \<notin> A" "heap_ok h1 (insert (q, j) A)" "same_on hmem A h h1" using q(2) by auto
    let ?h = "foldl (\<lambda>h i. set8 (q + i) 0 h) h1 [0..<n * sz]"
    have z: "heap_ok ?h (insert (q, j) A) \<and> same_on hmem (insert (q, j) A - {(q, j)}) h1 ?h \<and> (\<forall>i < n * sz. get8 ?h (q + i) = 0)"
      using hb_live [OF j(3) insertI1] by (intro zero_fill [OF j(3) insertI1 j(1)])
    have "insert (q, j) A - {(q, j)} = A" using j(2) by auto
    then have "same_on hmem A h ?h" using z same_on_trans [OF j(4)] by simp
    moreover have "kcalloc h n sz = Some (?h, q)" using q(1) nz False by (auto simp: kcalloc_def Let_def)
    ultimately show ?thesis using z j(1,2) nz by auto
  qed
qed

subsection \<open>Statistics\<close>

lemma hb_big_list:
  "dseg (hmem h) p b xs 0 \<Longrightarrow> hb_big h big b = Some (fold max (map (HB_SIZE h) xs) big)"
proof (induction xs arbitrary: p b big)
  case Nil
  then show ?case by (simp add: hb_big.simps)
next
  case (Cons x xs)
  have d: "b = x" "x \<noteq> 0" "dseg (hmem h) x (hmem h (f_next x)) xs 0" using Cons.prems by auto
  have "(if big < HB_SIZE h x then HB_SIZE h x else big) = max (HB_SIZE h x) big" by (simp add: max_def)
  then show ?case using Cons.IH [OF d(3)] d(1,2) by (subst hb_big.simps) (simp only: if_False list.map fold_simps)
qed

definition free_below :: "blk list \<Rightarrow> nat \<Rightarrow> nat set" where
  "free_below bs i = {s. \<exists>b. (b, s, False) \<in> set bs \<and> hb_bin s < i}"

definition max_or_0 :: "nat set \<Rightarrow> nat" where
  "max_or_0 S = (if S = {} then 0 else Max S)"

text \<open>The largest free block is in the highest bin that is not empty.\<close>

lemma largest_free_max:
  assumes inv: "heap_inv h bs L" and i: "i \<le> 64"
  shows "largest_free h i = Some (max_or_0 (free_below bs i))"
  using i
proof (induction i)
  case 0
  then show ?case by (simp add: max_or_0_def free_below_def)
next
  case (Suc i)
  let ?Z = "set (map (HB_SIZE h) (L i))"
  have bo: "dseg (hmem h) 0 (bins h ! i) (L i) 0" "set (L i) = free_of bs i"
    using inv Suc.prems by (auto simp: heap_inv_def bins_ok_def)
  have Z: "?Z = {s. \<exists>b. (b, s, False) \<in> set bs \<and> hb_bin s = i}"
    unfolding set_map bo(2) using inv_member(1) [OF inv] by (force simp: free_of_def)
  have fin: "finite (free_below bs k)" for k
    unfolding free_below_def by (rule finite_subset [of _ "(\<lambda>(b, s, u). s) ` set bs"]) force+
  have big: "hb_big h 0 (bins h ! i) = Some (Max (insert 0 ?Z))"
    using hb_big_list [OF bo(1), of 0] Max.set_eq_fold [of 0 "map (HB_SIZE h) (L i)"] by (simp only: list.set)
  have un: "free_below bs (Suc i) = free_below bs i \<union> ?Z" unfolding Z free_below_def by (auto simp: less_Suc_eq)
  show ?case
  proof (cases "?Z = {}")
    case True
    have "largest_free h (Suc i) = largest_free h i" using big True by simp
    then show ?thesis using Suc un True by simp
  next
    case False
    have pos: "0 < s" if "s \<in> ?Z" for s using that inv_range [OF inv] unfolding Z by fastforce
    have m: "Max ?Z \<in> ?Z" by (rule Max_in [OF _ False]) simp
    have m0: "Max (insert 0 ?Z) = Max ?Z" using Max_insert [of ?Z 0] False by (simp del: Max_insert)
    have lt: "s < t" if "s \<in> free_below bs i" "t \<in> ?Z" for s t
    proof (rule ccontr)
      assume "\<not> s < t"
      then have "hb_bin t \<le> hb_bin s" by (intro hb_bin_mono) simp
      then show False using that unfolding Z free_below_def by auto
    qed
    have mx: "Max (free_below bs i \<union> ?Z) = Max ?Z"
    proof (cases "free_below bs i = {}")
      case fb: False
      have "Max (free_below bs i) < Max ?Z" using lt [OF Max_in [OF fin fb] m] .
      then show ?thesis using Max_Un [OF fin fb _ False] by simp
    qed simp
    have "max_or_0 (free_below bs (Suc i)) = Max ?Z" unfolding max_or_0_def un using mx False by simp
    moreover have "largest_free h (Suc i) = Some (Max ?Z)" using big m0 pos [OF m] by simp
    ultimately show ?thesis by simp
  qed
qed

subsection \<open>A small machine\<close>

text \<open>Sixteen pages of memory, all free, with the kernel in the first; the heap gets eleven pages.\<close>

definition small_heap :: heap where
  "small_heap = \<lparr>hmem = (\<lambda>_. 0), h_pmm = \<lparr>bitmap = [0, 0], total_pages = 16, used_pages = 0\<rparr>,
     kernel_end = 0xC0001000, heap_start = 0, heap_end = 0, bins = replicate 64 0, bin_map = 0,
     heap_used = 0, heap_peak = 0\<rparr>"

lemma small_runs:
  "find_runs (bitmap (h_pmm small_heap)) (total_pages (h_pmm small_heap)) (init_page small_heap) (0, 0, 0) = (1, 15, 15)"
proof -
  have t: "\<not> bitmap_test [0, 0] j" if "j < 16" for j
    using that nth_mem [of "j div 8" "[0, 0] :: bytes"] by (auto simp: bitmap_test_def)
  then have "takeWhile (\<lambda>j. \<not> bitmap_test [0, 0] j) [1..<16] = [1..<16]" by (simp add: takeWhile_eq_all_conv)
  then have e: "run_end [0, 0] 16 1 = 16" unfolding run_end_def by (simp only: length_upt)
  have "find_runs [0, 0] 16 1 (0, 0, 0) = find_runs [0, 0] 16 16 (1, 15, 15)"
    using t [of 1] by (subst find_runs.simps) (simp add: e [unfolded One_nat_def])
  also have "\<dots> = (1, 15, 15)" by (subst find_runs.simps) simp
  finally show ?thesis by (simp add: small_heap_def init_page_def PAGE_SIZE_def KERNEL_VBASE_def)
qed

lemmas small_init = heap_init_ok [OF small_runs]

lemma small_ok: "heap_ok (heap_init small_heap) {}"
  by (rule small_init) (simp_all add: small_heap_def)

lemma kmalloc_big:
  assumes "heap_ok h A"
  obtains big where "largest_free h 64 = Some big"
    "\<And>h' p. kmalloc h n = Some (h', p) \<Longrightarrow> p = 0 \<longleftrightarrow> n = 0 \<or> heap_end h - heap_start h < n \<or> big < kmalloc_need n"
proof -
  obtain bs L where inv: "heap_inv h bs L" "live bs = A" using assms by (auto simp: heap_ok_def)
  let ?F = "free_below bs 64"
  have F: "?F = {s. \<exists>b. (b, s, False) \<in> set bs}" using hb_bin_less by (auto simp: free_below_def)
  have fin: "finite ?F" unfolding F by (rule finite_subset [of _ "(\<lambda>(b, s, u). s) ` set bs"]) force+
  have need: "32 \<le> kmalloc_need n" by (simp add: kmalloc_need_def Let_def HB_MIN_def)
  have iff: "max_or_0 ?F < kmalloc_need n \<longleftrightarrow> (\<forall>(b, s, u) \<in> set bs. \<not> u \<longrightarrow> s < kmalloc_need n)"
  proof -
    have "(\<forall>(b, s, u) \<in> set bs. \<not> u \<longrightarrow> s < kmalloc_need n) \<longleftrightarrow> (\<forall>s \<in> ?F. s < kmalloc_need n)"
      unfolding F by (auto simp: Ball_def) blast
    then show ?thesis
      using need Max_less_iff [OF fin, of "kmalloc_need n"] by (cases "?F = {}") (simp_all add: max_or_0_def)
  qed
  show ?thesis
  proof (rule that [OF largest_free_max [OF inv(1) order_refl]])
    fix h' p assume k: "kmalloc h n = Some (h', p)"
    show "p = 0 \<longleftrightarrow> n = 0 \<or> heap_end h - heap_start h < n \<or> max_or_0 ?F < kmalloc_need n"
      using inv(1)
    proof (cases rule: kmalloc_cases [of h bs L n, case_names none took])
      case none
      then show ?thesis using k iff by simp
    next
      case (took b s)
      have "\<not> (\<forall>(b, s, u) \<in> set bs. \<not> u \<longrightarrow> s < kmalloc_need n)" using took(4,5) by fastforce
      then show ?thesis using took k iff by auto
    qed
  qed
qed

lemma kfree_again:
  assumes "heap_ok h A" "(p, k) \<in> A"
  shows "kfree (kfree h p) p = kfree h p"
proof -
  obtain bs L where inv: "heap_inv h bs L" "live bs = A" using assms by (auto simp: heap_ok_def)
  obtain b where b: "p = b + 16" "(b, k + 16, True) \<in> set bs" using live_member [OF inv(1)] assms(2) inv(2) by blast
  have "hmem (kfree h p) (f_magic b) \<noteq> HB_MAGIC_U" using kfree_spec [OF inv(1) b(2), folded b(1)] by metis
  then have "\<not> hb_valid (kfree h p) p" using b(1) by (simp add: hb_valid_def Let_def HB_HDR_def)
  then show ?thesis by (simp add: kfree_def [of "kfree h p"])
qed

lemma kfree_bad:
  "p < heap_start h + 16 \<or> heap_end h \<le> p \<or> \<not> 16 dvd p \<Longrightarrow> kfree h p = h"
proof -
  assume p: "p < heap_start h + 16 \<or> heap_end h \<le> p \<or> \<not> 16 dvd p"
  have "p AND 15 = p mod 16" using take_bit_eq_mask [of 4 p] by (simp add: mask_eq_exp_minus_1 take_bit_eq_mod)
  then have "\<not> hb_valid h p" using p by (auto simp: hb_valid_def hb_consts mod_eq_0_iff_dvd)
  then show ?thesis by (simp add: kfree_def)
qed

lemma live_place:
  assumes "heap_ok h A" "(p, k) \<in> A"
  shows "heap_start h + 16 \<le> p" "p + k + 16 \<le> heap_end h"
  using assms live_bounds by (auto simp: heap_ok_def)

subsection \<open>Properties of the heap\<close>

text \<open>C34. \<open>heap_init\<close> on a machine whose largest free run above the kernel has at least two pages,
  below the end of the high alias, builds a heap that satisfies the invariant with nothing allocated,
  at least a page large, whose pages were all free in the page bitmap and are now all marked used.\<close>

theorem heap_init_establishes:
  assumes "find_runs (bitmap (h_pmm h)) (total_pages (h_pmm h)) (init_page h) (0, 0, 0) = (rs, rl, fp)"
    and "2 \<le> rl" "rs + rl \<le> 0x38000" "heap_used h = 0" "total_pages (h_pmm h) \<le> 8 * length (bitmap (h_pmm h))"
  shows "heap_ok (heap_init h) {} \<and> heap_start (heap_init h) + PAGE_SIZE \<le> heap_end (heap_init h) \<and>
    heap_start (heap_init h) = KERNEL_VBASE + rs * PAGE_SIZE \<and>
    (\<forall>j. rs * PAGE_SIZE \<le> j * PAGE_SIZE \<and> KERNEL_VBASE + j * PAGE_SIZE < heap_end (heap_init h) \<longrightarrow>
       \<not> bitmap_test (bitmap (h_pmm h)) j \<and> bitmap_test (bitmap (h_pmm (heap_init h))) j)"
proof (intro conjI allI impI)
  let ?n = "heap_pages rl fp"
  note o = heap_init_ok [OF assms(1-4)]
  show "heap_ok (heap_init h) {}" "heap_start (heap_init h) = KERNEL_VBASE + rs * PAGE_SIZE" using o by simp_all
  have n: "1 \<le> ?n" "?n \<le> rl" using heap_pages_bounds [OF assms(2)] by auto
  then show "heap_start (heap_init h) + PAGE_SIZE \<le> heap_end (heap_init h)" unfolding o(3) by simp
  have fr: "init_page h \<le> rs" "rs + rl \<le> total_pages (h_pmm h)"
    "\<And>j. rs \<le> j \<Longrightarrow> j < rs + rl \<Longrightarrow> \<not> bitmap_test (bitmap (h_pmm h)) j"
    using find_runs_free [of "bitmap (h_pmm h)" "init_page h" "total_pages (h_pmm h)" "(0, 0, 0)" "init_page h"] assms(1,2)
    by (auto simp: free_run_def)
  fix j assume "rs * PAGE_SIZE \<le> j * PAGE_SIZE \<and> KERNEL_VBASE + j * PAGE_SIZE < heap_end (heap_init h)"
  then have j: "rs \<le> j" "j < rs + ?n" unfolding o(2,3) by (auto simp: PAGE_SIZE_def)
  then show "\<not> bitmap_test (bitmap (h_pmm h)) j" using fr(3) n by simp
  obtain h3 where h3: "heap_init h = hb_insert h3 (rs * PAGE_SIZE + KERNEL_VBASE)"
    "bitmap (h_pmm h3) = foldl bitmap_set (bitmap (h_pmm h)) (map (\<lambda>i. rs + i) [0..<?n])"
    by (rule heap_init_shape [OF assms(1)]) (use assms(2,3) in \<open>simp_all\<close>)
  have "bitmap (h_pmm (heap_init h)) = bitmap (h_pmm h3)" by (simp add: h3(1) hb_insert_def Let_def)
  moreover have "j \<in> set (map (\<lambda>i. rs + i) [0..<?n])" using j by (auto simp: image_iff intro: exI [of _ "j - rs"])
  ultimately show "bitmap_test (bitmap (h_pmm (heap_init h))) j"
    using test_set_all [of "map (\<lambda>i. rs + i) [0..<?n]" "bitmap (h_pmm h)" j] fr(2) n assms(5) h3(2) by force
qed

theorem heap_init_establishes_witness:
  "heap_ok (heap_init small_heap) {} \<and> heap_start (heap_init small_heap) = 0xC0001000"
  using heap_init_establishes [OF small_runs] by (simp add: small_heap_def KERNEL_VBASE_def PAGE_SIZE_def)

text \<open>C1. On a heap in a good state \<open>kmalloc\<close> always answers. It returns the null pointer, with the
  heap unchanged, exactly for a request of 0 bytes, one larger than the region, or one whose rounded
  size exceeds the largest free block that \<open>heap_stats\<close> reports. Otherwise the block it returns is
  16-byte aligned, inside the region, at least as long as asked for and disjoint from every live
  allocation, whose contents it leaves alone.\<close>

theorem kmalloc_serves:
  assumes "heap_ok h A"
  shows "\<exists>big h' p. largest_free h 64 = Some big \<and> kmalloc h n = Some (h', p) \<and>
    (p = 0 \<longleftrightarrow> n = 0 \<or> heap_end h - heap_start h < n \<or> big < kmalloc_need n) \<and>
    (if p = 0 then h' = h
     else n \<le> ksize h' p \<and> 16 dvd p \<and> heap_start h' + 16 \<le> p \<and> p + ksize h' p + 16 \<le> heap_end h' \<and>
       heap_ok h' (insert (p, ksize h' p) A) \<and> same_on hmem A h h' \<and>
       (\<forall>(q, j) \<in> A. {p..<p + ksize h' p} \<inter> {q..<q + j} = {}))"
proof -
  obtain big where big: "largest_free h 64 = Some big"
    "\<And>h' p. kmalloc h n = Some (h', p) \<Longrightarrow> p = 0 \<longleftrightarrow> n = 0 \<or> heap_end h - heap_start h < n \<or> big < kmalloc_need n"
    using kmalloc_big [OF assms] by blast
  obtain h' p where k: "kmalloc h n = Some (h', p)" "if p = 0 then h' = h
      else \<exists>k. n \<le> k \<and> (p, k) \<notin> A \<and> heap_ok h' (insert (p, k) A) \<and> same_on hmem A h h'"
    using kheap.alloc_law [OF assms, of n] by blast
  have "n \<le> ksize h' p \<and> 16 dvd p \<and> heap_start h' + 16 \<le> p \<and> p + ksize h' p + 16 \<le> heap_end h' \<and>
      heap_ok h' (insert (p, ksize h' p) A) \<and> same_on hmem A h h' \<and> (\<forall>(q, j) \<in> A. {p..<p + ksize h' p} \<inter> {q..<q + j} = {})"
    if nz: "p \<noteq> 0"
  proof -
    obtain j where j: "n \<le> j" "(p, j) \<notin> A" "heap_ok h' (insert (p, j) A)" "same_on hmem A h h'" using k(2) nz by auto
    note l = hb_live [OF j(3) insertI1] live_place [OF j(3) insertI1]
    have "{p..<p + j} \<inter> {q..<q + i} = {}" if "(q, i) \<in> A" for q i
      using kheap.disjoint [OF j(3) insertI1, of q i] that j(2) by blast
    then show ?thesis unfolding l(5) using j l(6-8) by blast
  qed
  note pos = this
  show ?thesis
  proof (intro exI conjI)
    show "largest_free h 64 = Some big" "kmalloc h n = Some (h', p)" by fact+
    show "p = 0 \<longleftrightarrow> n = 0 \<or> heap_end h - heap_start h < n \<or> big < kmalloc_need n" by (rule big(2) [OF k(1)])
  qed (use k(2) pos in \<open>cases "p = 0"; simp only: if_True if_False simp_thms\<close>)
qed

theorem kmalloc_serves_witness:
  "\<exists>big h' p. largest_free (heap_init small_heap) 64 = Some big \<and> kmalloc (heap_init small_heap) 100 = Some (h', p) \<and>
    (p = 0 \<longleftrightarrow> heap_end (heap_init small_heap) - heap_start (heap_init small_heap) < 100 \<or> big < kmalloc_need 100)"
  using kmalloc_serves [OF small_ok, of 100] by (metis zero_neq_numeral)

text \<open>C2. Freeing a live allocation ends exactly that one: the heap stays in a good state, every other
  allocation keeps its contents, and freeing the same pointer again changes nothing. The null
  pointer, pointers outside the region and misaligned pointers are ignored.\<close>

theorem kfree_releases:
  assumes "heap_ok h A" "(p, k) \<in> A"
  shows "heap_ok (kfree h p) (A - {(p, k)}) \<and> same_on hmem (A - {(p, k)}) h (kfree h p) \<and>
    kfree (kfree h p) p = kfree h p \<and>
    (\<forall>q. q = 0 \<or> q < heap_start h + 16 \<or> heap_end h \<le> q \<or> \<not> 16 dvd q \<longrightarrow> kfree h q = h)"
  using kheap.release_law [OF assms] kfree_again [OF assms] kfree_bad [of _ h] kheap.release_null [of h] by blast

lemma small_alloc: "\<exists>p k. heap_ok (fst (the (kmalloc (heap_init small_heap) 100))) {(p, k)} \<and>
    p = snd (the (kmalloc (heap_init small_heap) 100)) \<and> p \<noteq> 0 \<and> 100 \<le> k \<and>
    kmalloc (heap_init small_heap) 100 = Some (the (kmalloc (heap_init small_heap) 100))"
proof -
  let ?h = "heap_init small_heap"
  obtain big where big: "largest_free ?h 64 = Some big"
    "\<And>h' p. kmalloc ?h 100 = Some (h', p) \<Longrightarrow> p = 0 \<longleftrightarrow> 100 = (0 :: nat) \<or> heap_end ?h - heap_start ?h < 100 \<or> big < kmalloc_need 100"
    using kmalloc_big [OF small_ok] by blast
  obtain h' p where k: "kmalloc ?h 100 = Some (h', p)" "if p = 0 then h' = ?h
      else \<exists>k. 100 \<le> k \<and> (p, k) \<notin> {} \<and> heap_ok h' (insert (p, k) {}) \<and> same_on hmem {} ?h h'"
    using kheap.alloc_law [OF small_ok, of 100] by blast
  obtain L where inv: "heap_inv ?h [(heap_start ?h, heap_end ?h - heap_start ?h - 16, False)] L"
    using small_init(4) by (auto simp: small_heap_def)
  have hp: "heap_end ?h - heap_start ?h = 45056"
    using small_init(3) by (simp add: small_heap_def heap_pages_def PAGE_SIZE_def)
  have "free_below [(heap_start ?h, heap_end ?h - heap_start ?h - 16, False)] 64 = {45040}"
    using hb_bin_less [of 45040] hp by (auto simp: free_below_def)
  then have "big = 45040" using largest_free_max [OF inv, of 64] big(1) by (simp add: max_or_0_def)
  then have "p \<noteq> 0" using big(2) [OF k(1)] hp kmalloc_need_ok(4) [of 100] by simp
  then show ?thesis using k by auto
qed

theorem kfree_releases_witness:
  "heap_ok (kfree (fst (the (kmalloc (heap_init small_heap) 100))) (snd (the (kmalloc (heap_init small_heap) 100)))) {}"
proof -
  obtain p k where "heap_ok (fst (the (kmalloc (heap_init small_heap) 100))) {(p, k)}"
    "p = snd (the (kmalloc (heap_init small_heap) 100))" using small_alloc by blast
  with kfree_releases [of "fst (the (kmalloc (heap_init small_heap) 100))" "{(p, k)}" p k] show ?thesis by simp
qed

text \<open>C3. Every history of \<open>kmalloc\<close> and \<open>kfree\<close> calls in which the client frees only pointers it holds
  leaves the heap in a good state whose live allocations are exactly the pointers held; an allocation
  that is never freed is still there with its contents, and the next request is again answered.\<close>

theorem heap_history:
  assumes "uses kmalloc kfree K h (fst ` A) h' P'" "heap_ok h A"
  shows "\<exists>A'. heap_ok h' A' \<and> P' = fst ` A' \<and> {x \<in> A. fst x \<in> K} \<subseteq> A' \<and>
    same_on hmem {x \<in> A. fst x \<in> K} h h' \<and> (\<forall>n. \<exists>r. kmalloc h' n = Some r)"
proof -
  obtain A' where "heap_ok h' A'" "P' = fst ` A'" "kheap.kept K h A h' A'" using kheap.history [OF assms] by blast
  then show ?thesis using kheap.alloc_law [of h' A'] unfolding kheap.kept_def by blast
qed

theorem heap_history_witness:
  "\<exists>A'. heap_ok (fst (the (kmalloc (heap_init small_heap) 100))) A' \<and>
     {snd (the (kmalloc (heap_init small_heap) 100))} = fst ` A'"
proof -
  let ?h = "heap_init small_heap"
  let ?r = "the (kmalloc ?h 100)"
  have "kmalloc ?h 100 = Some (fst ?r, snd ?r)" "snd ?r \<noteq> 0" using small_alloc by auto
  then have "uses kmalloc kfree {} ?h (fst ` {}) (fst ?r) {snd ?r}" using uses.alloc [OF uses.start, of kmalloc ?h 100] by fastforce
  from heap_history [OF this small_ok] show ?thesis by blast
qed

text \<open>\<open>krealloc\<close> of a live allocation to a size it already has room for returns the same pointer
  and changes nothing; to a larger size it either returns the null pointer and changes nothing, or
  moves the allocation: the new block is large enough, holds the old contents word for word, the old
  one is gone, and every other allocation keeps its contents. A size of 0 frees it.\<close>

theorem krealloc_keeps:
  assumes "heap_ok h A" "(p, k) \<in> A"
  shows "krealloc h p 0 = Some (kfree h p, 0) \<and> (0 < n \<and> n \<le> k \<longrightarrow> krealloc h p n = Some (h, p)) \<and>
    (k < n \<longrightarrow> (\<exists>h' q. krealloc h p n = Some (h', q) \<and>
      (if q = 0 then h' = h
       else \<exists>j. n \<le> j \<and> heap_ok h' (insert (q, j) (A - {(p, k)})) \<and> same_on hmem (A - {(p, k)}) h h' \<and>
         (\<forall>i < k div 4. hmem h' (q + 4 * i) = hmem h (p + 4 * i)))))"
proof (intro conjI impI)
  note l = hb_live [OF assms]
  show "krealloc h p 0 = Some (kfree h p, 0)" using l(4) by (simp add: krealloc_def)
  show "krealloc h p n = Some (h, p)" if "0 < n \<and> n \<le> k" using l that by (simp add: krealloc_def Let_def)
qed (rule krealloc_moves [OF assms])

theorem krealloc_keeps_witness:
  "krealloc (fst (the (kmalloc (heap_init small_heap) 100))) (snd (the (kmalloc (heap_init small_heap) 100))) 100
    = Some (the (kmalloc (heap_init small_heap) 100))"
proof -
  let ?r = "the (kmalloc (heap_init small_heap) 100)"
  obtain p k where "heap_ok (fst ?r) {(p, k)}" "p = snd ?r" "100 \<le> k" using small_alloc by blast
  with krealloc_keeps [of "fst ?r" "{(p, k)}" p k 100] show ?thesis by simp
qed

text \<open>\<open>kcalloc\<close> refuses a product that does not fit 32 bits, answers otherwise, and what it returns is
  a fresh allocation of at least that many bytes, all zero, with every live allocation untouched.\<close>

theorem kcalloc_zeroed:
  assumes "heap_ok h A"
  shows "(2 ^ 32 \<le> n * sz \<longrightarrow> kcalloc h n sz = Some (h, 0)) \<and> (\<exists>h' p. kcalloc h n sz = Some (h', p) \<and>
    (if p = 0 then h' = h
     else \<exists>k. n * sz \<le> k \<and> (p, k) \<notin> A \<and> heap_ok h' (insert (p, k) A) \<and> same_on hmem A h h' \<and>
       (\<forall>i < n * sz. get8 h' (p + i) = 0)))"
proof (intro conjI impI)
  assume l: "2 ^ 32 \<le> n * sz"
  then have "sz \<noteq> 0" by (cases sz) auto
  moreover have "0xFFFFFFFF div sz < n" using l calculation by (simp add: div_less_iff_less_mult)
  ultimately show "kcalloc h n sz = Some (h, 0)" by (simp add: kcalloc_def)
qed (rule kcalloc_zeroes [OF assms])

theorem kcalloc_zeroed_witness:
  "\<exists>h' p. kcalloc (heap_init small_heap) 3 5 = Some (h', p) \<and> (p \<noteq> 0 \<longrightarrow> (\<forall>i < 15. get8 h' (p + i) = 0))"
proof -
  obtain h' p where "kcalloc (heap_init small_heap) 3 5 = Some (h', p)"
    "if p = 0 then h' = heap_init small_heap else \<forall>i < 3 * 5. get8 h' (p + i) = 0"
    using kcalloc_zeroed [OF small_ok, of 3 5] by (metis (no_types, lifting))
  then show ?thesis by auto
qed

end
