(* ===== verification/Boot_Memory.thy ===== *)
theory Boot_Memory
  imports Pmm_Boot Heap_Client
begin

text \<open>
  The memory of the running kernel, from \<open>memory_init\<close> on: pages that \<open>pmm_alloc_page\<close> hands out and takes back (for page
  tables, stacks and the frames of programs, whoever asks), and the heap, which takes its own run of pages at the first
  \<open>kmalloc\<close>. Any interleaving of these calls is a run of the step relation \<open>kernel_use\<close>. The invariant of the runs
  is proved here, the property itself is in the root theory.
\<close>

unbundle bit_operations_syntax

subsection \<open>Runs of the kernel\<close>

text \<open>The first \<open>kmalloc\<close> needs a free run of two pages above the kernel to build the heap in.\<close>

definition heap_room :: "heap \<Rightarrow> bool" where
  "heap_room h \<longleftrightarrow> 2 \<le> fst (snd (find_runs (bitmap (h_pmm h)) (total_pages (h_pmm h)) (init_page h) (0, 0, 0)))"

text \<open>\<open>held\<close>: the pages handed out and not yet given back. \<open>A\<close>: the live blocks of the heap, with their lengths. A caller gives
  back only what it holds, and writes only into its own blocks.\<close>

inductive kernel_use :: "heap \<Rightarrow> heap \<Rightarrow> u32 set \<Rightarrow> (nat \<times> nat) set \<Rightarrow> bool" for h0 where
  boot: "kernel_use h0 h0 {} {}"
| page: "kernel_use h0 h held A \<Longrightarrow> pmm_alloc_page (h_pmm h) = (pm, a) \<Longrightarrow> a \<noteq> 0 \<Longrightarrow>
    kernel_use h0 (h\<lparr>h_pmm := pm\<rparr>) (insert a held) A"
| no_page: "kernel_use h0 h held A \<Longrightarrow> pmm_alloc_page (h_pmm h) = (pm, 0) \<Longrightarrow> kernel_use h0 (h\<lparr>h_pmm := pm\<rparr>) held A"
| unpage: "kernel_use h0 h held A \<Longrightarrow> a \<in> held \<Longrightarrow> kernel_use h0 (h\<lparr>h_pmm := pmm_free_page (h_pmm h) a\<rparr>) (held - {a}) A"
| alloc: "kernel_use h0 h held A \<Longrightarrow> heap_start h \<noteq> 0 \<or> heap_room h \<Longrightarrow> kmalloc h n = Some (h', p) \<Longrightarrow>
    kernel_use h0 h' held (if p = 0 then A else insert (p, ksize h' p) A)"
| release: "kernel_use h0 h held A \<Longrightarrow> (p, k) \<in> A \<Longrightarrow> kernel_use h0 (kfree h p) held (A - {(p, k)})"
| store: "kernel_use h0 h held A \<Longrightarrow> (p, k) \<in> A \<Longrightarrow> p \<le> a \<Longrightarrow> a < p + k \<Longrightarrow> kernel_use h0 (hset a v h) held A"

text \<open>The pages of the heap, which lies in the high alias of physical memory.\<close>

definition heap_page_set :: "heap \<Rightarrow> nat set" where
  "heap_page_set h = {j. heap_start h \<le> KERNEL_VBASE + j * PAGE_SIZE \<and> KERNEL_VBASE + j * PAGE_SIZE < heap_end h}"

definition free_set :: "pmm \<Rightarrow> nat set" where
  "free_set pm = {i. i < total_pages pm \<and> i \<notin> used_set pm}"

abbreviation page_addr_of :: "nat \<Rightarrow> u32" where
  "page_addr_of i \<equiv> of_nat (i * PAGE_SIZE)"

subsection \<open>The heap leaves the page allocator alone\<close>

text \<open>\<open>fr h' h\<close>: the two states agree on the page allocator and on where the heap lies.\<close>

definition fr :: "heap \<Rightarrow> heap \<Rightarrow> bool" where
  "fr h' h \<longleftrightarrow> h_pmm h' = h_pmm h \<and> heap_start h' = heap_start h \<and> heap_end h' = heap_end h"

named_theorems frame_intros

lemma fr_refl: "fr h h"
  by (simp add: fr_def)

lemma fr_let [frame_intros]: "fr t h \<Longrightarrow> (\<And>x. fr x h \<Longrightarrow> fr (f x) h) \<Longrightarrow> fr (let x = t in f x) h" for t :: heap
  by simp

lemma fr_let_nat [frame_intros]: "(\<And>x. fr (f x) h) \<Longrightarrow> fr (let x = t in f x) h" for t :: nat
  by simp

lemma fr_if [frame_intros]: "fr a h \<Longrightarrow> fr b h \<Longrightarrow> fr (if c then a else b) h"
  by simp

lemma fr_updates [frame_intros]:
  "fr x h \<Longrightarrow> fr (hset a v x) h" "fr x h \<Longrightarrow> fr (x\<lparr>heap_used := u\<rparr>) h" "fr x h \<Longrightarrow> fr (x\<lparr>heap_peak := u\<rparr>) h"
  "fr x h \<Longrightarrow> fr (x\<lparr>bins := bs\<rparr>) h" "fr x h \<Longrightarrow> fr (x\<lparr>bin_map := m\<rparr>) h" "fr x h \<Longrightarrow> fr (x\<lparr>bins := bs, bin_map := m\<rparr>) h"
  by (simp_all add: fr_def hset_def)

lemma fr_insert [frame_intros]: "fr x h \<Longrightarrow> fr (hb_insert x b) h"
  unfolding hb_insert_def by (intro frame_intros | assumption)+

lemma fr_unlink [frame_intros]: "fr x h \<Longrightarrow> fr (hb_unlink x b) h"
  unfolding hb_unlink_def by (intro frame_intros | assumption)+

lemma fr_take [frame_intros]: "fr x h \<Longrightarrow> fr (kmalloc_take x b need) h"
  unfolding kmalloc_take_def by (intro frame_intros | assumption)+

lemma fr_pair: "fr (fst t) h \<Longrightarrow> (\<And>x y. fr x h \<Longrightarrow> fr (f x y) h) \<Longrightarrow> fr (case t of (x, y) \<Rightarrow> f x y) h"
  by (simp add: split_beta)

lemma fr_forward: "fr x h \<Longrightarrow> fr (fst (kfree_forward x b sz pf)) h"
  by (auto simp: kfree_forward_def Let_def intro: frame_intros)

lemma fr_backward: "fr x h \<Longrightarrow> fr (fst (kfree_backward x b sz pf)) h"
  by (auto simp: kfree_backward_def Let_def intro: frame_intros)

lemma fr_let_pair: "fr (case t of (x, y) \<Rightarrow> f x y) h \<Longrightarrow> fr (let (x, y) = t in f x y) h"
  by simp

lemma fr_kfree: "fr x h \<Longrightarrow> fr (kfree x p) h"
  unfolding kfree_def
  by (intro fr_let_pair fr_pair fr_forward fr_backward frame_intros | assumption)+

lemma kfree_frame: "h_pmm (kfree h p) = h_pmm h" "heap_start (kfree h p) = heap_start h" "heap_end (kfree h p) = heap_end h"
  using fr_kfree [OF fr_refl, of h p] by (simp_all add: fr_def)

lemma hset_frame: "h_pmm (hset a v h) = h_pmm h" "heap_start (hset a v h) = heap_start h" "heap_end (hset a v h) = heap_end h"
  by (simp_all add: hset_def)

lemma insert_frame: "h_pmm (hb_insert h b) = h_pmm h"
  using fr_insert [OF fr_refl, of h b] by (simp add: fr_def)

lemma kmalloc_frame:
  assumes "kmalloc h n = Some (h', p)" "heap_start h \<noteq> 0"
  shows "h_pmm h' = h_pmm h" "heap_start h' = heap_start h" "heap_end h' = heap_end h"
proof -
  have "fr h' h" using assms fr_refl [of h] fr_take [OF fr_refl, of h]
    by (auto simp: kmalloc_def Let_def simp del: One_nat_def split: if_splits option.splits)
  then show "h_pmm h' = h_pmm h" "heap_start h' = heap_start h" "heap_end h' = heap_end h" by (simp_all add: fr_def)
qed

lemma kmalloc_first: "heap_start h = 0 \<Longrightarrow> heap_start (heap_init h) \<noteq> 0 \<Longrightarrow> kmalloc h n = kmalloc (heap_init h) n"
  by (simp add: kmalloc_def Let_def)

lemma heap_ok_pmm [simp]: "heap_ok (h\<lparr>h_pmm := pm\<rparr>) A \<longleftrightarrow> heap_ok h A"
  by (simp add: heap_ok_def heap_inv_def bins_ok_def sentinel_def)

lemma heap_page_set_pmm [simp]: "heap_page_set (h\<lparr>h_pmm := pm\<rparr>) = heap_page_set h"
  by (simp add: heap_page_set_def)

lemma heap_page_set_frame:
  "heap_start h' = heap_start h \<Longrightarrow> heap_end h' = heap_end h \<Longrightarrow> heap_page_set h' = heap_page_set h"
  by (simp add: heap_page_set_def)

lemma heap_init_pmm:
  assumes "find_runs (bitmap (h_pmm h)) (total_pages (h_pmm h)) (init_page h) (0, 0, 0) = (rs, rl, fp)" "0 < rl" "rs < 0x38000"
  shows "h_pmm (heap_init h) = (h_pmm h)\<lparr>bitmap := foldl bitmap_set (bitmap (h_pmm h)) (map (\<lambda>i. rs + i) [0..<heap_pages rl fp]),
    used_pages := used_pages (h_pmm h) + heap_pages rl fp\<rparr>"
proof -
  have rs: "(if rl \<noteq> 0 then rs else init_page h) = rs" using assms(2) by simp
  show ?thesis
    unfolding heap_init_def Let_def init_page_def [symmetric] assms(1) prod.case rs high_page [OF assms(3)] insert_frame hset_frame heap_pages_def by simp
qed

subsection \<open>Building the heap\<close>

lemma heap_init_step:
  assumes w: "pmm_wf (h_pmm h)" and room: "heap_room h" and u: "heap_used h = 0"
  shows "pmm_wf (h_pmm (heap_init h))" "total_pages (h_pmm (heap_init h)) = total_pages (h_pmm h)"
    "used_set (h_pmm (heap_init h)) = used_set (h_pmm h) \<union> heap_page_set (heap_init h)"
    "heap_page_set (heap_init h) \<subseteq> free_set (h_pmm h)" "heap_ok (heap_init h) {}" "heap_start (heap_init h) \<noteq> 0"
    "\<exists>r. heap_start (heap_init h) = r * PAGE_SIZE + KERNEL_VBASE"
proof -
  let ?pm = "h_pmm h"
  obtain rs rl fp where r: "find_runs (bitmap ?pm) (total_pages ?pm) (init_page h) (0, 0, 0) = (rs, rl, fp)" by (metis prod.exhaust)
  then have rl: "2 \<le> rl" using room by (simp add: heap_room_def)
  have fr: "rs + rl \<le> total_pages ?pm" "\<And>j. rs \<le> j \<Longrightarrow> j < rs + rl \<Longrightarrow> \<not> bitmap_test (bitmap ?pm) j"
    using find_runs_free [of "bitmap ?pm" "init_page h" "total_pages ?pm" "(0, 0, 0)" "init_page h"] r rl
    by (auto simp: free_run_def)
  have t: "total_pages ?pm \<le> MAX_RAM_PAGES" "length (bitmap ?pm) = BITMAP_SIZE" using w by (simp_all add: pmm_wf_def)
  have top: "rs + rl \<le> 0x38000" using fr(1) t(1) by (simp add: MAX_RAM_PAGES_def)
  note o = heap_init_ok [OF r rl top u]
  define n where "n = heap_pages rl fp"
  have n: "n \<le> rl" "1 \<le> n" using heap_pages_bounds [OF rl] by (simp_all add: n_def)
  note pm = heap_init_pmm [OF r, folded n_def]
  have pm': "h_pmm (heap_init h) = ?pm\<lparr>bitmap := foldl bitmap_set (bitmap ?pm) (map (\<lambda>i. rs + i) [0..<n]), used_pages := used_pages ?pm + n\<rparr>"
    by (rule pm) (use rl top in simp_all)
  have H: "heap_page_set (heap_init h) = {rs..<rs + n}"
    unfolding heap_page_set_def o(2,3) n_def [symmetric] by (auto simp: PAGE_SIZE_def)
  have im: "set (map (\<lambda>i. rs + i) [0..<n]) = {rs..<rs + n}" by (auto simp: image_iff intro!: bexI [of _ "_ - rs"])
  have b: "bitmap_test (foldl bitmap_set (bitmap ?pm) (map (\<lambda>i. rs + i) [0..<n])) j \<longleftrightarrow> j \<in> {rs..<rs + n} \<or> bitmap_test (bitmap ?pm) j" for j
  proof (subst test_set_all)
    fix i assume "i \<in> set (map (\<lambda>i. rs + i) [0..<n])"
    then have "i < total_pages ?pm" using fr(1) n(1) unfolding im by auto
    then show "i div 8 < length (bitmap ?pm)" by (rule page_in_bitmap [OF w])
  qed (simp only: im)
  show us: "used_set (h_pmm (heap_init h)) = used_set ?pm \<union> heap_page_set (heap_init h)"
    unfolding used_set_def pm' H using fr(1) n(1) by (auto simp: b)
  show fs: "heap_page_set (heap_init h) \<subseteq> free_set ?pm"
    unfolding H free_set_def used_set_def using fr n(1) by auto
  show tp: "total_pages (h_pmm (heap_init h)) = total_pages ?pm" by (simp add: pm')
  have "card (used_set ?pm \<union> {rs..<rs + n}) = card (used_set ?pm) + n"
    using fs unfolding H by (subst card_Un_disjoint) (auto simp: free_set_def)
  moreover have "length (foldl bitmap_set bm xs) = length bm" for bm and xs :: "nat list" by (induction xs arbitrary: bm) simp_all
  ultimately show "pmm_wf (h_pmm (heap_init h))"
    unfolding pmm_wf_def us H tp using w b [of 0] by (simp add: pm' pmm_wf_def)
  show "heap_ok (heap_init h) {}" by (rule o(1))
  show "\<exists>r. heap_start (heap_init h) = r * PAGE_SIZE + KERNEL_VBASE" using o(2) by blast
  show "heap_start (heap_init h) \<noteq> 0" unfolding o(2) by (simp add: KERNEL_VBASE_def)
qed

subsection \<open>The invariant\<close>

definition kernel_inv :: "pmm \<Rightarrow> heap \<Rightarrow> u32 set \<Rightarrow> (nat \<times> nat) set \<Rightarrow> bool" where
  "kernel_inv pm0 h held A \<longleftrightarrow> pmm_wf (h_pmm h) \<and> total_pages (h_pmm h) = total_pages pm0 \<and>
     (\<exists>I. held = page_addr_of ` I \<and> I \<subseteq> free_set pm0 \<and> heap_page_set h \<subseteq> free_set pm0 \<and> I \<inter> heap_page_set h = {} \<and>
        used_set (h_pmm h) = used_set pm0 \<union> I \<union> heap_page_set h) \<and>
     (if heap_start h = 0 then heap_end h = 0 \<and> heap_used h = 0 \<and> A = {}
      else heap_ok h A \<and> (\<exists>r. heap_start h = r * PAGE_SIZE + KERNEL_VBASE))"

lemma free_small: "pmm_wf pm \<Longrightarrow> i \<in> free_set pm \<Longrightarrow> i < MAX_RAM_PAGES \<and> 0 < i"
  by (cases i) (auto simp: free_set_def pmm_wf_def used_set_def)

lemma inv_pages:
  assumes "kernel_inv pm0 h held A" "pmm_wf pm" "total_pages pm = total_pages (h_pmm h)"
    and "held' = page_addr_of ` I" "I \<subseteq> free_set pm0" "heap_page_set h \<subseteq> free_set pm0" "I \<inter> heap_page_set h = {}"
    and "used_set pm = used_set pm0 \<union> I \<union> heap_page_set h"
  shows "kernel_inv pm0 (h\<lparr>h_pmm := pm\<rparr>) held' A"
proof -
  have k: "total_pages (h_pmm h) = total_pages pm0" "if heap_start h = 0 then heap_end h = 0 \<and> heap_used h = 0 \<and> A = {}
      else heap_ok h A \<and> (\<exists>r. heap_start h = r * PAGE_SIZE + KERNEL_VBASE)"
    and e: "h_pmm (h\<lparr>h_pmm := pm\<rparr>) = pm"
    using assms(1) by (simp_all add: kernel_inv_def)
  show ?thesis unfolding kernel_inv_def
  proof (intro conjI exI [of _ I])
    show "if heap_start (h\<lparr>h_pmm := pm\<rparr>) = 0 then heap_end (h\<lparr>h_pmm := pm\<rparr>) = 0 \<and> heap_used (h\<lparr>h_pmm := pm\<rparr>) = 0 \<and> A = {}
      else heap_ok (h\<lparr>h_pmm := pm\<rparr>) A \<and> (\<exists>r. heap_start (h\<lparr>h_pmm := pm\<rparr>) = r * PAGE_SIZE + KERNEL_VBASE)" using k(2) by simp
  qed (use assms k(1) in \<open>simp_all only: heap_page_set_pmm e\<close>)
qed

lemma inv_alloc_page:
  assumes k: "kernel_inv pm0 h held A" "pmm_wf pm0" and a: "pmm_alloc_page (h_pmm h) = (pm, a)" "a \<noteq> 0"
  shows "kernel_inv pm0 (h\<lparr>h_pmm := pm\<rparr>) (insert a held) A"
    "\<exists>i. a = page_addr_of i \<and> i \<in> free_set pm0 \<and> i \<notin> heap_page_set h \<and> a \<notin> held"
proof -
  obtain I where I: "held = page_addr_of ` I" "I \<subseteq> free_set pm0" "heap_page_set h \<subseteq> free_set pm0" "I \<inter> heap_page_set h = {}"
    "used_set (h_pmm h) = used_set pm0 \<union> I \<union> heap_page_set h" using k(1) by (auto simp: kernel_inv_def)
  have w: "pmm_wf (h_pmm h)" "total_pages (h_pmm h) = total_pages pm0" using k(1) by (simp_all add: kernel_inv_def)
  obtain i where i: "first_free (h_pmm h) = Some i" "i < MAX_RAM_PAGES" "i \<notin> used_set (h_pmm h)" "a = page_addr_of i"
    by (cases rule: alloc_cases [OF w(1), case_names page none]) (use a in auto)
  have f: "i \<in> free_set pm0" using i(3) first_free_Some [OF i(1)] w(2) I(5) by (auto simp: free_set_def)
  have n: "i \<notin> heap_page_set h" "i \<notin> I" using i(3) I(5) by auto
  have "a \<notin> held"
  proof
    assume "a \<in> held"
    then obtain j where j: "j \<in> I" "page_addr_of i = page_addr_of j" using I(1) i(4) by auto
    then have "j < MAX_RAM_PAGES" using I(2) free_small [OF k(2)] by blast
    then show False using page_addr_inj [OF i(2), of j] j n(2) by simp
  qed
  then show "\<exists>i. a = page_addr_of i \<and> i \<in> free_set pm0 \<and> i \<notin> heap_page_set h \<and> a \<notin> held" using i(4) f n(1) by blast
  have s: "used_set pm = insert i (used_set (h_pmm h))" "pmm_wf pm" using alloc_some [OF w(1) i(1)] a(1) by simp_all
  have t: "total_pages pm = total_pages (h_pmm h)" using a(1) i(1) by (auto simp: pmm_alloc_page_def)
  show "kernel_inv pm0 (h\<lparr>h_pmm := pm\<rparr>) (insert a held) A"
    by (rule inv_pages [OF k(1) s(2) t, of _ "insert i I"]) (use I i(4) f n s(1) in auto)
qed

lemma inv_free_page:
  assumes k: "kernel_inv pm0 h held A" "pmm_wf pm0" and a: "a \<in> held"
  shows "kernel_inv pm0 (h\<lparr>h_pmm := pmm_free_page (h_pmm h) a\<rparr>) (held - {a}) A"
proof -
  obtain I where I: "held = page_addr_of ` I" "I \<subseteq> free_set pm0" "heap_page_set h \<subseteq> free_set pm0" "I \<inter> heap_page_set h = {}"
    "used_set (h_pmm h) = used_set pm0 \<union> I \<union> heap_page_set h" using k(1) by (auto simp: kernel_inv_def)
  have w: "pmm_wf (h_pmm h)" using k(1) by (simp add: kernel_inv_def)
  obtain i where i: "i \<in> I" "a = page_addr_of i" using a I(1) by auto
  have b: "j < MAX_RAM_PAGES" if "j \<in> I" for j using that I(2) free_small [OF k(2)] by blast
  have d: "unat a div PAGE_SIZE = i" unfolding i(2) by (rule page_of_addr [OF b [OF i(1)]])
  have "i \<noteq> 0" using i(1) I(2) free_small [OF k(2)] by blast
  then have f: "used_set (pmm_free_page (h_pmm h) a) = used_set (h_pmm h) - {i}" "pmm_wf (pmm_free_page (h_pmm h) a)"
      "total_pages (pmm_free_page (h_pmm h) a) = total_pages (h_pmm h)"
    using free_used [OF w, of a] d by simp_all
  have "held - {a} = page_addr_of ` (I - {i})" using I(1) i b page_addr_inj by (auto simp: image_iff)
  moreover have "i \<notin> used_set pm0" "i \<notin> heap_page_set h" using i(1) I(2,4) by (auto simp: free_set_def)
  then have "used_set (h_pmm h) - {i} = used_set pm0 \<union> (I - {i}) \<union> heap_page_set h" unfolding I(5) by auto
  ultimately show ?thesis by (intro inv_pages [OF k(1) f(2,3), of _ "I - {i}"]) (use I(2-4) f(1) in auto)
qed

lemma inv_heap_init:
  assumes k: "kernel_inv pm0 h held A" and s: "heap_start h = 0" "heap_room h"
  shows "kernel_inv pm0 (heap_init h) held A" "heap_start (heap_init h) \<noteq> 0"
proof -
  obtain I where I: "held = page_addr_of ` I" "I \<subseteq> free_set pm0" "used_set (h_pmm h) = used_set pm0 \<union> I \<union> heap_page_set h"
    using k by (auto simp: kernel_inv_def)
  have w: "pmm_wf (h_pmm h)" "total_pages (h_pmm h) = total_pages pm0" "heap_used h = 0" "A = {}" "heap_end h = 0"
    using k s(1) by (simp_all add: kernel_inv_def)
  have "heap_page_set h = {}" using w(5) by (simp add: heap_page_set_def)
  then have I': "used_set (h_pmm h) = used_set pm0 \<union> I" using I(3) by simp
  note o = heap_init_step [OF w(1) s(2) w(3)]
  have "heap_page_set (heap_init h) \<subseteq> free_set pm0 \<and> I \<inter> heap_page_set (heap_init h) = {}"
    using o(4) I' w(2) by (auto simp: free_set_def)
  then show "kernel_inv pm0 (heap_init h) held A" "heap_start (heap_init h) \<noteq> 0"
    using o I(1,2) I' w(2,4) by (auto simp: kernel_inv_def)
qed

lemma inv_same:
  assumes "kernel_inv pm0 h held A" "heap_start h \<noteq> 0" "h_pmm h' = h_pmm h" "heap_start h' = heap_start h" "heap_end h' = heap_end h"
    and "heap_ok h' A'"
  shows "kernel_inv pm0 h' held A'"
  using assms(1-3,6) heap_page_set_frame [OF assms(4,5)] assms(4) by (simp add: kernel_inv_def)

lemma inv_kmalloc:
  assumes k: "kernel_inv pm0 h held A" and s: "heap_start h \<noteq> 0 \<or> heap_room h" and m: "kmalloc h n = Some (h', p)"
  shows "kernel_inv pm0 h' held (if p = 0 then A else insert (p, ksize h' p) A)"
proof -
  define q where "q = (if heap_start h = 0 then heap_init h else h)"
  have q: "kernel_inv pm0 q held A" "heap_start q \<noteq> 0" "kmalloc q n = Some (h', p)"
    using inv_heap_init [OF k] s k m kmalloc_first [of h n] by (auto simp: q_def)
  then have ok: "heap_ok q A" by (simp add: kernel_inv_def)
  have l: "if p = 0 then h' = q else \<exists>k. heap_ok h' (insert (p, k) A)" using kheap.alloc_law [OF ok, of n] q(3) by auto
  show ?thesis
  proof (cases "p = 0")
    case True
    then show ?thesis using l q(1) by simp
  next
    case False
    then obtain k where j: "heap_ok h' (insert (p, k) A)" using l by auto
    then have "heap_ok h' (insert (p, ksize h' p) A)" using hb_live(5) [OF j insertI1] by simp
    then show ?thesis using inv_same [OF q(1,2) kmalloc_frame [OF q(3,2)]] False by simp
  qed
qed

lemma live_started: "kernel_inv pm0 h held A \<Longrightarrow> x \<in> A \<Longrightarrow> heap_start h \<noteq> 0 \<and> heap_ok h A"
  by (auto simp: kernel_inv_def split: if_splits)

lemma kernel_use_inv:
  assumes "kernel_use h0 h held A" "pmm_wf (h_pmm h0)" "heap_start h0 = 0" "heap_end h0 = 0" "heap_used h0 = 0"
  shows "kernel_inv (h_pmm h0) h held A"
  using assms(1)
proof (induction rule: kernel_use.induct)
  case boot
  have "heap_page_set h0 = {}" using assms(4) by (simp add: heap_page_set_def)
  then show ?case using assms(2-5) by (auto simp: kernel_inv_def)
next
  case (page h held A pm a)
  then show ?case using inv_alloc_page(1) assms(2) by blast
next
  case (no_page h held A pm)
  then have "pm = h_pmm h" using pages.alloc_null by (auto simp: kernel_inv_def)
  then show ?case using no_page.IH by simp
next
  case (unpage h held A a)
  then show ?case using inv_free_page assms(2) by blast
next
  case (alloc h held A n h' p)
  then show ?case using inv_kmalloc by blast
next
  case (release h held A p k)
  then have s: "heap_start h \<noteq> 0" "heap_ok h A" using live_started by blast+
  then have "heap_ok (kfree h p) (A - {(p, k)})" using kheap.release_law release.hyps(2) by blast
  then show ?case by (rule inv_same [OF release.IH s(1) kfree_frame])
next
  case (store h held A p k a v)
  then have s: "heap_start h \<noteq> 0" "heap_ok h A" using live_started by blast+
  then obtain bs L where "heap_inv h bs L" "live bs = A" by (auto simp: heap_ok_def)
  then have "heap_ok (hset a v h) A" using inv_write [of h bs L p k a v] store.hyps(2-4) by (auto simp: heap_ok_def)
  then show ?case by (rule inv_same [OF store.IH s(1) hset_frame])
qed

text \<open>A live block lies in the pages of the heap.\<close>

lemma live_in_heap_pages:
  assumes k: "kernel_inv pm0 h held A" and x: "(p, k) \<in> A" "p \<le> x" "x < p + k"
  shows "\<exists>i \<in> heap_page_set h. KERNEL_VBASE + i * PAGE_SIZE \<le> x \<and> x < KERNEL_VBASE + i * PAGE_SIZE + PAGE_SIZE"
proof -
  have ok: "heap_ok h A" and s: "heap_start h \<noteq> 0" using live_started [OF k x(1)] by blast+
  then obtain r where r: "heap_start h = r * PAGE_SIZE + KERNEL_VBASE" using k by (auto simp: kernel_inv_def)
  have b: "heap_start h + 16 \<le> p" "p + k + 16 \<le> heap_end h" using live_place [OF ok x(1)] by blast+
  define i where "i = (x - KERNEL_VBASE) div PAGE_SIZE"
  have d: "i * PAGE_SIZE \<le> x - KERNEL_VBASE" "x - KERNEL_VBASE < i * PAGE_SIZE + PAGE_SIZE"
    by (simp_all add: i_def PAGE_SIZE_def dividend_less_div_times)
  have "r * PAGE_SIZE div PAGE_SIZE \<le> i" unfolding i_def by (rule div_le_mono) (use x b r in simp)
  then have "r \<le> i" by (simp add: PAGE_SIZE_def)
  then have "r * PAGE_SIZE \<le> i * PAGE_SIZE" by simp
  moreover have "KERNEL_VBASE \<le> x" using x b r by simp
  ultimately show ?thesis using d x b r by (intro bexI [of _ i]) (auto simp: heap_page_set_def)
qed

text \<open>The pages that are free after \<open>memory_init\<close> are the only ones ever used.\<close>

lemma boot_memory_core:
  assumes m: "mboot_ok ram mp es" "memory_init ram mp ksym = Some (h_pmm h0)"
    and h0: "heap_start h0 = 0" "heap_end h0 = 0" "heap_used h0 = 0" and u: "kernel_use h0 h held A"
  defines "F \<equiv> \<lambda>i. usable_page (unat (kernel_end_phys ksym)) es i \<and> i \<notin> kept_pages ram mp"
  shows "a \<in> held \<Longrightarrow> \<exists>i. a = page_addr_of i \<and> F i \<and> i \<notin> heap_page_set h"
    "i \<in> heap_page_set h \<Longrightarrow> F i"
    "(p, k) \<in> A \<Longrightarrow> p \<le> x \<Longrightarrow> x < p + k \<Longrightarrow>
       \<exists>i \<in> heap_page_set h. KERNEL_VBASE + i * PAGE_SIZE \<le> x \<and> x < KERNEL_VBASE + i * PAGE_SIZE + PAGE_SIZE"
    "pmm_alloc_page (h_pmm h) = (pm, a) \<Longrightarrow> a \<noteq> 0 \<Longrightarrow> \<exists>i. a = page_addr_of i \<and> F i \<and> i \<notin> heap_page_set h \<and> a \<notin> held"
proof -
  have w: "pmm_wf (h_pmm h0)" and f: "i \<in> free_set (h_pmm h0) \<longleftrightarrow> F i" for i
    using memory_init_core [OF m(1), of ksym] m(2) by (auto simp: free_set_def F_def)
  have k: "kernel_inv (h_pmm h0) h held A" by (rule kernel_use_inv [OF u w h0])
  show "\<exists>i. a = page_addr_of i \<and> F i \<and> i \<notin> heap_page_set h" if "a \<in> held"
    using k that unfolding kernel_inv_def by (auto simp only: f [symmetric] image_iff)
  show "F i" if "i \<in> heap_page_set h" using k that by (auto simp: kernel_inv_def f [symmetric])
  show "\<exists>i \<in> heap_page_set h. KERNEL_VBASE + i * PAGE_SIZE \<le> x \<and> x < KERNEL_VBASE + i * PAGE_SIZE + PAGE_SIZE"
    if "(p, k) \<in> A" "p \<le> x" "x < p + k" for p k x using that by (rule live_in_heap_pages [OF k])
  show "\<exists>i. a = page_addr_of i \<and> F i \<and> i \<notin> heap_page_set h \<and> a \<notin> held" if "pmm_alloc_page (h_pmm h) = (pm, a)" "a \<noteq> 0"
    using inv_alloc_page(2) [OF k w that] by (simp only: f)
qed

subsection \<open>A concrete machine\<close>

lemma sample_use:
  obtains h0 h a where "memory_init sample_ram 0x1000 0xC0200000 = Some (h_pmm h0)" "heap_start h0 = 0" "heap_end h0 = 0" "heap_used h0 = 0"
    "kernel_use h0 h {a} {}"
proof -
  obtain pm where pm: "memory_init sample_ram 0x1000 0xC0200000 = Some pm" "pmm_wf pm"
      "\<And>i. i < total_pages pm \<and> i \<notin> used_set pm \<longleftrightarrow> usable_page (unat (kernel_end_phys 0xC0200000)) [(20, 0x100000, 0x700000, 1)] i \<and> i \<notin> kept_pages sample_ram 0x1000"
    using memory_init_core [OF sample_boot, where ksym = "0xC0200000"] by blast
  have "0x400 < total_pages pm \<and> 0x400 \<notin> used_set pm" unfolding pm(3) sample_usable sample_kept by simp
  then have "used_set pm \<noteq> {0..<total_pages pm}" by auto
  then obtain i where i: "pmm_alloc_page pm = (fst (pmm_alloc_page pm), page_addr_of i)" "page_addr_of i \<noteq> 0"
    by (cases rule: alloc_cases [OF pm(2), case_names page none]) (use first_free_None in auto)
  define h0 :: heap where "h0 = \<lparr>hmem = (\<lambda>_. 0), h_pmm = pm, kernel_end = 0xC0200000, heap_start = 0, heap_end = 0,
    bins = replicate 64 0, bin_map = 0, heap_used = 0, heap_peak = 0\<rparr>"
  have "kernel_use h0 (h0\<lparr>h_pmm := fst (pmm_alloc_page pm)\<rparr>) {page_addr_of i} {}"
    using kernel_use.page [OF kernel_use.boot, of h0 "fst (pmm_alloc_page pm)" "page_addr_of i"] i by (simp add: h0_def)
  then show ?thesis using pm(1) by (intro that [of h0]) (simp_all add: h0_def)
qed

end
