(* ===== verification/Elf.thy ===== *)
theory Elf
  imports Pmm_Boot
begin

text \<open>
  The loader of user programs (\<open>src/elf.c\<close>): the check of an ELF32 image and the loop that maps fresh pages and
  copies the segments. The image is a list of bytes (a null image is the empty one); reading a header outside it is
  the value \<open>None\<close>. Physical memory is a function of the address; the calls of the mapping callback are recorded.
  The theorem gives the address space the program starts in, byte by byte.
\<close>

unbundle bit_operations_syntax

subsection \<open>Headers\<close>

definition VBASE :: u32 where "VBASE = 0xC0000000"

record elf32_hdr =
  ident :: bytes
  h_type :: "16 word"
  h_machine :: "16 word"
  h_version :: u32
  h_entry :: u32
  h_phoff :: u32
  h_shoff :: u32
  h_flags :: u32
  h_ehsize :: "16 word"
  h_phentsize :: "16 word"
  h_phnum :: "16 word"
  h_shentsize :: "16 word"
  h_shnum :: "16 word"
  h_shstrndx :: "16 word"

record elf32_phdr =
  p_type :: u32
  p_offset :: u32
  p_vaddr :: u32
  p_paddr :: u32
  p_filesz :: u32
  p_memsz :: u32
  p_flags :: u32
  p_align :: u32

definition elf_u16 :: "bytes \<Rightarrow> nat \<Rightarrow> 16 word" where
  "elf_u16 b i = ucast (b ! i) OR push_bit 8 (ucast (b ! (i + 1)))"

definition elf_u32 :: "bytes \<Rightarrow> nat \<Rightarrow> u32" where
  "elf_u32 b i = le32 (b ! i) (b ! (i + 1)) (b ! (i + 2)) (b ! (i + 3))"

definition elf_hdr :: "bytes \<Rightarrow> elf32_hdr" where
  "elf_hdr b = \<lparr>ident = take 16 b, h_type = elf_u16 b 16, h_machine = elf_u16 b 18, h_version = elf_u32 b 20,
     h_entry = elf_u32 b 24, h_phoff = elf_u32 b 28, h_shoff = elf_u32 b 32, h_flags = elf_u32 b 36, h_ehsize = elf_u16 b 40,
     h_phentsize = elf_u16 b 42, h_phnum = elf_u16 b 44, h_shentsize = elf_u16 b 46, h_shnum = elf_u16 b 48, h_shstrndx = elf_u16 b 50\<rparr>"

text \<open>Entry \<open>i\<close> of the table; the address is computed in 32 bits.\<close>

definition elf_phdr :: "bytes \<Rightarrow> elf32_hdr \<Rightarrow> nat \<Rightarrow> elf32_phdr option" where
  "elf_phdr img h i =
     (let a = unat (h_phoff h + of_nat (i * unat (h_phentsize h)))
      in if a + 32 \<le> length img
         then Some \<lparr>p_type = elf_u32 img a, p_offset = elf_u32 img (a + 4), p_vaddr = elf_u32 img (a + 8), p_paddr = elf_u32 img (a + 12),
           p_filesz = elf_u32 img (a + 16), p_memsz = elf_u32 img (a + 20), p_flags = elf_u32 img (a + 24), p_align = elf_u32 img (a + 28)\<rparr>
         else None)"

subsection \<open>Validation\<close>

definition elf_check_seg :: "u32 \<Rightarrow> elf32_phdr \<Rightarrow> int" where
  "elf_check_seg len p =
     (if p_type p \<noteq> 1 then 0
      else if p_memsz p = 0 then 0
      else if p_vaddr p \<ge> VBASE then -4
      else if p_vaddr p + p_memsz p < p_vaddr p then -4
      else if p_vaddr p + p_memsz p > VBASE then -4
      else if p_offset p + p_filesz p < p_offset p then -5
      else if p_offset p + p_filesz p > len then -5
      else if p_filesz p > p_memsz p then -5
      else 0)"

fun elf_check_loop :: "bytes \<Rightarrow> elf32_hdr \<Rightarrow> nat list \<Rightarrow> int option" where
  "elf_check_loop img h [] = Some 0"
| "elf_check_loop img h (i # is) =
     (case elf_phdr img h i of
        None \<Rightarrow> None
      | Some p \<Rightarrow> let rc = elf_check_seg (of_nat (length img)) p in if rc \<noteq> 0 then Some rc else elf_check_loop img h is)"

definition elf_validate :: "bytes \<Rightarrow> int option" where
  "elf_validate img =
     (if length img < 52 then Some (-1)
      else let h = elf_hdr img in
        if ident h ! 0 \<noteq> 0x7F \<or> ident h ! 1 \<noteq> 0x45 \<or> ident h ! 2 \<noteq> 0x4C \<or> ident h ! 3 \<noteq> 0x46 then Some (-1)
        else if ident h ! 4 \<noteq> 1 \<or> ident h ! 5 \<noteq> 1 then Some (-2)
        else if h_type h \<noteq> 2 \<or> h_machine h \<noteq> 3 then Some (-2)
        else if h_phnum h = 0 \<or> unat (h_phentsize h) < 32 then Some (-3)
        else if h_phoff h + ucast (h_phnum h) * ucast (h_phentsize h) > of_nat (length img) then Some (-5)
        else if h_entry h \<ge> VBASE then Some (-4)
        else elf_check_loop img h [0..<unat (h_phnum h)])"

subsection \<open>Loading\<close>

text \<open>\<open>e_pages\<close> are the two local tables, \<open>e_maps\<close> the calls of the callback.\<close>

record elf_st =
  e_pmm :: pmm
  e_mem :: "u32 \<Rightarrow> u8"
  e_pages :: "(u32 \<times> u32) list"
  e_maps :: "(u32 \<times> u32) list"

definition elf_zero :: "u32 \<Rightarrow> (u32 \<Rightarrow> u8) \<Rightarrow> u32 \<Rightarrow> u8" where
  "elf_zero phys mem = foldl (\<lambda>m i. m(phys + of_nat i := 0)) mem [0..<4096]"

definition elf_copy :: "bytes \<Rightarrow> elf32_phdr \<Rightarrow> u32 \<Rightarrow> u32 \<Rightarrow> (u32 \<Rightarrow> u8) \<Rightarrow> u32 \<Rightarrow> u8" where
  "elf_copy img p page phys mem =
     (let copy_start = (if p_vaddr p > page then p_vaddr p else page);
          file_end = p_vaddr p + p_filesz p;
          copy_end = (if file_end < page + 0x1000 then file_end else page + 0x1000)
      in if copy_end > copy_start
         then let dst_off = copy_start - page; src_off = p_offset p + (copy_start - p_vaddr p)
           in foldl (\<lambda>m k. m(phys + (dst_off + of_nat k) := img ! unat (src_off + of_nat k))) mem [0..<unat (copy_end - copy_start)]
         else mem)"

definition elf_page :: "bytes \<Rightarrow> elf32_phdr \<Rightarrow> elf_st \<Rightarrow> u32 \<Rightarrow> int \<times> elf_st" where
  "elf_page img p st page =
     (case map_of (e_pages st) page of
        Some phys \<Rightarrow> (0, st\<lparr>e_mem := elf_copy img p page phys (e_mem st)\<rparr>)
      | None \<Rightarrow>
          if 32 \<le> length (e_pages st) then (-5, st)
          else let (pm, phys) = pmm_alloc_page (e_pmm st); st = st\<lparr>e_pmm := pm\<rparr>
            in if phys = 0 then (-5, st)
               else (0, st\<lparr>e_maps := e_maps st @ [(page, phys)], e_pages := e_pages st @ [(page, phys)],
                 e_mem := elf_copy img p page phys (elf_zero phys (e_mem st))\<rparr>))"

fun elf_page_loop :: "bytes \<Rightarrow> elf32_phdr \<Rightarrow> elf_st \<Rightarrow> u32 list \<Rightarrow> int \<times> elf_st" where
  "elf_page_loop img p st [] = (0, st)"
| "elf_page_loop img p st (page # pgs) =
     (let (rc, st) = elf_page img p st page in if rc \<noteq> 0 then (rc, st) else elf_page_loop img p st pgs)"

text \<open>The pages from \<open>seg_start\<close> up to \<open>seg_end\<close>: both ends are multiples of the page size, so the counter of
  the loop does not wrap.\<close>

definition seg_pages :: "elf32_phdr \<Rightarrow> u32 list" where
  "seg_pages p =
     (let seg_start = p_vaddr p AND 0xFFFFF000; seg_end = (p_vaddr p + p_memsz p + 0xFFF) AND 0xFFFFF000
      in map (\<lambda>q. of_nat (q * 4096)) [unat seg_start div 4096..<unat seg_end div 4096])"

fun elf_seg_loop :: "bytes \<Rightarrow> elf32_hdr \<Rightarrow> elf_st \<Rightarrow> nat list \<Rightarrow> (int \<times> elf_st) option" where
  "elf_seg_loop img h st [] = Some (0, st)"
| "elf_seg_loop img h st (i # is) =
     (case elf_phdr img h i of
        None \<Rightarrow> None
      | Some p \<Rightarrow>
          if p_type p \<noteq> 1 \<or> p_memsz p = 0 then elf_seg_loop img h st is
          else let (rc, st) = elf_page_loop img p st (seg_pages p)
            in if rc \<noteq> 0 then Some (rc, st) else elf_seg_loop img h st is)"

text \<open>\<open>ptrs\<close>: the callback and \<open>entry_out\<close> are not null. The second component is what is stored in
  \<open>*entry_out\<close>, if anything.\<close>

definition elf_load :: "bytes \<Rightarrow> bool \<Rightarrow> elf_st \<Rightarrow> (int \<times> u32 option \<times> elf_st) option" where
  "elf_load img ptrs st =
     (case elf_validate img of
        None \<Rightarrow> None
      | Some rc \<Rightarrow>
          if rc \<noteq> 0 then Some (rc, None, st)
          else if \<not> ptrs then Some (-1, None, st)
          else let h = elf_hdr img; st = st\<lparr>e_pages := []\<rparr> in
            (case elf_seg_loop img h st [0..<unat (h_phnum h)] of
               None \<Rightarrow> None
             | Some (rc, st) \<Rightarrow> if rc \<noteq> 0 then Some (rc, None, st) else Some (0, Some (h_entry h), st)))"

subsection \<open>The address space of a program\<close>

definition is_load :: "elf32_phdr \<Rightarrow> bool" where
  "is_load p \<longleftrightarrow> p_type p = 1 \<and> p_memsz p \<noteq> 0"

definition elf_segs :: "bytes \<Rightarrow> elf32_phdr list" where
  "elf_segs img = (let h = elf_hdr img in
     concat (map (\<lambda>i. case elf_phdr img h i of Some p \<Rightarrow> if is_load p then [p] else [] | None \<Rightarrow> []) [0..<unat (h_phnum h)]))"

text \<open>A segment inside user memory and inside the file, as numbers.\<close>

definition seg_ok :: "nat \<Rightarrow> elf32_phdr \<Rightarrow> bool" where
  "seg_ok len p \<longleftrightarrow> unat (p_vaddr p) + unat (p_memsz p) \<le> unat VBASE \<and>
     unat (p_offset p) + unat (p_filesz p) \<le> len \<and> p_filesz p \<le> p_memsz p"

definition seg_covers :: "elf32_phdr \<Rightarrow> nat \<Rightarrow> bool" where
  "seg_covers p q \<longleftrightarrow> unat (p_vaddr p) div 4096 \<le> q \<and> q * 4096 < unat (p_vaddr p) + unat (p_memsz p)"

definition in_file :: "elf32_phdr \<Rightarrow> nat \<Rightarrow> bool" where
  "in_file p a \<longleftrightarrow> unat (p_vaddr p) \<le> a \<and> a < unat (p_vaddr p) + unat (p_filesz p)"

text \<open>The last segment with file bytes at the address wins; without one the byte stays.\<close>

fun elf_byte :: "bytes \<Rightarrow> elf32_phdr list \<Rightarrow> nat \<Rightarrow> u8 \<Rightarrow> u8" where
  "elf_byte img [] a b = b"
| "elf_byte img (p # ps) a b =
     elf_byte img ps a (if in_file p a then img ! (unat (p_offset p) + (a - unat (p_vaddr p))) else b)"

definition elf_image :: "bytes \<Rightarrow> u32 \<Rightarrow> u8 option" where
  "elf_image img a =
     (if \<exists>p \<in> set (elf_segs img). seg_covers p (unat a div 4096)
      then Some (elf_byte img (elf_segs img) (unat a) 0) else None)"

definition user_byte :: "elf_st \<Rightarrow> u32 \<Rightarrow> u8 option" where
  "user_byte st a =
     (case map_of (e_maps st) (of_nat (unat a div 4096 * 4096)) of
        None \<Rightarrow> None | Some phys \<Rightarrow> Some (e_mem st (phys + of_nat (unat a mod 4096))))"

definition elf_needs :: "bytes \<Rightarrow> nat set" where
  "elf_needs img = {q. \<exists>p \<in> set (elf_segs img). seg_covers p q}"

subsection \<open>Validation is sound\<close>

lemma elf_check_seg_ok:
  assumes "elf_check_seg (of_nat len) p = 0" "is_load p" "len < 2 ^ 32"
  shows "seg_ok len p"
proof -
  have l: "unat (of_nat len :: u32) = len" using assms(3) by (intro unat_of_nat_small) simp
  have a: "\<not> p_vaddr p + p_memsz p < p_vaddr p" "\<not> p_vaddr p + p_memsz p > VBASE" "\<not> p_offset p + p_filesz p < p_offset p"
    "\<not> p_offset p + p_filesz p > of_nat len" "p_filesz p \<le> p_memsz p"
    using assms(1,2) by (auto simp: elf_check_seg_def is_load_def split: if_splits)
  have "unat (p_vaddr p + p_memsz p) = unat (p_vaddr p) + unat (p_memsz p)" "unat (p_offset p + p_filesz p) = unat (p_offset p) + unat (p_filesz p)"
    using a(1,3) by (metis linorder_not_less no_olen_add_nat unat_plus_simple word_le_nat_alt add.commute olen_add_eqv)+
  then show ?thesis using a l by (simp add: seg_ok_def word_less_nat_alt)
qed

lemma elf_check_loop_ok:
  "elf_check_loop img h is = Some 0 \<Longrightarrow> i \<in> set is \<Longrightarrow> \<exists>p. elf_phdr img h i = Some p \<and> elf_check_seg (of_nat (length img)) p = 0"
  by (induction img h "is" rule: elf_check_loop.induct) (auto simp: Let_def split: option.splits if_splits)

lemma elf_validate_loop:
  assumes "elf_validate img = Some 0"
  shows "elf_check_loop img (elf_hdr img) [0..<unat (h_phnum (elf_hdr img))] = Some 0" "h_entry (elf_hdr img) < VBASE"
  using assms by (auto simp: elf_validate_def Let_def split: if_splits)

lemma elf_segs_ok: "elf_validate img = Some 0 \<Longrightarrow> length img < 2 ^ 32 \<Longrightarrow> p \<in> set (elf_segs img) \<Longrightarrow> is_load p \<and> seg_ok (length img) p"
  using elf_check_loop_ok [OF elf_validate_loop(1)] elf_check_seg_ok
  by (fastforce simp: elf_segs_def Let_def split: if_splits option.splits)

subsection \<open>One page\<close>

lemma unat_and_page: "unat (x AND 0xFFFFF000) = unat x div 4096 * 4096" for x :: u32
proof -
  have m: "(0xFFFFF000 :: u32) = NOT (mask 12)" by (simp add: mask_eq_exp_minus_1)
  show ?thesis unfolding m unat_and_not_mask by simp
qed

lemma seg_pages_covers:
  assumes "seg_ok len p"
  obtains s e where "seg_pages p = map (\<lambda>q. of_nat (q * 4096)) [s..<e]" "\<And>q. s \<le> q \<and> q < e \<longleftrightarrow> seg_covers p q"
proof
  let ?v = "unat (p_vaddr p)" and ?m = "unat (p_memsz p)"
  let ?s = "unat (p_vaddr p AND 0xFFFFF000) div 4096" and ?e = "unat ((p_vaddr p + p_memsz p + 0xFFF) AND 0xFFFFF000) div 4096"
  show "seg_pages p = map (\<lambda>q. of_nat (q * 4096)) [?s..<?e]" by (simp add: seg_pages_def Let_def)
  have b: "?v + ?m \<le> 0xC0000000" using assms by (simp add: seg_ok_def VBASE_def)
  then have "unat (p_vaddr p + p_memsz p) = ?v + ?m" by (intro unat_plus_small) simp
  then have "unat (p_vaddr p + p_memsz p + 0xFFF) = ?v + ?m + 4095" using b by (subst unat_plus_small) simp_all
  then have e: "?e = (?v + ?m + 4095) div 4096" "?s = ?v div 4096" by (simp_all add: unat_and_page)
  show "?s \<le> q \<and> q < ?e \<longleftrightarrow> seg_covers p q" for q
    unfolding e seg_covers_def page_count ..
qed

lemma fold_bytes:
  fixes x :: u32
  assumes "b + n \<le> 2 ^ 32"
  shows "foldl (\<lambda>m k. m(of_nat (b + k) := g k)) mem [0..<n] x =
    (if b \<le> unat x \<and> unat x < b + n then g (unat x - b) else mem x)"
  using assms
proof (induction n)
  case (Suc n)
  have "x = of_nat (b + n) \<longleftrightarrow> unat x = b + n"
  proof
    show "unat x = b + n" if "x = of_nat (b + n)" unfolding that using Suc.prems by (intro unat_of_nat_small) simp
    show "x = of_nat (b + n)" if "unat x = b + n" by (simp flip: that)
  qed
  then show ?case using Suc by auto
next
  case 0
  show ?case by auto
qed

lemma frame_end: "i < MAX_RAM_PAGES \<Longrightarrow> i * 4096 + 4096 \<le> 2 ^ 32"
  by (simp add: MAX_RAM_PAGES_def)

lemma elf_zero_at:
  assumes "i < MAX_RAM_PAGES"
  shows "elf_zero (of_nat (i * 4096)) mem x = (if unat x div 4096 = i then 0 else mem x)"
proof -
  have "i * 4096 \<le> unat x \<and> unat x < i * 4096 + 4096 \<longleftrightarrow> unat x div 4096 = i" by auto
  then show ?thesis using fold_bytes [OF frame_end [OF assms], of "\<lambda>k. 0" mem x] by (simp add: elf_zero_def)
qed

lemma elf_copy_at:
  assumes p: "seg_ok len p" and q: "q < 0xC0000" and i: "i < MAX_RAM_PAGES" and len: "len < 2 ^ 32"
  shows "elf_copy img p (of_nat (q * 4096)) (of_nat (i * 4096)) mem x =
    (if unat x div 4096 = i \<and> in_file p (q * 4096 + unat x mod 4096)
     then img ! (unat (p_offset p) + (q * 4096 + unat x mod 4096 - unat (p_vaddr p))) else mem x)"
proof -
  let ?v = "unat (p_vaddr p)" and ?f = "unat (p_filesz p)" and ?o = "unat (p_offset p)" and ?g = "of_nat (q * 4096) :: u32"
  have b: "?v + ?f \<le> 0xC0000000" "?o + ?f \<le> len" using p by (auto simp: seg_ok_def VBASE_def word_le_nat_alt)
  have pg: "unat ?g = q * 4096" using q by (intro unat_of_nat_small) simp
  have fe: "unat (p_vaddr p + p_filesz p) = ?v + ?f" using b(1) by (intro unat_plus_small) simp
  have pe: "unat (?g + 0x1000) = q * 4096 + 4096" using pg q by (subst unat_plus_small) simp_all
  define s where "s = max ?v (q * 4096)"
  define e where "e = min (?v + ?f) (q * 4096 + 4096)"
  define cs where "cs = (if p_vaddr p > ?g then p_vaddr p else ?g)"
  define ce where "ce = (if p_vaddr p + p_filesz p < ?g + 0x1000 then p_vaddr p + p_filesz p else ?g + 0x1000)"
  have u: "unat cs = s" "unat ce = e" using pg fe pe by (auto simp: cs_def ce_def s_def e_def word_less_nat_alt)
  have lt: "ce > cs \<longleftrightarrow> s < e" using u by (simp add: word_less_nat_alt)
  have c: "elf_copy img p ?g (of_nat (i * 4096)) mem = (if ce > cs then
      foldl (\<lambda>m k. m(of_nat (i * 4096) + (cs - ?g + of_nat k) := img ! unat (p_offset p + (cs - p_vaddr p) + of_nat k))) mem [0..<unat (ce - cs)] else mem)"
    unfolding elf_copy_def Let_def cs_def ce_def by (rule refl)
  show ?thesis
  proof (cases "s < e")
    case False
    then have "\<not> in_file p (q * 4096 + unat x mod 4096)" by (auto simp: in_file_def s_def e_def)
    then show ?thesis unfolding c using False lt by simp
  next
    case True
    have d: "cs - ?g = of_nat (s - q * 4096)" "cs - p_vaddr p = of_nat (s - ?v)"
    proof -
      have "cs = of_nat s" "p_vaddr p = of_nat ?v" by (simp_all flip: u(1))
      then show "cs - ?g = of_nat (s - q * 4096)" "cs - p_vaddr p = of_nat (s - ?v)" by (simp_all only: of_nat_diff s_def max.cobounded1 max.cobounded2)
    qed
    have n: "unat (ce - cs) = e - s" using True u by (simp add: unat_sub word_le_nat_alt)
    have dst: "of_nat (i * 4096) + (cs - ?g + of_nat k) = (of_nat (i * 4096 + (s - q * 4096) + k) :: u32)" for k unfolding d by simp
    have src: "unat (p_offset p + (cs - p_vaddr p) + of_nat k) = ?o + (s - ?v) + k" if "k < e - s" for k
    proof -
      have "?o + (s - ?v) + k < 2 ^ LENGTH(32)" using that b(2) len by (auto simp: e_def s_def)
      moreover have "p_offset p + (cs - p_vaddr p) + of_nat k = of_nat (?o + (s - ?v) + k)" unfolding d by simp
      ultimately show ?thesis by (metis unat_of_nat_small)
    qed
    have se: "q * 4096 \<le> s" "?v \<le> s" "e \<le> q * 4096 + 4096" "e \<le> ?v + ?f" by (auto simp: s_def e_def)
    have ee: "i * 4096 + (s - q * 4096) + (e - s) \<le> 2 ^ 32" using frame_end [OF i] se True by linarith
    have "elf_copy img p ?g (of_nat (i * 4096)) mem =
        foldl (\<lambda>m k. m(of_nat (i * 4096 + (s - q * 4096) + k) := img ! (?o + (s - ?v) + k))) mem [0..<e - s]"
      unfolding c using True lt by (simp only: if_True n dst) (rule foldl_cong, use src in simp_all)
    then have f: "elf_copy img p ?g (of_nat (i * 4096)) mem x =
        (if i * 4096 + (s - q * 4096) \<le> unat x \<and> unat x < i * 4096 + (s - q * 4096) + (e - s)
         then img ! (?o + (s - ?v) + (unat x - (i * 4096 + (s - q * 4096)))) else mem x)"
      using fold_bytes [OF ee, of "\<lambda>k. img ! (?o + (s - ?v) + k)" mem x] by (simp only:)
    obtain r t where x: "unat x = r * 4096 + t" "t < 4096" "unat x div 4096 = r" "unat x mod 4096 = t"
      by (metis div_mult_mod_eq mod_less_divisor zero_less_numeral)
    have "(i * 4096 + (s - q * 4096) \<le> unat x \<and> unat x < i * 4096 + (s - q * 4096) + (e - s)) \<longleftrightarrow> r = i \<and> in_file p (q * 4096 + t)"
    proof
      assume a: "i * 4096 + (s - q * 4096) \<le> unat x \<and> unat x < i * 4096 + (s - q * 4096) + (e - s)"
      then have "r = i" using x(1,2) se True by linarith
      then show "r = i \<and> in_file p (q * 4096 + t)" using a x(1) se True by (simp add: in_file_def) linarith
    next
      assume "r = i \<and> in_file p (q * 4096 + t)"
      then show "i * 4096 + (s - q * 4096) \<le> unat x \<and> unat x < i * 4096 + (s - q * 4096) + (e - s)"
        using x(1,2) True by (auto simp: in_file_def s_def e_def)
    qed
    moreover have "?o + (s - ?v) + (unat x - (i * 4096 + (s - q * 4096))) = ?o + (q * 4096 + t - ?v)"
      if "r = i" "i * 4096 + (s - q * 4096) \<le> unat x" using that x(1) se by linarith
    ultimately show ?thesis unfolding f x(3,4) by auto
  qed
qed

subsection \<open>The state of the loader\<close>

abbreviation pg :: "nat \<Rightarrow> u32" where
  "pg q \<equiv> of_nat (q * 4096)"

text \<open>\<open>st0\<close> is the state at the call and \<open>U\<close> the pages the program needs.\<close>

definition elf_good :: "elf_st \<Rightarrow> nat set \<Rightarrow> elf_st \<Rightarrow> bool" where
  "elf_good st0 U st \<longleftrightarrow>
     pmm_wf (e_pmm st) \<and> e_maps st = e_pages st \<and> distinct (map fst (e_pages st)) \<and> distinct (map snd (e_pages st)) \<and>
     fst ` set (e_pages st) \<subseteq> pg ` U \<and>
     (\<forall>f \<in> snd ` set (e_pages st). f \<in> held_pages (e_pmm st) - held_pages (e_pmm st0)) \<and>
     held_pages (e_pmm st0) \<subseteq> held_pages (e_pmm st) \<and>
     used_pages (e_pmm st) = used_pages (e_pmm st0) + length (e_pages st) \<and> total_pages (e_pmm st) = total_pages (e_pmm st0) \<and>
     (\<forall>x. pg (unat x div 4096) \<in> held_pages (e_pmm st0) \<longrightarrow> e_mem st x = e_mem st0 x)"

definition page_view :: "bytes \<Rightarrow> elf32_phdr \<Rightarrow> nat \<Rightarrow> (u32 \<Rightarrow> u8 option) \<Rightarrow> u32 \<Rightarrow> u8 option" where
  "page_view img p q v a =
     (if unat a div 4096 = q
      then Some (if in_file p (unat a) then img ! (unat (p_offset p) + (unat a - unat (p_vaddr p))) else case v a of None \<Rightarrow> 0 | Some b \<Rightarrow> b)
      else v a)"

lemma held_frame: "pmm_wf s \<Longrightarrow> f \<in> held_pages s \<Longrightarrow> \<exists>i < MAX_RAM_PAGES. f = pg i"
  using used_bound [of s] by (auto simp: held_pages_def PAGE_SIZE_def)

lemma frame_byte:
  assumes "i < MAX_RAM_PAGES" "t < 4096"
  shows "unat (pg i + of_nat t) div 4096 = i" "unat (pg i + of_nat t) mod 4096 = t"
proof -
  have "pg i + of_nat t = of_nat (i * 4096 + t)" by simp
  moreover have "unat (of_nat (i * 4096 + t) :: u32) = i * 4096 + t"
    using frame_end [OF assms(1)] assms(2) by (intro unat_of_nat_small) simp
  ultimately have "unat (pg i + of_nat t) = i * 4096 + t" by simp
  then show "unat (pg i + of_nat t) div 4096 = i" "unat (pg i + of_nat t) mod 4096 = t" using assms(2) by simp_all
qed

lemma pg_eq: "q < 0x100000 \<Longrightarrow> r < 0x100000 \<Longrightarrow> pg q = pg r \<longleftrightarrow> q = r"
proof
  assume b: "q < 0x100000" "r < 0x100000"
  have u: "unat (pg q) = q * 4096" "unat (pg r) = r * 4096" using b by (auto intro!: unat_of_nat_small simp del: of_nat_mult)
  show "q = r" if "pg q = pg r" using u unfolding that by simp
qed simp

lemma addr_page: "unat (a :: u32) div 4096 < 0x100000"
proof -
  have "unat a < 4294967296" using unsigned_less [of a] by simp
  then show ?thesis by (simp add: less_mult_imp_div_less)
qed

lemma ram_page: "i < MAX_RAM_PAGES \<Longrightarrow> i < 0x100000"
  by (simp add: MAX_RAM_PAGES_def)

lemma view_copy:
  assumes seg: "seg_ok len p" "len < 2 ^ 32" and q: "q < 0xC0000" and i: "i < MAX_RAM_PAGES" "map_of maps (pg q) = Some (pg i)"
    and others: "\<And>r f. r \<noteq> pg q \<Longrightarrow> map_of maps r = Some f \<Longrightarrow> \<exists>j < MAX_RAM_PAGES. f = pg j \<and> j \<noteq> i"
    and st: "e_maps st = maps" and st': "st' = st\<lparr>e_mem := elf_copy img p (pg q) (pg i) (e_mem st)\<rparr>"
  shows "user_byte st' a = page_view img p q (user_byte st) a"
proof (cases "unat a div 4096 = q")
  case True
  then have "q * 4096 + unat a mod 4096 = unat a" by (metis div_mult_mod_eq)
  then show ?thesis using True i st elf_copy_at [OF seg(1) q i(1) seg(2), of img "e_mem st" "pg i + of_nat (unat a mod 4096)"] frame_byte [OF i(1), of "unat a mod 4096"]
    by (simp add: user_byte_def page_view_def st')
next
  case False
  then have ne: "pg (unat a div 4096) \<noteq> pg q" using pg_eq [OF addr_page, of q a] q by simp
  show ?thesis
  proof (cases "map_of maps (pg (unat a div 4096))")
    case None
    then show ?thesis using False st by (simp add: user_byte_def page_view_def st')
  next
    case (Some f)
    then obtain j where j: "j < MAX_RAM_PAGES" "f = pg j" "j \<noteq> i" using others [OF ne] by blast
    then show ?thesis using False Some st frame_byte(1) [OF j(1), of "unat a mod 4096"]
        elf_copy_at [OF seg(1) q i(1) seg(2), of img "e_mem st" "pg j + of_nat (unat a mod 4096)"]
      by (simp add: user_byte_def page_view_def st')
  qed
qed

lemma elf_good_pages:
  assumes "elf_good st0 U st" "map_of (e_pages st) r = Some f"
  shows "(r, f) \<in> set (e_pages st)" "\<exists>i < MAX_RAM_PAGES. f = pg i" "f \<in> held_pages (e_pmm st)" "f \<notin> held_pages (e_pmm st0)"
proof -
  show m: "(r, f) \<in> set (e_pages st)" using assms(2) by (rule map_of_SomeD)
  then have "f \<in> snd ` set (e_pages st)" by force
  then show h: "f \<in> held_pages (e_pmm st)" "f \<notin> held_pages (e_pmm st0)" using assms(1) by (auto simp: elf_good_def)
  then show "\<exists>i < MAX_RAM_PAGES. f = pg i" using held_frame assms(1) by (auto simp: elf_good_def)
qed

lemma elf_good_others:
  assumes g: "elf_good st0 U st" and i: "map_of (e_pages st) q = Some (pg i)" and r: "r \<noteq> q" "map_of (e_pages st) r = Some f"
  shows "\<exists>j < MAX_RAM_PAGES. f = pg j \<and> j \<noteq> i"
proof -
  obtain j where j: "j < MAX_RAM_PAGES" "f = pg j" using elf_good_pages(2) [OF g r(2)] by blast
  have "inj_on snd (set (e_pages st))" using g by (simp add: elf_good_def distinct_map)
  then have "f \<noteq> pg i" using inj_onD [of snd _ "(q, pg i)" "(r, f)"] elf_good_pages(1) [OF g i] elf_good_pages(1) [OF g r(2)] r(1) by auto
  then show ?thesis using j by auto
qed

lemma elf_page_mapped:
  assumes g: "elf_good st0 U st" and seg: "seg_ok len p" "len < 2 ^ 32" and q: "q < 0xC0000" and f: "map_of (e_pages st) (pg q) = Some f"
  obtains st' where "elf_page img p st (pg q) = (0, st')" "elf_good st0 U st'" "\<And>a. user_byte st' a = page_view img p q (user_byte st) a"
proof -
  obtain i where i: "i < MAX_RAM_PAGES" "f = pg i" using elf_good_pages(2) [OF g f] by blast
  let ?st = "st\<lparr>e_mem := elf_copy img p (pg q) (pg i) (e_mem st)\<rparr>"
  have m: "e_maps st = e_pages st" using g by (simp add: elf_good_def)
  have "user_byte ?st a = page_view img p q (user_byte st) a" for a
    by (rule view_copy [OF seg q i(1) f [unfolded i(2)] elf_good_others [OF g f [unfolded i(2)]] m refl])
  moreover have "pg i \<notin> held_pages (e_pmm st0)" using elf_good_pages(4) [OF g f] i(2) by simp
  then have "elf_good st0 U ?st" using g elf_copy_at [OF seg(1) q i(1) seg(2), of img "e_mem st"] by (auto simp: elf_good_def)
  moreover have "elf_page img p st (pg q) = (0, ?st)" using f i(2) by (simp add: elf_page_def)
  ultimately show ?thesis using that by blast
qed

lemma elf_page_fresh:
  assumes g: "elf_good st0 U st" and seg: "seg_ok len p" "len < 2 ^ 32" and q: "q < 0xC0000" "q \<in> U" and f: "map_of (e_pages st) (pg q) = None"
    and U: "finite U" "card U \<le> 32" "used_pages (e_pmm st0) + card U \<le> total_pages (e_pmm st0)"
  obtains st' where "elf_page img p st (pg q) = (0, st')" "elf_good st0 U st'" "\<And>a. user_byte st' a = page_view img p q (user_byte st) a"
proof -
  have w: "pmm_wf (e_pmm st)" and m: "e_maps st = e_pages st" using g by (auto simp: elf_good_def)
  have nq: "pg q \<notin> fst ` set (e_pages st)" using f by (simp add: map_of_eq_None_iff)
  have "insert (pg q) (fst ` set (e_pages st)) \<subseteq> pg ` U" using g q(2) by (auto simp: elf_good_def)
  then have "card (insert (pg q) (fst ` set (e_pages st))) \<le> card U" using U(1) by (meson card_mono card_image_le finite_imageI le_trans)
  moreover have "card (fst ` set (e_pages st)) = length (e_pages st)" using g by (metis distinct_card elf_good_def length_map set_map)
  ultimately have l: "length (e_pages st) < card U" using nq by simp
  then have "used_pages (e_pmm st) < total_pages (e_pmm st)" using U(3) g by (auto simp: elf_good_def)
  then have nf: "first_free (e_pmm st) \<noteq> None" using first_free_None [of "e_pmm st"] w by (metis card_atLeastLessThan diff_zero less_irrefl pmm_wf_def)
  obtain pm i where i: "pmm_alloc_page (e_pmm st) = (pm, pg i)" "i < MAX_RAM_PAGES" "pg i \<noteq> 0"
    and c: "used_pages pm = used_pages (e_pmm st) + 1" "total_pages pm = total_pages (e_pmm st)"
    using nf by (cases rule: alloc_cases [OF w, case_names page none]) (auto simp: PAGE_SIZE_def pmm_alloc_page_def)
  note new = pages.alloc_new [OF w i(1,3)]
  let ?z = "st\<lparr>e_pmm := pm, e_maps := e_maps st @ [(pg q, pg i)], e_pages := e_pages st @ [(pg q, pg i)], e_mem := elf_zero (pg i) (e_mem st)\<rparr>"
  let ?st = "?z\<lparr>e_mem := elf_copy img p (pg q) (pg i) (e_mem ?z)\<rparr>"
  have mq: "map_of (e_pages ?z) (pg q) = Some (pg i)" using f by (simp add: map_add_def)
  have n0: "pg i \<notin> held_pages (e_pmm st0)" using new g by (auto simp: elf_good_def)
  have "pg i \<notin> snd ` set (e_pages st)" using g new by (auto simp: elf_good_def)
  moreover have "e_mem ?z x = e_mem st0 x" if "pg (unat x div 4096) \<in> held_pages (e_pmm st0)" for x
    using that n0 g elf_zero_at [OF i(2), of "e_mem st" x] by (auto simp: elf_good_def)
  ultimately have gz: "elf_good st0 U ?z" using g new nq q(2) c m by (auto simp: elf_good_def)
  have v: "user_byte ?st a = page_view img p q (user_byte ?z) a" for a
    by (rule view_copy [OF seg q(1) i(2) mq elf_good_others [OF gz mq] _ refl]) (simp_all add: m)
  have z: "page_view img p q (user_byte ?z) a = page_view img p q (user_byte st) a" for a
  proof (cases "unat a div 4096 = q")
    case True
    then have "user_byte ?z a = Some 0" "user_byte st a = None"
      using mq f m elf_zero_at [OF i(2), of "e_mem st" "pg i + of_nat (unat a mod 4096)"] frame_byte(1) [OF i(2), of "unat a mod 4096"]
      by (simp_all add: user_byte_def)
    then show ?thesis using True by (simp add: page_view_def)
  next
    case False
    then have ne: "pg (unat a div 4096) \<noteq> pg q" using pg_eq [OF addr_page, of q a] q by simp
    then have e: "map_of (e_pages ?z) (pg (unat a div 4096)) = map_of (e_pages st) (pg (unat a div 4096))" by (simp add: map_add_def split: option.splits)
    have mz: "e_maps ?z = e_pages ?z" using m by simp
    have ub: "user_byte ?z a = (case map_of (e_pages st) (pg (unat a div 4096)) of None \<Rightarrow> None | Some f \<Rightarrow> Some (e_mem ?z (f + of_nat (unat a mod 4096))))"
      "user_byte st a = (case map_of (e_pages st) (pg (unat a div 4096)) of None \<Rightarrow> None | Some f \<Rightarrow> Some (e_mem st (f + of_nat (unat a mod 4096))))"
      unfolding user_byte_def mz e by (rule refl) (simp only: m)
    have "user_byte ?z a = user_byte st a"
    proof (cases "map_of (e_pages st) (pg (unat a div 4096))")
      case None
      then show ?thesis unfolding ub by simp
    next
      case (Some h)
      then obtain j where j: "j < MAX_RAM_PAGES" "h = pg j" "j \<noteq> i" using elf_good_others [OF gz mq ne] e by auto
      then show ?thesis using elf_zero_at [OF i(2), of "e_mem st" "pg j + of_nat (unat a mod 4096)"] frame_byte(1) [OF j(1), of "unat a mod 4096"]
        unfolding ub Some by simp
    qed
    then show ?thesis using False by (simp add: page_view_def)
  qed
  have "elf_good st0 U ?st" using gz n0 elf_copy_at [OF seg(1) q(1) i(2) seg(2), of img "e_mem ?z"] by (auto simp: elf_good_def)
  moreover have "elf_page img p st (pg q) = (0, ?st)" using f i l U(2) by (simp add: elf_page_def)
  ultimately show ?thesis using that v z by metis
qed

subsection \<open>The loops\<close>

definition pages_view :: "bytes \<Rightarrow> elf32_phdr \<Rightarrow> nat set \<Rightarrow> (u32 \<Rightarrow> u8 option) \<Rightarrow> u32 \<Rightarrow> u8 option" where
  "pages_view img p Q v a =
     (if unat a div 4096 \<in> Q
      then Some (if in_file p (unat a) then img ! (unat (p_offset p) + (unat a - unat (p_vaddr p))) else case v a of None \<Rightarrow> 0 | Some b \<Rightarrow> b)
      else v a)"

lemma elf_page_loop_ok:
  assumes seg: "seg_ok len p" "len < 2 ^ 32" and U: "finite U" "card U \<le> 32" "used_pages (e_pmm st0) + card U \<le> total_pages (e_pmm st0)"
  shows "elf_good st0 U st \<Longrightarrow> \<forall>q \<in> set qs. q < 0xC0000 \<and> q \<in> U \<Longrightarrow>
    \<exists>st'. elf_page_loop img p st (map pg qs) = (0, st') \<and> elf_good st0 U st' \<and> (\<forall>a. user_byte st' a = pages_view img p (set qs) (user_byte st) a)"
proof (induction qs arbitrary: st)
  case Nil
  then show ?case by (simp add: pages_view_def)
next
  case (Cons q qs)
  then have q: "q < 0xC0000" "q \<in> U" by auto
  obtain st1 where 1: "elf_page img p st (pg q) = (0, st1)" "elf_good st0 U st1" "\<And>a. user_byte st1 a = page_view img p q (user_byte st) a"
  proof (cases "map_of (e_pages st) (pg q)")
    case None
    show ?thesis by (rule elf_page_fresh [OF Cons.prems(1) seg q None U that])
  next
    case (Some f)
    show ?thesis by (rule elf_page_mapped [OF Cons.prems(1) seg q(1) Some that])
  qed
  obtain st2 where 2: "elf_page_loop img p st1 (map pg qs) = (0, st2)" "elf_good st0 U st2" "\<forall>a. user_byte st2 a = pages_view img p (set qs) (user_byte st1) a"
    using Cons.IH [OF 1(2)] Cons.prems(2) by auto
  have "user_byte st2 a = pages_view img p (set (q # qs)) (user_byte st) a" for a
    using 2(3) 1(3) [of a] by (auto simp: pages_view_def page_view_def)
  then show ?case using 1(1) 2(1,2) by (simp only: list.map elf_page_loop.simps) simp
qed

abbreviation seg_view :: "bytes \<Rightarrow> (u32 \<Rightarrow> u8 option) \<Rightarrow> elf32_phdr \<Rightarrow> u32 \<Rightarrow> u8 option" where
  "seg_view img v p \<equiv> pages_view img p {q. seg_covers p q} v"

lemma elf_seg_ok:
  assumes seg: "seg_ok len p" "len < 2 ^ 32" and U: "finite U" "card U \<le> 32" "used_pages (e_pmm st0) + card U \<le> total_pages (e_pmm st0)"
    and g: "elf_good st0 U st" and c: "{q. seg_covers p q} \<subseteq> U"
  obtains st' where "elf_page_loop img p st (seg_pages p) = (0, st')" "elf_good st0 U st'" "user_byte st' = seg_view img (user_byte st) p"
proof -
  obtain s e where se: "seg_pages p = map pg [s..<e]" "\<And>q. s \<le> q \<and> q < e \<longleftrightarrow> seg_covers p q" by (rule seg_pages_covers [OF seg(1)]) (rule that)
  have u: "q < 0xC0000 \<and> q \<in> U" if "seg_covers p q" for q
  proof
    show "q < 0xC0000" using that seg(1) by (simp add: seg_covers_def seg_ok_def VBASE_def)
    show "q \<in> U" using that c by (simp add: subset_iff)
  qed
  have e: "set [s..<e] = {q. seg_covers p q}" unfolding set_eq_iff set_upt atLeastLessThan_iff mem_Collect_eq using se(2) by (intro allI)
  have "\<forall>q \<in> set [s..<e]. q < 0xC0000 \<and> q \<in> U" unfolding e using u by simp
  from elf_page_loop_ok [OF seg U g this, of img, folded se(1)] obtain st' where
    st': "elf_page_loop img p st (seg_pages p) = (0, st')" "elf_good st0 U st'" "\<forall>a. user_byte st' a = pages_view img p (set [s..<e]) (user_byte st) a"
    by (elim exE conjE) (rule that)
  from st'(3) have "user_byte st' = seg_view img (user_byte st) p" unfolding e fun_eq_iff .
  with st'(1,2) show ?thesis by (rule that)
qed

lemma elf_seg_loop_ok:
  assumes len: "length img < 2 ^ 32" and U: "finite U" "card U \<le> 32" "used_pages (e_pmm st0) + card U \<le> total_pages (e_pmm st0)"
  shows "elf_good st0 U st \<Longrightarrow> elf_check_loop img h is = Some 0 \<Longrightarrow>
    segs = concat (map (\<lambda>i. case elf_phdr img h i of Some p \<Rightarrow> if is_load p then [p] else [] | None \<Rightarrow> []) is) \<Longrightarrow>
    (\<And>p. p \<in> set segs \<Longrightarrow> {q. seg_covers p q} \<subseteq> U) \<Longrightarrow>
    \<exists>st'. elf_seg_loop img h st is = Some (0, st') \<and> elf_good st0 U st' \<and> user_byte st' = foldl (seg_view img) (user_byte st) segs"
proof (induction "is" arbitrary: st segs)
  case (Cons i "is")
  obtain p where p: "elf_phdr img h i = Some p" "elf_check_seg (of_nat (length img)) p = 0" "elf_check_loop img h is = Some 0"
    using Cons.prems(2) by (auto simp: Let_def split: option.splits if_splits)
  let ?rest = "concat (map (\<lambda>i. case elf_phdr img h i of Some p \<Rightarrow> if is_load p then [p] else [] | None \<Rightarrow> []) is)"
  show ?case
  proof (cases "is_load p")
    case False
    then have "segs = ?rest" using Cons.prems(3) p(1) by simp
    then show ?thesis using Cons.IH [OF Cons.prems(1) p(3)] Cons.prems(4) p(1) False by (auto simp: is_load_def)
  next
    case True
    then have s: "segs = p # ?rest" using Cons.prems(3) p(1) by simp
    have c: "{q. seg_covers p q} \<subseteq> U" using Cons.prems(4) [of p] s by simp
    obtain st1 where 1: "elf_page_loop img p st (seg_pages p) = (0, st1)" "elf_good st0 U st1" "user_byte st1 = seg_view img (user_byte st) p"
      by (rule elf_seg_ok [OF elf_check_seg_ok [OF p(2) True len] len U Cons.prems(1) c])
    show ?thesis using Cons.IH [OF 1(2) p(3) refl] Cons.prems(4) s 1(1,3) p(1) True by (auto simp: is_load_def)
  qed
qed simp

lemma seg_views:
  assumes "\<And>p. p \<in> set segs \<Longrightarrow> seg_ok len p"
  shows "foldl (seg_view img) v segs a =
    (if \<exists>p \<in> set segs. seg_covers p (unat a div 4096)
     then Some (elf_byte img segs (unat a) (case v a of None \<Rightarrow> 0 | Some b \<Rightarrow> b)) else v a)"
  using assms
proof (induction segs arbitrary: v)
  case (Cons p segs)
  have cov: "seg_covers r (unat a div 4096)" if "in_file r (unat a)" "seg_ok len r" for r
    using that by (auto simp: in_file_def seg_covers_def seg_ok_def word_le_nat_alt div_le_mono)
  have n: "elf_byte img ps (unat a) b = b" if "\<And>r. r \<in> set ps \<Longrightarrow> seg_ok len r" "\<not> (\<exists>r \<in> set ps. seg_covers r (unat a div 4096))" for ps b
    using that cov by (induction ps) auto
  show ?case using Cons n [of segs] cov [of p] by (auto simp: pages_view_def)
qed simp

subsection \<open>Properties\<close>

lemma elf_good_start: "pmm_wf (e_pmm st) \<Longrightarrow> e_maps st = [] \<Longrightarrow> elf_good st U (st\<lparr>e_pages := []\<rparr>)"
  by (simp add: elf_good_def)

lemma elf_needs_user: "elf_validate img = Some 0 \<Longrightarrow> length img < 2 ^ 32 \<Longrightarrow> elf_needs img \<subseteq> {..<0xC0000}"
  using elf_segs_ok by (fastforce simp: elf_needs_def seg_covers_def seg_ok_def VBASE_def)

lemma elf_load_core:
  assumes "elf_validate img = Some 0" "length img < 2 ^ 32" "pmm_wf (e_pmm st)" "e_maps st = []"
    and "card (elf_needs img) \<le> 32" "used_pages (e_pmm st) + card (elf_needs img) \<le> total_pages (e_pmm st)"
  obtains st' where "elf_load img True st = Some (0, Some (h_entry (elf_hdr img)), st')" "elf_good st (elf_needs img) st'" "user_byte st' = elf_image img"
proof -
  let ?h = "elf_hdr img"
  note v = elf_validate_loop [OF assms(1)] and ok = elf_segs_ok [OF assms(1,2)]
  have fin: "finite (elf_needs img)" using elf_needs_user [OF assms(1,2)] finite_subset by blast
  have cov: "{q. seg_covers p q} \<subseteq> elf_needs img" if "p \<in> set (elf_segs img)" for p using that by (auto simp: elf_needs_def)
  obtain st' where st': "elf_seg_loop img ?h (st\<lparr>e_pages := []\<rparr>) [0..<unat (h_phnum ?h)] = Some (0, st')"
      "elf_good st (elf_needs img) st'" "user_byte st' = foldl (seg_view img) (user_byte (st\<lparr>e_pages := []\<rparr>)) (elf_segs img)"
    using elf_seg_loop_ok [OF assms(2) fin assms(5,6) elf_good_start [OF assms(3,4)] v(1) _ cov] by (auto simp: elf_segs_def Let_def)
  have "user_byte (st\<lparr>e_pages := []\<rparr>) a = None" for a using assms(4) by (simp add: user_byte_def)
  then have "user_byte st' = elf_image img"
    unfolding st'(3) using seg_views [of "elf_segs img" "length img" img "user_byte (st\<lparr>e_pages := []\<rparr>)"] ok
    by (intro ext) (simp add: elf_image_def)
  moreover have "elf_load img True st = Some (0, Some (h_entry ?h), st')"
    using assms(1) st'(1) by (simp add: elf_load_def Let_def)
  ultimately show ?thesis using st'(2) by (intro that)
qed

text \<open>C6. A program is loaded as its headers say. When the image passes the check, at most 32 distinct pages are
  needed and the page allocator has that many, the loader returns 0 with the entry point, which lies in user memory.
  The user address space then has, byte by byte, the image of the program: the pages that a loadable segment
  touches and no others, with the file bytes of the last segment that has some there, and zero everywhere else.
  The frames are distinct and were free before, and no frame that was in use is written.\<close>

theorem elf_load_image:
  assumes "elf_validate img = Some 0" "length img < 2 ^ 32" "pmm_wf (e_pmm st)" "e_maps st = []"
    and "card (elf_needs img) \<le> 32" "used_pages (e_pmm st) + card (elf_needs img) \<le> total_pages (e_pmm st)"
  shows "\<exists>st'. elf_load img True st = Some (0, Some (h_entry (elf_hdr img)), st') \<and> h_entry (elf_hdr img) < VBASE \<and>
    user_byte st' = elf_image img \<and> distinct (map snd (e_maps st')) \<and>
    (\<forall>f \<in> snd ` set (e_maps st'). f \<notin> held_pages (e_pmm st)) \<and>
    (\<forall>x. pg (unat x div 4096) \<in> held_pages (e_pmm st) \<longrightarrow> e_mem st' x = e_mem st x)"
proof -
  obtain st' where "elf_load img True st = Some (0, Some (h_entry (elf_hdr img)), st')" "elf_good st (elf_needs img) st'" "user_byte st' = elf_image img"
    by (rule elf_load_core [OF assms]) (rule that)
  then show ?thesis using elf_validate_loop(2) [OF assms(1)] by (auto simp: elf_good_def)
qed

lemma elf_table_inside:
  assumes "52 \<le> length img" "length img < 2 ^ 32" "unat (h_phoff h) + unat (h_phnum h) * unat (h_phentsize h) \<le> length img"
    "32 \<le> unat (h_phentsize h)" "i < unat (h_phnum h)"
  shows "elf_phdr img h i \<noteq> None"
proof -
  have "Suc i * unat (h_phentsize h) \<le> unat (h_phnum h) * unat (h_phentsize h)" using assms(5) by (intro mult_right_mono) auto
  then have b: "unat (h_phoff h) + i * unat (h_phentsize h) + 32 \<le> length img" using assms(3,4) by simp
  then have u: "unat (of_nat (i * unat (h_phentsize h)) :: u32) = i * unat (h_phentsize h)" using assms(2) by (intro unat_of_nat_small) simp
  have "unat (h_phoff h + of_nat (i * unat (h_phentsize h))) = unat (h_phoff h) + i * unat (h_phentsize h)"
    using b assms(2) u by (subst unat_plus_small) simp_all
  then show ?thesis using b by (simp add: elf_phdr_def Let_def)
qed

lemma elf_check_loop_total: "\<forall>i \<in> set is. elf_phdr img h i \<noteq> None \<Longrightarrow> elf_check_loop img h is \<noteq> None"
  by (induction "is") (auto simp: Let_def split: option.splits)

lemma elf_table_size:
  fixes n k :: "16 word" and a :: u32
  assumes "unat a + unat n * unat k < 2 ^ 32"
  shows "unat (a + ucast n * ucast k) = unat a + unat n * unat k"
proof -
  have u: "unat (ucast w :: u32) = unat w" for w :: "16 word"
  proof -
    have "unat w < 65536" using unsigned_less [of w] by simp
    then show ?thesis by (simp add: unsigned_ucast_eq take_bit_nat_eq_self)
  qed
  have "unat (ucast n * ucast k :: u32) = unat n * unat k" using assms by (subst unat_times_small) (simp_all add: u)
  then show ?thesis using assms by (subst unat_plus_small) simp_all
qed

lemma elf_validate_total:
  assumes "length img < 2 ^ 32" "unat (h_phoff (elf_hdr img)) + unat (h_phnum (elf_hdr img)) * unat (h_phentsize (elf_hdr img)) < 2 ^ 32"
  shows "elf_validate img \<noteq> None"
proof -
  let ?h = "elf_hdr img"
  have "elf_check_loop img ?h [0..<unat (h_phnum ?h)] \<noteq> None"
    if "\<not> length img < 52" "\<not> h_phoff ?h + ucast (h_phnum ?h) * ucast (h_phentsize ?h) > of_nat (length img)" "\<not> unat (h_phentsize ?h) < 32"
    using that assms(1) elf_table_size [OF assms(2)] unat_of_nat_small [where 'a = 32, of "length img"]
    by (intro elf_check_loop_total ballI elf_table_inside) (auto simp: word_less_nat_alt)
  then show ?thesis by (simp add: elf_validate_def Let_def)
qed

text \<open>A program of one segment of two file bytes and two zero bytes; the argument is the offset of the table.\<close>

definition sample_elf :: "bytes \<Rightarrow> bytes" where
  "sample_elf phoff = [0x7F, 0x45, 0x4C, 0x46, 1, 1, 0, 0, 0, 0, 0, 0, 0, 0, 0, 0, 2, 0, 3, 0, 1, 0, 0, 0, 0, 0x80, 4, 8] @ phoff @
     [0, 0, 0, 0, 0, 0, 0, 0, 52, 0, 32, 0, 1, 0, 0, 0, 0, 0, 0, 0,
      1, 0, 0, 0, 84, 0, 0, 0, 0, 0x80, 4, 8, 0, 0, 0, 0, 2, 0, 0, 0, 4, 0, 0, 0, 5, 0, 0, 0, 0, 16, 0, 0, 0xAB, 0xCD]"

lemma sample_hdr:
  "elf_hdr (sample_elf [52, 0, 0, 0]) = \<lparr>ident = [0x7F, 0x45, 0x4C, 0x46, 1, 1, 0, 0, 0, 0, 0, 0, 0, 0, 0, 0], h_type = 2, h_machine = 3,
     h_version = 1, h_entry = 0x08048000, h_phoff = 52, h_shoff = 0, h_flags = 0, h_ehsize = 52, h_phentsize = 32, h_phnum = 1,
     h_shentsize = 0, h_shnum = 0, h_shstrndx = 0\<rparr>"
  "elf_hdr (sample_elf [0xF0, 0xFF, 0xFF, 0xFF]) = (elf_hdr (sample_elf [52, 0, 0, 0]))\<lparr>h_phoff := 0xFFFFFFF0\<rparr>"
  by (simp_all add: elf_hdr_def sample_elf_def elf_u16_def elf_u32_def le32_def)

lemma sample_phdr:
  "elf_phdr (sample_elf [52, 0, 0, 0]) (elf_hdr (sample_elf [52, 0, 0, 0])) 0 =
     Some \<lparr>p_type = 1, p_offset = 84, p_vaddr = 0x08048000, p_paddr = 0, p_filesz = 2, p_memsz = 4, p_flags = 5, p_align = 4096\<rparr>"
  unfolding sample_hdr elf_phdr_def by (simp add: Let_def sample_elf_def elf_u32_def le32_def)

lemma sample_elf_ok:
  "elf_validate (sample_elf [52, 0, 0, 0]) = Some 0" "elf_validate (sample_elf [0xF0, 0xFF, 0xFF, 0xFF]) = None"
  "elf_segs (sample_elf [52, 0, 0, 0]) = [\<lparr>p_type = 1, p_offset = 84, p_vaddr = 0x08048000, p_paddr = 0, p_filesz = 2, p_memsz = 4, p_flags = 5, p_align = 4096\<rparr>]"
  "\<And>b. length (sample_elf b) = 82 + length b"
proof -
  show l: "length (sample_elf b) = 82 + length b" for b by (simp add: sample_elf_def)
  show "elf_validate (sample_elf [52, 0, 0, 0]) = Some 0"
    using sample_phdr by (simp add: elf_validate_def l sample_hdr(1) Let_def VBASE_def elf_check_seg_def)
  show "elf_validate (sample_elf [0xF0, 0xFF, 0xFF, 0xFF]) = None"
    by (simp add: elf_validate_def l sample_hdr Let_def VBASE_def elf_phdr_def)
  show "elf_segs (sample_elf [52, 0, 0, 0]) = [\<lparr>p_type = 1, p_offset = 84, p_vaddr = 0x08048000, p_paddr = 0, p_filesz = 2, p_memsz = 4, p_flags = 5, p_align = 4096\<rparr>]"
    using sample_phdr by (simp add: elf_segs_def sample_hdr(1) Let_def is_load_def)
qed

theorem elf_load_image_witness:
  "\<exists>st st'. elf_load (sample_elf [52, 0, 0, 0]) True st = Some (0, Some 0x08048000, st') \<and>
     map (user_byte st') [0x08047FFF, 0x08048000, 0x08048001, 0x08048002, 0x08048FFF, 0x08049000] = [None, Some 0xAB, Some 0xCD, Some 0, Some 0, None]"
proof -
  let ?img = "sample_elf [52, 0, 0, 0]"
  obtain r :: bytes where r: "length r = 28671" using Ex_list_of_length by blast
  let ?s = "\<lparr>bitmap = 1 # r, total_pages = 2, used_pages = 1\<rparr> :: pmm"
  let ?st = "\<lparr>e_pmm = ?s, e_mem = (\<lambda>_. 7), e_pages = [], e_maps = []\<rparr>"
  have t: "bitmap_test (1 # r) 0" "\<not> bitmap_test (1 # r) (Suc 0)" by (simp_all add: bitmap_test_def)
  have "i \<in> used_set ?s \<longleftrightarrow> i \<in> {0}" for i using t less_2_cases [of i] by (auto simp: used_set_def)
  then have u: "used_set ?s = {0}" by blast
  have w: "pmm_wf ?s" unfolding pmm_wf_def u using r t by (simp add: BITMAP_SIZE_def MAX_RAM_PAGES_def)
  have n: "elf_needs ?img = {0x8048}" by (auto simp: elf_needs_def sample_elf_ok(3) seg_covers_def)
  have h: "h_entry (elf_hdr ?img) = 0x08048000" by (simp add: sample_hdr)
  obtain st' where st': "elf_load ?img True ?st = Some (0, Some 0x08048000, st')" "user_byte st' = elf_image ?img"
    using elf_load_image [OF sample_elf_ok(1), of ?st, unfolded h] w by (auto simp: n sample_elf_ok(4))
  have "map (elf_image ?img) [0x08047FFF, 0x08048000, 0x08048001, 0x08048002, 0x08048FFF, 0x08049000] = [None, Some 0xAB, Some 0xCD, Some 0, Some 0, None]"
    by (simp add: elf_image_def sample_elf_ok(3) seg_covers_def in_file_def) (simp add: sample_elf_def)
  then show ?thesis using st' by metis
qed

text \<open>C39. The check of an image is sound, and it does not read outside the image when the program header table does
  not wrap around the address space. An image that passes has its entry point in user memory and every loadable
  segment inside user memory and inside the file. The condition on the table is needed: its end is computed in 32 bits,
  so a table at the top of the address space passes the bound and is read before the image.\<close>

theorem elf_validate_sound:
  assumes "length img < 2 ^ 32"
  shows "(unat (h_phoff (elf_hdr img)) + unat (h_phnum (elf_hdr img)) * unat (h_phentsize (elf_hdr img)) < 2 ^ 32 \<longrightarrow> elf_validate img \<noteq> None) \<and>
    (elf_validate img = Some 0 \<longrightarrow> h_entry (elf_hdr img) < VBASE \<and> (\<forall>p \<in> set (elf_segs img). seg_ok (length img) p)) \<and>
    (\<exists>bad. length bad = 86 \<and> elf_validate bad = None)"
  using elf_validate_total [OF assms] elf_validate_loop(2) [of img] elf_segs_ok [OF _ assms] sample_elf_ok(2) sample_elf_ok(4) [of "[0xF0, 0xFF, 0xFF, 0xFF]"]
  by auto

theorem elf_validate_sound_witness:
  "h_entry (elf_hdr (sample_elf [52, 0, 0, 0])) < VBASE \<and> seg_ok 86 (hd (elf_segs (sample_elf [52, 0, 0, 0])))"
  using elf_validate_sound [of "sample_elf [52, 0, 0, 0]"] by (simp add: sample_elf_ok)

end
