(* ===== verification/Tls.thy ===== *)
theory Tls
  imports Hkdf
begin

text \<open>
  The TLS 1.3 wire format and key schedule (\<open>src/crypto/tls_record.c\<close>, \<open>tls_keysched.c\<close>). A
  call that fills a buffer and returns a code is a pair of the code and the buffer as it is left.
\<close>

unbundle bit_operations_syntax

subsection \<open>Records\<close>

definition TLS_CT_CHANGE_CIPHER_SPEC :: u8 where "TLS_CT_CHANGE_CIPHER_SPEC = 20"
definition TLS_CT_ALERT :: u8 where "TLS_CT_ALERT = 21"
definition TLS_CT_HANDSHAKE :: u8 where "TLS_CT_HANDSHAKE = 22"
definition TLS_CT_APPDATA :: u8 where "TLS_CT_APPDATA = 23"
definition TLS_VERSION_TLS12 :: u16 where "TLS_VERSION_TLS12 = 0x0303"
definition TLS_VERSION_TLS13 :: u16 where "TLS_VERSION_TLS13 = 0x0304"
definition TLS_RECORD_MAX_PAYLOAD :: nat where "TLS_RECORD_MAX_PAYLOAD = 16640"

lemmas tls_consts = TLS_CT_CHANGE_CIPHER_SPEC_def TLS_CT_ALERT_def TLS_CT_HANDSHAKE_def
  TLS_CT_APPDATA_def TLS_VERSION_TLS12_def TLS_VERSION_TLS13_def TLS_RECORD_MAX_PAYLOAD_def

text \<open>\<open>payload\<close> is the view \<open>buf + 5\<close> into the caller's buffer: all that follows the header.\<close>

record tls_record =
  rec_type :: u8
  rec_version :: u16
  rec_payload :: bytes
  rec_payload_len :: u32

definition tls_record_build :: "u8 \<Rightarrow> bytes \<Rightarrow> bytes \<Rightarrow> nat \<times> bytes" where
  "tls_record_build type payload out =
     (let n = length payload; len = of_nat n :: u32
      in if TLS_RECORD_MAX_PAYLOAD < n then (0, out)
         else (5 + n,
               blit out 0 ([type, ucast (drop_bit 8 TLS_VERSION_TLS12 AND 0xff),
                            ucast (TLS_VERSION_TLS12 AND 0xff),
                            ucast (drop_bit 8 len AND 0xff), ucast (len AND 0xff)] @ payload)))"

definition tls_record_parse_header :: "bytes \<Rightarrow> tls_record option" where
  "tls_record_parse_header buf =
     (if length buf < 5 then None
      else let type = buf ! 0
        in if type \<noteq> TLS_CT_CHANGE_CIPHER_SPEC \<and> type \<noteq> TLS_CT_ALERT \<and>
              type \<noteq> TLS_CT_HANDSHAKE \<and> type \<noteq> TLS_CT_APPDATA then None
           else let version = push_bit 8 (ucast (buf ! 1)) OR ucast (buf ! 2) :: u16
             in if version \<noteq> TLS_VERSION_TLS12 \<and> version \<noteq> TLS_VERSION_TLS13 then None
                else let plen = push_bit 8 (ucast (buf ! 3)) OR ucast (buf ! 4) :: u32
                  in if TLS_RECORD_MAX_PAYLOAD < unat plen then None
                     else Some \<lparr>rec_type = type, rec_version = version,
                                rec_payload = drop 5 buf, rec_payload_len = plen\<rparr>)"

subsection \<open>Key schedule\<close>

text \<open>The \<open>HkdfLabel\<close> structure as \<open>tls_hkdf_expand_label\<close> lays it out in \<open>info\<close>.\<close>

definition hkdf_label :: "bytes \<Rightarrow> bytes \<Rightarrow> nat \<Rightarrow> bytes" where
  "hkdf_label label context out_len =
     [ucast (drop_bit 8 (of_nat out_len :: u32)), ucast (of_nat out_len AND 0xff :: u32),
      of_nat (6 + length label)] @
     ascii ''tls13 '' @ label @ [of_nat (length context)] @ context"

definition tls_hkdf_expand_label :: "bytes \<Rightarrow> bytes \<Rightarrow> bytes \<Rightarrow> nat \<Rightarrow> int \<times> bytes" where
  "tls_hkdf_expand_label secret label context out_len =
     (if 6 + length label > 255 \<or> length context > 255 \<or>
         2 + 1 + 6 + length label + 1 + length context > 256 \<or> out_len > 255 * 32
      then (-1, replicate out_len 0)
      else case hkdf_expand secret (hkdf_label label context out_len) out_len of
             None \<Rightarrow> (-1, replicate out_len 0)
           | Some okm \<Rightarrow> (0, okm))"

text \<open>\<open>ikm == NULL\<close> is \<open>None\<close>.\<close>

definition tls_early_secret :: "bytes option \<Rightarrow> bytes" where
  "tls_early_secret ikm =
     hkdf_extract (replicate 32 0) (case ikm of None \<Rightarrow> replicate 32 0 | Some k \<Rightarrow> k)"

definition tls_derive_secret :: "bytes \<Rightarrow> int \<times> bytes" where
  "tls_derive_secret secret =
     tls_hkdf_expand_label secret (ascii ''derived'') (sha256 []) 32"

definition tls_handshake_secret :: "bytes \<Rightarrow> bytes \<Rightarrow> bytes" where
  "tls_handshake_secret derived shared = hkdf_extract derived shared"

definition tls_master_secret :: "bytes \<Rightarrow> bytes" where
  "tls_master_secret derived2 = hkdf_extract derived2 (replicate 32 0)"

definition tls_traffic_secret :: "bytes \<Rightarrow> bytes \<Rightarrow> bytes \<Rightarrow> int \<times> bytes" where
  "tls_traffic_secret base_secret label transcript_hash =
     tls_hkdf_expand_label base_secret label transcript_hash 32"

definition tls_finished_key :: "bytes \<Rightarrow> int \<times> bytes" where
  "tls_finished_key traffic_secret =
     tls_hkdf_expand_label traffic_secret (ascii ''finished'') [] 32"

definition tls_record_key :: "bytes \<Rightarrow> int \<times> bytes" where
  "tls_record_key traffic_secret = tls_hkdf_expand_label traffic_secret (ascii ''key'') [] 32"

definition tls_record_key_len :: "bytes \<Rightarrow> nat \<Rightarrow> int \<times> bytes" where
  "tls_record_key_len traffic_secret key_len =
     tls_hkdf_expand_label traffic_secret (ascii ''key'') [] key_len"

definition tls_record_iv :: "bytes \<Rightarrow> int \<times> bytes" where
  "tls_record_iv traffic_secret = tls_hkdf_expand_label traffic_secret (ascii ''iv'') [] 12"

subsection \<open>Lemmas\<close>

lemma byte_split16:
  "push_bit 8 (ucast (ucast (drop_bit 8 w AND 0xff) :: u8)) OR ucast (ucast (w AND 0xff) :: u8) =
     (take_bit 16 w :: u32)" for w :: u32
proof -
  have ff: "(0xff :: u32) = mask 8" by (simp add: mask_eq_exp_minus_1)
  show ?thesis unfolding ff by (rule bit_word_eqI) (auto simp: bit_simps)
qed

lemma two_bytes:
  assumes "n < 65536"
  shows "unat (push_bit 8 (ucast (ucast (drop_bit 8 (of_nat n :: u32) AND 0xff) :: u8)) OR
      ucast (ucast (of_nat n AND 0xff :: u32) :: u8) :: u32) = n"
  using assms unfolding byte_split16
  by (simp only: unsigned_take_bit_eq unat_of_nat) (simp add: take_bit_eq_mod)

lemma unat_be16:
  fixes a b :: u8
  assumes "16 \<le> LENGTH('l)"
  shows "unat (push_bit 8 (ucast a) OR ucast b :: 'l::len word) = 256 * unat a + unat b"
proof -
  have l: "(2 :: nat) ^ 16 \<le> 2 ^ LENGTH('l)" using assms by (intro power_increasing) auto
  have u: "unat x < 256" for x :: u8 using unsigned_less [of x] by simp
  have c: "unat (ucast x :: 'l word) = unat x" for x :: u8
    using u [of x] l by (simp add: unsigned_ucast_eq take_bit_eq_mod)
  have "unat a * 256 < 2 ^ LENGTH('l)" using u [of a] l by simp
  then show ?thesis
    using unat_or_push_bit [of "ucast b :: 'l word" 8 "ucast a"] u [of b]
    by (simp add: or.commute unat_push_bit c)
qed

lemma be16_eq:
  "(push_bit 8 (ucast a) OR ucast b :: u16) = 0x0303 \<longleftrightarrow> a = 3 \<and> b = 3"
  "(push_bit 8 (ucast a) OR ucast b :: u16) = 0x0304 \<longleftrightarrow> a = 3 \<and> b = 4" for a b :: u8
proof -
  have u: "unat x < 256" for x :: u8 using unsigned_less [of x] by simp
  have e: "x = of_nat n \<longleftrightarrow> unat x = n" if "n < 256" for x :: u8 and n
    using that by (auto simp: word_unat_eq_iff unat_of_nat)
  have v: "w = of_nat n \<longleftrightarrow> unat w = n" if "n < 65536" for w :: u16 and n
    using that by (auto simp: word_unat_eq_iff unat_of_nat)
  show "(push_bit 8 (ucast a) OR ucast b :: u16) = 0x0303 \<longleftrightarrow> a = 3 \<and> b = 3"
    "(push_bit 8 (ucast a) OR ucast b :: u16) = 0x0304 \<longleftrightarrow> a = 3 \<and> b = 4"
    using v [of 771 "push_bit 8 (ucast a) OR ucast b"] v [of 772 "push_bit 8 (ucast a) OR ucast b"]
      e [of 3 a] e [of 3 b] e [of 4 b] u [of a] u [of b] unat_be16 [where 'l = 16, of a b]
    by auto
qed

lemma length_expand_label: "length (snd (tls_hkdf_expand_label secret label context n)) = n"
  by (simp add: tls_hkdf_expand_label_def hkdf_expand_def hkdf_loop_take del: hkdf_chain.simps)

lemma expand_label_cases:
  "tls_hkdf_expand_label secret label context n =
     (if length label + length context \<le> 246 \<and> n \<le> 8160
      then (0, take n (hkdf_chain secret (hkdf_label label context n) 255))
      else (-1, replicate n 0))"
  by (auto simp: tls_hkdf_expand_label_def hkdf_expand_def hkdf_loop_take simp del: hkdf_chain.simps)

lemma length_sha256: "length (sha256 m) = 32"
  using sha256_one(1) [OF length_fresh_buf, of m] by (simp add: sha256_def)

lemma of_nat_u8_inj: "m < 256 \<Longrightarrow> n < 256 \<Longrightarrow> (of_nat m :: u8) = of_nat n \<longleftrightarrow> m = n"
  by (auto simp: word_unat_eq_iff unat_of_nat)

lemma len16_inj:
  assumes "m < 65536" "n < 65536"
    "ucast (drop_bit 8 (of_nat m :: u32)) = (ucast (drop_bit 8 (of_nat n :: u32)) :: u8)"
    "ucast (of_nat m AND 0xff :: u32) = (ucast (of_nat n AND 0xff :: u32) :: u8)"
  shows "m = n"
proof -
  have d: "ucast (w AND 0xff) = (ucast w :: u8)" for w :: u32
  proof -
    have ff: "(0xff :: u32) = mask 8" by (simp add: mask_eq_exp_minus_1)
    show ?thesis unfolding ff by (rule bit_word_eqI) (auto simp: bit_simps)
  qed
  have "ucast (drop_bit 8 (of_nat m :: u32) AND 0xff) = (ucast (drop_bit 8 (of_nat n :: u32) AND 0xff) :: u8)"
    unfolding d by (rule assms(3))
  note e = two_bytes [OF assms(1), unfolded this assms(4)]
  show ?thesis by (rule trans [OF e [symmetric] two_bytes [OF assms(2)]])
qed

lemma hkdf_label_inj:
  assumes "length label + length context \<le> 246" "length label' + length context' \<le> 246"
    and "n \<le> 8160" "n' \<le> 8160" "hkdf_label label context n = hkdf_label label' context' n'"
  shows "label = label' \<and> context = context' \<and> n = n'"
proof -
  note e = assms(5) [unfolded hkdf_label_def append_Cons append_Nil list.inject]
  have n: "n = n'" using e assms(3,4) by (intro len16_inj) auto
  have l: "length label = length label'"
    using e assms(1,2) of_nat_u8_inj [of "6 + length label" "6 + length label'"] by auto
  from e have "label @ of_nat (length context) # context = label' @ of_nat (length context') # context'"
    by (simp only: same_append_eq)
  then have "label = label' \<and> context = context'" using l by auto
  with n show ?thesis by blast
qed

subsection \<open>Properties\<close>

text \<open>The parser leaves a pointer behind the header in the record, not the null pointer its header file promises.\<close>

lemma tls_record_view: "tls_record_parse_header buf = Some r \<Longrightarrow> rec_payload r = drop 5 buf"
  by (auto simp: tls_record_parse_header_def Let_def split: if_splits)

text \<open>C29. A record built from a payload of at most 16640 bytes, with one of the four content types, into a buffer with room for it:
  the returned length is 5 plus the payload's, the bytes behind the record are left alone, and the header parses from the first
  five bytes or any longer read of the buffer, and from no shorter one, to the record's type, version 3.3 and the payload's
  length; that many bytes behind the header are the payload. A longer payload is refused with nothing written. (What the
  parser leaves in \<open>rec->payload\<close>, against the comment in the header file, is the lemma before.)\<close>

theorem tls_record_roundtrip:
  assumes "type \<in> {20, 21, 22, 23}" and "5 + length payload \<le> length out"
  shows "case tls_record_build type payload out of (n, buf) \<Rightarrow>
    if length payload \<le> 16640
    then n = 5 + length payload \<and> length buf = length out \<and> drop n buf = drop n out \<and>
      (\<forall>m < 5. tls_record_parse_header (take m buf) = None) \<and>
      (\<forall>m \<ge> 5. \<exists>r. tls_record_parse_header (take m buf) = Some r \<and> rec_type r = type \<and> rec_version r = 0x0303 \<and>
         unat (rec_payload_len r) = length payload \<and> take (unat (rec_payload_len r)) (drop 5 buf) = payload)
    else n = 0 \<and> buf = out"
proof (cases "length payload \<le> 16640")
  case True
  have "\<exists>r. tls_record_parse_header (take m (snd (tls_record_build type payload out))) = Some r \<and> rec_type r = type \<and> rec_version r = 0x0303 \<and>
      unat (rec_payload_len r) = length payload" if "5 \<le> m" for m
    using assms two_bytes [of "length payload"] True that
    by (auto simp: tls_record_build_def tls_record_parse_header_def Let_def tls_consts blit_0
        drop_bit_numeral_bit1)
  moreover have "take (length payload) (drop 5 (snd (tls_record_build type payload out))) = payload"
    "fst (tls_record_build type payload out) = 5 + length payload" "length (snd (tls_record_build type payload out)) = length out"
    using assms True by (simp_all add: tls_record_build_def Let_def tls_consts blit_0)
  moreover have "drop (5 + length payload) (snd (tls_record_build type payload out)) = drop (5 + length payload) out"
    using assms True by (simp add: tls_record_build_def Let_def tls_consts blit_0 numeral_eq_Suc)
  moreover have "tls_record_parse_header (take m buf) = None" if "m < 5" for m buf
    using that by (simp add: tls_record_parse_header_def min_less_iff_disj)
  ultimately show ?thesis using True by (simp add: split_beta) metis
next
  case False
  then show ?thesis using assms by (simp add: tls_record_build_def Let_def tls_consts)
qed

theorem tls_record_roundtrip_witness:
  "case tls_record_build 22 [7, 8] (replicate 9 1) of (n, buf) \<Rightarrow>
    n = 7 \<and> length buf = 9 \<and> (\<exists>r. tls_record_parse_header (take 5 buf) = Some r \<and> rec_type r = 22 \<and> take 2 (drop 5 buf) = [7, 8])"
  using tls_record_roundtrip [of 22 "[7, 8]" "replicate 9 1"] by (simp add: split_beta) (metis order_refl numeral_2_eq_2)

text \<open>The header parser accepts exactly the buffers of at least five bytes with one of the four
  content types, version 0x0303 or 0x0304 and a length of at most 16640.\<close>

theorem tls_record_parse_accepts:
  "(\<exists>r. tls_record_parse_header buf = Some r) \<longleftrightarrow>
     5 \<le> length buf \<and> buf ! 0 \<in> {20, 21, 22, 23} \<and> buf ! 1 = 3 \<and> buf ! 2 \<in> {3, 4} \<and>
     256 * unat (buf ! 3) + unat (buf ! 4) \<le> 16640"
  by (auto simp: tls_record_parse_header_def Let_def tls_consts be16_eq unat_be16)

text \<open>Expanding a label succeeds exactly when label, context and output length fit the
  \<open>HkdfLabel\<close> structure and HKDF; the output is then the HKDF chain over that structure, and it
  is all zeros otherwise. Every output has the requested length.\<close>

theorem tls_expand_label_result:
  "tls_hkdf_expand_label secret label context n =
     (if length label + length context \<le> 246 \<and> n \<le> 8160
      then (0, take n (hkdf_chain secret (hkdf_label label context n) 255))
      else (-1, replicate n 0))
   \<and> length (snd (tls_hkdf_expand_label secret label context n)) = n"
  by (simp add: expand_label_cases length_expand_label del: hkdf_chain.simps)

text \<open>The framing is unambiguous: two label expansions that pass the bounds feed HKDF the same
  bytes only when label, context and output length are all the same, so differently labelled
  keys never share an HKDF input.\<close>

theorem tls_label_separation:
  assumes "fst (tls_hkdf_expand_label secret label context n) = 0"
    and "fst (tls_hkdf_expand_label secret label' context' n') = 0"
    and "hkdf_label label context n = hkdf_label label' context' n'"
  shows "label = label' \<and> context = context' \<and> n = n'"
  using assms by (intro hkdf_label_inj) (auto simp: expand_label_cases split: if_splits)

theorem tls_label_separation_witness:
  "ascii ''key'' = ascii ''key'' \<and> ([] :: bytes) = [] \<and> (32 :: nat) = 32"
  by (rule tls_label_separation [of "[]"]) (simp_all add: expand_label_cases del: hkdf_chain.simps)

text \<open>The handshake's key derivations cannot fail: every fixed-label derivation returns 0, with
  secrets and keys of 32 bytes and an IV of 12; a traffic secret succeeds for every label of up to
  214 characters over a 32-byte transcript hash, and the record key of a chosen length for every
  length HKDF can serve.\<close>

theorem tls_schedule_total:
  "fst (tls_derive_secret s) = 0 \<and> length (snd (tls_derive_secret s)) = 32 \<and>
   fst (tls_finished_key s) = 0 \<and> length (snd (tls_finished_key s)) = 32 \<and>
   fst (tls_record_key s) = 0 \<and> length (snd (tls_record_key s)) = 32 \<and>
   fst (tls_record_iv s) = 0 \<and> length (snd (tls_record_iv s)) = 12 \<and>
   (fst (tls_traffic_secret s label (sha256 m)) = 0 \<longleftrightarrow> length label \<le> 214) \<and>
   (fst (tls_record_key_len s k) = 0 \<longleftrightarrow> k \<le> 8160) \<and>
   length (tls_early_secret ikm) = 32 \<and> length (tls_handshake_secret s shared) = 32 \<and>
   length (tls_master_secret s) = 32"
  by (simp add: tls_derive_secret_def tls_finished_key_def tls_record_key_def tls_record_iv_def
      tls_traffic_secret_def tls_record_key_len_def tls_early_secret_def tls_handshake_secret_def
      tls_master_secret_def hkdf_extract_def hmac_sha256_spec expand_label_cases length_sha256
      del: hkdf_chain.simps) 

end
