(* ===== verification/Der.thy ===== *)
theory Der
  imports Prelude
begin

text \<open>
  The DER walker (\<open>src/crypto/der.c\<close>). The cursor \<open>*off\<close> is returned by every call, also by the
  failing ones, which leave it where they stopped. Offsets are the C code's \<open>uint32_t\<close> read as
  numbers: every advance is guarded by the buffer's length, itself a \<open>uint32_t\<close>, so none wraps;
  the length being decoded keeps its 32-bit width.
\<close>

unbundle bit_operations_syntax

subsection \<open>The model\<close>

text \<open>\<open>content\<close> is the view into the source buffer, with exactly \<open>content_len\<close> bytes.\<close>

record der_node =
  der_tag :: u8
  der_content :: bytes
  der_content_len :: u32

text \<open>\<open>for (i = 0; i < n; i++) len = (len << 8) | buf[( *off)++]\<close>\<close>

fun der_len_bytes :: "bytes \<Rightarrow> nat \<Rightarrow> nat \<Rightarrow> u32 \<Rightarrow> nat \<times> u32" where
  "der_len_bytes buf off 0 len = (off, len)"
| "der_len_bytes buf off (Suc n) len =
     der_len_bytes buf (off + 1) n (push_bit 8 len OR ucast (buf ! off))"

definition der_read_len :: "bytes \<Rightarrow> nat \<Rightarrow> nat \<times> u32 option" where
  "der_read_len buf off =
     (if length buf \<le> off then (off, None)
      else let b = buf ! off; off = off + 1
        in if b < 0x80 then (off, Some (ucast b))
           else if b = 0x80 then (off, None)
           else let n = unat (b AND 0x7F)
             in if n > 4 then (off, None)
                else if length buf - off < n then (off, None)
                else let (off, len) = der_len_bytes buf off n 0
                  in if buf ! (off - n) = 0 then (off, None)
                     else if n = 1 \<and> len < 0x80 then (off, None)
                     else (off, Some len))"

definition der_next :: "bytes \<Rightarrow> nat \<Rightarrow> nat \<times> der_node option" where
  "der_next buf off =
     (if length buf \<le> off then (off, None)
      else let tag = buf ! off; off = off + 1
        in if tag AND 0x1F = 0x1F then (off, None)
           else case der_read_len buf off of
               (off, None) \<Rightarrow> (off, None)
             | (off, Some len) \<Rightarrow>
                 if length buf - off < unat len then (off, None)
                 else (off + unat len,
                       Some \<lparr>der_tag = tag, der_content = take (unat len) (drop off buf),
                             der_content_len = len\<rparr>))"

definition der_expect :: "bytes \<Rightarrow> nat \<Rightarrow> u8 \<Rightarrow> nat \<times> der_node option" where
  "der_expect buf off tag =
     (if length buf \<le> off then (off, None)
      else if buf ! off \<noteq> tag then (off, None)
      else der_next buf off)"

definition der_is_constructed :: "der_node \<Rightarrow> bool" where
  "der_is_constructed n \<longleftrightarrow> der_tag n AND 0x20 \<noteq> 0"

text \<open>\<open>raw\<close> is a pointer to at least \<open>len\<close> bytes.\<close>

definition der_content_eq :: "der_node \<Rightarrow> bytes \<Rightarrow> nat \<Rightarrow> bool" where
  "der_content_eq n raw len \<longleftrightarrow>
     unat (der_content_len n) = len \<and> (\<forall>i \<in> set [0..<len]. der_content n ! i = raw ! i)"

subsection \<open>Specification: the distinguished encoding\<close>

text \<open>Big-endian digits without leading zeros, and the one length encoding DER allows.\<close>

fun be_digits :: "nat \<Rightarrow> bytes" where
  "be_digits n = (if n = 0 then [] else be_digits (n div 256) @ [of_nat n])"

declare be_digits.simps [simp del]

definition der_enc_len :: "nat \<Rightarrow> bytes" where
  "der_enc_len n = (if n < 128 then [of_nat n] else of_nat (128 + length (be_digits n)) # be_digits n)"

definition der_enc :: "u8 \<Rightarrow> bytes \<Rightarrow> bytes" where
  "der_enc tag content = tag # der_enc_len (length content) @ content"

fun be_val :: "nat \<Rightarrow> bytes \<Rightarrow> nat" where
  "be_val a [] = a"
| "be_val a (b # bs) = be_val (256 * a + unat b) bs"

subsection \<open>Lemmas\<close>

lemma be_val_snoc: "be_val a (bs @ [b]) = 256 * be_val a bs + unat b"
  by (induction bs arbitrary: a) auto

lemma be_val_add: "be_val a bs = a * 256 ^ length bs + be_val 0 bs"
proof (induction bs arbitrary: a)
  case (Cons b bs)
  show ?case using Cons [of "256 * a + unat b"] Cons [of "unat b"] by (simp add: algebra_simps)
qed simp

lemma be_val_bound: "be_val 0 bs < 256 ^ length bs"
proof (induction bs rule: rev_induct)
  case (snoc b bs)
  have "unat b < 256" using unsigned_less [of b] by simp
  with snoc show ?case by (simp add: be_val_snoc)
qed simp

lemma be_val_digits: "be_val 0 (be_digits n) = n"
proof (induction n rule: be_digits.induct)
  case (1 n)
  then show ?case by (subst be_digits.simps) (simp add: be_val_snoc unat_of_nat)
qed

lemma be_digits_hd: "0 < n \<Longrightarrow> be_digits n \<noteq> [] \<and> hd (be_digits n) \<noteq> 0"
proof (induction n rule: be_digits.induct)
  case (1 n)
  show ?case
  proof (cases "n div 256 = 0")
    case True
    then have "n < 256" by simp
    then have "(of_nat n :: u8) \<noteq> 0" using 1(2) by (simp add: word_unat_eq_iff unat_of_nat)
    then show ?thesis using 1(2) True by (subst (1 2) be_digits.simps) (simp add: be_digits.simps [of 0])
  next
    case False
    then show ?thesis using 1 by (subst (1 2) be_digits.simps) auto
  qed
qed

lemma be_digits_val: "bs = [] \<or> hd bs \<noteq> 0 \<Longrightarrow> be_digits (be_val 0 bs) = bs"
proof (induction bs rule: rev_induct)
  case (snoc b bs)
  have b: "unat b < 256" using unsigned_less [of b] by simp
  have pos: "be_val 0 (bs @ [b]) \<noteq> 0"
  proof (cases bs)
    case Nil
    with snoc(2) show ?thesis by (simp add: unat_eq_zero)
  next
    case (Cons x xs)
    then have "unat x \<noteq> 0" using snoc(2) by (simp add: unat_eq_zero)
    then show ?thesis using Cons be_val_add [of "unat x" xs] by (simp add: be_val_snoc)
  qed
  have "(of_nat (256 * be_val 0 bs + unat b) :: u8) = b"
    using b by (simp only: word_unat_eq_iff unat_of_nat) simp
  moreover have "bs = [] \<or> hd bs \<noteq> 0" using snoc(2) by (cases bs) auto
  ultimately show ?case
    using pos snoc(1) b by (subst be_digits.simps) (simp add: be_val_snoc)
qed (simp add: be_digits.simps)

lemma be_digits_length: "length (be_digits n) \<le> k \<longleftrightarrow> n < 256 ^ k"
proof (induction n arbitrary: k rule: be_digits.induct)
  case (1 n)
  show ?case
  proof (cases "n = 0")
    case False
    then show ?thesis
      using 1 by (subst be_digits.simps) (cases k; simp add: div_less_iff_less_mult mult.commute)
  qed (simp add: be_digits.simps)
qed

lemma unat_u8: "unat (b :: u8) < 256"
  using unsigned_less [of b] by simp

lemma unat_shift_in:
  fixes len :: u32 and b :: u8
  assumes "unat len < 2 ^ 24"
  shows "unat (push_bit 8 len OR ucast b) = 256 * unat len + unat b"
proof -
  have "unat (ucast b :: u32) = unat b"
    using unat_u8 [of b] by (simp add: unsigned_ucast_eq take_bit_eq_mod)
  then show ?thesis
    using unat_or_push_bit [of "ucast b :: u32" 8 len] unat_u8 [of b] assms
    by (simp add: or.commute unat_push_bit)
qed

lemma der_len_bytes_val:
  assumes "off + n \<le> length buf" "(unat len + 1) * 256 ^ n \<le> 2 ^ 32"
  shows "\<exists>len'. der_len_bytes buf off n len = (off + n, len') \<and>
    unat len' = be_val (unat len) (take n (drop off buf))"
  using assms
proof (induction n arbitrary: off len)
  case (Suc n)
  have "(unat len + 1) * 256 * 1 \<le> (unat len + 1) * 256 * 256 ^ n"
    by (intro mult_le_mono) auto
  also have "\<dots> \<le> 2 ^ 32" using Suc.prems(2) by (simp add: algebra_simps)
  finally have "unat len < 2 ^ 24" by simp
  note v = unat_shift_in [OF this, of "buf ! off"]
  have "(256 * unat len + unat (buf ! off) + 1) * 256 ^ n \<le> (256 * (unat len + 1)) * 256 ^ n"
    using unat_u8 [of "buf ! off"] by (intro mult_le_mono1) simp
  also have "\<dots> \<le> 2 ^ 32" using Suc.prems(2) by (simp add: algebra_simps)
  finally have "(unat (push_bit 8 len OR ucast (buf ! off)) + 1) * 256 ^ n \<le> 2 ^ 32"
    unfolding v .
  then obtain len' where "der_len_bytes buf (off + 1) n (push_bit 8 len OR ucast (buf ! off)) = (off + 1 + n, len')"
    "unat len' = be_val (unat (push_bit 8 len OR ucast (buf ! off))) (take n (drop (off + 1) buf))"
    using Suc.IH [of "off + 1"] Suc.prems(1) by auto
  moreover have "take (Suc n) (drop off buf) = buf ! off # take n (drop (off + 1) buf)"
    using Suc.prems(1) by (simp add: take_Suc_conv_app_nth Cons_nth_drop_Suc [symmetric])
  ultimately show ?case by (simp add: v)
qed simp

lemma len_octet:
  fixes b :: u8
  assumes "\<not> b < 0x80"
  shows "unat b = 128 + unat (b AND 0x7F)"
proof -
  have "unat (b AND 0x7F) = unat b mod 128"
    using unat_and_mask [of b 7] by (simp add: mask_eq_exp_minus_1)
  moreover have b: "128 \<le> unat b" using assms by (simp add: word_less_nat_alt)
  moreover have "unat b mod 128 = unat b - 128"
    using b unat_u8 [of b] by (simp add: le_mod_geq)
  ultimately show ?thesis by simp
qed

lemma u8_unat_eqI: "unat b = n \<Longrightarrow> b = of_nat n" for b :: u8
  by auto

lemma take_step: "off < length buf \<Longrightarrow> take (Suc n) (drop off buf) = buf ! off # take n (drop (Suc off) buf)"
  by (simp add: Cons_nth_drop_Suc [symmetric])

lemma der_read_len_sound:
  assumes "der_read_len buf off = (off', Some len)"
  shows "off < off' \<and> off' \<le> length buf \<and> take (off' - off) (drop off buf) = der_enc_len (unat len)"
proof -
  let ?b = "buf ! off" and ?n = "unat (buf ! off AND 0x7F)"
  have off: "off < length buf" using assms by (auto simp: der_read_len_def split: if_splits)
  show ?thesis
  proof (cases "?b < 0x80")
    case True
    then have "unat ?b < 128" by (simp add: word_less_nat_alt)
    moreover have "len = ucast ?b" "off' = Suc off"
      using assms True off by (auto simp: der_read_len_def Let_def)
    ultimately show ?thesis
      using off unat_u8 [of ?b] by (simp add: der_enc_len_def take_step unsigned_ucast_eq take_bit_eq_mod)
  next
    case False
    have nb: "?b \<noteq> 0x80" "?n \<le> 4" "?n \<le> length buf - Suc off"
      using assms False off by (auto simp: der_read_len_def Let_def split: if_splits)
    have "?n = 0 \<Longrightarrow> ?b = 0x80" using len_octet [OF False] u8_unat_eqI [of ?b 128] by simp
    with nb have n: "?n \<noteq> 0" "?n \<le> 4" "?n \<le> length buf - Suc off" by blast+
    have "(256 :: nat) ^ ?n \<le> 256 ^ 4" using n(2) by (intro power_increasing) auto
    moreover have "Suc off + ?n \<le> length buf" using n(3) off by linarith
    ultimately obtain len' where l: "der_len_bytes buf (Suc off) ?n 0 = (Suc off + ?n, len')"
      "unat len' = be_val 0 (take ?n (drop (Suc off) buf))"
      using der_len_bytes_val [of "Suc off" ?n buf 0] by auto
    then have r: "buf ! Suc off \<noteq> 0" "\<not> (?n = 1 \<and> len' < 0x80)" "off' = Suc off + ?n" "len' = len"
      using assms False off n by (auto simp: der_read_len_def Let_def split: if_splits)
    let ?bs = "take ?n (drop (Suc off) buf)"
    have bs: "length ?bs = ?n" "hd ?bs \<noteq> 0" "?bs \<noteq> []"
      using n off r(1) by (auto simp: hd_drop_conv_nth)
    have d: "be_digits (unat len) = ?bs" using be_digits_val [of ?bs] bs l r(4) by simp
    have big: "\<not> unat len < 128"
    proof (cases "?n = 1")
      case True
      with r show ?thesis by (simp add: word_less_nat_alt)
    next
      case False
      then have "\<not> length (be_digits (unat len)) \<le> 1" using d bs(1) n(1) by simp
      then show ?thesis by (simp only: be_digits_length) simp
    qed
    have "?b = of_nat (128 + ?n)" by (rule u8_unat_eqI [OF len_octet [OF False]])
    then show ?thesis
      using big d bs(1) r(3) off n(3) by (simp add: der_enc_len_def take_step)
  qed
qed

lemma der_read_len_complete:
  assumes "take k (drop off buf) = der_enc_len n" "k = length (der_enc_len n)" "off + k \<le> length buf"
    and "n < 2 ^ 32"
  shows "der_read_len buf off = (off + k, Some (of_nat n))"
proof (cases "n < 128")
  case True
  then have k: "k = 1" using assms(2) by (simp add: der_enc_len_def)
  then have "buf ! off = of_nat n" using assms(1,3) True by (simp add: der_enc_len_def take_step)
  moreover have "ucast (of_nat n :: u8) = (of_nat n :: u32)"
    using True by (simp add: word_unat_eq_iff unsigned_ucast_eq unat_of_nat take_bit_eq_mod)
  ultimately show ?thesis
    using k assms(3) True by (simp add: der_read_len_def Let_def word_less_nat_alt unat_of_nat)
next
  case False
  let ?d = "be_digits n"
  have "\<not> length ?d \<le> 0" "length ?d \<le> 4" using False assms(4) by (simp_all only: be_digits_length) simp_all
  then have d: "0 < length ?d" "length ?d \<le> 4" "k = Suc (length ?d)"
    using assms(2) False by (simp_all add: der_enc_len_def)
  have b: "buf ! off = of_nat (128 + length ?d)" and bs: "take (length ?d) (drop (Suc off) buf) = ?d"
    using assms(1,3) d(3) False by (simp_all add: der_enc_len_def take_step)
  have ub: "unat (buf ! off) = 128 + length ?d"
    unfolding b using d(2) by (intro unat_of_nat_small) simp
  then have nlt: "\<not> buf ! off < 0x80" by (simp add: word_less_nat_alt)
  have ne: "buf ! off \<noteq> 0x80"
  proof
    assume "buf ! off = 0x80"
    with ub d(1) show False by simp
  qed
  have n: "unat (buf ! off AND 0x7F) = length ?d" using len_octet [OF nlt] ub by simp
  have "(256 :: nat) ^ length ?d \<le> 256 ^ 4" using d(2) by (intro power_increasing) auto
  then obtain len' where l: "der_len_bytes buf (Suc off) (length ?d) 0 = (off + k, len')" "unat len' = n"
    using der_len_bytes_val [of "Suc off" "length ?d" buf 0] assms(3) d(3)
    by (auto simp: bs be_val_digits)
  have len': "len' = of_nat n" using l(2) by auto
  have "Suc off < length buf" using assms(3) d by linarith
  then have "buf ! Suc off = hd ?d" using d(1) by (subst bs [symmetric]) (simp add: hd_drop_conv_nth)
  then have z: "buf ! Suc off \<noteq> 0" using be_digits_hd [of n] False by simp
  have "\<not> len' < 0x80" using l(2) False by (simp add: word_less_nat_alt)
  then show ?thesis
    using nlt ne n d assms(3) l(1) z len' by (simp add: der_read_len_def Let_def)
qed

lemma der_next_sound:
  assumes "der_next buf off = (off', Some nd)"
  shows "off < off' \<and> off' \<le> length buf \<and> unat (der_content_len nd) = length (der_content nd) \<and>
    der_tag nd AND 0x1F \<noteq> 0x1F \<and> take (off' - off) (drop off buf) = der_enc (der_tag nd) (der_content nd)"
proof -
  obtain o1 len where r: "der_read_len buf (Suc off) = (o1, Some len)" and off: "off < length buf"
    and tag: "buf ! off AND 0x1F \<noteq> 0x1F" and fit: "unat len \<le> length buf - o1" and o': "off' = o1 + unat len"
    and nd: "nd = \<lparr>der_tag = buf ! off, der_content = take (unat len) (drop o1 buf), der_content_len = len\<rparr>"
    using assms by (auto simp: der_next_def Let_def split: if_splits prod.splits option.splits)
  note s = der_read_len_sound [OF r]
  have "off' - off = Suc ((o1 - Suc off) + unat len)" using s o' by linarith
  moreover have "take ((o1 - Suc off) + unat len) (drop (Suc off) buf) =
      take (o1 - Suc off) (drop (Suc off) buf) @ take (unat len) (drop o1 buf)"
    using s by (subst take_add) simp
  ultimately have "take (off' - off) (drop off buf) =
      buf ! off # take (o1 - Suc off) (drop (Suc off) buf) @ take (unat len) (drop o1 buf)"
    using take_step [OF off] by metis
  then show ?thesis using s off tag fit o' nd by (auto simp: der_enc_def)
qed

lemma der_next_complete:
  assumes "take k (drop off buf) = der_enc tag content" "k = length (der_enc tag content)"
    and "off + k \<le> length buf" "tag AND 0x1F \<noteq> 0x1F" "length content < 2 ^ 32"
  shows "der_next buf off = (off + k, Some \<lparr>der_tag = tag, der_content = content,
    der_content_len = of_nat (length content)\<rparr>)"
proof -
  let ?l = "der_enc_len (length content)"
  have k: "k = Suc (length ?l + length content)" using assms(2) by (simp add: der_enc_def)
  have e: "buf ! off = tag" "take (length ?l + length content) (drop (Suc off) buf) = ?l @ content"
    using assms(1,3) k by (simp_all add: der_enc_def take_step)
  have "take (length ?l) (take (length ?l + length content) (drop (Suc off) buf)) = ?l"
    "drop (length ?l) (take (length ?l + length content) (drop (Suc off) buf)) = content"
    unfolding e(2) by simp_all
  then have l: "take (length ?l) (drop (Suc off) buf) = ?l"
    and c: "take (length content) (drop (Suc off + length ?l) buf) = content"
    by (simp_all add: drop_take min_def add.commute)
  have "der_read_len buf (Suc off) = (Suc off + length ?l, Some (of_nat (length content)))"
    by (rule der_read_len_complete [OF l refl]) (use assms(3,5) k in simp_all)
  moreover have "unat (of_nat (length content) :: u32) = length content"
    using assms(5) by (intro unat_of_nat_small) simp
  ultimately show ?thesis
    using e(1) assms(3,4) k c by (simp add: der_next_def Let_def add.assoc)
qed

subsection \<open>Properties\<close>

text \<open>C30. The walker accepts only distinguished encodings: when an element is returned, the bytes the
  cursor moved over are the one DER encoding of its tag and content, the content lies inside the
  buffer and has the length reported.\<close>

theorem der_next_canonical:
  assumes "der_next buf off = (off', Some nd)"
  shows "off < off' \<and> off' \<le> length buf \<and> unat (der_content_len nd) = length (der_content nd) \<and>
    take (off' - off) (drop off buf) = der_enc (der_tag nd) (der_content nd)"
  using der_next_sound [OF assms] by simp

theorem der_next_canonical_witness:
  "(0 :: nat) < 4 \<and> 4 \<le> length [9, 2, 7, 8, 1 :: u8] \<and> unat (2 :: u32) = length [7, 8 :: u8] \<and>
    take (4 - 0) (drop 0 [9, 2, 7, 8, 1]) = der_enc 9 [7, 8]"
  using der_next_canonical [of "[9, 2, 7, 8, 1]" 0 4
      "\<lparr>der_tag = 9, der_content = [7, 8], der_content_len = 2\<rparr>"]
  by (simp add: der_next_def der_read_len_def Let_def)

text \<open>Every element with a low tag number encoded in DER anywhere in a buffer is read back with
  its tag and content, and the cursor moves to its end.\<close>

theorem der_next_roundtrip:
  assumes "tag AND 0x1F \<noteq> 0x1F" and "length content < 2 ^ 32"
  shows "der_next (pre @ der_enc tag content @ post) (length pre) =
    (length pre + length (der_enc tag content),
     Some \<lparr>der_tag = tag, der_content = content, der_content_len = of_nat (length content)\<rparr>)"
  using assms by (intro der_next_complete) simp_all

theorem der_next_roundtrip_witness:
  "der_next ([5, 6] @ der_enc 0x30 [1, 2, 3] @ [7]) (length [5, 6 :: u8]) =
    (length [5, 6 :: u8] + length (der_enc 0x30 [1, 2, 3]),
     Some \<lparr>der_tag = 0x30, der_content = [1, 2, 3], der_content_len = of_nat (length [1, 2, 3 :: u8])\<rparr>)"
  by (rule der_next_roundtrip) simp_all

text \<open>Asking for a tag returns what the walker returns when the next byte is that tag, and
  otherwise fails with the cursor where it was, so a caller may try another tag.\<close>

theorem der_expect_cases:
  "der_expect buf off tag =
     (if off < length buf \<and> buf ! off = tag then der_next buf off else (off, None)) \<and>
   (\<forall>nd. snd (der_expect buf off tag) = Some nd \<longrightarrow> der_tag nd = tag \<and>
      (der_content_eq nd raw (length raw) \<longleftrightarrow> der_content nd = raw))"
proof -
  have t: "der_tag nd = buf ! off" if "der_next buf off = (off', Some nd)" for off' nd
    using that by (auto simp: der_next_def Let_def split: if_splits prod.splits option.splits)
  have c: "der_content_eq nd raw (length raw) \<longleftrightarrow> der_content nd = raw"
    if "der_next buf off = (off', Some nd)" for off' nd
  proof -
    have l: "unat (der_content_len nd) = length (der_content nd)" using der_next_sound [OF that] by blast
    have "a = raw \<longleftrightarrow> length a = length raw \<and> (\<forall>i \<in> {0..<length raw}. a ! i = raw ! i)" for a
      unfolding list_eq_iff_nth_eq by auto
    then show ?thesis unfolding der_content_eq_def l by simp
  qed
  show ?thesis
  proof (cases "off < length buf \<and> buf ! off = tag")
    case True
    then have "der_expect buf off tag = der_next buf off" by (simp add: der_expect_def)
    then show ?thesis using True t c by (metis prod.collapse)
  next
    case False
    then have "der_expect buf off tag = (off, None)" by (auto simp: der_expect_def)
    then show ?thesis using False by auto
  qed
qed

theorem der_expect_cases_witness:
  "der_expect [2, 1, 5] 0 2 = (3, Some \<lparr>der_tag = 2, der_content = [5], der_content_len = 1\<rparr>) \<and>
   der_content_eq \<lparr>der_tag = 2, der_content = [5], der_content_len = 1\<rparr> [5] (length [5 :: u8])"
proof -
  have n: "der_next [2, 1, 5] 0 = (3, Some \<lparr>der_tag = 2, der_content = [5], der_content_len = 1\<rparr>)"
    by (simp add: der_next_def der_read_len_def Let_def)
  show ?thesis using der_expect_cases [of "[2, 1, 5]" 0 2 "[5]"] by (simp add: n)
qed

end
