(* ===== verification/Kstring.thy ===== *)
theory Kstring
  imports Prelude
begin

text \<open>
  The freestanding string functions (\<open>src/string.c\<close>). The block primitives are x86 string
  instructions and work on an explicit store of bytes, so that overlapping ranges are covered;
  the C-string functions work on the buffer a pointer points into, from the pointer on, and a
  read past its end is \<open>None\<close>.
\<close>

unbundle bit_operations_syntax

type_synonym store = "int \<Rightarrow> u8"

subsection \<open>The model\<close>

definition ld_mem :: "store \<Rightarrow> int \<Rightarrow> nat \<Rightarrow> bytes" where
  "ld_mem m a n = map (\<lambda>i. m (a + int i)) [0..<n]"

definition st_mem :: "store \<Rightarrow> int \<Rightarrow> bytes \<Rightarrow> store" where
  "st_mem m a bs = (\<lambda>x. if a \<le> x \<and> x < a + int (length bs) then bs ! nat (x - a) else m x)"

text \<open>\<open>rep movsl\<close> and \<open>rep movsb\<close>: \<open>c\<close> moves of \<open>w\<close> bytes from \<open>esi\<close> to \<open>edi\<close>, both registers
  going down when the direction flag is set.\<close>

fun rep_movs :: "nat \<Rightarrow> bool \<Rightarrow> nat \<Rightarrow> store \<times> int \<times> int \<Rightarrow> store \<times> int \<times> int" where
  "rep_movs w df 0 st = st"
| "rep_movs w df (Suc c) (m, si, di) =
     rep_movs w df c (st_mem m di (ld_mem m si w),
       (if df then si - int w else si + int w), (if df then di - int w else di + int w))"

definition memcpy :: "store \<Rightarrow> int \<Rightarrow> int \<Rightarrow> u32 \<Rightarrow> store" where
  "memcpy m dst src n =
     (let dw = drop_bit 2 n; tail = n AND 3;
          st = rep_movs 4 False (unat dw) (m, src, dst)
      in fst (rep_movs 1 False (unat tail) st))"

definition memmove :: "store \<Rightarrow> int \<Rightarrow> int \<Rightarrow> u32 \<Rightarrow> store" where
  "memmove m d s n =
     (if d = s \<or> n = 0 then m
      else if d < s \<or> s + uint n \<le> d then memcpy m d s n
      else let tail = n AND 3; dw = drop_bit 2 n;
               sp = s + uint n - 1; dp = d + uint n - 1;
               (m, sp, dp) = rep_movs 1 True (unat tail) (m, sp, dp);
               sp = sp - 3; dp = dp - 3
           in fst (rep_movs 4 True (unat dw) (m, sp, dp)))"

text \<open>\<open>rep stosl\<close> and \<open>rep stosb\<close>: the low \<open>w\<close> bytes of \<open>eax\<close> stored \<open>c\<close> times.\<close>

fun rep_stos :: "nat \<Rightarrow> nat \<Rightarrow> u32 \<Rightarrow> store \<times> int \<Rightarrow> store \<times> int" where
  "rep_stos w 0 v st = st"
| "rep_stos w (Suc c) v (m, di) = rep_stos w c v (st_mem m di (take w (st_le32 v)), di + int w)"

definition memset :: "store \<Rightarrow> int \<Rightarrow> u32 \<Rightarrow> u32 \<Rightarrow> store" where
  "memset m dst c n =
     (let v = ucast (ucast c :: u8) :: u32; v = v OR push_bit 8 v; v = v OR push_bit 16 v;
          dw = drop_bit 2 n; tail = n AND 3
      in fst (rep_stos 1 (unat tail) v (rep_stos 4 (unat dw) v (m, dst))))"

fun memcmp_loop :: "store \<Rightarrow> int \<Rightarrow> int \<Rightarrow> nat \<Rightarrow> int" where
  "memcmp_loop m p q 0 = 0"
| "memcmp_loop m p q (Suc k) =
     (if m p \<noteq> m q then uint (m p) - uint (m q) else memcmp_loop m (p + 1) (q + 1) k)"

definition memcmp :: "store \<Rightarrow> int \<Rightarrow> int \<Rightarrow> u32 \<Rightarrow> int" where
  "memcmp m a b n = memcmp_loop m a b (unat n)"

fun strlen :: "bytes \<Rightarrow> nat option" where
  "strlen [] = None"
| "strlen (c # s) = (if c \<noteq> 0 then map_option Suc (strlen s) else Some 0)"

fun strncmp :: "bytes \<Rightarrow> bytes \<Rightarrow> nat \<Rightarrow> int option" where
  "strncmp _ _ 0 = Some 0"
| "strncmp (ca # a) (cb # b) (Suc n) =
     (if ca \<noteq> cb then Some (uint ca - uint cb)
      else if ca = 0 then Some 0 else strncmp a b n)"
| "strncmp _ _ (Suc n) = None"

fun strcmp :: "bytes \<Rightarrow> bytes \<Rightarrow> int option" where
  "strcmp (ca # a) (cb # b) =
     (if ca \<noteq> 0 \<and> ca = cb then strcmp a b else Some (uint ca - uint cb))"
| "strcmp _ _ = None"

text \<open>The outer option is a read past the buffer, the inner one the null pointer returned; a
  pointer into the string is its offset.\<close>

fun strchr :: "bytes \<Rightarrow> u8 \<Rightarrow> nat option option" where
  "strchr [] c = None"
| "strchr (x # s) c =
     (if x \<noteq> 0 then if x = c then Some (Some 0) else map_option (map_option Suc) (strchr s c)
      else Some None)"

text \<open>The first loop of \<open>strncpy\<close> and then the second; \<open>i\<close> counts up to \<open>n\<close>.\<close>

fun strncpy_copy :: "bytes \<Rightarrow> bytes \<Rightarrow> nat \<Rightarrow> nat \<Rightarrow> (bytes \<times> nat) option" where
  "strncpy_copy dst src i 0 = Some (dst, i)"
| "strncpy_copy dst src i (Suc k) =
     (if length src \<le> i then None
      else if src ! i \<noteq> 0 then strncpy_copy (dst[i := src ! i]) src (Suc i) k else Some (dst, i))"

fun strncpy_pad :: "bytes \<Rightarrow> nat \<Rightarrow> nat \<Rightarrow> bytes" where
  "strncpy_pad dst i 0 = dst"
| "strncpy_pad dst i (Suc k) = strncpy_pad (dst[i := 0]) (Suc i) k"

definition strncpy :: "bytes \<Rightarrow> bytes \<Rightarrow> nat \<Rightarrow> bytes option" where
  "strncpy dst src n =
     map_option (\<lambda>(dst, i). strncpy_pad dst i (n - i)) (strncpy_copy dst src 0 n)"

subsection \<open>Specifications\<close>

text \<open>A simultaneous copy, a fill, and the string a terminated buffer holds.\<close>

definition copied :: "store \<Rightarrow> int \<Rightarrow> int \<Rightarrow> int \<Rightarrow> store" where
  "copied m d s n = (\<lambda>a. if d \<le> a \<and> a < d + n then m (a - d + s) else m a)"

definition filled :: "store \<Rightarrow> int \<Rightarrow> u8 \<Rightarrow> int \<Rightarrow> store" where
  "filled m d c n = (\<lambda>a. if d \<le> a \<and> a < d + n then c else m a)"

definition cstr :: "bytes \<Rightarrow> bytes" where
  "cstr s = takeWhile (\<lambda>c. c \<noteq> 0) s"

subsection \<open>Block moves\<close>

lemma length_ld_mem [simp]: "length (ld_mem m a n) = n"
  by (simp add: ld_mem_def)

lemma st_ld_copied: "st_mem m d (ld_mem m s w) = copied m d s (int w)"
  by (rule ext) (auto simp: st_mem_def copied_def ld_mem_def add.commute)

lemma copied_0 [simp]: "copied m d s 0 = m"
  by (rule ext) (auto simp: copied_def)

lemma copied_up:
  assumes "0 \<le> k" "0 \<le> n" "d \<le> s \<or> s + k + n \<le> d"
  shows "copied (copied m d s k) (d + k) (s + k) n = copied m d s (k + n)"
  using assms by (intro ext) (auto simp: copied_def algebra_simps)

lemma copied_down:
  assumes "0 \<le> k" "0 \<le> n" "s \<le> d"
  shows "copied (copied m (d + k) (s + k) n) d s k = copied m d s (k + n)"
  using assms by (intro ext) (auto simp: copied_def algebra_simps)

lemma rep_movs_up:
  assumes "d \<le> s \<or> s + int (w * c) \<le> d"
  shows "rep_movs w False c (m, s, d) =
    (copied m d s (int (w * c)), s + int (w * c), d + int (w * c))"
  using assms
proof (induction c arbitrary: m s d)
  case (Suc c)
  have "d + int w \<le> s + int w \<or> s + int w + int (w * c) \<le> d + int w" using Suc.prems by auto
  from Suc.IH [OF this] show ?case
    using Suc.prems copied_up [of "int w" "int (w * c)" d s m]
    by (simp add: st_ld_copied algebra_simps)
qed simp

lemma rep_movs_down:
  assumes "s \<le> d"
  shows "rep_movs w True c (m, s + int (w * c) - int w, d + int (w * c) - int w) =
    (copied m d s (int (w * c)), s - int w, d - int w)"
proof (induction c arbitrary: m)
  case (Suc c)
  show ?case
    using Suc.IH copied_down [of "int (w * c)" "int w" s d m] assms
    by (simp add: st_ld_copied algebra_simps)
qed simp

lemma dwords_tail: "4 * unat (drop_bit 2 n) + unat (n AND 3) = unat n" for n :: u32
proof -
  have "(3 :: u32) = mask 2" by (simp add: mask_eq_exp_minus_1)
  then show ?thesis by (simp only: unat_drop_bit unat_and_mask) simp
qed

lemma memcpy_copied:
  assumes "d \<le> s \<or> s + uint n \<le> d"
  shows "memcpy m d s n = copied m d s (uint n)"
proof -
  let ?k = "int (4 * unat (drop_bit 2 n))" and ?t = "int (1 * unat (n AND 3))"
  have n: "uint n = ?k + ?t" using dwords_tail [of n] by (metis mult_1 of_nat_add uint_nat)
  have t: "d \<le> s \<or> s + ?k + ?t \<le> d" using assms n by auto
  have "rep_movs 4 False (unat (drop_bit 2 n)) (m, s, d) = (copied m d s ?k, s + ?k, d + ?k)"
    using t by (intro rep_movs_up) linarith
  moreover have "rep_movs 1 False (unat (n AND 3)) (copied m d s ?k, s + ?k, d + ?k) =
      (copied (copied m d s ?k) (d + ?k) (s + ?k) ?t, s + ?k + ?t, d + ?k + ?t)"
    using t by (intro rep_movs_up) linarith
  ultimately show ?thesis
    using copied_up [of ?k ?t d s m] t by (simp add: memcpy_def Let_def n del: of_nat_mult of_nat_unat)
qed

lemma memmove_copied: "memmove m d s n = copied m d s (uint n)"
proof -
  consider "d = s \<or> n = 0" | "\<not> (d = s \<or> n = 0)" "d < s \<or> s + uint n \<le> d"
    | "\<not> (d = s \<or> n = 0)" "s < d" "d < s + uint n" by force
  then show ?thesis
  proof cases
    case 1
    then show ?thesis by (intro ext) (auto simp: memmove_def copied_def)
  next
    case 2
    then show ?thesis using memcpy_copied [of d s n m] by (auto simp: memmove_def)
  next
    case 3
    let ?k = "int (4 * unat (drop_bit 2 n))" and ?t = "int (1 * unat (n AND 3))"
    have n: "uint n = ?k + ?t" using dwords_tail [of n] by (metis mult_1 of_nat_add uint_nat)
    have sd: "s \<le> d" "s + ?k \<le> d + ?k" using 3 by auto
    have b: "rep_movs 1 True (unat (n AND 3)) (m, s + uint n - 1, d + uint n - 1) =
        (copied m (d + ?k) (s + ?k) ?t, s + ?k - 1, d + ?k - 1)"
      using rep_movs_down [OF sd(2), of 1 "unat (n AND 3)" m] by (simp add: n algebra_simps)
    have w: "rep_movs 4 True (unat (drop_bit 2 n)) (m', s + ?k - 1 - 3, d + ?k - 1 - 3) =
        (copied m' d s ?k, s - 4, d - 4)" for m'
      using rep_movs_down [OF sd(1), of 4 "unat (drop_bit 2 n)" m'] by (simp add: algebra_simps)
    have "memmove m d s n = copied (copied m (d + ?k) (s + ?k) ?t) d s ?k"
      unfolding memmove_def using 3 by (simp only: Let_def b prod.case w if_False de_Morgan_disj) simp
    then show ?thesis using copied_down [of ?k ?t s d m] sd n by (metis of_nat_0_le_iff)
  qed
qed

subsection \<open>Fills\<close>

lemma filled_0 [simp]: "filled m d c 0 = m"
  by (rule ext) (auto simp: filled_def)

lemma filled_add: "0 \<le> k \<Longrightarrow> 0 \<le> n \<Longrightarrow> filled (filled m d c k) (d + k) c n = filled m d c (k + n)"
  by (rule ext) (auto simp: filled_def)

lemma rep_stos_filled:
  assumes "take w (st_le32 v) = replicate w c"
  shows "rep_stos w k v (m, d) = (filled m d c (int (w * k)), d + int (w * k))"
proof (induction k arbitrary: m d)
  case (Suc k)
  have "st_mem m d (replicate w c) = filled m d c (int w)"
    by (rule ext) (auto simp: st_mem_def filled_def)
  then show ?case
    using Suc filled_add [of "int w" "int (w * k)" m d c] assms by (simp add: algebra_simps)
qed simp

lemma splat:
  fixes c :: u8
  shows "st_le32 ((ucast c OR push_bit 8 (ucast c)) OR push_bit 16 (ucast c OR push_bit 8 (ucast c))) = [c, c, c, c]"
    (is "st_le32 ?v = _")
proof -
  have "ucast (drop_bit k ?v) = c" if "k \<in> {0, 8, 16, 24}" for k
    using that by (intro bit_word_eqI) (auto simp: bit_simps dest: bit_imp_le_length)
  from this [of 0] this [of 8] this [of 16] this [of 24] show ?thesis by (simp add: st_le32_def)
qed

lemma memset_filled: "memset m d c n = filled m d (ucast c) (uint n)"
proof -
  let ?v = "(ucast (ucast c :: u8) OR push_bit 8 (ucast (ucast c :: u8))) OR
    push_bit 16 (ucast (ucast c :: u8) OR push_bit 8 (ucast (ucast c :: u8))) :: u32"
  let ?k = "int (4 * unat (drop_bit 2 n))" and ?t = "int (1 * unat (n AND 3))"
  have n: "uint n = ?k + ?t" using dwords_tail [of n] by (metis mult_1 of_nat_add uint_nat)
  have f: "take 4 (st_le32 ?v) = replicate 4 (ucast c)" "take 1 (st_le32 ?v) = replicate 1 (ucast c)"
    unfolding splat by (simp_all add: replicate_numeral)
  show ?thesis
    unfolding memset_def Let_def rep_stos_filled [OF f(1)] rep_stos_filled [OF f(2)]
    using filled_add [of ?k ?t m d "ucast c"] n by (metis fst_conv of_nat_0_le_iff)
qed

subsection \<open>Comparisons and strings\<close>

lemma uint_diff_zero: "uint a - uint b = 0 \<longleftrightarrow> a = b" "uint a = uint b \<longleftrightarrow> a = b" "uint a = 0 \<longleftrightarrow> a = 0"
  for a b :: u8
  by (simp_all add: word_uint_eq_iff)

lemma memcmp_loop_zero: "memcmp_loop m p q k = 0 \<longleftrightarrow> ld_mem m p k = ld_mem m q k"
proof (induction k arbitrary: p q)
  case (Suc k)
  have "ld_mem m a (Suc k) = m a # ld_mem m (a + 1) k" for a
    by (simp add: ld_mem_def upt_conv_Cons map_Suc_upt [symmetric] algebra_simps del: upt_Suc)
  then show ?case using Suc by (simp add: uint_diff_zero)
qed (simp add: ld_mem_def)

lemma strlen_Some: "0 \<in> set s \<Longrightarrow> strlen s = Some (length (cstr s))"
  by (induction s) (auto simp: cstr_def)

lemma strlen_None: "0 \<notin> set s \<Longrightarrow> strlen s = None"
  by (induction s) auto

lemma strcmp_zero:
  "0 \<in> set a \<Longrightarrow> 0 \<in> set b \<Longrightarrow> \<exists>r. strcmp a b = Some r \<and> (r = 0 \<longleftrightarrow> cstr a = cstr b)"
proof (induction a b rule: strcmp.induct)
  case (1 ca a cb b)
  then show ?case by (cases "ca = 0"; cases "ca = cb") (auto simp: cstr_def uint_diff_zero)
qed auto

lemma strncmp_zero:
  "0 \<in> set a \<Longrightarrow> 0 \<in> set b \<Longrightarrow>
   \<exists>r. strncmp a b n = Some r \<and> (r = 0 \<longleftrightarrow> take n (cstr a) = take n (cstr b))"
proof (induction a b n rule: strncmp.induct)
  case (2 ca a cb b n)
  then show ?case by (cases "ca = 0"; cases "ca = cb") (auto simp: cstr_def uint_diff_zero)
qed auto

lemma blit_step: "i < length dst \<Longrightarrow> blit (dst[i := x]) (Suc i) xs = blit dst i (x # xs)"
  by (simp add: blit_def take_Suc_conv_app_nth)

lemma strncpy_pad_blit: "i + k \<le> length dst \<Longrightarrow> strncpy_pad dst i k = blit dst i (replicate k 0)"
  by (induction dst i k rule: strncpy_pad.induct) (auto simp: blit_step)

lemma cstr_nth:
  assumes "i < length (cstr s)"
  shows "s ! i = cstr s ! i \<and> s ! i \<noteq> 0 \<and> i < length s"
proof -
  have e: "cstr s ! i = s ! i" using assms by (simp add: cstr_def takeWhile_nth)
  have "cstr s ! i \<in> set (cstr s)" using assms by simp
  then have "cstr s ! i \<noteq> 0" by (auto simp: cstr_def dest: set_takeWhileD)
  moreover have "length (cstr s) \<le> length s" by (simp add: cstr_def length_takeWhile_le)
  ultimately show ?thesis using e assms by simp
qed

lemma cstr_less: "0 \<in> set s \<Longrightarrow> length (cstr s) < length s"
  by (induction s) (auto simp: cstr_def)

lemma cstr_end: "length (cstr s) < length s \<Longrightarrow> s ! length (cstr s) = 0"
  unfolding cstr_def using nth_length_takeWhile by blast

lemma strncpy_copy_blit:
  assumes "0 \<in> set src \<or> i + k \<le> length src" "i + k \<le> length dst" "i \<le> length (cstr src)"
  shows "strncpy_copy dst src i k =
    Some (blit dst i (take k (drop i (cstr src))), i + min k (length (cstr src) - i))"
  using assms
proof (induction dst src i k rule: strncpy_copy.induct)
  case (2 dst src i k)
  show ?case
  proof (cases "i < length (cstr src)")
    case True
    have z: "src ! i \<noteq> 0" "\<not> length src \<le> i" using cstr_nth [OF True] by auto
    have t: "take (Suc k) (drop i (cstr src)) = src ! i # take k (drop (Suc i) (cstr src))"
      using cstr_nth [OF True] True by (simp add: Cons_nth_drop_Suc [symmetric])
    have j: "Suc i + min k (length (cstr src) - Suc i) = i + min (Suc k) (length (cstr src) - i)"
      using True by linarith
    have "strncpy_copy dst src i (Suc k) = Some (blit (dst[i := src ! i]) (Suc i)
        (take k (drop (Suc i) (cstr src))), Suc i + min k (length (cstr src) - Suc i))"
      using 2 True z by simp
    then show ?thesis unfolding t j using 2(3) by (simp add: blit_step)
  next
    case False
    then have i: "i = length (cstr src)" using 2 by simp
    have "i < length src"
    proof (rule ccontr)
      assume "\<not> i < length src"
      then have "0 \<in> set src" using 2(2) by auto
      then have "length (cstr src) < length src" by (rule cstr_less)
      with i \<open>\<not> i < length src\<close> show False by simp
    qed
    then show ?thesis using i cstr_end [of src] by simp
  qed
qed simp

lemma strncpy_spec:
  assumes "0 \<in> set src \<or> n \<le> length src" "n \<le> length dst"
  shows "strncpy dst src n = Some (take n (cstr src @ replicate n 0) @ drop n dst)"
proof -
  let ?c = "take n (cstr src)"
  have "strncpy dst src n = Some (strncpy_pad (blit dst 0 ?c) (length ?c) (n - length ?c))"
    using strncpy_copy_blit [of src 0 n dst] assms by (simp add: strncpy_def min_def)
  also have "\<dots> = Some (?c @ replicate (n - length ?c) 0 @ drop n dst)"
    using assms(2) by (subst strncpy_pad_blit) (auto simp: blit_def min_def)
  finally show ?thesis by (simp add: min_def)
qed

subsection \<open>Properties\<close>

text \<open>C31. \<open>memmove\<close> is a simultaneous copy for every overlap of the two ranges: each target byte gets
  what its source byte held before the call, and nothing outside the target changes; \<open>memcpy\<close> does
  the same whenever the target does not start inside the source.\<close>

theorem memmove_correct:
  "memmove m d s n = (\<lambda>a. if d \<le> a \<and> a < d + uint n then m (a - d + s) else m a) \<and>
   (d \<le> s \<or> s + uint n \<le> d \<longrightarrow> memcpy m d s n = memmove m d s n)"
  using memmove_copied [of m d s n] memcpy_copied [of d s n m] by (simp add: copied_def)

theorem memmove_correct_witness:
  "memcpy (\<lambda>a. of_int a) 10 12 7 = memmove (\<lambda>a. of_int a) 10 12 7"
  using memmove_correct [of "\<lambda>a. of_int a" 10 12 7] by simp

text \<open>\<open>memset\<close> writes the low byte of its argument to exactly the \<open>n\<close> target bytes.\<close>

theorem memset_correct:
  "memset m d c n = (\<lambda>a. if d \<le> a \<and> a < d + uint n then ucast c else m a)"
  using memset_filled [of m d c n] by (simp add: filled_def)

text \<open>On terminated strings the string functions stay inside their buffers: \<open>strlen\<close> counts up to
  the first zero byte, \<open>strcmp\<close> is 0 exactly for equal strings, \<open>strncmp\<close> exactly for strings equal
  in their first \<open>n\<close> characters, and \<open>strncpy\<close> writes the first \<open>n\<close> characters padded with zeros,
  with no terminator when the source is \<open>n\<close> or longer.\<close>

theorem string_functions:
  assumes "0 \<in> set a" and "0 \<in> set b" and "n \<le> length dst"
  shows "strlen a = Some (length (cstr a)) \<and>
    (\<exists>r. strcmp a b = Some r \<and> (r = 0 \<longleftrightarrow> cstr a = cstr b)) \<and>
    (\<exists>r. strncmp a b n = Some r \<and> (r = 0 \<longleftrightarrow> take n (cstr a) = take n (cstr b))) \<and>
    strncpy dst a n = Some (take n (cstr a @ replicate n 0) @ drop n dst)"
  using strlen_Some [OF assms(1)] strcmp_zero [OF assms(1,2)] strncmp_zero [OF assms(1,2), of n]
    strncpy_spec [of a n dst] assms by simp

theorem string_functions_witness:
  "strlen [7, 8, 0] = Some (length (cstr [7, 8, 0])) \<and>
    (\<exists>r. strcmp [7, 8, 0] [7, 9, 0] = Some r \<and> (r = 0 \<longleftrightarrow> cstr [7, 8, 0] = cstr [7, 9, 0])) \<and>
    (\<exists>r. strncmp [7, 8, 0] [7, 9, 0] 1 = Some r \<and>
      (r = 0 \<longleftrightarrow> take 1 (cstr [7, 8, 0]) = take 1 (cstr [7, 9, 0]))) \<and>
    strncpy [1, 1] [7, 8, 0] 1 = Some (take 1 (cstr [7, 8, 0] @ replicate 1 0) @ drop 1 [1, 1])"
  by (rule string_functions) simp_all

end
