(* ===== verification/Divdi.thy ===== *)
theory Divdi
  imports Prelude "HOL-Library.Signed_Division"
begin

text \<open>
  64-bit division for the 32-bit target (\<open>src/divdi3.c\<close>). The \<open>divl\<close> instruction traps when its
  quotient does not fit 32 bits; \<open>None\<close> is that trap, so a total result says that the code never
  executes a trapping divide.
\<close>

unbundle bit_operations_syntax

subsection \<open>The model\<close>

definition divl :: "u32 \<Rightarrow> u32 \<Rightarrow> u32 \<Rightarrow> (u32 \<times> u32) option" where
  "divl hi lo d =
     (let n = unat hi * 2 ^ 32 + unat lo
      in if d = 0 \<or> 2 ^ 32 \<le> n div unat d then None
         else Some (of_nat (n div unat d), of_nat (n mod unat d)))"

text \<open>One line of \<open>clz64\<close>: \<open>if (!(x >> (64 - k))) { n += k; x <<= k; }\<close>\<close>

definition clz_step :: "nat \<Rightarrow> nat \<times> u64 \<Rightarrow> nat \<times> u64" where
  "clz_step k nx = (case nx of (n, x) \<Rightarrow>
     if drop_bit (64 - k) x = 0 then (n + k, push_bit k x) else (n, x))"

definition clz64 :: "u64 \<Rightarrow> nat" where
  "clz64 x =
     (let (n, x) = clz_step 2 (clz_step 4 (clz_step 8 (clz_step 16 (clz_step 32 (0, x)))))
      in if drop_bit 63 x = 0 then n + 1 else n)"

text \<open>The restoring loop; the first argument is \<open>i + 1\<close>, the number of turns left.\<close>

fun shift_subtract :: "nat \<Rightarrow> u64 \<Rightarrow> u64 \<Rightarrow> u64 \<Rightarrow> u64 \<times> u64" where
  "shift_subtract 0 n d q = (q, n)"
| "shift_subtract (Suc i) n d q =
     (let q = push_bit 1 q;
          (n, q) = (if d \<le> n then (n - d, q OR 1) else (n, q))
      in shift_subtract i n (drop_bit 1 d) q)"

text \<open>The pair is the returned quotient and \<open>*rem\<close>. The shift count is an \<open>int\<close>; a negative one,
  for which the C loop would not run and the shift would be undefined, is excluded by \<open>n \<ge> d\<close>.\<close>

definition udivmoddi4 :: "u64 \<Rightarrow> u64 \<Rightarrow> (u64 \<times> u64) option" where
  "udivmoddi4 n d =
     (if d = 0 then Some (0, 0)
      else if drop_bit 32 d = 0 then
        let dl = ucast d :: u32; hi = ucast (drop_bit 32 n) :: u32;
            (qh, hi) = (if dl \<le> hi then (hi div dl, hi mod dl) else (0, hi))
        in case divl hi (ucast n) dl of
             None \<Rightarrow> None
           | Some (ql, r) \<Rightarrow> Some (push_bit 32 (ucast qh) OR ucast ql, ucast r)
      else if n < d then Some (0, n)
      else if clz64 d < clz64 n then None
      else let sh = clz64 d - clz64 n
        in Some (shift_subtract (sh + 1) n (push_bit sh d) 0))"

definition udivdi3 :: "u64 \<Rightarrow> u64 \<Rightarrow> u64 option" where
  "udivdi3 n d = map_option fst (udivmoddi4 n d)"

definition umoddi3 :: "u64 \<Rightarrow> u64 \<Rightarrow> u64 option" where
  "umoddi3 n d = map_option snd (udivmoddi4 n d)"

text \<open>The signed operands are two's complement words, read with \<open>sint\<close>.\<close>

definition divmoddi4 :: "u64 \<Rightarrow> u64 \<Rightarrow> (u64 \<times> u64) option" where
  "divmoddi4 a b =
     (let neg_q = (sint a < 0) \<noteq> (sint b < 0); neg_r = sint a < 0;
          ua = (if sint a < 0 then 0 - a else a);
          ub = (if sint b < 0 then 0 - b else b)
      in map_option (\<lambda>(uq, ur). (if neg_q then 0 - uq else uq, if neg_r then 0 - ur else ur))
           (udivmoddi4 ua ub))"

definition divdi3 :: "u64 \<Rightarrow> u64 \<Rightarrow> u64 option" where
  "divdi3 a b = map_option fst (divmoddi4 a b)"

definition moddi3 :: "u64 \<Rightarrow> u64 \<Rightarrow> u64 option" where
  "moddi3 a b = map_option snd (divmoddi4 a b)"

subsection \<open>Counting leading zeros\<close>

lemma word_bounds: "unat (y :: u32) < 4294967296" "unat (x :: u64) < 18446744073709551616"
  using unsigned_less [of y, where 'a = nat] unsigned_less [of x, where 'a = nat] by simp_all

lemma drop_bit_zero_iff: "k \<le> 64 \<Longrightarrow> drop_bit (64 - k) x = 0 \<longleftrightarrow> unat x * 2 ^ k < 2 ^ 64" for x :: u64
proof -
  assume k: "k \<le> 64"
  have "drop_bit (64 - k) x = 0 \<longleftrightarrow> unat x div 2 ^ (64 - k) = 0"
    by (simp only: word_unat_eq_iff unat_drop_bit unsigned_0)
  also have "\<dots> \<longleftrightarrow> unat x < 2 ^ (64 - k)" by (simp add: div_eq_0_iff)
  also have "\<dots> \<longleftrightarrow> unat x * 2 ^ k < 2 ^ (64 - k) * 2 ^ k" by simp
  finally show ?thesis using k by (simp flip: power_add)
qed

lemma clz_step_inv:
  assumes "clz_step k (n, x) = (n', x')" "2 * k \<le> 64" "2 ^ (64 - 2 * k) \<le> unat x" "unat x = X * 2 ^ n"
  shows "2 ^ (64 - k) \<le> unat x' \<and> unat x' = X * 2 ^ n'"
proof (cases "drop_bit (64 - k) x = 0")
  case True
  then have lt: "unat x * 2 ^ k < 2 ^ 64" using drop_bit_zero_iff [of k x] assms(2) by simp
  have r: "n' = n + k" "x' = push_bit k x" using assms(1) True by (simp_all add: clz_step_def)
  have u: "unat x' = unat x * 2 ^ k" using lt by (simp add: r(2) unat_push_bit)
  have "(2 :: nat) ^ (64 - k) = 2 ^ (64 - 2 * k) * 2 ^ k" using assms(2) by (simp flip: power_add)
  then show ?thesis using u r(1) assms(3,4) by (simp add: power_add)
next
  case False
  then have "\<not> unat x * 2 ^ k < 2 ^ (64 - k) * 2 ^ k"
    using drop_bit_zero_iff [of k x] assms(2) by (simp flip: power_add)
  then show ?thesis using assms(1,4) False by (simp add: clz_step_def)
qed

lemma clz64_bounds:
  assumes "x \<noteq> 0"
  shows "2 ^ 63 \<le> unat x * 2 ^ clz64 x \<and> unat x * 2 ^ clz64 x < 2 ^ 64 \<and> clz64 x \<le> 63"
proof -
  obtain n1 x1 where s1: "clz_step 32 (0, x) = (n1, x1)" by fastforce
  obtain n2 x2 where s2: "clz_step 16 (n1, x1) = (n2, x2)" by fastforce
  obtain n3 x3 where s3: "clz_step 8 (n2, x2) = (n3, x3)" by fastforce
  obtain n4 x4 where s4: "clz_step 4 (n3, x3) = (n4, x4)" by fastforce
  obtain n5 x5 where s5: "clz_step 2 (n4, x4) = (n5, x5)" by fastforce
  have "0 < unat x" using assms by (simp add: unat_gt_0)
  note i1 = clz_step_inv [OF s1, of "unat x"]
  note i2 = clz_step_inv [OF s2, of "unat x"]
  note i3 = clz_step_inv [OF s3, of "unat x"]
  note i4 = clz_step_inv [OF s4, of "unat x"]
  note i5 = clz_step_inv [OF s5, of "unat x"]
  have x5: "2 ^ 62 \<le> unat x5" "unat x5 = unat x * 2 ^ n5"
    using i1 i2 i3 i4 i5 \<open>0 < unat x\<close> by simp_all
  have c: "clz64 x = (if drop_bit 63 x5 = 0 then n5 + 1 else n5)"
    by (simp add: clz64_def s1 s2 s3 s4 s5)
  have d: "drop_bit 63 x5 = 0 \<longleftrightarrow> unat x5 * 2 < 2 ^ 64" using drop_bit_zero_iff [of 1 x5] by simp
  have u: "unat x5 < 2 ^ 64" using word_bounds(2) [of x5] by simp
  have b: "2 ^ 63 \<le> unat x * 2 ^ clz64 x \<and> unat x * 2 ^ clz64 x < 2 ^ 64"
  proof (cases "drop_bit 63 x5 = 0")
    case True
    then have "unat x * 2 ^ clz64 x = unat x5 * 2" using c x5(2) by simp
    then show ?thesis using True d x5(1) by simp
  next
    case False
    then have "unat x * 2 ^ clz64 x = unat x5" using c x5(2) by simp
    then show ?thesis using False d u by simp
  qed
  have "1 * 2 ^ clz64 x \<le> unat x * 2 ^ clz64 x" using \<open>0 < unat x\<close> by (intro mult_le_mono1) simp
  then have "(2 :: nat) ^ clz64 x < 2 ^ 64" using b by linarith
  then have "clz64 x < 64" by (rule power_less_imp_less_exp [rotated]) simp
  then show ?thesis using b by simp
qed

subsection \<open>The restoring loop\<close>

lemma unat_shift_one: "unat q * 2 + 2 \<le> 2 ^ 64 \<Longrightarrow> unat (push_bit 1 q) = 2 * unat q" for q :: u64
  using unat_push_bit [of 1 q] by simp

lemma unat_shift_one_or: "unat q * 2 + 2 \<le> 2 ^ 64 \<Longrightarrow> unat (push_bit 1 q OR 1) = 2 * unat q + 1" for q :: u64
  using unat_or_push_bit [of "1 :: u64" 1 q] unat_shift_one [of q] by (simp add: or.commute)

lemma shift_subtract_correct:
  assumes "0 < D" "unat n < D * 2 ^ c" "0 < c \<longrightarrow> unat d = D * 2 ^ (c - 1)" "(unat q + 1) * 2 ^ c \<le> 2 ^ 64"
    and "shift_subtract c n d q = (q', r)"
  shows "unat q' = unat q * 2 ^ c + unat n div D \<and> unat r = unat n mod D"
  using assms
proof (induction c n d q arbitrary: q' r rule: shift_subtract.induct)
  case (2 i n d q)
  let ?b = "if d \<le> n then 1 else 0 :: nat"
  let ?n = "if d \<le> n then n - d else n" and ?q = "if d \<le> n then push_bit 1 q OR 1 else push_bit 1 q"
  have "(unat q + 1) * 2 * 1 \<le> (unat q + 1) * 2 * 2 ^ i" by (intro mult_le_mono) auto
  then have q2: "unat q * 2 + 2 \<le> 2 ^ 64" using 2(5) by (simp add: algebra_simps)
  have d: "unat d = D * 2 ^ i" using 2(4) by simp
  have uq: "unat ?q = 2 * unat q + ?b" using unat_shift_one [OF q2] unat_shift_one_or [OF q2] by (simp only: if_splits split: if_split) simp
  have un: "unat n = unat ?n + ?b * (D * 2 ^ i)"
    using d by (auto simp: unat_sub word_le_nat_alt)
  have nlt: "unat ?n < D * 2 ^ i"
  proof (cases "d \<le> n")
    case True
    then show ?thesis using 2(3) un d by simp
  next
    case False
    then show ?thesis using d by (simp add: word_le_nat_alt)
  qed
  have half: "0 < i \<longrightarrow> unat (drop_bit 1 d) = D * 2 ^ (i - 1)"
    using d by (cases i) (simp_all add: unat_drop_bit)
  have "(2 * unat q + ?b + 1) * 2 ^ i \<le> (2 * (unat q + 1)) * 2 ^ i" by (intro mult_le_mono1) simp
  then have qb: "(unat ?q + 1) * 2 ^ i \<le> 2 ^ 64" using 2(5) unfolding uq by (simp add: algebra_simps)
  have run: "shift_subtract i ?n (drop_bit 1 d) ?q = (q', r)"
    using 2(6) by (auto simp: Let_def split: if_splits)
  have ih: "unat q' = unat ?q * 2 ^ i + unat ?n div D \<and> unat r = unat ?n mod D"
    using 2(1) [of "push_bit 1 q" "(?n, ?q)" ?n ?q q' r, OF refl _ _ 2(2) nlt half qb run] by auto
  have "unat n div D = unat ?n div D + ?b * 2 ^ i" "unat n mod D = unat ?n mod D"
    unfolding un using 2(2) by auto
  then show ?case using ih uq by (auto simp: algebra_simps)
qed simp

subsection \<open>Unsigned division\<close>

lemma unat_u64_split: "unat n = unat (ucast (drop_bit 32 n) :: u32) * 2 ^ 32 + unat (ucast n :: u32)" for n :: u64
proof -
  have h: "unat n div 2 ^ 32 < 2 ^ 32" using word_bounds(2) [of n] by (simp add: less_mult_imp_div_less)
  have "unat (ucast (drop_bit 32 n) :: u32) = unat n div 2 ^ 32"
    using h by (simp only: unsigned_ucast_eq unat_drop_bit take_bit_eq_mod) simp
  moreover have "unat (ucast n :: u32) = unat n mod 2 ^ 32"
    by (simp only: unsigned_ucast_eq take_bit_eq_mod) simp
  ultimately show ?thesis using div_mult_mod_eq [of "unat n" "2 ^ 32"] by simp
qed

lemma unat_u32_up: "unat (ucast x :: u64) = unat x" for x :: u32
  using word_bounds(1) [of x] by (simp add: unsigned_ucast_eq take_bit_eq_mod)

lemma unat_join: "unat (push_bit 32 (ucast h) OR ucast l :: u64) = unat h * 2 ^ 32 + unat l" for h l :: u32
proof -
  have "unat h * 2 ^ 32 < 2 ^ 64" using word_bounds(1) [of h] by simp
  then show ?thesis
    using unat_or_push_bit [of "ucast l :: u64" 32 "ucast h"] word_bounds(1) [of l]
    by (simp add: or.commute unat_push_bit unat_u32_up)
qed

lemma long_division:
  fixes H L d :: nat
  assumes "0 < d"
  shows "(H * B + L) div d = H div d * B + (H mod d * B + L) div d"
    "(H * B + L) mod d = (H mod d * B + L) mod d"
proof -
  have e: "H * B + L = (H mod d * B + L) + d * (H div d * B)"
    by (metis (no_types, lifting) add.assoc add.commute add_mult_distrib mod_div_mult_eq mult.assoc mult.commute)
  show "(H * B + L) div d = H div d * B + (H mod d * B + L) div d"
    by (subst e) (simp add: assms)
  show "(H * B + L) mod d = (H mod d * B + L) mod d"
    by (subst e) simp
qed

lemma udivmoddi4_small:
  assumes "d \<noteq> 0" "drop_bit 32 d = 0"
  shows "udivmoddi4 n d = Some (n div d, n mod d)"
proof -
  let ?dl = "ucast d :: u32" and ?hi = "ucast (drop_bit 32 n) :: u32" and ?lo = "ucast n :: u32"
  have dd: "unat d < 2 ^ 32" using assms(2) by (simp add: word_unat_eq_iff unat_drop_bit div_eq_0_iff)
  then have ud: "unat ?dl = unat d" by (simp add: unsigned_ucast_eq take_bit_eq_mod)
  have pos: "0 < unat d" using assms(1) by (simp add: unat_gt_0)
  then have dl: "?dl \<noteq> 0" using ud by (auto simp: word_unat_eq_iff)
  have step: "(if ?dl \<le> ?hi then (?hi div ?dl, ?hi mod ?dl) else (0, ?hi)) = (?hi div ?dl, ?hi mod ?dl)"
    by (auto simp: word_unat_eq_iff word_le_nat_alt unat_div unat_mod)
  let ?N = "unat (?hi mod ?dl) * 2 ^ 32 + unat ?lo"
  have m: "unat (?hi mod ?dl) < unat d" using pos ud by (simp add: unat_mod)
  have "?N < unat d * 2 ^ 32"
  proof -
    have "?N < (unat (?hi mod ?dl) + 1) * 2 ^ 32" using word_bounds(1) [of ?lo] by simp
    also have "\<dots> \<le> unat d * 2 ^ 32" using m by (intro mult_le_mono1) simp
    finally show ?thesis .
  qed
  then have q: "?N div unat d < 2 ^ 32" by (simp add: less_mult_imp_div_less mult.commute)
  have r: "?N mod unat d < 2 ^ 32" using pos dd by (meson less_trans mod_less_divisor)
  have div: "divl (?hi mod ?dl) ?lo ?dl = Some (of_nat (?N div unat d), of_nat (?N mod unat d))"
    using q dl by (simp add: divl_def ud not_le Let_def)
  have "push_bit 32 (ucast (?hi div ?dl)) OR ucast (of_nat (?N div unat d) :: u32) = n div d"
  proof -
    have "unat (push_bit 32 (ucast (?hi div ?dl)) OR ucast (of_nat (?N div unat d) :: u32) :: u64) =
        unat ?hi div unat d * 2 ^ 32 + ?N div unat d"
      using q by (simp add: unat_join unat_div ud unat_of_nat)
    also have "\<dots> = unat n div unat d"
      using long_division(1) [OF pos, of "unat ?hi" "2 ^ 32" "unat ?lo"] unat_u64_split [of n] ud
      by (simp add: unat_mod)
    finally show ?thesis by (simp add: word_unat_eq_iff unat_div)
  qed
  moreover have "ucast (of_nat (?N mod unat d) :: u32) = n mod d"
  proof -
    have "unat (ucast (of_nat (?N mod unat d) :: u32) :: u64) = ?N mod unat d"
      using r by (simp add: unat_u32_up unat_of_nat)
    also have "\<dots> = unat n mod unat d"
      using long_division(2) [OF pos, of "unat ?hi" "2 ^ 32" "unat ?lo"] unat_u64_split [of n] ud
      by (simp add: unat_mod)
    finally show ?thesis by (simp add: word_unat_eq_iff unat_mod)
  qed
  ultimately show ?thesis
    using assms by (simp only: udivmoddi4_def Let_def if_False if_True step prod.case div option.case refl)
qed

lemma udivmoddi4_large:
  assumes "d \<noteq> 0" "drop_bit 32 d \<noteq> 0" "\<not> n < d"
  shows "udivmoddi4 n d = Some (n div d, n mod d)"
proof -
  let ?sh = "clz64 d - clz64 n"
  have nd: "unat d \<le> unat n" using assms(3) by (simp add: word_less_nat_alt)
  have "n \<noteq> 0" using assms(1,3) by (auto simp: word_gt_0)
  note cn = clz64_bounds [OF this] and cd = clz64_bounds [OF assms(1)]
  have le: "clz64 n \<le> clz64 d"
  proof (rule ccontr)
    assume "\<not> clz64 n \<le> clz64 d"
    then have "(2 :: nat) ^ Suc (clz64 d) \<le> 2 ^ clz64 n" by (intro power_increasing) auto
    then have "unat d * 2 ^ Suc (clz64 d) \<le> unat n * 2 ^ clz64 n" using nd by (intro mult_le_mono) auto
    then show False using cn cd by simp
  qed
  have split: "unat d * 2 ^ ?sh * 2 ^ clz64 n = unat d * 2 ^ clz64 d"
    using le by (simp add: mult.assoc flip: power_add)
  have "unat d * 2 ^ ?sh * 1 \<le> unat d * 2 ^ ?sh * 2 ^ clz64 n" by (intro mult_le_mono) auto
  then have "unat d * 2 ^ ?sh < 2 ^ 64" using split cd by linarith
  then have ud: "unat (push_bit ?sh d) = unat d * 2 ^ ?sh" by (simp add: unat_push_bit)
  have "unat n * 2 ^ clz64 n < 2 * (unat d * 2 ^ ?sh * 2 ^ clz64 n)" unfolding split using cn cd by simp
  then have "unat n * 2 ^ clz64 n < unat d * 2 ^ (?sh + 1) * 2 ^ clz64 n" by (simp add: algebra_simps)
  then have lt: "unat n < unat d * 2 ^ (?sh + 1)" by simp
  have "(2 :: nat) ^ (?sh + 1) \<le> 2 ^ 64" using cd by (intro power_increasing) auto
  moreover obtain q r where qr: "shift_subtract (?sh + 1) n (push_bit ?sh d) 0 = (q, r)" by fastforce
  ultimately have "unat q = unat n div unat d \<and> unat r = unat n mod unat d"
    using shift_subtract_correct [OF _ lt _ _ qr] ud assms(1) by (simp add: unat_gt_0)
  then have "q = n div d" "r = n mod d" by (simp_all add: word_unat_eq_iff unat_div unat_mod)
  then show ?thesis using assms le qr by (simp add: udivmoddi4_def Let_def)
qed

lemma udivmoddi4_correct:
  "udivmoddi4 n d = Some (if d = 0 then (0, 0) else (n div d, n mod d))"
proof (cases "d = 0 \<or> drop_bit 32 d = 0 \<or> \<not> n < d")
  case True
  then show ?thesis
    using udivmoddi4_small [of d n] udivmoddi4_large [of d n] by (auto simp: udivmoddi4_def)
next
  case False
  then have "n div d = 0" "n mod d = n"
    by (simp_all add: word_unat_eq_iff unat_div unat_mod word_less_nat_alt)
  with False show ?thesis by (simp add: udivmoddi4_def)
qed

subsection \<open>Signed division\<close>

lemma sint_bounds: "- (2 ^ 63) \<le> sint a" "sint a < 2 ^ 63" for a :: u64
  using sint_ge [of a] sint_lt [of a] by simp_all

lemma magnitude:
  fixes a :: u64
  shows "uint (if sint a < 0 then 0 - a else a) = \<bar>sint a\<bar>"
proof -
  have "(if sint a < 0 then 0 - a else a) = of_int \<bar>sint a\<bar>" by simp
  moreover have "\<bar>sint a\<bar> < 2 ^ 64" using sint_bounds [of a] by simp
  ultimately show ?thesis by (simp only: uint_word_of_int) simp
qed

lemma divmoddi4_correct:
  "divmoddi4 a b = Some (if b = 0 then (0, 0) else (of_int (sint a sdiv sint b), of_int (sint a smod sint b)))"
proof (cases "b = 0")
  case True
  then show ?thesis by (simp add: divmoddi4_def udivmoddi4_correct Let_def)
next
  case False
  let ?A = "if sint a < 0 then 0 - a else a" and ?B = "if sint b < 0 then 0 - b else b"
  have B: "?B \<noteq> 0" using False by simp
  have q: "?A div ?B = of_int (\<bar>sint a\<bar> div \<bar>sint b\<bar>)"
    by (simp only: word_div_def magnitude)
  have r: "?A mod ?B = of_int (\<bar>sint a\<bar> mod \<bar>sint b\<bar>)"
    by (simp only: word_mod_def magnitude)
  have "sint b \<noteq> 0" using False signed_eq_0_iff [of b] by simp
  then have sq: "sint a sdiv sint b = (if (sint a < 0) \<noteq> (sint b < 0) then - (\<bar>sint a\<bar> div \<bar>sint b\<bar>) else \<bar>sint a\<bar> div \<bar>sint b\<bar>)"
    and sr: "sint a smod sint b = (if sint a < 0 then - (\<bar>sint a\<bar> mod \<bar>sint b\<bar>) else \<bar>sint a\<bar> mod \<bar>sint b\<bar>)"
    by (auto simp: signed_divide_int_def signed_modulo_int_def sgn_if)
  have "divmoddi4 a b = Some (if (sint a < 0) \<noteq> (sint b < 0) then 0 - ?A div ?B else ?A div ?B,
      if sint a < 0 then 0 - ?A mod ?B else ?A mod ?B)"
    using B by (simp only: divmoddi4_def udivmoddi4_correct Let_def if_False option.map prod.case)
  also have "\<dots> = Some (of_int (sint a sdiv sint b), of_int (sint a smod sint b))"
    unfolding q r sq sr by simp
  finally show ?thesis using False by simp
qed

subsection \<open>Properties\<close>

text \<open>C32. The unsigned helpers compute quotient and remainder for every pair of 64-bit operands, with
  0 for a zero divisor, and never execute a trapping divide or a negative shift.\<close>

theorem udivmoddi4_total:
  "udivmoddi4 n d = Some (if d = 0 then (0, 0) else (n div d, n mod d)) \<and>
   udivdi3 n d = Some (if d = 0 then 0 else n div d) \<and>
   umoddi3 n d = Some (if d = 0 then 0 else n mod d)"
  by (simp add: udivmoddi4_correct udivdi3_def umoddi3_def)

text \<open>The signed helpers truncate towards zero and give the remainder the dividend's sign, for every
  pair of operands; the one quotient that does not fit, of the least integer by -1, wraps to the
  least integer.\<close>

theorem divmoddi4_total:
  "divmoddi4 a b = Some (if b = 0 then (0, 0) else (of_int (sint a sdiv sint b), of_int (sint a smod sint b))) \<and>
   divdi3 a b = Some (if b = 0 then 0 else of_int (sint a sdiv sint b)) \<and>
   moddi3 a b = Some (if b = 0 then 0 else of_int (sint a smod sint b)) \<and>
   divdi3 (2 ^ 63) (- 1) = Some (2 ^ 63)"
proof -
  have "divdi3 a b = Some (if b = 0 then 0 else of_int (sint a sdiv sint b))" for a b
    by (simp add: divdi3_def divmoddi4_correct)
  moreover from this [of "2 ^ 63" "- 1"] have "divdi3 (2 ^ 63) (- 1) = Some (2 ^ 63)"
    by simp
  ultimately show ?thesis by (simp add: moddi3_def divmoddi4_correct)
qed

end
