(* ===== verification/Md_Hash.thy ===== *)
theory Md_Hash
  imports Block_Stream
begin

text \<open>
  Merkle-Damgard hashes with a block buffer. SHA-1, SHA-256 and SHA-512 have the same streaming loop
  and the same padding at different block lengths \<open>N\<close> and length-field offsets \<open>P\<close>. The interface
  states what one turn of an update loop does to the pending bytes and the chaining state; from it
  follows that the loop refines the byte-at-a-time machine. The padding is treated once, too.
\<close>

subsection \<open>The update loop\<close>

locale md_loop =
  fixes N :: nat
    and cmpr :: "'s \<Rightarrow> 'b list \<Rightarrow> 's"
    and loop :: "'c \<Rightarrow> 'b list \<Rightarrow> 'c"
    and pend :: "'c \<Rightarrow> 'b list"
    and chain :: "'c \<Rightarrow> 's"
    and wf :: "'c \<Rightarrow> bool"
  assumes N_pos: "0 < N"
    and pend_short: "wf c \<Longrightarrow> length (pend c) < N"
    and loop_Nil: "loop c [] = c"
    and loop_short: "wf c \<Longrightarrow> m \<noteq> [] \<Longrightarrow> length (pend c) + length m < N \<Longrightarrow>
      wf (loop c m) \<and> pend (loop c m) = pend c @ m \<and> chain (loop c m) = chain c"
    and loop_block: "wf c \<Longrightarrow> N \<le> length (pend c) + length m \<Longrightarrow>
      \<exists>c'. loop c m = loop c' (drop (N - length (pend c)) m) \<and> wf c' \<and> pend c' = [] \<and>
        chain c' = cmpr (chain c) (pend c @ take (N - length (pend c)) m)"
begin

lemma loop_view:
  "wf c \<Longrightarrow> wf (loop c m) \<and> (pend (loop c m), chain (loop c m)) = absorb N cmpr (pend c, chain c) m"
proof (induction m arbitrary: c rule: length_induct)
  case (1 m)
  let ?k = "N - length (pend c)"
  have k: "0 < ?k" using pend_short [OF 1(2)] by simp
  consider "m = []" | "m \<noteq> []" "length (pend c) + length m < N" | "N \<le> length (pend c) + length m" by linarith
  then show ?case
  proof cases
    case 1
    then show ?thesis using \<open>wf c\<close> by (simp add: loop_Nil)
  next
    case 2
    then show ?thesis using loop_short [OF \<open>wf c\<close> 2] by (simp add: absorb_short)
  next
    case 3
    then obtain c' where c: "loop c m = loop c' (drop ?k m)" "wf c'" "pend c' = []"
      "chain c' = cmpr (chain c) (pend c @ take ?k m)"
      using loop_block [OF \<open>wf c\<close>] by blast
    have l: "length (take ?k m) = ?k" "take ?k m \<noteq> []" using 3 k by auto
    have "absorb N cmpr (pend c, chain c) (take ?k m @ drop ?k m) = absorb N cmpr (pend c', chain c') (drop ?k m)"
      unfolding absorb_append using l c(3,4) pend_short [OF \<open>wf c\<close>] absorb_fill [of "pend c" "take ?k m" N cmpr] by simp
    moreover have "length (drop ?k m) < length m" using 3 k l by auto
    ultimately show ?thesis using "1.IH" c by simp
  qed
qed

end

subsection \<open>Padding\<close>

definition md_fill :: "nat \<Rightarrow> nat \<Rightarrow> nat \<Rightarrow> bytes" where
  "md_fill N P n = 0x80 # replicate ((N + P - 1 - n mod N) mod N) 0"

definition md_finish :: "nat \<Rightarrow> nat \<Rightarrow> ('s \<Rightarrow> bytes \<Rightarrow> 's) \<Rightarrow> bytes \<times> 's \<Rightarrow> bytes \<Rightarrow> 's" where
  "md_finish N P cmpr v ltail = foldl cmpr (snd v) (chunks N (fst v @ md_fill N P (length (fst v)) @ ltail))"

text \<open>The padded message in one or two blocks, as the code lays it out.\<close>

lemma md_finish_short:
  assumes "length p < P" "P + length ltail = N"
  shows "md_finish N P cmpr (p, s) ltail = cmpr s (((p @ [0x80]) @ replicate (P - Suc (length p)) 0) @ ltail)"
proof -
  have "(N + P - 1 - length p mod N) mod N = P - Suc (length p)"
  proof -
    have "N + P - 1 - length p mod N = N + (P - Suc (length p))" "P - Suc (length p) < N" using assms by simp_all
    then show ?thesis by (simp only: mod_add_self1 mod_less)
  qed
  then show ?thesis using assms by (simp add: md_finish_def md_fill_def chunks_single)
qed

lemma md_finish_long:
  assumes "P \<le> length p" "length p < N" "P + length ltail = N" "0 < P"
  shows "md_finish N P cmpr (p, s) ltail =
    cmpr (cmpr s ((p @ [0x80]) @ replicate (N - Suc (length p)) 0)) (replicate P 0 @ ltail)"
proof -
  let ?b = "(p @ [0x80]) @ replicate (N - Suc (length p)) 0"
  have "N + P - 1 - length p mod N = (N - Suc (length p)) + P" using assms by simp
  moreover have "(N - Suc (length p)) + P < N" using assms by simp
  ultimately have "replicate ((N + P - 1 - length p mod N) mod N) (0 :: u8) = replicate (N - Suc (length p)) 0 @ replicate P 0"
    by (simp add: replicate_add [symmetric])
  then have "p @ md_fill N P (length p) @ ltail = ?b @ (replicate P 0 @ ltail)" by (simp add: md_fill_def)
  moreover have "chunks N (?b @ (replicate P 0 @ ltail)) = [?b, replicate P 0 @ ltail]"
    using assms by (subst chunks_block) simp_all
  ultimately show ?thesis by (simp add: md_finish_def)
qed

text \<open>Padding the whole message is padding what is left after the full blocks.\<close>

lemma md_finish_whole:
  assumes "0 < N"
  shows "md_finish N P cmpr (leftover N m, foldl cmpr s (chunks N m)) ltail
    = foldl cmpr s (chunks N (m @ md_fill N P (length m) @ ltail))"
proof -
  let ?k = "N * (length m div N)"
  let ?t = "md_fill N P (length m) @ ltail"
  have len: "length (take ?k m) = ?k" by simp
  have m: "m = take ?k m @ leftover N m" by (simp add: leftover_def)
  have "chunks N (take ?k m @ (leftover N m @ ?t)) = chunks N (take ?k m) @ chunks N (leftover N m @ ?t)"
    by (rule chunks_append) (simp_all add: len assms)
  moreover have "chunks N (take ?k m @ leftover N m) = chunks N (take ?k m)"
    using assms by (subst chunks_append) (simp_all add: len)
  ultimately have "chunks N (m @ ?t) = chunks N m @ chunks N (leftover N m @ ?t)"
    using m by (metis append.assoc)
  moreover have "md_fill N P (length (leftover N m)) = md_fill N P (length m)" by (simp add: md_fill_def)
  ultimately show ?thesis by (simp add: md_finish_def)
qed

subsection \<open>The context\<close>

text \<open>The layout that \<open>sha1_ctx\<close> and \<open>sha512_ctx\<close> share, and the code they share up to the block
  length, the offset of the length field and the block transform.\<close>

record 'w md_ctx =
  md_state :: "'w list"
  md_bits :: u64
  md_buf :: bytes
  md_len :: nat

definition md_transform :: "('w list \<Rightarrow> bytes \<Rightarrow> 'w list) \<Rightarrow> ('w, 'e) md_ctx_scheme \<Rightarrow> ('w, 'e) md_ctx_scheme" where
  "md_transform cmpr ctx = ctx\<lparr>md_state := cmpr (md_state ctx) (md_buf ctx)\<rparr>"

text \<open>The loop of an update. With a full buffer the C loop would take nothing and never end; the
  buffer is never full between calls, so that branch is not reached.\<close>

function md_absorb ::
  "nat \<Rightarrow> ('w list \<Rightarrow> bytes \<Rightarrow> 'w list) \<Rightarrow> ('w, 'e) md_ctx_scheme \<Rightarrow> bytes \<Rightarrow> ('w, 'e) md_ctx_scheme" where
  "md_absorb N cmpr ctx msg =
     (if msg = [] \<or> N \<le> md_len ctx then ctx
      else let space = N - md_len ctx;
               tk = (if length msg < space then length msg else space);
               c1 = ctx\<lparr>md_buf := blit (md_buf ctx) (md_len ctx) (take tk msg), md_len := md_len ctx + tk\<rparr>;
               c2 = (if md_len c1 = N then (md_transform cmpr c1)\<lparr>md_len := 0\<rparr> else c1)
           in md_absorb N cmpr c2 (drop tk msg))"
  by pat_completeness auto
termination
  by (relation "measure (\<lambda>(N, cmpr, ctx, msg). length msg)") auto

declare md_absorb.simps [simp del]

definition md_update ::
  "nat \<Rightarrow> ('w list \<Rightarrow> bytes \<Rightarrow> 'w list) \<Rightarrow> ('w, 'e) md_ctx_scheme \<Rightarrow> bytes \<Rightarrow> ('w, 'e) md_ctx_scheme" where
  "md_update N cmpr ctx msg = md_absorb N cmpr (ctx\<lparr>md_bits := md_bits ctx + of_nat (length msg) * 8\<rparr>) msg"

text \<open>\<open>while (buf_len < n) buf[buf_len++] = 0\<close>.\<close>

definition md_zero_to :: "nat \<Rightarrow> ('w, 'e) md_ctx_scheme \<Rightarrow> ('w, 'e) md_ctx_scheme" where
  "md_zero_to n ctx =
     ctx\<lparr>md_buf := blit (md_buf ctx) (md_len ctx) (replicate (n - md_len ctx) 0), md_len := max n (md_len ctx)\<rparr>"

text \<open>A final up to the output: \<open>tl\<close> is what is written at the offset \<open>P\<close>.\<close>

definition md_final ::
  "nat \<Rightarrow> nat \<Rightarrow> ('w list \<Rightarrow> bytes \<Rightarrow> 'w list) \<Rightarrow> (u64 \<Rightarrow> bytes) \<Rightarrow> ('w, 'e) md_ctx_scheme \<Rightarrow> ('w, 'e) md_ctx_scheme" where
  "md_final N P cmpr ltail ctx =
     (let c1 = ctx\<lparr>md_buf := (md_buf ctx)[md_len ctx := 0x80], md_len := md_len ctx + 1\<rparr>;
          c2 = (if P < md_len c1 then (md_transform cmpr (md_zero_to N c1))\<lparr>md_len := 0\<rparr> else c1);
          c3 = md_zero_to P c2;
          c4 = c3\<lparr>md_buf := blit (md_buf c3) P (ltail (md_bits c3))\<rparr>
      in md_transform cmpr c4)"

definition md_wf :: "nat \<Rightarrow> ('w, 'e) md_ctx_scheme \<Rightarrow> bool" where
  "md_wf N c \<longleftrightarrow> length (md_buf c) = N \<and> md_len c < N"

definition md_pend :: "('w, 'e) md_ctx_scheme \<Rightarrow> bytes" where
  "md_pend c = take (md_len c) (md_buf c)"

definition md_view :: "('w, 'e) md_ctx_scheme \<Rightarrow> bytes \<times> 'w list" where
  "md_view c = (md_pend c, md_state c)"

lemma md_pend_length: "md_wf N c \<Longrightarrow> length (md_pend c) = md_len c"
  by (simp add: md_wf_def md_pend_def)

text \<open>The shared loop satisfies the interface.\<close>

lemma md_loop_context:
  fixes cmpr :: "'w list \<Rightarrow> bytes \<Rightarrow> 'w list"
  assumes "0 < N"
  shows "md_loop N cmpr (md_absorb N cmpr :: ('w, 'e) md_ctx_scheme \<Rightarrow> _) md_pend md_state (md_wf N)"
proof (unfold_locales, rule assms)
  fix c :: "('w, 'e) md_ctx_scheme" and m :: bytes
  show "md_absorb N cmpr c [] = c" by (simp add: md_absorb.simps)
  assume wf: "md_wf N c"
  then show "length (md_pend c) < N" by (simp add: md_pend_length) (simp add: md_wf_def)
  have l: "length (md_buf c) = N" "md_len c < N" "length (md_pend c) = md_len c"
    using wf md_pend_length [OF wf] by (auto simp: md_wf_def)
  show "md_wf N (md_absorb N cmpr c m) \<and> md_pend (md_absorb N cmpr c m) = md_pend c @ m \<and> md_state (md_absorb N cmpr c m) = md_state c"
    if "m \<noteq> []" "length (md_pend c) + length m < N"
  proof -
    have "md_absorb N cmpr c m = c\<lparr>md_buf := blit (md_buf c) (md_len c) m, md_len := md_len c + length m\<rparr>"
      using that l by (subst md_absorb.simps) (simp add: Let_def md_absorb.simps)
    then show ?thesis using that l by (simp add: md_wf_def md_pend_def take_blit)
  qed
  show "\<exists>c'. md_absorb N cmpr c m = md_absorb N cmpr c' (drop (N - length (md_pend c)) m) \<and> md_wf N c' \<and> md_pend c' = [] \<and>
      md_state c' = cmpr (md_state c) (md_pend c @ take (N - length (md_pend c)) m)"
    if n: "N \<le> length (md_pend c) + length m"
  proof -
    let ?k = "N - md_len c"
    define c1 where "c1 = c\<lparr>md_buf := blit (md_buf c) (md_len c) (take ?k m), md_len := N\<rparr>"
    define c2 where "c2 = (md_transform cmpr c1)\<lparr>md_len := 0\<rparr>"
    have "md_absorb N cmpr c m = md_absorb N cmpr c2 (drop ?k m)"
      using n l by (subst md_absorb.simps) (auto simp: Let_def c1_def c2_def)
    moreover have "md_buf c1 = md_pend c @ take ?k m" using n l by (simp add: c1_def blit_fill md_pend_def)
    moreover have "md_wf N c2" "md_pend c2 = []" using l n by (auto simp: c2_def c1_def md_wf_def md_transform_def md_pend_def)
    moreover have "md_state c2 = cmpr (md_state c) (md_buf c1)" by (simp add: c2_def md_transform_def c1_def)
    ultimately show ?thesis using l(3) by auto
  qed
qed

lemma md_absorb_bits [simp]: "md_bits (md_absorb N cmpr c m) = md_bits c"
proof (induction N cmpr c m rule: md_absorb.induct)
  case (1 N cmpr c m)
  then show ?case by (subst md_absorb.simps) (simp add: Let_def md_transform_def)
qed

lemma md_stream_context:
  fixes cmpr :: "'w list \<Rightarrow> bytes \<Rightarrow> 'w list"
  assumes N: "0 < N"
  shows "block_stream N cmpr (md_update N cmpr :: ('w, 'e) md_ctx_scheme \<Rightarrow> _) md_view (md_wf N)"
proof (unfold_locales, rule assms)
  fix c :: "('w, 'e) md_ctx_scheme" and m :: bytes
  assume wf: "md_wf N c"
  let ?c = "c\<lparr>md_bits := md_bits c + of_nat (length m) * 8\<rparr>"
  have "md_wf N ?c" using wf by (simp add: md_wf_def)
  from md_loop.loop_view [OF md_loop_context [OF N] this, of cmpr m]
  show "md_view (md_update N cmpr c m) = absorb N cmpr (md_view c) m" "md_wf N (md_update N cmpr c m)"
    by (simp_all add: md_update_def md_view_def md_pend_def)
qed

lemma md_zero_to_take:
  assumes "md_len c \<le> n" "n \<le> length (md_buf c)"
  shows "take n (md_buf (md_zero_to n c)) = md_pend c @ replicate (n - md_len c) 0"
proof -
  have "take (md_len c + length (replicate (n - md_len c) (0::u8)))
      (blit (md_buf c) (md_len c) (replicate (n - md_len c) 0)) = md_pend c @ replicate (n - md_len c) 0"
    using assms unfolding md_pend_def by (intro take_blit) simp
  with assms show ?thesis by (simp add: md_zero_to_def)
qed

lemma md_final_finish:
  assumes wf: "md_wf N c" and P: "0 < P" "\<And>w. P + length (ltail w) = N"
  shows "md_state (md_final N P cmpr ltail c) = md_finish N P cmpr (md_view c) (ltail (md_bits c))"
proof -
  let ?n = "md_len c" and ?p = "md_pend c"
  have l: "length (md_buf c) = N" "?n < N" "length ?p = ?n" using wf md_pend_length [OF wf] by (auto simp: md_wf_def)
  have PN: "P \<le> N" using P(2) by (metis le_add1)
  define c1 where "c1 = c\<lparr>md_buf := (md_buf c)[?n := 0x80], md_len := ?n + 1\<rparr>"
  have c1: "md_len c1 = Suc ?n" "length (md_buf c1) = N" "md_state c1 = md_state c" "md_bits c1 = md_bits c"
    "md_pend c1 = ?p @ [0x80]"
    using l by (simp_all add: c1_def md_pend_def take_Suc_conv_app_nth)
  define c2 where "c2 = (if P < md_len c1 then (md_transform cmpr (md_zero_to N c1))\<lparr>md_len := 0\<rparr> else c1)"
  define c3 where "c3 = md_zero_to P c2"
  have fin: "md_state (md_final N P cmpr ltail c) = cmpr (md_state c3) (blit (md_buf c3) P (ltail (md_bits c3)))"
    by (simp add: md_final_def Let_def c1_def c2_def c3_def md_transform_def)
  have c2: "length (md_buf c2) = N" "md_bits c2 = md_bits c" "md_len c2 \<le> P"
    using l c1 by (auto simp: c2_def md_transform_def md_zero_to_def)
  have c3: "length (md_buf c3) = N" "md_bits c3 = md_bits c" "md_state c3 = md_state c2"
    "take P (md_buf c3) = md_pend c2 @ replicate (P - md_len c2) 0"
    using md_zero_to_take [OF c2(3)] c2 PN by (simp_all add: c3_def) (simp_all add: md_zero_to_def)
  have blk: "blit (md_buf c3) P (ltail (md_bits c)) = (md_pend c2 @ replicate (P - md_len c2) 0) @ ltail (md_bits c)"
    using c3 P(2) [of "md_bits c"] by (simp add: blit_fill)
  show ?thesis
  proof (cases "?n < P")
    case True
    then have "c2 = c1" by (simp add: c2_def c1)
    then show ?thesis using md_finish_short [of ?p P "ltail (md_bits c)" N cmpr "md_state c"] True P(2) l
      by (simp add: fin blk c3 c1 md_view_def)
  next
    case False
    have z: "md_buf (md_zero_to N c1) = (?p @ [0x80]) @ replicate (N - Suc ?n) 0"
      using md_zero_to_take [of c1 N] l c1 by (simp add: md_zero_to_def)
    have "md_len c2 = 0" "md_pend c2 = []" "md_state c2 = cmpr (md_state c) ((?p @ [0x80]) @ replicate (N - Suc ?n) 0)"
      using False c1 z by (simp_all add: c2_def md_transform_def md_pend_def) (simp add: md_zero_to_def c1)
    then show ?thesis using md_finish_long [of P ?p N "ltail (md_bits c)" cmpr "md_state c"] False P l
      by (simp add: fin blk c3 md_view_def)
  qed
qed

lemma md_pieces_bits: "md_bits (foldl (md_update N cmpr) c ms) = md_bits c + of_nat (8 * length (concat ms))"
  by (induction ms arbitrary: c) (simp_all add: md_update_def algebra_simps)

text \<open>Any cutting of a message into pieces gives the hash of the padded whole.\<close>

lemma md_whole:
  assumes "md_wf N c" "md_view c = ([], s)" "md_bits c = 0" "0 < P" "\<And>w. P + length (ltail w) = N"
  shows "md_state (md_final N P cmpr ltail (foldl (md_update N cmpr) c ms)) =
    foldl cmpr s (chunks N (concat ms @ md_fill N P (length (concat ms)) @ ltail (of_nat (8 * length (concat ms)))))"
proof -
  have N: "0 < N" using assms(1) by (auto simp: md_wf_def)
  note b = block_stream.pieces_wf [OF md_stream_context [OF N] assms(1)]
    block_stream.from_start [OF md_stream_context [OF N] assms(1,2)]
  show ?thesis
    using md_final_finish [OF b(1) assms(4,5)] b(2) md_finish_whole [OF N]
    by (simp add: md_pieces_bits assms(3))
qed

end
