(* ===== verification/Sha1.thy ===== *)
theory Sha1
  imports Md_Hash
begin

text \<open>
  SHA-1 (\<open>src/crypto/sha1.c\<close>, \<open>sha1.h\<close>): the block transform, the streaming context and the one-shot
  hash, with the round functions of FIPS 180-4 as the reference.
\<close>

unbundle bit_operations_syntax

subsection \<open>The block transform\<close>

definition sha1_rotl :: "u32 \<Rightarrow> nat \<Rightarrow> u32" where
  "sha1_rotl x n = push_bit n x OR drop_bit (32 - n) x"

text \<open>The second schedule loop: \<open>W\<close> grows by one word per turn, \<open>i = length W\<close>.\<close>

fun sha1_sched :: "nat \<Rightarrow> u32 list \<Rightarrow> u32 list" where
  "sha1_sched 0 W = W"
| "sha1_sched (Suc n) W =
     (let i = length W in
      sha1_sched n (W @ [sha1_rotl (W ! (i - 3) XOR W ! (i - 8) XOR W ! (i - 14) XOR W ! (i - 16)) 1]))"

type_synonym sha1_vars = "u32 \<times> u32 \<times> u32 \<times> u32 \<times> u32"

fun sha1_round :: "sha1_vars \<Rightarrow> nat \<times> u32 \<Rightarrow> sha1_vars" where
  "sha1_round (a, b, c, d, e) (i, w) =
     (let (f, k) =
        (if i < 20 then ((b AND c) OR (NOT b AND d), 0x5A827999)
         else if i < 40 then (b XOR c XOR d, 0x6ED9EBA1)
         else if i < 60 then ((b AND c) OR (b AND d) OR (c AND d), 0x8F1BBCDC)
         else (b XOR c XOR d, 0xCA62C1D6));
        t = sha1_rotl a 5 + f + e + k + w
      in (t, a, sha1_rotl b 30, c, d))"

definition sha1_compress :: "u32 list \<Rightarrow> bytes \<Rightarrow> u32 list" where
  "sha1_compress st blk =
     (let W = sha1_sched 64 (ld_words be32 blk);
          (a, b, c, d, e) = foldl sha1_round (st ! 0, st ! 1, st ! 2, st ! 3, st ! 4) (zip [0..<80] W)
      in [st ! 0 + a, st ! 1 + b, st ! 2 + c, st ! 3 + d, st ! 4 + e])"

subsection \<open>Streaming\<close>

type_synonym sha1_ctx = "u32 md_ctx"

definition sha1_transform :: "sha1_ctx \<Rightarrow> sha1_ctx" where
  "sha1_transform = md_transform sha1_compress"

definition sha1_iv :: "u32 list" where
  "sha1_iv = [0x67452301, 0xEFCDAB89, 0x98BADCFE, 0x10325476, 0xC3D2E1F0]"

definition sha1_init :: "sha1_ctx \<Rightarrow> sha1_ctx" where
  "sha1_init ctx = ctx\<lparr>md_state := sha1_iv, md_bits := 0, md_len := 0\<rparr>"

definition sha1_update :: "sha1_ctx \<Rightarrow> bytes \<Rightarrow> sha1_ctx" where
  "sha1_update = md_update 64 sha1_compress"

definition sha1_final :: "sha1_ctx \<Rightarrow> sha1_ctx \<times> bytes" where
  "sha1_final ctx =
     (let c = md_final 64 56 sha1_compress st_be64 ctx
      in (c, concat (map (\<lambda>i. st_be32 (md_state c ! i)) [0..<5])))"

text \<open>A context on the stack: its buffer is whatever was there, zeros in the model; the theorem
  holds for any contents.\<close>

definition sha1_fresh :: sha1_ctx where
  "sha1_fresh = \<lparr>md_state = replicate 5 0, md_bits = 0, md_buf = replicate 64 0, md_len = 0\<rparr>"

definition sha1 :: "bytes \<Rightarrow> bytes" where
  "sha1 msg = snd (sha1_final (sha1_update (sha1_init sha1_fresh) msg))"

subsection \<open>Reference: FIPS 180-4, sections 4.1.1, 4.2.1, 5.1.1 and 6.1.2\<close>

definition fips_rotl :: "nat \<Rightarrow> u32 \<Rightarrow> u32" where
  "fips_rotl n x = word_rotl n x"

fun fips1_f :: "nat \<Rightarrow> u32 \<Rightarrow> u32 \<Rightarrow> u32 \<Rightarrow> u32" where
  "fips1_f t x y z =
     (if t < 20 then (x AND y) XOR (NOT x AND z)
      else if t < 40 \<or> 60 \<le> t then x XOR y XOR z
      else (x AND y) XOR (x AND z) XOR (y AND z))"

definition fips1_K :: "nat \<Rightarrow> u32" where
  "fips1_K t = [0x5a827999, 0x6ed9eba1, 0x8f1bbcdc, 0xca62c1d6] ! (t div 20)"

fun fips1_W :: "u32 list \<Rightarrow> nat \<Rightarrow> u32" where
  "fips1_W M t = (if t < 16 then M ! t
     else fips_rotl 1 (fips1_W M (t - 3) XOR fips1_W M (t - 8) XOR fips1_W M (t - 14) XOR fips1_W M (t - 16)))"

declare fips1_W.simps [simp del]

fun fips1_rounds :: "u32 list \<Rightarrow> nat \<Rightarrow> sha1_vars \<Rightarrow> sha1_vars" where
  "fips1_rounds M 0 v = v"
| "fips1_rounds M (Suc t) v =
     (case fips1_rounds M t v of (a, b, c, d, e) \<Rightarrow>
        (fips_rotl 5 a + fips1_f t b c d + e + fips1_K t + fips1_W M t, a, fips_rotl 30 b, c, d))"

definition fips1_block :: "u32 list \<Rightarrow> bytes \<Rightarrow> u32 list" where
  "fips1_block H blk =
     (case fips1_rounds (ld_words be32 blk) 80 (H ! 0, H ! 1, H ! 2, H ! 3, H ! 4) of (a, b, c, d, e) \<Rightarrow>
        [a + H ! 0, b + H ! 1, c + H ! 2, d + H ! 3, e + H ! 4])"

definition sha1_spec :: "bytes \<Rightarrow> bytes" where
  "sha1_spec m = concat (map st_be32 (foldl fips1_block sha1_iv
     (chunks 64 (m @ md_fill 64 56 (length m) @ st_be64 (of_nat (8 * length m))))))"

subsection \<open>The transform computes the reference\<close>

lemma rotl_eq: "0 < n \<Longrightarrow> n < 32 \<Longrightarrow> sha1_rotl x n = fips_rotl n x"
proof -
  assume n: "0 < n" "n < 32"
  show ?thesis
  proof (rule bit_word_eqI)
    fix i assume "i < LENGTH(32)"
    then have i: "i < 32" by simp
    have m: "(i + 32 - n) mod 32 = (if n \<le> i then i - n else 32 + i - n)"
      using n i by (auto simp: mod_if)
    have "\<not> bit x (32 + i - n)" if "n \<le> i" using that n bit_imp_le_length [of x "32 + i - n"] by auto
    then show "bit (sha1_rotl x n) i = bit (fips_rotl n x) i"
      using n i by (simp add: sha1_rotl_def fips_rotl_def bit_word_rotl_iff bit_or_iff bit_push_bit_iff bit_drop_bit_eq m)
  qed
qed

lemma choose_or: "((b :: u32) AND c) OR (NOT b AND d) = (b AND c) XOR (NOT b AND d)"
  by (rule bit_word_eqI) (auto simp: bit_simps)

lemma majority_or: "((b :: u32) AND c) OR (b AND d) OR (c AND d) = (b AND c) XOR (b AND d) XOR (c AND d)"
  by (rule bit_word_eqI) (auto simp: bit_simps)

lemma sha1_sched_W:
  assumes "16 \<le> length W" "\<And>t. t < length W \<Longrightarrow> W ! t = fips1_W M t"
  shows "length (sha1_sched n W) = length W + n \<and> (\<forall>t < length W + n. sha1_sched n W ! t = fips1_W M t)"
  using assms
proof (induction n arbitrary: W)
  case (Suc n)
  let ?i = "length W"
  let ?x = "sha1_rotl (W ! (?i - 3) XOR W ! (?i - 8) XOR W ! (?i - 14) XOR W ! (?i - 16)) 1"
  have x: "?x = fips1_W M ?i"
    using Suc.prems by (subst fips1_W.simps) (simp add: rotl_eq)
  have "length (sha1_sched n (W @ [?x])) = length (W @ [?x]) + n \<and>
      (\<forall>t < length (W @ [?x]) + n. sha1_sched n (W @ [?x]) ! t = fips1_W M t)"
    by (rule Suc.IH) (use Suc.prems x in \<open>auto simp: nth_append less_Suc_eq\<close>)
  then show ?case by (simp add: Let_def)
qed simp

lemma sha1_round_fips:
  "t < 80 \<Longrightarrow> sha1_round (a, b, c, d, e) (t, w) =
     (fips_rotl 5 a + fips1_f t b c d + e + fips1_K t + w, a, fips_rotl 30 b, c, d)"
proof -
  assume t: "t < 80"
  have k: "fips1_K t = (if t < 20 then 0x5A827999 else if t < 40 then 0x6ED9EBA1 else if t < 60 then 0x8F1BBCDC else 0xCA62C1D6)"
  proof -
    have "t div 20 = (if t < 20 then 0 else if t < 40 then 1 else if t < 60 then 2 else 3)"
      using t by (auto simp: div_nat_eqI)
    then show ?thesis by (simp add: fips1_K_def)
  qed
  show ?thesis unfolding k by (simp add: rotl_eq choose_or majority_or)
qed

lemma sha1_rounds_fips:
  assumes "length W = 80" "\<And>t. t < 80 \<Longrightarrow> W ! t = fips1_W M t" "k \<le> 80"
  shows "foldl sha1_round v (take k (zip [0..<80] W)) = fips1_rounds M k v"
  using assms(3)
proof (induction k)
  case (Suc k)
  have "take (Suc k) (zip [0..<80] W) = take k (zip [0..<80] W) @ [(k, W ! k)]"
    using Suc.prems assms(1) by (simp add: take_Suc_conv_app_nth)
  moreover obtain a b c d e where v: "fips1_rounds M k v = (a, b, c, d, e)" by (metis prod.exhaust)
  ultimately show ?case using Suc sha1_round_fips [of k a b c d e] assms(2) by simp
qed simp

lemma sha1_compress_fips: "length blk = 64 \<Longrightarrow> sha1_compress st blk = fips1_block st blk"
proof -
  assume l: "length blk = 64"
  let ?M = "ld_words be32 blk"
  have "?M ! t = fips1_W ?M t" if "t < 16" for t using that by (simp add: fips1_W.simps)
  then have w: "length (sha1_sched 64 ?M) = 80" "\<And>t. t < 80 \<Longrightarrow> sha1_sched 64 ?M ! t = fips1_W ?M t"
    using sha1_sched_W [of ?M ?M 64] l by auto
  have "zip [0..<80] (sha1_sched 64 ?M) = take 80 (zip [0..<80] (sha1_sched 64 ?M))" using w by simp
  then have "foldl sha1_round v (zip [0..<80] (sha1_sched 64 ?M)) = fips1_rounds ?M 80 v" for v
    using sha1_rounds_fips [OF w, of 80 v] by simp
  then show ?thesis by (simp add: sha1_compress_def fips1_block_def Let_def add.commute)
qed

lemma foldl_blocks:
  "(\<And>b s. b \<in> set bs \<Longrightarrow> f s b = g s b) \<Longrightarrow> foldl f s bs = foldl g s bs"
  by (induction bs arbitrary: s) auto

subsection \<open>The streaming context\<close>

interpretation sha1_loop: md_loop 64 sha1_compress "md_absorb 64 sha1_compress" md_pend md_state "md_wf 64"
  by (rule md_loop_context) simp

interpretation sha1_stream: block_stream 64 sha1_compress sha1_update md_view "md_wf 64"
  unfolding sha1_update_def by (rule md_stream_context) simp

lemma sha1_init_view:
  "length (md_buf c) = 64 \<Longrightarrow> md_wf 64 (sha1_init c)" "md_view (sha1_init c) = ([], sha1_iv)" "md_bits (sha1_init c) = 0"
  by (simp_all add: sha1_init_def md_wf_def md_view_def md_pend_def)

lemma length_fips1: "length (foldl fips1_block s bs) = (if bs = [] then length s else 5)"
  by (induction bs rule: rev_induct) (auto simp: fips1_block_def split: prod.splits)

text \<open>C35. for any way of cutting a message into pieces, and any initial contents of the context's
  buffer, \<open>sha1_init\<close>, one \<open>sha1_update\<close> per piece and \<open>sha1_final\<close> return the SHA-1 hash of FIPS 180-4
  of the concatenation of the pieces: the round functions written with \<open>|\<close>, the rotations by shifts
  and the padding across two blocks agree with the standard.\<close>

theorem sha1_pieces:
  assumes "length (md_buf c) = 64"
  shows "snd (sha1_final (foldl sha1_update (sha1_init c) ms)) = sha1_spec (concat ms)"
proof -
  let ?m = "concat ms"
  let ?b = "chunks 64 (?m @ md_fill 64 56 (length ?m) @ st_be64 (of_nat (8 * length ?m)))"
  let ?f = "md_final 64 56 sha1_compress st_be64 (foldl sha1_update (sha1_init c) ms)"
  have "md_state ?f = foldl sha1_compress sha1_iv ?b"
    unfolding sha1_update_def by (rule md_whole) (use assms sha1_init_view in simp_all)
  also have "\<dots> = foldl fips1_block sha1_iv ?b"
    by (rule foldl_blocks) (use chunks_length sha1_compress_fips in blast)
  finally have st: "md_state ?f = foldl fips1_block sha1_iv ?b" .
  have "length (md_state ?f) = 5" unfolding st length_fips1 by (simp add: sha1_iv_def)
  then have "map (\<lambda>i. st_be32 (md_state ?f ! i)) [0..<5] = map st_be32 (md_state ?f)"
    by (simp add: list_eq_iff_nth_eq)
  then show ?thesis by (simp add: sha1_final_def Let_def sha1_spec_def st)
qed

theorem sha1_pieces_witness:
  "snd (sha1_final (foldl sha1_update
     (sha1_init \<lparr>md_state = [], md_bits = 9, md_buf = replicate 64 7, md_len = 3\<rparr>) [[1, 2], [], replicate 70 3]))
    = sha1_spec ([1, 2] @ replicate 70 3)"
  by (subst sha1_pieces) simp_all

end
