(* ===== verification/Sha512.thy ===== *)
theory Sha512
  imports Md_Hash
begin

text \<open>
  SHA-512 and SHA-384 (\<open>src/crypto/sha512.c\<close>, \<open>sha512.h\<close>): the block transform, the streaming context
  with its flag for the shorter hash, and the one-shot hashes, with FIPS 180-4 as the reference.
\<close>

unbundle bit_operations_syntax

subsection \<open>Primitives\<close>

definition rotr64 :: "u64 \<Rightarrow> nat \<Rightarrow> u64" where
  "rotr64 x n = drop_bit n x OR push_bit (64 - n) x"

definition CH_512 :: "u64 \<Rightarrow> u64 \<Rightarrow> u64 \<Rightarrow> u64" where
  "CH_512 x y z = (x AND y) XOR (NOT x AND z)"

definition MAJ_512 :: "u64 \<Rightarrow> u64 \<Rightarrow> u64 \<Rightarrow> u64" where
  "MAJ_512 x y z = (x AND y) XOR (x AND z) XOR (y AND z)"

definition BSIG0_512 :: "u64 \<Rightarrow> u64" where
  "BSIG0_512 x = rotr64 x 28 XOR rotr64 x 34 XOR rotr64 x 39"

definition BSIG1_512 :: "u64 \<Rightarrow> u64" where
  "BSIG1_512 x = rotr64 x 14 XOR rotr64 x 18 XOR rotr64 x 41"

definition SSIG0_512 :: "u64 \<Rightarrow> u64" where
  "SSIG0_512 x = rotr64 x 1 XOR rotr64 x 8 XOR drop_bit 7 x"

definition SSIG1_512 :: "u64 \<Rightarrow> u64" where
  "SSIG1_512 x = rotr64 x 19 XOR rotr64 x 61 XOR drop_bit 6 x"

definition sha512_K :: "u64 list" where
  "sha512_K = concat [
    [0x428a2f98d728ae22, 0x7137449123ef65cd, 0xb5c0fbcfec4d3b2f],
    [0xe9b5dba58189dbbc, 0x3956c25bf348b538, 0x59f111f1b605d019],
    [0x923f82a4af194f9b, 0xab1c5ed5da6d8118, 0xd807aa98a3030242],
    [0x12835b0145706fbe, 0x243185be4ee4b28c, 0x550c7dc3d5ffb4e2],
    [0x72be5d74f27b896f, 0x80deb1fe3b1696b1, 0x9bdc06a725c71235],
    [0xc19bf174cf692694, 0xe49b69c19ef14ad2, 0xefbe4786384f25e3],
    [0x0fc19dc68b8cd5b5, 0x240ca1cc77ac9c65, 0x2de92c6f592b0275],
    [0x4a7484aa6ea6e483, 0x5cb0a9dcbd41fbd4, 0x76f988da831153b5],
    [0x983e5152ee66dfab, 0xa831c66d2db43210, 0xb00327c898fb213f],
    [0xbf597fc7beef0ee4, 0xc6e00bf33da88fc2, 0xd5a79147930aa725],
    [0x06ca6351e003826f, 0x142929670a0e6e70, 0x27b70a8546d22ffc],
    [0x2e1b21385c26c926, 0x4d2c6dfc5ac42aed, 0x53380d139d95b3df],
    [0x650a73548baf63de, 0x766a0abb3c77b2a8, 0x81c2c92e47edaee6],
    [0x92722c851482353b, 0xa2bfe8a14cf10364, 0xa81a664bbc423001],
    [0xc24b8b70d0f89791, 0xc76c51a30654be30, 0xd192e819d6ef5218],
    [0xd69906245565a910, 0xf40e35855771202a, 0x106aa07032bbd1b8],
    [0x19a4c116b8d2d0c8, 0x1e376c085141ab53, 0x2748774cdf8eeb99],
    [0x34b0bcb5e19b48a8, 0x391c0cb3c5c95a63, 0x4ed8aa4ae3418acb],
    [0x5b9cca4f7763e373, 0x682e6ff3d6b2b8a3, 0x748f82ee5defb2fc],
    [0x78a5636f43172f60, 0x84c87814a1f0ab72, 0x8cc702081a6439ec],
    [0x90befffa23631e28, 0xa4506cebde82bde9, 0xbef9a3f7b2c67915],
    [0xc67178f2e372532b, 0xca273eceea26619c, 0xd186b8c721c0c207],
    [0xeada7dd6cde0eb1e, 0xf57d4f7fee6ed178, 0x06f067aa72176fba],
    [0x0a637dc5a2c898a6, 0x113f9804bef90dae, 0x1b710b35131c471b],
    [0x28db77f523047d84, 0x32caab7b40c72493, 0x3c9ebe0a15c9bebc],
    [0x431d67c49c100d4c, 0x4cc5d4becb3e42b6, 0x597f299cfc657e2a],
    [0x5fcb6fab3ad6faec, 0x6c44198c4a475817]]"

definition IV512 :: "u64 list" where
  "IV512 = concat [
    [0x6a09e667f3bcc908, 0xbb67ae8584caa73b, 0x3c6ef372fe94f82b],
    [0xa54ff53a5f1d36f1, 0x510e527fade682d1, 0x9b05688c2b3e6c1f],
    [0x1f83d9abfb41bd6b, 0x5be0cd19137e2179]]"

definition IV384 :: "u64 list" where
  "IV384 = concat [
    [0xcbbb9d5dc1059ed8, 0x629a292a367cd507, 0x9159015a3070dd17],
    [0x152fecd8f70e5939, 0x67332667ffc00b31, 0x8eb44a8768581511],
    [0xdb0c2e0d64f98fa7, 0x47b5481dbefa4fa4]]"

subsection \<open>The block transform\<close>

definition be64 :: "bytes \<Rightarrow> nat \<Rightarrow> u64" where
  "be64 buf j =
     push_bit 56 (ucast (buf ! j)) OR push_bit 48 (ucast (buf ! (j + 1))) OR
     push_bit 40 (ucast (buf ! (j + 2))) OR push_bit 32 (ucast (buf ! (j + 3))) OR
     push_bit 24 (ucast (buf ! (j + 4))) OR push_bit 16 (ucast (buf ! (j + 5))) OR
     push_bit 8 (ucast (buf ! (j + 6))) OR ucast (buf ! (j + 7))"

fun sha512_sched :: "nat \<Rightarrow> u64 list \<Rightarrow> u64 list" where
  "sha512_sched 0 W = W"
| "sha512_sched (Suc n) W =
     (let i = length W in
      sha512_sched n (W @ [SSIG1_512 (W ! (i - 2)) + W ! (i - 7) + SSIG0_512 (W ! (i - 15)) + W ! (i - 16)]))"

type_synonym sha512_vars = "u64 \<times> u64 \<times> u64 \<times> u64 \<times> u64 \<times> u64 \<times> u64 \<times> u64"

fun sha512_round :: "sha512_vars \<Rightarrow> u64 \<times> u64 \<Rightarrow> sha512_vars" where
  "sha512_round (a, b, c, d, e, f, g, h) (k, w) =
     (let T1 = h + BSIG1_512 e + CH_512 e f g + k + w; T2 = BSIG0_512 a + MAJ_512 a b c
      in (T1 + T2, a, b, c, d + T1, e, f, g))"

definition sha512_compress :: "u64 list \<Rightarrow> bytes \<Rightarrow> u64 list" where
  "sha512_compress st blk =
     (let W = sha512_sched 64 (map (\<lambda>i. be64 blk (i * 8)) [0..<16]);
          (a, b, c, d, e, f, g, h) =
            foldl sha512_round (st ! 0, st ! 1, st ! 2, st ! 3, st ! 4, st ! 5, st ! 6, st ! 7) (zip sha512_K W)
      in [st ! 0 + a, st ! 1 + b, st ! 2 + c, st ! 3 + d, st ! 4 + e, st ! 5 + f, st ! 6 + g, st ! 7 + h])"

subsection \<open>Streaming\<close>

record sha512_ctx = "u64 md_ctx" +
  is_384 :: bool

definition sha512_transform :: "sha512_ctx \<Rightarrow> sha512_ctx" where
  "sha512_transform = md_transform sha512_compress"

definition sha512_init :: "sha512_ctx \<Rightarrow> sha512_ctx" where
  "sha512_init ctx = ctx\<lparr>md_state := IV512, md_bits := 0, md_len := 0, is_384 := False\<rparr>"

definition sha384_init :: "sha512_ctx \<Rightarrow> sha512_ctx" where
  "sha384_init ctx = ctx\<lparr>md_state := IV384, md_bits := 0, md_len := 0, is_384 := True\<rparr>"

definition sha512_update :: "sha512_ctx \<Rightarrow> bytes \<Rightarrow> sha512_ctx" where
  "sha512_update = md_update 128 sha512_compress"

text \<open>The 128-bit length: eight zero bytes, then the bit count, high byte first.\<close>

definition sha512_length :: "u64 \<Rightarrow> bytes" where
  "sha512_length bits = replicate 8 0 @ map (\<lambda>i. ucast (drop_bit (56 - 8 * i) bits AND 0xFF)) [0..<8]"

definition sha512_word :: "u64 \<Rightarrow> bytes" where
  "sha512_word w = [ucast (drop_bit 56 w), ucast (drop_bit 48 w), ucast (drop_bit 40 w), ucast (drop_bit 32 w),
     ucast (drop_bit 24 w), ucast (drop_bit 16 w), ucast (drop_bit 8 w), ucast w]"

definition sha512_final :: "sha512_ctx \<Rightarrow> sha512_ctx \<times> bytes" where
  "sha512_final ctx =
     (let c = md_final 128 112 sha512_compress sha512_length ctx;
          words = (if is_384 c then 6 else 8)
      in (c, concat (map (\<lambda>i. sha512_word (md_state c ! i)) [0..<words])))"

definition sha512_fresh :: sha512_ctx where
  "sha512_fresh = \<lparr>md_state = replicate 8 0, md_bits = 0, md_buf = replicate 128 0, md_len = 0, is_384 = False\<rparr>"

definition sha512 :: "bytes \<Rightarrow> bytes" where
  "sha512 msg = snd (sha512_final (sha512_update (sha512_init sha512_fresh) msg))"

text \<open>\<open>sha384\<close> copies the first 48 bytes of a 64-byte array into which \<open>sha512_final\<close> wrote 48.\<close>

definition sha384 :: "bytes \<Rightarrow> bytes" where
  "sha384 msg = take 48 (blit (replicate 64 0) 0 (snd (sha512_final (sha512_update (sha384_init sha512_fresh) msg))))"

subsection \<open>Reference: FIPS 180-4, sections 4.1.3, 5.1.2 and 6.4.2\<close>

definition fips_Sigma0 :: "u64 \<Rightarrow> u64" where
  "fips_Sigma0 x = word_rotr 28 x XOR word_rotr 34 x XOR word_rotr 39 x"

definition fips_Sigma1 :: "u64 \<Rightarrow> u64" where
  "fips_Sigma1 x = word_rotr 14 x XOR word_rotr 18 x XOR word_rotr 41 x"

definition fips_sigma0 :: "u64 \<Rightarrow> u64" where
  "fips_sigma0 x = word_rotr 1 x XOR word_rotr 8 x XOR drop_bit 7 x"

definition fips_sigma1 :: "u64 \<Rightarrow> u64" where
  "fips_sigma1 x = word_rotr 19 x XOR word_rotr 61 x XOR drop_bit 6 x"

fun fips2_W :: "u64 list \<Rightarrow> nat \<Rightarrow> u64" where
  "fips2_W M t = (if t < 16 then M ! t
     else fips_sigma1 (fips2_W M (t - 2)) + fips2_W M (t - 7) + fips_sigma0 (fips2_W M (t - 15)) + fips2_W M (t - 16))"

declare fips2_W.simps [simp del]

fun fips2_rounds :: "u64 list \<Rightarrow> nat \<Rightarrow> sha512_vars \<Rightarrow> sha512_vars" where
  "fips2_rounds M 0 v = v"
| "fips2_rounds M (Suc t) v =
     (case fips2_rounds M t v of (a, b, c, d, e, f, g, h) \<Rightarrow>
        let T1 = h + fips_Sigma1 e + ((e AND f) XOR (NOT e AND g)) + sha512_K ! t + fips2_W M t;
            T2 = fips_Sigma0 a + ((a AND b) XOR (a AND c) XOR (b AND c))
        in (T1 + T2, a, b, c, d + T1, e, f, g))"

text \<open>The value of a big-endian byte string.\<close>

definition be_value :: "bytes \<Rightarrow> nat" where
  "be_value bs = foldl (\<lambda>v b. 256 * v + unat b) 0 bs"

definition fips2_block :: "u64 list \<Rightarrow> bytes \<Rightarrow> u64 list" where
  "fips2_block H blk =
     (case fips2_rounds (map (\<lambda>b. of_nat (be_value b)) (chunks 8 blk)) 80
        (H ! 0, H ! 1, H ! 2, H ! 3, H ! 4, H ! 5, H ! 6, H ! 7) of (a, b, c, d, e, f, g, h) \<Rightarrow>
        [a + H ! 0, b + H ! 1, c + H ! 2, d + H ! 3, e + H ! 4, f + H ! 5, g + H ! 6, h + H ! 7])"

text \<open>The padded message ends in the bit length as a 128-bit number.\<close>

definition be_bytes :: "nat \<Rightarrow> nat \<Rightarrow> bytes" where
  "be_bytes k n = rev (le_bytes k n)"

definition fips2_pad :: "bytes \<Rightarrow> bytes" where
  "fips2_pad m = m @ md_fill 128 112 (length m) @ be_bytes 16 (8 * length m)"

definition sha512_spec :: "u64 list \<Rightarrow> bytes \<Rightarrow> bytes" where
  "sha512_spec iv m = concat (map (\<lambda>w. be_bytes 8 (unat w)) (foldl fips2_block iv (chunks 128 (fips2_pad m))))"

subsection \<open>Bytes and words\<close>

lemma rotr64_eq: "0 < n \<Longrightarrow> n < 64 \<Longrightarrow> rotr64 x n = word_rotr n x"
proof -
  assume n: "0 < n" "n < 64"
  show ?thesis
  proof (rule bit_word_eqI)
    fix i assume "i < LENGTH(64)"
    then have i: "i < 64" by simp
    have m: "(i + n) mod 64 = (if i + n < 64 then i + n else i + n - 64)" using n i by (auto simp: mod_if)
    have "\<not> bit x (n + i)" if "64 \<le> n + i" using that bit_imp_le_length [of x "n + i"] by auto
    moreover have "64 - n \<le> i \<Longrightarrow> i - (64 - n) = i + n - 64" using n by simp
    ultimately show "bit (rotr64 x n) i = bit (word_rotr n x) i"
      using n i by (auto simp: rotr64_def bit_word_rotr_iff bit_or_iff bit_push_bit_iff bit_drop_bit_eq m add.commute)
  qed
qed

lemma le_bytes_map: "le_bytes k n = map (\<lambda>i. of_nat (n div 256 ^ i)) [0..<k]"
proof (induction k arbitrary: n)
  case (Suc k)
  have "map (\<lambda>i. of_nat (n div 256 ^ i) :: u8) [0..<Suc k] = of_nat n # map (\<lambda>i. of_nat (n div 256 div 256 ^ i)) [0..<k]"
    by (simp add: upt_conv_Cons map_Suc_upt [symmetric] div_mult2_eq del: upt_Suc)
  then show ?case using Suc by simp
qed simp

lemma ucast_byte: "(ucast (drop_bit (8 * i) w) :: u8) = of_nat (unat w div 256 ^ i)" for w :: u64
  by (simp add: ucast_of_nat unat_drop_bit power_mult)

lemma sha512_word_bytes: "sha512_word w = be_bytes 8 (unat w)"
proof -
  have "be_bytes 8 (unat w) = map (\<lambda>i. ucast (drop_bit (8 * i) w)) [7, 6, 5, 4, 3, 2, 1, 0]"
    unfolding be_bytes_def le_bytes_map ucast_byte by (simp add: upt_rec)
  then show ?thesis by (simp add: sha512_word_def)
qed

lemma be_bytes_zeros: "n < 256 ^ 8 \<Longrightarrow> be_bytes 16 n = replicate 8 0 @ be_bytes 8 n"
proof -
  assume n: "n < 256 ^ 8"
  have z: "n div 256 ^ i = 0" if "8 \<le> i" for i
  proof -
    have "(256 :: nat) ^ 8 \<le> 256 ^ i" using that by (intro power_increasing) auto
    then show ?thesis using n by simp
  qed
  have "le_bytes 16 n = le_bytes 8 n @ map (\<lambda>i. of_nat (n div 256 ^ i)) [8..<16]"
    unfolding le_bytes_map using upt_add_eq_append [of 0 8 8] by (simp del: upt_rec_numeral)
  also have "map (\<lambda>i. of_nat (n div 256 ^ i) :: u8) [8..<16] = replicate 8 0"
  proof -
    have "map (\<lambda>i. of_nat (n div 256 ^ i) :: u8) [8..<16] = map (\<lambda>_. 0) [8..<16]"
      by (rule map_cong [OF refl], subst z) (simp_all del: upt_rec_numeral)
    then show ?thesis by (simp only: map_replicate_const length_upt) simp
  qed
  finally show ?thesis by (simp add: be_bytes_def)
qed

lemma sha512_length_bytes: "n < 2 ^ 64 \<Longrightarrow> sha512_length (of_nat n) = be_bytes 16 n"
proof -
  assume n: "n < 2 ^ 64"
  have u: "unat (of_nat n :: u64) = n" using n by (simp add: unat_of_nat_small)
  have a: "(ucast (x AND 0xFF :: u64) :: u8) = ucast x" for x
  proof -
    have m: "(0xFF :: u64) = mask 8" by (simp add: mask_eq_exp_minus_1)
    show ?thesis unfolding m by (rule bit_word_eqI) (simp add: bit_simps)
  qed
  have "map (\<lambda>i. ucast (drop_bit (56 - 8 * i) w AND 0xFF)) [0..<8] = sha512_word w" for w :: u64
    by (simp add: sha512_word_def a upt_rec)
  then show ?thesis using n be_bytes_zeros [of n] sha512_word_bytes [of "of_nat n"] u
    by (simp add: sha512_length_def)
qed

lemma unat_or_below:
  fixes a b :: u64
  assumes "unat a < 2 ^ k" "unat b * 2 ^ k < 2 ^ 64"
  shows "unat (push_bit k b OR a) = unat b * 2 ^ k + unat a"
  using unat_or_push_bit [OF assms(1), of b] assms(2) by (simp add: or.commute unat_push_bit)

lemma be64_value: "length b = 8 \<Longrightarrow> be64 b 0 = of_nat (be_value b)"
proof -
  assume "length b = 8"
  then obtain b0 b1 b2 b3 b4 b5 b6 b7 where b: "b = [b0, b1, b2, b3, b4, b5, b6, b7]"
    by (auto simp: length_Suc_conv eval_nat_numeral)
  have lt: "unat x < 256" for x :: u8 using unsigned_less [of x] by simp
  have l: "unat (ucast x :: u64) = unat x" "unat x < 256" for x :: u8
    using lt [of x] by (simp_all add: unsigned_ucast_eq take_bit_eq_mod)
  note l' = l(2) [of b0] l(2) [of b1] l(2) [of b2] l(2) [of b3] l(2) [of b4] l(2) [of b5] l(2) [of b6] l(2) [of b7]
  have 6: "unat (push_bit 8 (ucast b6) OR ucast b7 :: u64) = unat b6 * 2 ^ 8 + unat b7"
    using l' by (subst unat_or_below) (simp_all add: l(1))
  have 5: "unat (push_bit 16 (ucast b5) OR push_bit 8 (ucast b6) OR ucast b7 :: u64) = unat b5 * 2 ^ 16 + (unat b6 * 2 ^ 8 + unat b7)"
    using l' by (subst unat_or_below) (simp_all add: l(1) 6)
  have 4: "unat (push_bit 24 (ucast b4) OR push_bit 16 (ucast b5) OR push_bit 8 (ucast b6) OR ucast b7 :: u64) =
      unat b4 * 2 ^ 24 + (unat b5 * 2 ^ 16 + (unat b6 * 2 ^ 8 + unat b7))"
    using l' by (subst unat_or_below) (simp_all add: l(1) 5)
  have 3: "unat (push_bit 32 (ucast b3) OR push_bit 24 (ucast b4) OR push_bit 16 (ucast b5) OR push_bit 8 (ucast b6) OR ucast b7 :: u64) =
      unat b3 * 2 ^ 32 + (unat b4 * 2 ^ 24 + (unat b5 * 2 ^ 16 + (unat b6 * 2 ^ 8 + unat b7)))"
    using l' by (subst unat_or_below) (simp_all add: l(1) 4)
  have 2: "unat (push_bit 40 (ucast b2) OR push_bit 32 (ucast b3) OR push_bit 24 (ucast b4) OR push_bit 16 (ucast b5) OR push_bit 8 (ucast b6) OR ucast b7 :: u64) =
      unat b2 * 2 ^ 40 + (unat b3 * 2 ^ 32 + (unat b4 * 2 ^ 24 + (unat b5 * 2 ^ 16 + (unat b6 * 2 ^ 8 + unat b7))))"
    using l' by (subst unat_or_below) (simp_all add: l(1) 3)
  have 1: "unat (push_bit 48 (ucast b1) OR push_bit 40 (ucast b2) OR push_bit 32 (ucast b3) OR push_bit 24 (ucast b4) OR push_bit 16 (ucast b5) OR push_bit 8 (ucast b6) OR ucast b7 :: u64) =
      unat b1 * 2 ^ 48 + (unat b2 * 2 ^ 40 + (unat b3 * 2 ^ 32 + (unat b4 * 2 ^ 24 + (unat b5 * 2 ^ 16 + (unat b6 * 2 ^ 8 + unat b7)))))"
    using l' by (subst unat_or_below) (simp_all add: l(1) 2)
  have "unat (be64 b 0) = be_value b"
    unfolding b be64_def using l' by (simp add: or.assoc, subst unat_or_below) (simp_all add: l(1) 1 be_value_def)
  then have "of_nat (be_value b) = (of_nat (unat (be64 b 0)) :: u64)" by simp
  then show ?thesis by simp
qed

lemma be64_chunk: "i < 16 \<Longrightarrow> length blk = 128 \<Longrightarrow> be64 blk (i * 8) = be64 (chunks 8 blk ! i) 0"
proof -
  have nth: "chunks 8 xs ! i = take 8 (drop (i * 8) xs)" if "i < n" "length xs = n * 8" for i n and xs :: bytes
    using that
  proof (induction n arbitrary: i xs)
    case (Suc n)
    have c: "chunks 8 xs = take 8 xs # chunks 8 (drop 8 xs)" using Suc.prems by (simp add: chunks.simps [of 8 xs])
    show ?case
    proof (cases i)
      case (Suc j)
      then show ?thesis using Suc.IH [of j "drop 8 xs"] Suc.prems c by (simp add: add.commute)
    qed (simp add: c)
  qed simp
  assume i: "i < 16" and l: "length blk = 128"
  then show ?thesis using nth [of i 16 blk] by (simp add: be64_def)
qed

subsection \<open>The transform computes the reference\<close>

lemma sigma_eqs:
  "BSIG0_512 x = fips_Sigma0 x" "BSIG1_512 x = fips_Sigma1 x" "SSIG0_512 x = fips_sigma0 x" "SSIG1_512 x = fips_sigma1 x"
  by (simp_all add: BSIG0_512_def BSIG1_512_def SSIG0_512_def SSIG1_512_def fips_Sigma0_def fips_Sigma1_def
      fips_sigma0_def fips_sigma1_def rotr64_eq)

lemma sha512_sched_W:
  assumes "16 \<le> length W" "\<And>t. t < length W \<Longrightarrow> W ! t = fips2_W M t"
  shows "length (sha512_sched n W) = length W + n \<and> (\<forall>t < length W + n. sha512_sched n W ! t = fips2_W M t)"
  using assms
proof (induction n arbitrary: W)
  case (Suc n)
  let ?i = "length W"
  let ?x = "SSIG1_512 (W ! (?i - 2)) + W ! (?i - 7) + SSIG0_512 (W ! (?i - 15)) + W ! (?i - 16)"
  have x: "?x = fips2_W M ?i" using Suc.prems by (subst fips2_W.simps) (simp add: sigma_eqs)
  have "length (sha512_sched n (W @ [?x])) = length (W @ [?x]) + n \<and>
      (\<forall>t < length (W @ [?x]) + n. sha512_sched n (W @ [?x]) ! t = fips2_W M t)"
    by (rule Suc.IH) (use Suc.prems x in \<open>auto simp: nth_append less_Suc_eq\<close>)
  then show ?case by (simp add: Let_def)
qed simp

lemma length_sha512_K: "length sha512_K = 80"
  by (simp add: sha512_K_def)

lemma sha512_rounds_fips:
  assumes "length W = 80" "\<And>t. t < 80 \<Longrightarrow> W ! t = fips2_W M t" "k \<le> 80"
  shows "foldl sha512_round v (take k (zip sha512_K W)) = fips2_rounds M k v"
  using assms(3)
proof (induction k)
  case (Suc k)
  have "take (Suc k) (zip sha512_K W) = take k (zip sha512_K W) @ [(sha512_K ! k, W ! k)]"
    using Suc.prems assms(1) by (simp add: take_Suc_conv_app_nth length_sha512_K)
  moreover obtain a b c d e f g h where v: "fips2_rounds M k v = (a, b, c, d, e, f, g, h)" by (metis prod.exhaust)
  ultimately show ?case using Suc assms(2) by (simp add: Let_def sigma_eqs CH_512_def MAJ_512_def)
qed simp

lemma length_chunks: "0 < k \<Longrightarrow> length xs = n * k \<Longrightarrow> length (chunks k xs) = n"
  by (induction n arbitrary: xs) (auto simp: chunks.simps)

lemma sha512_load:
  assumes l: "length blk = 128"
  shows "map (\<lambda>i. be64 blk (i * 8)) [0..<16] = map (\<lambda>b. of_nat (be_value b)) (chunks 8 blk)" (is "?R = ?M")
proof (rule nth_equalityI)
  have lc: "length (chunks 8 blk) = 16" using length_chunks [of 8 blk 16] l by simp
  then show "length ?R = length ?M" by simp
  fix i assume "i < length ?R"
  then have i: "i < 16" by simp
  then have "chunks 8 blk ! i \<in> set (chunks 8 blk)" using lc by (intro nth_mem) simp
  then have "length (chunks 8 blk ! i) = 8" by (rule chunks_length)
  then show "?R ! i = ?M ! i" using be64_chunk [OF i l] be64_value lc i by (simp del: upt_rec_numeral)
qed

lemma sha512_compress_fips:
  assumes l: "length blk = 128"
  shows "sha512_compress st blk = fips2_block st blk"
proof -
  let ?M = "map (\<lambda>b. of_nat (be_value b)) (chunks 8 blk) :: u64 list"
  have lc: "length ?M = 16" using length_chunks [of 8 blk 16] l by simp
  have w: "length (sha512_sched 64 ?M) = 80" "\<And>t. t < 80 \<Longrightarrow> sha512_sched 64 ?M ! t = fips2_W ?M t"
    using sha512_sched_W [of ?M ?M 64] lc by (simp_all add: fips2_W.simps)
  have "zip sha512_K (sha512_sched 64 ?M) = take 80 (zip sha512_K (sha512_sched 64 ?M))" using w by (simp add: length_sha512_K)
  then have r: "foldl sha512_round v (zip sha512_K (sha512_sched 64 ?M)) = fips2_rounds ?M 80 v" for v
    using sha512_rounds_fips [OF w, of 80 v] by simp
  define x where "x = fips2_rounds ?M 80 (st ! 0, st ! 1, st ! 2, st ! 3, st ! 4, st ! 5, st ! 6, st ! 7)"
  obtain a b c d e f g h where v: "x = (a, b, c, d, e, f, g, h)" by (metis prod.exhaust)
  have "sha512_compress st blk =
      (case x of (a, b, c, d, e, f, g, h) \<Rightarrow>
        [st ! 0 + a, st ! 1 + b, st ! 2 + c, st ! 3 + d, st ! 4 + e, st ! 5 + f, st ! 6 + g, st ! 7 + h])"
    unfolding sha512_compress_def sha512_load [OF l] Let_def r x_def by (rule refl)
  moreover have "fips2_block st blk =
      (case x of (a, b, c, d, e, f, g, h) \<Rightarrow>
        [a + st ! 0, b + st ! 1, c + st ! 2, d + st ! 3, e + st ! 4, f + st ! 5, g + st ! 6, h + st ! 7])"
    unfolding fips2_block_def x_def by (rule refl)
  ultimately show ?thesis unfolding v by (simp add: add.commute)
qed

subsection \<open>The streaming context\<close>

interpretation sha512_loop: md_loop 128 sha512_compress "md_absorb 128 sha512_compress" md_pend md_state "md_wf 128"
  by (rule md_loop_context) simp

interpretation sha512_stream: block_stream 128 sha512_compress sha512_update md_view "md_wf 128"
  unfolding sha512_update_def by (rule md_stream_context) simp

lemma foldl_eq_on: "(\<And>b s. b \<in> set bs \<Longrightarrow> f s b = g s b) \<Longrightarrow> foldl f s bs = foldl g s bs"
  by (induction bs arbitrary: s) auto

lemma length_fips2: "length s = 8 \<Longrightarrow> length (foldl fips2_block s bs) = 8"
  by (induction bs rule: rev_induct) (auto simp: fips2_block_def split: prod.splits)

lemma md_absorb_more: "is_384 (md_absorb N cmpr c m) = is_384 c" for c :: sha512_ctx
proof (induction N cmpr c m rule: md_absorb.induct)
  case (1 N cmpr c m)
  then show ?case by (subst md_absorb.simps) (simp add: Let_def md_transform_def)
qed

lemma update_more: "is_384 (foldl sha512_update c ms) = is_384 c"
  by (induction ms arbitrary: c) (simp_all add: sha512_update_def md_update_def md_absorb_more)

lemma final_more: "is_384 (md_final N P cmpr t c) = is_384 c" for c :: sha512_ctx
  by (simp add: md_final_def Let_def md_transform_def md_zero_to_def)

lemma sha512_words_cut:
  assumes "n \<le> length xs"
  shows "concat (map (\<lambda>i. sha512_word (xs ! i)) [0..<n]) = take (8 * n) (concat (map sha512_word xs))"
proof -
  have ln: "length (concat (map sha512_word ys)) = 8 * length ys" for ys by (induction ys) (simp_all add: sha512_word_def)
  have "concat (map sha512_word xs) = concat (map sha512_word (take n xs)) @ concat (map sha512_word (drop n xs))"
    by (metis append_take_drop_id concat_append map_append)
  then have "take (8 * n) (concat (map sha512_word xs)) = concat (map sha512_word (take n xs))"
    using ln [of "take n xs"] assms by simp
  moreover have "map (\<lambda>i. sha512_word (xs ! i)) [0..<n] = map sha512_word (take n xs)"
    using assms by (intro nth_equalityI) simp_all
  ultimately show ?thesis by simp
qed

lemma sha512_final_spec:
  assumes "md_wf 128 c" "md_view c = ([], iv)" "md_bits c = 0" "length iv = 8" "length (concat ms) < 2 ^ 61"
  shows "snd (sha512_final (foldl sha512_update c ms)) =
    take (if is_384 c then 48 else 64) (sha512_spec iv (concat ms))"
proof -
  let ?m = "concat ms"
  let ?b = "chunks 128 (?m @ md_fill 128 112 (length ?m) @ sha512_length (of_nat (8 * length ?m)))"
  let ?f = "md_final 128 112 sha512_compress sha512_length (foldl sha512_update c ms)"
  have ll: "length (sha512_length w) = 16" for w by (simp add: sha512_length_def)
  have "md_state ?f = foldl sha512_compress iv ?b"
    unfolding sha512_update_def by (rule md_whole [OF assms(1-3)]) (simp_all add: ll)
  also have "\<dots> = foldl fips2_block iv ?b"
    by (rule foldl_eq_on) (use chunks_length sha512_compress_fips in blast)
  also have "?b = chunks 128 (fips2_pad ?m)"
    using sha512_length_bytes [of "8 * length ?m"] assms(5) by (simp add: fips2_pad_def)
  finally have st: "md_state ?f = foldl fips2_block iv (chunks 128 (fips2_pad ?m))" .
  have l: "length (md_state ?f) = 8" unfolding st by (rule length_fips2 [OF assms(4)])
  have "snd (sha512_final (foldl sha512_update c ms)) =
      take (8 * (if is_384 c then 6 else 8)) (concat (map sha512_word (md_state ?f)))"
    unfolding sha512_final_def Let_def snd_conv final_more update_more using l by (intro sha512_words_cut) simp
  moreover have "sha512_word = (\<lambda>w. be_bytes 8 (unat w))" by (rule ext) (rule sha512_word_bytes)
  ultimately show ?thesis unfolding st sha512_spec_def by simp
qed

text \<open>C22. for any way of cutting a message of fewer than 2^61 bytes into pieces, and any initial contents
  of the context, the streaming functions return the SHA-512 hash of FIPS 180-4 after \<open>sha512_init\<close>,
  and the first 48 bytes of the hash with the other initial value after \<open>sha384_init\<close>. The one-shot
  functions return the same.\<close>

theorem sha512_pieces:
  assumes "length (md_buf c) = 128" "length (concat ms) < 2 ^ 61"
  shows "snd (sha512_final (foldl sha512_update (sha512_init c) ms)) = sha512_spec IV512 (concat ms) \<and>
    snd (sha512_final (foldl sha512_update (sha384_init c) ms)) = take 48 (sha512_spec IV384 (concat ms)) \<and>
    sha512 (concat ms) = sha512_spec IV512 (concat ms) \<and> sha384 (concat ms) = take 48 (sha512_spec IV384 (concat ms))"
proof -
  have i: "md_wf 128 (sha512_init c)" "md_view (sha512_init c) = ([], IV512)" "md_bits (sha512_init c) = 0" "\<not> is_384 (sha512_init c)"
    "md_wf 128 (sha384_init c)" "md_view (sha384_init c) = ([], IV384)" "md_bits (sha384_init c) = 0" "is_384 (sha384_init c)"
    if "length (md_buf c) = 128" for c
    using that by (simp_all add: sha512_init_def sha384_init_def md_wf_def md_view_def md_pend_def)
  have v: "length IV512 = 8" "length IV384 = 8" by (simp_all add: IV512_def IV384_def)
  have ls: "length (sha512_spec IV512 m) = 64" "length (sha512_spec IV384 m) = 64" for m
  proof -
    have "length (concat (map (\<lambda>w. be_bytes 8 (unat w)) ws)) = 8 * length ws" for ws :: "u64 list"
      by (induction ws) (simp_all add: be_bytes_def)
    then show "length (sha512_spec IV512 m) = 64" "length (sha512_spec IV384 m) = 64"
      using length_fips2 [OF v(1)] length_fips2 [OF v(2)] by (simp_all add: sha512_spec_def)
  qed
  have a: "snd (sha512_final (foldl sha512_update (sha512_init c) ms)) = sha512_spec IV512 (concat ms)"
    "snd (sha512_final (foldl sha512_update (sha384_init c) ms)) = take 48 (sha512_spec IV384 (concat ms))"
    if "length (md_buf c) = 128" "length (concat ms) < 2 ^ 61" for c ms
    using sha512_final_spec [OF i(1-3) v(1) that(2)] sha512_final_spec [OF i(5-7) v(2) that(2)] i(4,8) that(1) ls by simp_all
  have fresh: "length (md_buf sha512_fresh) = 128" "length (concat [concat ms]) < 2 ^ 61"
    using assms(2) by (simp_all add: sha512_fresh_def)
  show ?thesis using a [OF assms] a [OF fresh] ls by (simp add: sha512_def sha384_def blit_0)
qed

theorem sha512_pieces_witness:
  "snd (sha512_final (foldl sha512_update
     (sha384_init \<lparr>md_state = [], md_bits = 9, md_buf = replicate 128 7, md_len = 3, is_384 = False\<rparr>)
     [[1, 2], [], replicate 140 3])) = take 48 (sha512_spec IV384 ([1, 2] @ replicate 140 3))"
  using sha512_pieces [of "\<lparr>md_state = [], md_bits = 9, md_buf = replicate 128 7, md_len = 3, is_384 = False\<rparr>"
      "[[1, 2], [], replicate 140 3]"] by simp

end
