(* ===== verification/Sha256_Fips.thy ===== *)
theory Sha256_Fips
  imports Sha256 Sha512
begin

text \<open>
  SHA-256 as FIPS 180-4 defines it, independent of \<open>src/crypto/sha256.c\<close>: the constants are computed from the roots of the
  first primes, the functions are written with rotations, the schedule and the rounds by recursion, words and the message length
  as big-endian numbers. The transform of the code and its constants are proved equal to it, which turns the streaming
  result of theory Sha256 into the hash of the standard.
\<close>

unbundle bit_operations_syntax

subsection \<open>FIPS 180-4\<close>

text \<open>The first 64 primes, the integer root by bits, and the first 32 bits of the fractional part of the \<open>k\<close>-th root of \<open>p\<close>:
  the root of \<open>p * 2^(32 * k)\<close> without the integer part of the root of \<open>p\<close>, which the 32-bit word cuts off.\<close>

definition fips_primes :: "nat list" where
  "fips_primes =
    [2, 3, 5, 7, 11, 13, 17, 19, 23, 29, 31, 37, 41, 43, 47, 53,
     59, 61, 67, 71, 73, 79, 83, 89, 97, 101, 103, 107, 109, 113, 127, 131,
     137, 139, 149, 151, 157, 163, 167, 173, 179, 181, 191, 193, 197, 199, 211, 223,
     227, 229, 233, 239, 241, 251, 257, 263, 269, 271, 277, 281, 283, 293, 307, 311]"

definition int_root :: "nat \<Rightarrow> nat \<Rightarrow> nat" where
  "int_root k n = foldl (\<lambda>x b. if (x + 2 ^ b) ^ k \<le> n then x + 2 ^ b else x) 0 (rev [0..<36])"

definition root_bits :: "nat \<Rightarrow> nat \<Rightarrow> u32" where
  "root_bits k p = of_nat (int_root k (p * 2 ^ (32 * k)))"

definition fips256_K :: "nat \<Rightarrow> u32" where
  "fips256_K t = root_bits 3 (fips_primes ! t)"

definition fips256_H0 :: "u32 list" where
  "fips256_H0 = map (root_bits 2) (take 8 fips_primes)"

definition fips256_Sigma0 :: "u32 \<Rightarrow> u32" where
  "fips256_Sigma0 x = word_rotr 2 x XOR word_rotr 13 x XOR word_rotr 22 x"

definition fips256_Sigma1 :: "u32 \<Rightarrow> u32" where
  "fips256_Sigma1 x = word_rotr 6 x XOR word_rotr 11 x XOR word_rotr 25 x"

definition fips256_sigma0 :: "u32 \<Rightarrow> u32" where
  "fips256_sigma0 x = word_rotr 7 x XOR word_rotr 18 x XOR drop_bit 3 x"

definition fips256_sigma1 :: "u32 \<Rightarrow> u32" where
  "fips256_sigma1 x = word_rotr 17 x XOR word_rotr 19 x XOR drop_bit 10 x"

fun fips256_W :: "u32 list \<Rightarrow> nat \<Rightarrow> u32" where
  "fips256_W M t = (if t < 16 then M ! t
     else fips256_sigma1 (fips256_W M (t - 2)) + fips256_W M (t - 7) + fips256_sigma0 (fips256_W M (t - 15)) + fips256_W M (t - 16))"

declare fips256_W.simps [simp del]

fun fips256_rounds :: "u32 list \<Rightarrow> nat \<Rightarrow> sha256_vars \<Rightarrow> sha256_vars" where
  "fips256_rounds M 0 v = v"
| "fips256_rounds M (Suc t) v =
     (case fips256_rounds M t v of (a, b, c, d, e, f, g, h) \<Rightarrow>
        let T1 = h + fips256_Sigma1 e + ((e AND f) XOR (NOT e AND g)) + fips256_K t + fips256_W M t;
            T2 = fips256_Sigma0 a + ((a AND b) XOR (a AND c) XOR (b AND c))
        in (T1 + T2, a, b, c, d + T1, e, f, g))"

definition fips256_block :: "u32 list \<Rightarrow> bytes \<Rightarrow> u32 list" where
  "fips256_block H blk =
     (case fips256_rounds (map (\<lambda>b. of_nat (be_value b)) (chunks 4 blk)) 64
        (H ! 0, H ! 1, H ! 2, H ! 3, H ! 4, H ! 5, H ! 6, H ! 7) of (a, b, c, d, e, f, g, h) \<Rightarrow>
        [a + H ! 0, b + H ! 1, c + H ! 2, d + H ! 3, e + H ! 4, f + H ! 5, g + H ! 6, h + H ! 7])"

text \<open>The message is padded with a one bit, zeros up to 56 bytes modulo 64 and its bit length as a 64-bit number. The standard
  defines the hash for messages of fewer than \<open>2^64\<close> bits.\<close>

definition fips256 :: "bytes \<Rightarrow> bytes" where
  "fips256 m = concat (map (\<lambda>w. be_bytes 4 (unat w))
     (foldl fips256_block fips256_H0 (chunks 64 (m @ md_fill 64 56 (length m) @ be_bytes 8 (8 * length m)))))"

subsection \<open>The constants of the code\<close>

lemma root_search:
  fixes n x :: nat
  assumes "x ^ k \<le> n" "n < (x + 2 ^ m) ^ k"
  shows "let r = foldl (\<lambda>x b. if (x + 2 ^ b) ^ k \<le> n then x + 2 ^ b else x) x (rev [0..<m]) in r ^ k \<le> n \<and> n < (r + 1) ^ k"
  using assms
proof (induction m arbitrary: x)
  case (Suc m)
  let ?y = "if (x + 2 ^ m) ^ k \<le> n then x + 2 ^ m else x"
  have "?y ^ k \<le> n" "n < (?y + 2 ^ m) ^ k" using Suc.prems by (auto simp: add.assoc mult_2)
  then show ?case using Suc.IH [of ?y] by (simp add: Let_def)
qed simp

lemma int_root_eq:
  assumes "x ^ k \<le> n" "n < (x + 1) ^ k" "x < 2 ^ 36" "0 < k"
  shows "int_root k n = x"
proof -
  have "(x + 1) ^ k \<le> (0 + 2 ^ 36) ^ k" using assms(3) by (intro power_mono) simp_all
  then have "n < (0 + 2 ^ 36) ^ k" using assms(2) by (rule less_le_trans [rotated])
  then have r: "int_root k n ^ k \<le> n" "n < (int_root k n + 1) ^ k"
    using root_search [of 0 k n 36] assms(4) unfolding int_root_def Let_def by (simp_all add: zero_power)
  have "int_root k n < x + 1" by (rule power_less_imp_less_base [of _ k]) (use r(1) assms(2) in \<open>simp_all only: le_less_trans\<close>)
  moreover have "x < int_root k n + 1" by (rule power_less_imp_less_base [of _ k]) (use assms(1) r(2) in \<open>simp_all only: le_less_trans\<close>)
  ultimately show ?thesis by simp
qed

text \<open>The roots, to be checked against their bounds.\<close>

definition cube_roots :: "nat list" where
  "cube_roots =
    [5411319704, 6194414737, 7344290767, 8215976869, 9551921755, 10098905585, 11043570340, 11460697813,
     12214315672, 13195500289, 13492127166, 14311783875, 14809980276, 15046980094, 15499789991, 16133124468,
     16720292289, 16907126662, 17444216262, 17784676812, 17950125167, 18429019306, 18734950876, 19175934170,
     19734090066, 20001703533, 20132865992, 20390182855, 20516441075, 20764397895, 21588763473, 21813078375,
     22141143685, 22248366392, 22769593852, 22871018771, 23170020180, 23461497531, 23651862830, 23931792517,
     24205322401, 24295138891, 24734567280, 24820601251, 24990902297, 25075189284, 25569408389, 26045227120,
     26200031510, 26276752392, 26428864332, 26653801653, 26727943347, 27092625994, 27306805839, 27517677555,
     27725365998, 27793908591, 27997534228, 28131656200, 28198240250, 28526537963, 28973835255, 29099129074]"

definition square_roots :: "nat list" where
  "square_roots =
    [6074000999, 7439101573, 9603838834, 11363415354, 14244795007, 15485724812, 17708603819, 18721328409]"

definition is_root :: "nat \<Rightarrow> nat \<Rightarrow> nat \<Rightarrow> bool" where
  "is_root k x p \<longleftrightarrow> x ^ k \<le> p * 2 ^ (32 * k) \<and> p * 2 ^ (32 * k) < (x + 1) ^ k \<and> x < 2 ^ 36"

lemma roots_bits:
  assumes "list_all2 (is_root k) xs ps" "0 < k"
  shows "map (root_bits k) ps = map of_nat xs"
proof -
  have r: "root_bits k p = of_nat x" if "is_root k x p" for x p
    unfolding root_bits_def by (rule arg_cong [where f = of_nat], rule int_root_eq) (use that assms(2) in \<open>simp_all add: is_root_def\<close>)
  show ?thesis using assms(1) by (induction rule: list_all2_induct) (auto simp: r)
qed

lemma int_root_K: "map (root_bits 3) fips_primes = sha256_K"
proof -
  have "list_all2 (is_root 3) cube_roots fips_primes" unfolding cube_roots_def fips_primes_def by (simp add: is_root_def)
  then have "map (root_bits 3) fips_primes = map of_nat cube_roots" by (rule roots_bits) simp
  also have "\<dots> = sha256_K" unfolding cube_roots_def sha256_K_def by simp
  finally show ?thesis .
qed

lemma sha256_K_fips: "t < 64 \<Longrightarrow> sha256_K ! t = fips256_K t"
  unfolding int_root_K [symmetric] fips256_K_def by (rule nth_map) (simp add: fips_primes_def)

lemma sha256_iv_fips: "sha256_iv = fips256_H0"
proof -
  have "list_all2 (is_root 2) square_roots (take 8 fips_primes)" unfolding square_roots_def fips_primes_def by (simp add: is_root_def)
  then have "fips256_H0 = map of_nat square_roots" unfolding fips256_H0_def by (rule roots_bits) simp
  also have "\<dots> = sha256_iv" unfolding square_roots_def sha256_iv_def by simp
  finally show ?thesis by simp
qed

lemma length_sha256_K: "length sha256_K = 64"
  by (simp add: sha256_K_def)

subsection \<open>Bytes and words\<close>

lemma rotr_eq: "0 < n \<Longrightarrow> n < 32 \<Longrightarrow> rotr x n = word_rotr n x"
proof -
  assume n: "0 < n" "n < 32"
  show ?thesis
  proof (rule bit_word_eqI)
    fix i assume "i < LENGTH(32)"
    then have i: "i < 32" by simp
    have m: "(i + n) mod 32 = (if i + n < 32 then i + n else i + n - 32)" using n i by (auto simp: mod_if)
    have "\<not> bit x (n + i)" if "32 \<le> n + i" using that bit_imp_le_length [of x "n + i"] by auto
    moreover have "32 - n \<le> i \<Longrightarrow> i - (32 - n) = i + n - 32" using n by simp
    ultimately show "bit (rotr x n) i = bit (word_rotr n x) i"
      using n i by (auto simp: rotr_def bit_word_rotr_iff bit_or_iff bit_push_bit_iff bit_drop_bit_eq m add.commute)
  qed
qed

lemma byte_and: "(ucast (x AND 0xFF) :: u8) = ucast x" for x :: "'a :: len word"
proof -
  have "(0xFF :: 'a word) = mask 8" by (simp add: mask_eq_exp_minus_1)
  then show ?thesis by (intro bit_word_eqI) (simp only: bit_ucast_iff bit_and_iff bit_mask_iff, auto dest: bit_imp_le_length)
qed

lemma byte_of: "(ucast (drop_bit (8 * i) w AND 0xFF) :: u8) = of_nat (unat w div 256 ^ i)" for w :: "'a :: len word"
  unfolding byte_and by (simp add: ucast_of_nat unat_drop_bit power_mult)

lemma st_be32_bytes: "st_be32 w = be_bytes 4 (unat w)"
  using byte_of [of 3 w] byte_of [of 2 w] byte_of [of 1 w] byte_of [of 0 w]
  by (simp add: st_be32_def be_bytes_def le_bytes_map upt_rec)

lemma st_be64_bytes: "st_be64 (of_nat n) = be_bytes 8 n"
proof -
  let ?w = "of_nat n :: u64"
  have "st_be64 ?w = be_bytes 8 (unat ?w)"
    using byte_of [of 7 ?w] byte_of [of 6 ?w] byte_of [of 5 ?w] byte_of [of 4 ?w] byte_of [of 3 ?w] byte_of [of 2 ?w] byte_of [of 1 ?w]
      byte_of [of 0 ?w]
    by (simp add: st_be64_def be_bytes_def le_bytes_map upt_rec)
  also have "\<dots> = be_bytes 8 n" unfolding be_bytes_def by (rule arg_cong [OF le_bytes_cong]) (simp add: unat_of_nat)
  finally show ?thesis .
qed

lemma be32_value: "be32 a b c d = of_nat (be_value [a, b, c, d])"
proof -
  have l: "unat x < 256" for x :: u8 using unsigned_less [of x] by simp
  have u: "unat (ucast x :: u32) = unat x" for x :: u8 using l [of x] by (simp add: unsigned_ucast_eq take_bit_eq_mod)
  have o: "unat (push_bit k y OR x) = unat y * 2 ^ k + unat x" if "unat x < 2 ^ k" "unat y * 2 ^ k < 2 ^ 32" for x y :: u32 and k
    using unat_or_push_bit [OF that(1), of y] that(2) by (simp add: or.commute unat_push_bit)
  note l' = l [of a] l [of b] l [of c] l [of d]
  have 1: "unat (push_bit 8 (ucast c) OR ucast d :: u32) = unat c * 2 ^ 8 + unat d" using l' by (subst o) (simp_all add: u)
  have 2: "unat (push_bit 16 (ucast b) OR push_bit 8 (ucast c) OR ucast d :: u32) = unat b * 2 ^ 16 + (unat c * 2 ^ 8 + unat d)"
    using l' by (subst o) (simp_all add: u 1)
  have "unat (be32 a b c d) = be_value [a, b, c, d]"
    unfolding be32_def using l' by (subst o) (simp_all add: u 2 be_value_def)
  then have "of_nat (be_value [a, b, c, d]) = (of_nat (unat (be32 a b c d)) :: u32)" by simp
  then show ?thesis by simp
qed

lemma ld_words_values: "4 dvd length bs \<Longrightarrow> ld_words be32 bs = map (\<lambda>b. of_nat (be_value b)) (chunks 4 bs)"
proof (induction be32 bs rule: ld_words.induct)
  case (1 a b c d bs)
  have "chunks 4 (a # b # c # d # bs) = [a, b, c, d] # chunks 4 bs" by (simp add: chunks.simps [of 4 "a # b # c # d # bs"])
  moreover have "4 dvd length bs" using 1(2) by simp presburger
  ultimately show ?case using 1(1) by (simp add: be32_value)
qed (auto simp: chunks.simps dest: dvd_imp_le)

subsection \<open>The transform of the code\<close>

lemma sigma256_eqs:
  "BSIG0 x = fips256_Sigma0 x" "BSIG1 x = fips256_Sigma1 x" "SSIG0 x = fips256_sigma0 x" "SSIG1 x = fips256_sigma1 x"
  by (simp_all add: BSIG0_def BSIG1_def SSIG0_def SSIG1_def fips256_Sigma0_def fips256_Sigma1_def fips256_sigma0_def
      fips256_sigma1_def rotr_eq)

lemma sha256_sched_W:
  assumes "16 \<le> length W" "\<And>t. t < length W \<Longrightarrow> W ! t = fips256_W M t"
  shows "length (sha256_sched n W) = length W + n \<and> (\<forall>t < length W + n. sha256_sched n W ! t = fips256_W M t)"
  using assms
proof (induction n arbitrary: W)
  case (Suc n)
  let ?i = "length W"
  let ?x = "SSIG1 (W ! (?i - 2)) + W ! (?i - 7) + SSIG0 (W ! (?i - 15)) + W ! (?i - 16)"
  have x: "?x = fips256_W M ?i" using Suc.prems by (subst fips256_W.simps) (simp add: sigma256_eqs)
  have "length (sha256_sched n (W @ [?x])) = length (W @ [?x]) + n \<and>
      (\<forall>t < length (W @ [?x]) + n. sha256_sched n (W @ [?x]) ! t = fips256_W M t)"
    by (rule Suc.IH) (use Suc.prems x in \<open>auto simp: nth_append less_Suc_eq\<close>)
  then show ?case by (simp add: Let_def)
qed simp

lemma sha256_rounds_fips:
  assumes "length W = 64" "\<And>t. t < 64 \<Longrightarrow> W ! t = fips256_W M t" "k \<le> 64"
  shows "foldl sha256_round v (take k (zip sha256_K W)) = fips256_rounds M k v"
  using assms(3)
proof (induction k)
  case (Suc k)
  have "take (Suc k) (zip sha256_K W) = take k (zip sha256_K W) @ [(sha256_K ! k, W ! k)]"
    using Suc.prems assms(1) by (simp add: take_Suc_conv_app_nth length_sha256_K)
  moreover obtain a b c d e f g h where v: "fips256_rounds M k v = (a, b, c, d, e, f, g, h)" by (metis prod.exhaust)
  ultimately show ?case using Suc assms(2) by (simp add: Let_def sigma256_eqs CH_def MAJ_def sha256_K_fips)
qed simp

lemma sha256_compress_fips:
  assumes l: "length blk = 64"
  shows "sha256_compress st blk = fips256_block st blk"
proof -
  let ?M = "map (\<lambda>b. of_nat (be_value b)) (chunks 4 blk) :: u32 list"
  have lc: "length ?M = 16" using length_chunks [of 4 blk 16] l by simp
  have ld: "ld_words be32 blk = ?M" by (rule ld_words_values) (simp add: l)
  have w: "length (sha256_sched 48 ?M) = 64" "\<And>t. t < 64 \<Longrightarrow> sha256_sched 48 ?M ! t = fips256_W ?M t"
    using sha256_sched_W [of ?M ?M 48] lc by (simp_all add: fips256_W.simps)
  have "zip sha256_K (sha256_sched 48 ?M) = take 64 (zip sha256_K (sha256_sched 48 ?M))" using w by (simp add: length_sha256_K)
  then have r: "foldl sha256_round v (zip sha256_K (sha256_sched 48 ?M)) = fips256_rounds ?M 64 v" for v
    using sha256_rounds_fips [OF w, of 64 v] by simp
  define x where "x = fips256_rounds ?M 64 (st ! 0, st ! 1, st ! 2, st ! 3, st ! 4, st ! 5, st ! 6, st ! 7)"
  obtain a b c d e f g h where v: "x = (a, b, c, d, e, f, g, h)" by (metis prod.exhaust)
  have "sha256_compress st blk =
      (case x of (a, b, c, d, e, f, g, h) \<Rightarrow>
        [st ! 0 + a, st ! 1 + b, st ! 2 + c, st ! 3 + d, st ! 4 + e, st ! 5 + f, st ! 6 + g, st ! 7 + h])"
    unfolding sha256_compress_def ld Let_def r x_def by (rule refl)
  moreover have "fips256_block st blk =
      (case x of (a, b, c, d, e, f, g, h) \<Rightarrow>
        [a + st ! 0, b + st ! 1, c + st ! 2, d + st ! 3, e + st ! 4, f + st ! 5, g + st ! 6, h + st ! 7])"
    unfolding fips256_block_def x_def by (rule refl)
  ultimately show ?thesis unfolding v by (simp add: add.commute)
qed

lemma sha256_spec_fips: "sha256_spec m = fips256 m"
proof -
  have p: "sha256_pad m = m @ md_fill 64 56 (length m) @ be_bytes 8 (8 * length m)"
    unfolding sha256_pad_def st_be64_bytes by (simp add: md_fill_def)
  have "foldl sha256_compress s (chunks 64 m') = foldl fips256_block s (chunks 64 m')" for s and m' :: bytes
    by (rule foldl_eq_on) (use chunks_length sha256_compress_fips in blast)
  moreover have "st_be32 = (\<lambda>w. be_bytes 4 (unat w))" by (rule ext) (rule st_be32_bytes)
  ultimately show ?thesis unfolding sha256_spec_def fips256_def p sha256_iv_fips by simp
qed

subsection \<open>Properties\<close>

text \<open>C21. For any way of cutting a message into pieces, and any initial contents of the context, \<open>sha256_init\<close>, one
  \<open>sha256_update\<close> per piece and \<open>sha256_final\<close> return the SHA-256 hash of FIPS 180-4 of the whole message, and so does the one-shot
  \<open>sha256\<close>. The hash is defined independently of the code, its constants from the roots of the first primes.\<close>

theorem sha256_stream:
  assumes "length (s256_buf c) = 64"
  shows "snd (sha256_final (foldl sha256_update (sha256_init c) ms)) = fips256 (concat ms) \<and> sha256 m = fips256 m"
  using sha256_pieces_md [OF assms, of ms] sha256_pieces_md [of sha256_fresh "[m]"]
  by (simp add: sha256_spec_fips sha256_def sha256_fresh_def)

theorem sha256_stream_witness:
  "snd (sha256_final (foldl sha256_update
     (sha256_init \<lparr>s256_buf = replicate 64 7, s256_state = [], s256_bits = 9, s256_len = 3\<rparr>)
     [[1, 2], [], replicate 70 3])) = fips256 ([1, 2] @ replicate 70 3)"
  using sha256_stream [of "\<lparr>s256_buf = replicate 64 7, s256_state = [], s256_bits = 9, s256_len = 3\<rparr>" "[[1, 2], [], replicate 70 3]"]
  by simp

end
