(* ===== verification/Ata.thy ===== *)
theory Ata
  imports Prelude
begin

text \<open>
  The disk driver (\<open>src/ata.c\<close>) at the level its callers see: presence and size from IDENTIFY, one
  sector at a time, and the write protection. The drive is a parameter: \<open>platter\<close> holds its sectors,
  \<open>rd_fault\<close> and \<open>wr_fault\<close> say for which sectors the exchange over the command ports ends in an
  error or a timeout (\<open>wr_fault l = Some stored\<close> with \<open>stored\<close> telling whether the data reached the
  platter before the final wait failed). A transfer names the sector by its low 28 bits.

  \<open>ata_read\<close> returns \<open>None\<close> for -1.
\<close>

record disk =
  present :: bool
  total_sectors :: u32
  prot :: "(u32 \<times> u32) list"
  hole :: "(u32 \<times> u32) list"
  platter :: "u32 \<Rightarrow> bytes"
  rd_fault :: "u32 \<Rightarrow> bool"
  wr_fault :: "u32 \<Rightarrow> bool option"

text \<open>\<open>ident_sectors\<close> is the drive's size as \<open>ata_init\<close> assembles it from words 60 and 61; \<open>answer\<close> is
  \<open>None\<close> when the probe finds no ATA disk.\<close>

definition ident_sectors :: "u16 list \<Rightarrow> u32" where
  "ident_sectors ident = push_bit 16 (ucast (ident ! 61)) OR ucast (ident ! 60)"

definition ata_init :: "u16 list option \<Rightarrow> disk \<Rightarrow> disk \<times> bool" where
  "ata_init answer d =
     (if present d then (d, True)
      else case answer of
          None \<Rightarrow> (d, False)
        | Some ident \<Rightarrow>
            let d = d\<lparr>total_sectors := ident_sectors ident\<rparr>
            in if total_sectors d = 0 then (d, False) else (d\<lparr>present := True\<rparr>, True))"

definition ata_present :: "disk \<Rightarrow> bool" where "ata_present d = present d"
definition ata_sectors :: "disk \<Rightarrow> u32" where "ata_sectors d = total_sectors d"

text \<open>The sector number that the four LBA registers carry: bits 0-7, 8-15, 16-23 and, in the drive
  register, 24-27.\<close>

definition lba_regs :: "u32 \<Rightarrow> u8 \<times> u8 \<times> u8 \<times> u8" where
  "lba_regs lba = (ucast (lba AND 0xFF), ucast (drop_bit 8 lba AND 0xFF), ucast (drop_bit 16 lba AND 0xFF),
     0xE0 OR ucast (drop_bit 24 lba AND 0x0F))"

definition regs_lba :: "u8 \<times> u8 \<times> u8 \<times> u8 \<Rightarrow> u32" where
  "regs_lba = (\<lambda>(lo, mid, hi, drv). le32 lo mid hi (drv AND 0x0F))"

definition ata_read :: "disk \<Rightarrow> u32 \<Rightarrow> bytes option" where
  "ata_read d lba =
     (if \<not> present d \<or> total_sectors d \<le> lba then None
      else let at = regs_lba (lba_regs lba) in if rd_fault d at then None else Some (platter d at))"

definition ata_protect :: "u32 \<Rightarrow> u32 \<Rightarrow> disk \<Rightarrow> disk" where
  "ata_protect start count d = (if length (prot d) < 4 then d\<lparr>prot := prot d @ [(start, count)]\<rparr> else d)"

definition ata_allow :: "u32 \<Rightarrow> u32 \<Rightarrow> disk \<Rightarrow> disk" where
  "ata_allow start count d = (if length (hole d) < 4 then d\<lparr>hole := hole d @ [(start, count)]\<rparr> else d)"

definition in_ranges :: "u32 \<Rightarrow> (u32 \<times> u32) list \<Rightarrow> bool" where
  "in_ranges lba rs \<longleftrightarrow> (\<exists>(start, count) \<in> set rs. lba - start < count)"

definition ata_write_protected :: "disk \<Rightarrow> u32 \<Rightarrow> bool" where
  "ata_write_protected d lba \<longleftrightarrow> \<not> in_ranges lba (hole d) \<and> in_ranges lba (prot d)"

definition ata_write :: "disk \<Rightarrow> u32 \<Rightarrow> bytes \<Rightarrow> disk \<times> int" where
  "ata_write d lba buf =
     (if \<not> present d \<or> total_sectors d \<le> lba then (d, -1)
      else if ata_write_protected d lba then (d, -1)
      else let at = regs_lba (lba_regs lba); d' = d\<lparr>platter := (platter d)(at := take 512 buf)\<rparr>
        in case wr_fault d at of None \<Rightarrow> (d', 0) | Some stored \<Rightarrow> (if stored then d' else d, -1))"

lemma u32_lt: "unat w < 4294967296" for w :: u32
  using unsigned_less [of w] by simp

lemma unat_plus_1: "unat w + 1 < 4294967296 \<Longrightarrow> unat (w + 1) = unat w + 1" for w :: u32
  by (simp add: unat_plus_small)

subsection \<open>The registers carry 28 bits\<close>

lemma bit_le32_byte:
  "n < 32 \<Longrightarrow> bit (le32 a b c d) n =
     (if n < 8 then bit a n else if n < 16 then bit b (n - 8) else if n < 24 then bit c (n - 16) else bit d (n - 24))"
  using bit_imp_le_length [of a n] bit_imp_le_length [of b "n - 8"] bit_imp_le_length [of c "n - 16"]
  by (auto simp: le32_def bit_or_iff bit_push_bit_iff bit_ucast_iff)

lemma bit_int_masks [simp]:
  "bit (15 :: int) n \<longleftrightarrow> n < 4" "bit (255 :: int) n \<longleftrightarrow> n < 8" "bit (268435455 :: int) n \<longleftrightarrow> n < 28"
  using bit_mask_iff [where 'a=int, of 4 n] bit_mask_iff [where 'a=int, of 8 n] bit_mask_iff [where 'a=int, of 28 n]
  by (simp_all add: mask_numeral)

lemma bit_E0: "bit (224 :: int) n \<Longrightarrow> 5 \<le> n"
  using bit_push_bit_iff_int [of 5 7 n] by simp

lemma regs_lba_regs: "regs_lba (lba_regs lba) = lba AND 0x0FFFFFFF"
proof (rule bit_word_eqI)
  fix n assume "n < LENGTH(32)"
  then show "bit (regs_lba (lba_regs lba)) n = bit (lba AND 0x0FFFFFFF) n"
    by (auto simp: regs_lba_def lba_regs_def bit_le32_byte bit_and_iff bit_or_iff bit_ucast_iff bit_drop_bit_eq dest: bit_E0)
qed

subsection \<open>Block devices\<close>

text \<open>Writing consecutive sectors until one fails.\<close>

fun wr_seq :: "('d \<Rightarrow> u32 \<Rightarrow> bytes \<Rightarrow> 'd \<times> int) \<Rightarrow> 'd \<Rightarrow> u32 \<Rightarrow> bytes list \<Rightarrow> 'd \<times> int" where
  "wr_seq wr d l [] = (d, 0)"
| "wr_seq wr d l (b # bs) = (case wr d l b of (d', r) \<Rightarrow> if r \<noteq> 0 then (d', -1) else wr_seq wr d' (l + 1) bs)"

text \<open>The contract the file systems rely on: sectors of 512 bytes below \<open>len\<close>, reads that return what was
  last written, writes to the writable sectors that change one sector and nothing of the
  configuration \<open>cfg\<close>.\<close>

locale block_dev =
  fixes rd :: "'d \<Rightarrow> u32 \<Rightarrow> bytes option"
    and wr :: "'d \<Rightarrow> u32 \<Rightarrow> bytes \<Rightarrow> 'd \<times> int"
    and view :: "'d \<Rightarrow> nat \<Rightarrow> bytes"
    and cfg :: "'d \<Rightarrow> 'c"
    and len :: "'c \<Rightarrow> nat"
    and wset :: "'c \<Rightarrow> nat set"
    and ok :: "'d \<Rightarrow> bool"
  assumes rd_in: "ok d \<Longrightarrow> unat l < len (cfg d) \<Longrightarrow> rd d l = Some (view d (unat l))"
    and rd_out: "ok d \<Longrightarrow> len (cfg d) \<le> unat l \<Longrightarrow> rd d l = None"
    and view_len: "ok d \<Longrightarrow> i < len (cfg d) \<Longrightarrow> length (view d i) = 512"
    and wset_len: "wset c \<subseteq> {..<len c}"
    and wr_in: "ok d \<Longrightarrow> unat l \<in> wset (cfg d) \<Longrightarrow> length b = 512 \<Longrightarrow>
      \<exists>d'. wr d l b = (d', 0) \<and> ok d' \<and> cfg d' = cfg d \<and> (\<forall>i < len (cfg d). view d' i = ((view d)(unat l := b)) i)"
    and wr_out: "ok d \<Longrightarrow> unat l \<notin> wset (cfg d) \<Longrightarrow> wr d l b = (d, -1)"
begin

lemma rd_after_wr:
  assumes "ok d" "unat l \<in> wset (cfg d)" "length b = 512" "wr d l b = (d', r)"
  shows "rd d' l = Some b"
proof -
  have l: "unat l < len (cfg d)" using assms(2) wset_len by auto
  obtain d'' where w: "wr d l b = (d'', 0)" "ok d''" "cfg d'' = cfg d"
      and v: "\<forall>i < len (cfg d). view d'' i = ((view d)(unat l := b)) i"
    using wr_in [OF assms(1,2,3)] by auto
  have "rd d'' l = Some (view d'' (unat l))" using rd_in [OF w(2), of l] w(3) l by simp
  then show ?thesis using w(1) v l assms(4) by simp
qed

lemma wr_seq_in:
  assumes "ok d" "{unat l..<unat l + length bs} \<subseteq> wset (cfg d)" "unat l + length bs < 2 ^ 32"
    and "\<forall>b \<in> set bs. length b = 512"
  shows "\<exists>d'. wr_seq wr d l bs = (d', 0) \<and> ok d' \<and> cfg d' = cfg d \<and>
    (\<forall>i < len (cfg d). view d' i = (if unat l \<le> i \<and> i < unat l + length bs then bs ! (i - unat l) else view d i))"
  using assms
proof (induction bs arbitrary: d l)
  case (Cons b bs)
  have w: "unat l \<in> wset (cfg d)" using Cons.prems(2) by auto
  obtain d1 where 1: "wr d l b = (d1, 0)" "ok d1" "cfg d1 = cfg d"
      and v1: "\<forall>i < len (cfg d). view d1 i = ((view d)(unat l := b)) i"
    using wr_in [of d l b] Cons.prems(1,4) w by auto
  have l: "unat (l + 1) = Suc (unat l)" using Cons.prems(3) by (simp add: unat_plus_small)
  have "{unat (l + 1)..<unat (l + 1) + length bs} \<subseteq> wset (cfg d1)"
    using Cons.prems(2) unfolding l 1(3) by auto
  then obtain d' where 2: "wr_seq wr d1 (l + 1) bs = (d', 0)" "ok d'" "cfg d' = cfg d"
      and v2: "\<forall>i < len (cfg d). view d' i = (if unat (l + 1) \<le> i \<and> i < unat (l + 1) + length bs then bs ! (i - unat (l + 1)) else view d1 i)"
    using Cons.IH [of d1 "l + 1"] Cons.prems(3,4) 1(2,3) l by auto
  have "view d' i = (if unat l \<le> i \<and> i < unat l + length (b # bs) then (b # bs) ! (i - unat l) else view d i)"
    if "i < len (cfg d)" for i
    using that v1 v2 unfolding l by (auto simp: nth_Cons' dest: le_neq_implies_less)
  then show ?case using 1 2 by auto
qed auto

end

subsection \<open>The drive without faults\<close>

definition drive_ok :: "disk \<Rightarrow> bool" where
  "drive_ok d \<longleftrightarrow> present d \<and> unat (total_sectors d) \<le> 2 ^ 28 \<and> (\<forall>l. \<not> rd_fault d l \<and> wr_fault d l = None) \<and>
     (\<forall>l. length (platter d l) = 512)"

definition drive_cfg :: "disk \<Rightarrow> disk" where
  "drive_cfg d = d\<lparr>platter := (\<lambda>_. [])\<rparr>"

definition drive_len :: "disk \<Rightarrow> nat" where
  "drive_len c = unat (total_sectors c)"

definition drive_wset :: "disk \<Rightarrow> nat set" where
  "drive_wset c = {i. i < drive_len c \<and> \<not> ata_write_protected c (of_nat i)}"

definition drive_view :: "disk \<Rightarrow> nat \<Rightarrow> bytes" where
  "drive_view d i = platter d (of_nat i)"

lemma lba28: "unat l < 2 ^ 28 \<Longrightarrow> regs_lba (lba_regs l) = l"
proof (rule word_unat_eq_iff [THEN iffD2])
  assume "unat l < 2 ^ 28"
  then have "unat (l AND mask 28) = unat l" by (simp only: unat_and_mask) simp
  then show "unat (regs_lba (lba_regs l)) = unat l" by (simp add: regs_lba_regs mask_numeral)
qed

lemma drive_cfg_sel [simp]:
  "present (drive_cfg d) = present d" "total_sectors (drive_cfg d) = total_sectors d" "prot (drive_cfg d) = prot d"
  "hole (drive_cfg d) = hole d" "ata_write_protected (drive_cfg d) = ata_write_protected d"
  "drive_len (drive_cfg d) = unat (total_sectors d)"
  by (simp_all add: drive_cfg_def ata_write_protected_def drive_len_def fun_eq_iff)

interpretation drv: block_dev ata_read ata_write drive_view drive_cfg drive_len drive_wset drive_ok
proof unfold_locales
  fix d and l :: u32
  assume d: "drive_ok d" and l: "unat l < drive_len (drive_cfg d)"
  then have "regs_lba (lba_regs l) = l" by (intro lba28) (simp add: drive_ok_def)
  then show "ata_read d l = Some (drive_view d (unat l))"
    using d l by (simp add: ata_read_def drive_ok_def drive_view_def word_le_nat_alt)
next
  fix d b and l :: u32
  assume d: "drive_ok d" and l: "unat l \<in> drive_wset (drive_cfg d)" and b: "length (b :: bytes) = 512"
  then have r: "regs_lba (lba_regs l) = l" and t: "unat l < unat (total_sectors d)"
    by (auto intro!: lba28 simp: drive_ok_def drive_wset_def)
  let ?d = "d\<lparr>platter := (platter d)(l := b)\<rparr>"
  have "ata_write d l b = (?d, 0)"
    using d l b r t by (simp add: ata_write_def drive_ok_def drive_wset_def word_le_nat_alt)
  moreover have "drive_ok ?d" "drive_cfg ?d = drive_cfg d" using d b by (simp_all add: drive_ok_def drive_cfg_def)
  moreover have "drive_view ?d i = ((drive_view d)(unat l := b)) i" if "i < drive_len (drive_cfg d)" for i
  proof -
    have "unat (of_nat i :: u32) = i" using that d by (intro unat_of_nat_small) (simp add: drive_ok_def)
    then show ?thesis by (auto simp: drive_view_def)
  qed
  ultimately show "\<exists>d'. ata_write d l b = (d', 0) \<and> drive_ok d' \<and> drive_cfg d' = drive_cfg d \<and>
      (\<forall>i < drive_len (drive_cfg d). drive_view d' i = ((drive_view d)(unat l := b)) i)" by blast
qed (auto simp: drive_ok_def drive_view_def drive_wset_def ata_read_def ata_write_def word_le_nat_alt)

subsection \<open>Protected sectors\<close>

lemma in_ranges_iff:
  assumes "\<forall>(start, count) \<in> set rs. unat start + unat count \<le> 2 ^ 32"
  shows "in_ranges lba rs \<longleftrightarrow> (\<exists>(start, count) \<in> set rs. unat start \<le> unat lba \<and> unat lba < unat start + unat count)"
proof -
  have "lba - start < count \<longleftrightarrow> unat start \<le> unat lba \<and> unat lba < unat start + unat count"
    if "unat start + unat count \<le> 2 ^ 32" for start count :: u32
  proof (cases "start \<le> lba")
    case True
    then show ?thesis by (auto simp: word_less_nat_alt unat_sub word_le_nat_alt)
  next
    case False
    then have "unat (lba - start) = 2 ^ 32 + unat lba - unat start"
      by (simp add: unat_sub_if' word_le_nat_alt)
    then show ?thesis using that False by (simp add: word_less_nat_alt word_le_nat_alt)
  qed
  then show ?thesis using assms unfolding in_ranges_def by fastforce
qed

text \<open>C12. Write protection. Whatever the drive does, a write never changes a sector that the
  protected ranges cover and no hole opens, and never more than one sector; with a drive that
  works, a write outside the protection succeeds and the next read returns it.\<close>

theorem ata_write_safe:
  assumes "unat (total_sectors d) \<le> 2 ^ 28" "length buf = 512" "ata_write d lba buf = (d', r)"
  shows "(\<forall>l. platter d' l \<noteq> platter d l \<longrightarrow> l = lba \<and> \<not> ata_write_protected d l \<and> l < total_sectors d \<and> platter d' l = buf) \<and>
    drive_cfg d' = drive_cfg d \<and> (r = 0 \<or> r = -1) \<and>
    (drive_ok d \<longrightarrow> (r = 0 \<longleftrightarrow> lba < total_sectors d \<and> \<not> ata_write_protected d lba)) \<and>
    (drive_ok d \<and> r = 0 \<longrightarrow> ata_read d' lba = Some buf)"
proof -
  have "regs_lba (lba_regs lba) = lba" if "lba < total_sectors d"
    using that assms(1) by (intro lba28) (simp add: word_less_nat_alt)
  then have 1: "(\<forall>l. platter d' l \<noteq> platter d l \<longrightarrow> l = lba \<and> \<not> ata_write_protected d l \<and> l < total_sectors d \<and> platter d' l = buf) \<and>
      drive_cfg d' = drive_cfg d \<and> (r = 0 \<or> r = -1) \<and> (drive_ok d \<longrightarrow> (r = 0 \<longleftrightarrow> lba < total_sectors d \<and> \<not> ata_write_protected d lba))"
    using assms(2,3) by (auto simp: ata_write_def Let_def drive_cfg_def drive_ok_def not_le split: if_splits option.splits)
  have "ata_read d' lba = Some buf" if "drive_ok d" "r = 0"
    using that 1 drv.rd_after_wr [of d lba buf d' r] assms(2,3)
    by (simp add: drive_wset_def word_less_nat_alt)
  then show ?thesis using 1 by blast
qed

definition blank_disk :: disk where
  "blank_disk = \<lparr>present = True, total_sectors = 2048, prot = [], hole = [], platter = (\<lambda>_. replicate 512 0),
     rd_fault = (\<lambda>_. False), wr_fault = (\<lambda>_. None)\<rparr>"

lemma blank_disk_ok: "drive_ok blank_disk"
  by (simp add: drive_ok_def blank_disk_def)

theorem ata_write_safe_witness:
  defines "d \<equiv> ata_allow 150 2 (ata_protect 100 100 blank_disk)"
  shows "ata_write d 120 (replicate 512 7) = (d, -1) \<and> ata_read (fst (ata_write d 151 (replicate 512 7))) 151 = Some (replicate 512 7)"
proof -
  have d: "total_sectors d = 2048" "prot d = [(100, 100)]" "hole d = [(150, 2)]" "drive_ok d"
    using blank_disk_ok by (simp_all add: d_def ata_allow_def ata_protect_def blank_disk_def drive_ok_def)
  have p: "ata_write_protected d 120" "\<not> ata_write_protected d 151"
    by (simp_all add: ata_write_protected_def in_ranges_def d)
  obtain d1 r1 where 1: "ata_write d 120 (replicate 512 7) = (d1, r1)" by fastforce
  obtain d2 r2 where 2: "ata_write d 151 (replicate 512 7) = (d2, r2)" by fastforce
  have "ata_write d 120 (replicate 512 7) = (d, -1)"
    using p(1) d by (simp add: ata_write_def drive_ok_def)
  then show ?thesis
    using ata_write_safe [OF _ _ 2] p(2) d by (simp add: 2)
qed

end
