(* ===== verification/Vfs.thy ===== *)
theory Vfs
  imports Prelude
begin

text \<open>
  The in-memory file system (\<open>src/filesystem.c\<close>, \<open>filesystem.h\<close>): sixteen slots with a name, a 32 KB
  data array, a size and a used flag, and the write-through hooks that \<open>pfs_init\<close> installs. A C string
  is the list of its bytes before the NUL. \<open>find_file\<close> returns \<open>None\<close> for -1; an operation that would
  index the table with -1 returns \<open>None\<close>.
\<close>

subsection \<open>The model\<close>

definition FS_MAX_FILES :: nat where "FS_MAX_FILES = 16"
definition FS_MAX_NAME :: nat where "FS_MAX_NAME = 32"
definition FS_MAX_SIZE :: nat where "FS_MAX_SIZE = 32768"

record fs_file =
  fs_name :: bytes
  fs_data :: bytes
  fs_size :: int
  fs_used :: bool

record vfs =
  files :: "fs_file list"
  file_count :: int

text \<open>The hooks see the table and the disk \<open>'d\<close> behind them; the code ignores their results.\<close>

type_synonym 'd hook = "vfs \<Rightarrow> 'd \<Rightarrow> bytes \<Rightarrow> 'd \<times> int"

record 'd fs =
  fs_vfs :: vfs
  fs_disk :: 'd
  persist_sync_fn :: "'d hook option"
  persist_delete_fn :: "'d hook option"

definition fs_install_persist :: "'d hook \<Rightarrow> 'd hook \<Rightarrow> 'd fs \<Rightarrow> 'd fs" where
  "fs_install_persist sync_fn delete_fn s = s\<lparr>persist_sync_fn := Some sync_fn, persist_delete_fn := Some delete_fn\<rparr>"

definition clear_slot :: "fs_file \<Rightarrow> fs_file" where
  "clear_slot f = f\<lparr>fs_used := False, fs_size := 0, fs_name := (fs_name f)[0 := 0]\<rparr>"

definition fs_init :: "vfs \<Rightarrow> vfs" where
  "fs_init v = v\<lparr>files := map clear_slot (files v), file_count := 0\<rparr>"

text \<open>The comparison loop \<open>for (j = 0; a[j] || b[j]; j++) if (a[j] != b[j]) ...\<close> on two arrays that hold
  a NUL; running off the end of one is not reached for them.\<close>

fun str_match :: "bytes \<Rightarrow> bytes \<Rightarrow> bool" where
  "str_match (a # as) (b # bs) = (if a = 0 \<and> b = 0 then True else if a \<noteq> b then False else str_match as bs)"
| "str_match _ _ = False"

definition find_file :: "vfs \<Rightarrow> bytes \<Rightarrow> nat option" where
  "find_file v name =
     List.find (\<lambda>i. fs_used (files v ! i) \<and> str_match (name @ [0]) (fs_name (files v ! i))) [0..<FS_MAX_FILES]"

definition fs_exists :: "vfs \<Rightarrow> bytes \<Rightarrow> bool" where
  "fs_exists v name \<longleftrightarrow> find_file v name \<noteq> None"

definition fs_create :: "vfs \<Rightarrow> bytes \<Rightarrow> vfs \<times> int" where
  "fs_create v name =
     (if fs_exists v name then (v, 0)
      else case List.find (\<lambda>i. \<not> fs_used (files v ! i)) [0..<FS_MAX_FILES] of
          Some i \<Rightarrow>
            let f = (files v ! i)\<lparr>fs_used := True, fs_size := 0\<rparr>;
                f = f\<lparr>fs_name := blit (fs_name f) 0 (take (FS_MAX_NAME - 1) name @ [0])\<rparr>
            in (v\<lparr>files := (files v)[i := f], file_count := file_count v + 1\<rparr>, 1)
        | None \<Rightarrow> (v, -1))"

text \<open>\<open>if (persist_sync_fn) persist_sync_fn(name)\<close>.\<close>

definition fs_hook :: "'d hook option \<Rightarrow> bytes \<Rightarrow> 'd fs \<Rightarrow> 'd fs" where
  "fs_hook fn name s =
     (case fn of None \<Rightarrow> s | Some g \<Rightarrow> s\<lparr>fs_disk := fst (g (fs_vfs s) (fs_disk s) name)\<rparr>)"

definition name_str :: "fs_file \<Rightarrow> bytes" where
  "name_str f = takeWhile (\<lambda>c. c \<noteq> 0) (fs_name f)"

definition fs_write :: "'d fs \<Rightarrow> bytes \<Rightarrow> bytes \<Rightarrow> int \<Rightarrow> 'd fs \<times> int" where
  "fs_write s name data len =
     (let (v, ok) = (if find_file (fs_vfs s) name = None
                     then case fs_create (fs_vfs s) name of (v, r) \<Rightarrow> (v, 0 < r) else (fs_vfs s, True));
          s = s\<lparr>fs_vfs := v\<rparr>
      in if \<not> ok then (s, -1)
         else case find_file v name of
             None \<Rightarrow> (s, -1)
           | Some idx \<Rightarrow>
               let len = (if int FS_MAX_SIZE < len then int FS_MAX_SIZE else len);
                   f = files v ! idx;
                   f = f\<lparr>fs_data := blit (fs_data f) 0 (take (nat len) data), fs_size := len\<rparr>;
                   s = s\<lparr>fs_vfs := v\<lparr>files := (files v)[idx := f]\<rparr>\<rparr>
               in (fs_hook (persist_sync_fn s) (name_str f) s, len))"

definition fs_append :: "'d fs \<Rightarrow> bytes \<Rightarrow> bytes \<Rightarrow> int \<Rightarrow> ('d fs \<times> int) option" where
  "fs_append s name data len =
     (let (v, ok) = (if find_file (fs_vfs s) name = None
                     then case fs_create (fs_vfs s) name of (v, r) \<Rightarrow> (v, 0 < r) else (fs_vfs s, True));
          s = s\<lparr>fs_vfs := v\<rparr>
      in if \<not> ok then Some (s, -1)
         else case find_file v name of
             None \<Rightarrow> None
           | Some idx \<Rightarrow>
               let f = files v ! idx;
                   remaining = int FS_MAX_SIZE - fs_size f;
                   len = (if remaining < len then remaining else len);
                   f = f\<lparr>fs_data := blit (fs_data f) (nat (fs_size f)) (take (nat len) data), fs_size := fs_size f + len\<rparr>;
                   s = s\<lparr>fs_vfs := v\<lparr>files := (files v)[idx := f]\<rparr>\<rparr>
               in Some (fs_hook (persist_sync_fn s) (name_str f) s, len))"

text \<open>The bytes written to the caller's buffer, and the result.\<close>

definition fs_read :: "vfs \<Rightarrow> bytes \<Rightarrow> int \<Rightarrow> bytes \<times> int" where
  "fs_read v name max_len =
     (case find_file v name of
        None \<Rightarrow> ([], -1)
      | Some idx \<Rightarrow>
          let len = fs_size (files v ! idx); len = (if max_len < len then max_len else len)
          in (take (nat len) (fs_data (files v ! idx)), len))"

definition fs_delete :: "'d fs \<Rightarrow> bytes \<Rightarrow> 'd fs \<times> int" where
  "fs_delete s name =
     (case find_file (fs_vfs s) name of
        None \<Rightarrow> (s, 0)
      | Some idx \<Rightarrow>
          let v = fs_vfs s; f = files v ! idx; gone = name_str f;
              s = s\<lparr>fs_vfs := v\<lparr>files := (files v)[idx := clear_slot f], file_count := file_count v - 1\<rparr>\<rparr>
          in (fs_hook (persist_delete_fn s) gone s, 1))"

definition fs_get_count :: "vfs \<Rightarrow> int" where
  "fs_get_count v = file_count v"

fun nth_used :: "fs_file list \<Rightarrow> int \<Rightarrow> bytes option" where
  "nth_used [] index = None"
| "nth_used (f # fs) index =
     (if fs_used f then if index = 0 then Some (name_str f) else nth_used fs (index - 1) else nth_used fs index)"

definition fs_get_name :: "vfs \<Rightarrow> int \<Rightarrow> bytes option" where
  "fs_get_name v index = nth_used (files v) index"

definition fs_get_size :: "vfs \<Rightarrow> bytes \<Rightarrow> int" where
  "fs_get_size v name = (case find_file v name of None \<Rightarrow> -1 | Some idx \<Rightarrow> fs_size (files v ! idx))"

subsection \<open>Invariant and abstraction\<close>

definition slot_ok :: "fs_file \<Rightarrow> bool" where
  "slot_ok f \<longleftrightarrow> length (fs_name f) = FS_MAX_NAME \<and> length (fs_data f) = FS_MAX_SIZE \<and>
     0 \<le> fs_size f \<and> fs_size f \<le> int FS_MAX_SIZE \<and> (fs_used f \<longrightarrow> 0 \<in> set (fs_name f))"

definition vfs_ok :: "vfs \<Rightarrow> bool" where
  "vfs_ok v \<longleftrightarrow> length (files v) = FS_MAX_FILES \<and> (\<forall>f \<in> set (files v). slot_ok f) \<and>
     (\<forall>i < FS_MAX_FILES. \<forall>j < FS_MAX_FILES. fs_used (files v ! i) \<and> fs_used (files v ! j) \<and>
        name_str (files v ! i) = name_str (files v ! j) \<longrightarrow> i = j) \<and>
     file_count v = int (length (filter fs_used (files v)))"

definition file_bytes :: "fs_file \<Rightarrow> bytes" where
  "file_bytes f = take (nat (fs_size f)) (fs_data f)"

text \<open>The files as a map from names to contents.\<close>

definition contents :: "vfs \<Rightarrow> bytes \<Rightarrow> bytes option" where
  "contents v name = map_option (\<lambda>i. file_bytes (files v ! i)) (find_file v name)"

definition fs_name_ok :: "bytes \<Rightarrow> bool" where
  "fs_name_ok name \<longleftrightarrow> 0 \<notin> set name \<and> length name < FS_MAX_NAME"

lemma str_match_takeWhile:
  "0 \<notin> set name \<Longrightarrow> 0 \<in> set arr \<Longrightarrow> str_match (name @ [0]) arr \<longleftrightarrow> takeWhile (\<lambda>c. c \<noteq> 0) arr = name"
proof (induction name arbitrary: arr)
  case Nil
  then show ?case by (cases arr) auto
next
  case (Cons a name)
  then show ?case by (cases arr) auto
qed

lemma slot_okD: "vfs_ok v \<Longrightarrow> i < FS_MAX_FILES \<Longrightarrow> slot_ok (files v ! i)"
  by (auto simp: vfs_ok_def)

lemma find_file_iff:
  assumes "vfs_ok v" "0 \<notin> set name"
  shows "find_file v name = Some i \<longleftrightarrow> i < FS_MAX_FILES \<and> fs_used (files v ! i) \<and> name_str (files v ! i) = name"
    "find_file v name = None \<longleftrightarrow> (\<forall>i < FS_MAX_FILES. fs_used (files v ! i) \<longrightarrow> name_str (files v ! i) \<noteq> name)"
proof -
  have m: "str_match (name @ [0]) (fs_name (files v ! i)) \<longleftrightarrow> name_str (files v ! i) = name"
    if "i < FS_MAX_FILES" "fs_used (files v ! i)" for i
    using slot_okD [OF assms(1) that(1)] that(2) str_match_takeWhile [OF assms(2)] by (auto simp: slot_ok_def name_str_def)
  show n: "find_file v name = None \<longleftrightarrow> (\<forall>i < FS_MAX_FILES. fs_used (files v ! i) \<longrightarrow> name_str (files v ! i) \<noteq> name)"
    using m by (auto simp: find_file_def find_None_iff)
  show "find_file v name = Some i \<longleftrightarrow> i < FS_MAX_FILES \<and> fs_used (files v ! i) \<and> name_str (files v ! i) = name"
  proof
    assume "find_file v name = Some i"
    then show "i < FS_MAX_FILES \<and> fs_used (files v ! i) \<and> name_str (files v ! i) = name"
      using m by (auto simp: find_file_def find_Some_iff)
  next
    assume i: "i < FS_MAX_FILES \<and> fs_used (files v ! i) \<and> name_str (files v ! i) = name"
    then obtain j where j: "find_file v name = Some j" using n by blast
    then have "j < FS_MAX_FILES" "fs_used (files v ! j)" "name_str (files v ! j) = name"
      using m by (auto simp: find_file_def find_Some_iff)
    then have "j = i" using assms(1) i unfolding vfs_ok_def by blast
    then show "find_file v name = Some i" using j by simp
  qed
qed

subsection \<open>Updating a slot\<close>

lemma filter_update:
  "i < length xs \<Longrightarrow> length (filter P (xs[i := x])) + (if P (xs ! i) then 1 else 0) =
     length (filter P xs) + (if P x then 1 else 0)"
proof (induction xs arbitrary: i)
  case (Cons y ys)
  then show ?case
  proof (cases i)
    case (Suc j)
    then show ?thesis using Cons.IH [of j] Cons.prems by (simp split: if_splits)
  qed simp
qed simp

lemma vfs_okI:
  assumes "vfs_ok v" "i < FS_MAX_FILES" "slot_ok f" "length (files v') = FS_MAX_FILES" "files v' = (files v)[i := f]"
    and "\<And>j. j < FS_MAX_FILES \<Longrightarrow> j \<noteq> i \<Longrightarrow> fs_used f \<Longrightarrow> fs_used (files v ! j) \<Longrightarrow> name_str (files v ! j) \<noteq> name_str f"
    and "file_count v' + (if fs_used (files v ! i) then 1 else 0) = file_count v + (if fs_used f then 1 else 0)"
  shows "vfs_ok v'"
proof -
  have l: "i < length (files v)" using assms(1,2) by (simp add: vfs_ok_def)
  have nth: "files v' ! j = (if j = i then f else files v ! j)" if "j < FS_MAX_FILES" for j
    using that l assms(5) by (simp add: nth_list_update)
  have "\<forall>f \<in> set (files v'). slot_ok f"
    using assms(1,3) set_update_subset_insert [of "files v" i f] by (auto simp: assms(5) vfs_ok_def)
  moreover have "j = k" if "j < FS_MAX_FILES" "k < FS_MAX_FILES" "fs_used (files v' ! j)" "fs_used (files v' ! k)"
      "name_str (files v' ! j) = name_str (files v' ! k)" for j k
    using that assms(6) [of j] assms(6) [of k] assms(1) unfolding nth [OF that(1)] nth [OF that(2)]
    by (cases "j = i"; cases "k = i") (auto simp: vfs_ok_def)
  moreover have "file_count v' = int (length (filter fs_used (files v')))"
    using filter_update [OF l, of fs_used f] assms(1,7) by (simp add: assms(5) vfs_ok_def split: if_splits)
  ultimately show ?thesis using assms(4) by (auto simp: vfs_ok_def)
qed

lemma find_slot_update:
  assumes ok: "vfs_ok v" "vfs_ok v'" and i: "i < FS_MAX_FILES" "files v' = (files v)[i := f]"
    and n: "0 \<notin> set n"
  shows "find_file v' n = (if fs_used f \<and> name_str f = n then Some i
    else if find_file v n = Some i then None else find_file v n)"
proof -
  have l: "i < length (files v)" using ok(1) i(1) by (simp add: vfs_ok_def)
  have nth: "files v' ! j = (if j = i then f else files v ! j)" if "j < FS_MAX_FILES" for j
    using that l i(2) by (simp add: nth_list_update)
  note f = find_file_iff [OF ok(1) n] and f' = find_file_iff [OF ok(2) n]
  show ?thesis
  proof (cases "fs_used f \<and> name_str f = n")
    case True
    then show ?thesis using f'(1) [of i] i(1) nth by simp
  next
    case False
    show ?thesis
    proof (cases "find_file v n")
      case None
      then have "find_file v' n = None" using f(2) f'(2) nth False by auto
      then show ?thesis using False None by simp
    next
      case (Some j)
      then have j: "j < FS_MAX_FILES" "fs_used (files v ! j)" "name_str (files v ! j) = n" using f(1) by auto
      show ?thesis
      proof (cases "j = i")
        case True
        have "k = i" if "k < FS_MAX_FILES" "fs_used (files v ! k)" "name_str (files v ! k) = n" for k
          using that j True ok(1) by (auto simp: vfs_ok_def)
        then have "find_file v' n = None" using f'(2) nth False by auto
        then show ?thesis using False Some True by simp
      next
        case ne: False
        then have "find_file v' n = Some j" using f'(1) [of j] j nth by simp
        then show ?thesis using False Some ne by auto
      qed
    qed
  qed
qed

text \<open>Rewriting the contents of a file that is there.\<close>

lemma store_ok:
  assumes ok: "vfs_ok v" and i: "find_file v name = Some i" and n: "0 \<notin> set name"
    and f: "slot_ok f" "fs_used f" "fs_name f = fs_name (files v ! i)"
  defines "v' \<equiv> v\<lparr>files := (files v)[i := f]\<rparr>"
  shows "vfs_ok v'" "find_file v' name = Some i"
    "\<And>m. 0 \<notin> set m \<Longrightarrow> contents v' m = (if m = name then Some (file_bytes f) else contents v m)"
proof -
  have s: "i < FS_MAX_FILES" "fs_used (files v ! i)" "name_str (files v ! i) = name"
    using find_file_iff(1) [OF ok n] i by auto
  have nf: "name_str f = name" using s(3) f(3) by (simp add: name_str_def)
  show v': "vfs_ok v'"
  proof (rule vfs_okI [OF ok s(1) f(1)])
    show "name_str (files v ! j) \<noteq> name_str f" if "j < FS_MAX_FILES" "j \<noteq> i" "fs_used (files v ! j)" for j
      using that ok s nf by (auto simp: vfs_ok_def)
  qed (use ok f s in \<open>simp_all add: v'_def vfs_ok_def\<close>)
  have u: "find_file v' m = (if m = name then Some i else find_file v m)" if "0 \<notin> set m" for m
    using find_slot_update [OF ok v' s(1) _ that, of f] f(2) nf i that find_file_iff(1) [OF ok that, of i] s
    by (auto simp: v'_def)
  show "find_file v' name = Some i" using u [OF n] by simp
  show "contents v' m = (if m = name then Some (file_bytes f) else contents v m)" if m: "0 \<notin> set m" for m
  proof (cases "m = name")
    case True
    then show ?thesis using u [OF m] ok s by (simp add: contents_def v'_def vfs_ok_def)
  next
    case False
    then have "find_file v m \<noteq> Some i" using find_file_iff(1) [OF ok m, of i] s by auto
    then show ?thesis using u [OF m] False by (cases "find_file v m") (auto simp: contents_def v'_def)
  qed
qed

text \<open>Creating a file.\<close>

lemma blit_name:
  assumes "length arr = FS_MAX_NAME" "0 \<notin> set name"
  shows "length (blit arr 0 (take 31 name @ [0])) = FS_MAX_NAME" "0 \<in> set (blit arr 0 (take 31 name @ [0]))"
    "takeWhile (\<lambda>c. c \<noteq> 0) (blit arr 0 (take 31 name @ [0])) = take 31 name"
proof -
  let ?t = "take 31 name"
  have l: "length (?t @ [0]) \<le> length arr" using assms(1) by (simp add: FS_MAX_NAME_def)
  have b: "blit arr 0 (?t @ [0]) = ?t @ 0 # drop (length (?t @ [0])) arr" by (simp add: blit_0)
  show "length (blit arr 0 (?t @ [0])) = FS_MAX_NAME" using assms(1) l by simp
  show "0 \<in> set (blit arr 0 (?t @ [0]))" unfolding b by simp
  have "c \<noteq> 0" if "c \<in> set ?t" for c using that assms(2) set_take_subset [of 31 name] by blast
  then have "takeWhile (\<lambda>c. c \<noteq> 0) (?t @ 0 # ys) = ?t" for ys by (simp add: takeWhile_append2)
  then show "takeWhile (\<lambda>c. c \<noteq> 0) (blit arr 0 (?t @ [0])) = ?t" unfolding b .
qed

lemma fs_create_cases:
  assumes ok: "vfs_ok v" and n: "fs_name_ok name" and new: "find_file v name = None"
  obtains (full) "fs_create v name = (v, -1)" "\<forall>i < FS_MAX_FILES. fs_used (files v ! i)"
  | (made) v' i where "fs_create v name = (v', 1)" "vfs_ok v'" "find_file v' name = Some i"
      "\<not> (\<forall>i < FS_MAX_FILES. fs_used (files v ! i))"
      "file_count v' = file_count v + 1"
      "\<And>m. 0 \<notin> set m \<Longrightarrow> contents v' m = (if m = name then Some [] else contents v m)"
proof (cases "List.find (\<lambda>i. \<not> fs_used (files v ! i)) [0..<FS_MAX_FILES]")
  case None
  then have "\<forall>i < FS_MAX_FILES. fs_used (files v ! i)" by (auto simp: find_None_iff)
  moreover have "fs_create v name = (v, -1)" using None new by (simp add: fs_create_def fs_exists_def)
  ultimately show ?thesis by (intro full)
next
  case (Some i)
  have i: "i < FS_MAX_FILES" "\<not> fs_used (files v ! i)" using Some by (auto simp: find_Some_iff)
  have n0: "0 \<notin> set name" and nl: "take 31 name = name" using n by (auto simp: fs_name_ok_def FS_MAX_NAME_def)
  let ?a = "fs_name (files v ! i)"
  define f where "f = (files v ! i)\<lparr>fs_used := True, fs_size := 0, fs_name := blit ?a 0 (name @ [0])\<rparr>"
  define v' where "v' = v\<lparr>files := (files v)[i := f], file_count := file_count v + 1\<rparr>"
  have c: "fs_create v name = (v', 1)"
    using Some new nl by (simp add: fs_create_def fs_exists_def Let_def v'_def f_def FS_MAX_NAME_def)
  have so: "slot_ok (files v ! i)" by (rule slot_okD [OF ok i(1)])
  then have "length ?a = FS_MAX_NAME" by (simp add: slot_ok_def)
  note b = blit_name [OF this n0, unfolded nl]
  have f: "slot_ok f" "fs_used f" "name_str f = name" "file_bytes f = []"
    using so b by (simp_all add: f_def slot_ok_def name_str_def file_bytes_def)
  have v': "vfs_ok v'"
  proof (rule vfs_okI [OF ok i(1) f(1)])
    show "name_str (files v ! j) \<noteq> name_str f" if "j < FS_MAX_FILES" "fs_used (files v ! j)" for j
      using that new find_file_iff(2) [OF ok n0] f(3) by simp
  qed (use ok f i in \<open>simp_all add: v'_def vfs_ok_def\<close>)
  have u: "find_file v' m = (if m = name then Some i else find_file v m)" if "0 \<notin> set m" for m
    using find_slot_update [OF ok v' i(1) _ that, of f] f(2,3) i(2) find_file_iff(1) [OF ok that, of i]
    by (auto simp: v'_def)
  show ?thesis
  proof (rule made [OF c v'])
    show "\<not> (\<forall>i < FS_MAX_FILES. fs_used (files v ! i))" using i by auto
    show "find_file v' name = Some i" using u [OF n0] by simp
    show "contents v' m = (if m = name then Some [] else contents v m)" if m: "0 \<notin> set m" for m
    proof (cases "m = name")
      case True
      then show ?thesis using u [OF m] ok i f(4) by (simp add: contents_def v'_def vfs_ok_def)
    next
      case False
      have "find_file v m \<noteq> Some i" using find_file_iff(1) [OF ok m, of i] i by auto
      then show ?thesis using u [OF m] False by (cases "find_file v m") (auto simp: contents_def v'_def)
    qed
  qed (simp add: v'_def)
qed

subsection \<open>Writing\<close>

text \<open>What \<open>fs_write\<close> and \<open>fs_append\<close> share: make sure the file is there.\<close>

definition ensure :: "vfs \<Rightarrow> bytes \<Rightarrow> vfs \<times> bool" where
  "ensure v name = (if find_file v name = None
     then case fs_create v name of (v, r) \<Rightarrow> (v, 0 < r) else (v, True))"

lemma ensure_cases:
  assumes ok: "vfs_ok v" and n: "fs_name_ok name"
  obtains (full) "ensure v name = (v, False)" "find_file v name = None" "\<forall>i < FS_MAX_FILES. fs_used (files v ! i)"
  | (there) v' i old where "ensure v name = (v', True)" "vfs_ok v'" "find_file v' name = Some i"
      "contents v' name = Some old" "old = (case contents v name of None \<Rightarrow> [] | Some b \<Rightarrow> b)"
      "contents v name \<noteq> None \<or> \<not> (\<forall>i < FS_MAX_FILES. fs_used (files v ! i))"
      "\<And>m. 0 \<notin> set m \<Longrightarrow> m \<noteq> name \<Longrightarrow> contents v' m = contents v m"
proof (cases "find_file v name")
  case (Some i)
  show ?thesis
    by (rule there [of v i "file_bytes (files v ! i)"]) (use Some ok in \<open>simp_all add: ensure_def contents_def\<close>)
next
  case None
  have n0: "0 \<notin> set name" using n by (simp add: fs_name_ok_def)
  have c0: "contents v name = None" using None by (simp add: contents_def)
  from ok n None show ?thesis
  proof (cases rule: fs_create_cases [case_names full made])
    case full
    then show ?thesis using None by (intro that(1)) (simp_all add: ensure_def)
  next
    case (made v' i)
    then show ?thesis
      using None c0 n0 by (intro there [of v' i "[]"]) (simp_all add: ensure_def)
  qed
qed

definition same_hooks :: "'d fs \<Rightarrow> 'd fs \<Rightarrow> bool" where
  "same_hooks s s' \<longleftrightarrow> persist_sync_fn s' = persist_sync_fn s \<and> persist_delete_fn s' = persist_delete_fn s"

lemma fs_hook_vfs [simp]:
  "fs_vfs (fs_hook fn n s) = fs_vfs s" "persist_sync_fn (fs_hook fn n s) = persist_sync_fn s"
  "persist_delete_fn (fs_hook fn n s) = persist_delete_fn s"
  by (cases fn; simp add: fs_hook_def)+

text \<open>The state after a successful write, before the hook.\<close>

lemma fs_write_cases:
  assumes ok: "vfs_ok (fs_vfs s)" and n: "fs_name_ok name" and len: "0 \<le> len" "nat len \<le> length data"
  obtains (full) "fs_write s name data len = (s, -1)" "contents (fs_vfs s) name = None"
      "\<forall>i < FS_MAX_FILES. fs_used (files (fs_vfs s) ! i)"
  | (stored) v where "fs_write s name data len =
        (fs_hook (persist_sync_fn s) name (s\<lparr>fs_vfs := v\<rparr>), min len (int FS_MAX_SIZE))" "vfs_ok v"
      "contents (fs_vfs s) name \<noteq> None \<or> \<not> (\<forall>i < FS_MAX_FILES. fs_used (files (fs_vfs s) ! i))"
      "\<And>m. 0 \<notin> set m \<Longrightarrow> contents v m = (if m = name then Some (take (min (nat len) FS_MAX_SIZE) data) else contents (fs_vfs s) m)"
proof -
  let ?v = "fs_vfs s"
  have n0: "0 \<notin> set name" using n by (simp add: fs_name_ok_def)
  have w: "fs_write s name data len =
     (let (v, ok) = ensure ?v name; s = s\<lparr>fs_vfs := v\<rparr>
      in if \<not> ok then (s, -1)
         else case find_file v name of
             None \<Rightarrow> (s, -1)
           | Some idx \<Rightarrow>
               let len = (if int FS_MAX_SIZE < len then int FS_MAX_SIZE else len);
                   f = files v ! idx;
                   f = f\<lparr>fs_data := blit (fs_data f) 0 (take (nat len) data), fs_size := len\<rparr>;
                   s = s\<lparr>fs_vfs := v\<lparr>files := (files v)[idx := f]\<rparr>\<rparr>
               in (fs_hook (persist_sync_fn s) (name_str f) s, len))"
    unfolding fs_write_def ensure_def ..
  from ok n show ?thesis
  proof (cases rule: ensure_cases [case_names full there])
    case full
    then show ?thesis using w by (intro that(1)) (simp_all add: contents_def)
  next
    case (there v i old)
    have i: "i < FS_MAX_FILES" "fs_used (files v ! i)" "name_str (files v ! i) = name"
      using find_file_iff(1) [OF there(2) n0] there(3) by auto
    let ?len = "if int FS_MAX_SIZE < len then int FS_MAX_SIZE else len"
    let ?g = "files v ! i"
    let ?f = "?g\<lparr>fs_data := blit (fs_data ?g) 0 (take (nat ?len) data), fs_size := ?len\<rparr>"
    have so: "slot_ok ?g" by (rule slot_okD [OF there(2) i(1)])
    have l: "nat ?len \<le> FS_MAX_SIZE" "nat ?len \<le> length data" "0 \<le> ?len" "?len = min len (int FS_MAX_SIZE)"
      "nat ?len = min (nat len) FS_MAX_SIZE" using len by auto
    have f: "slot_ok ?f" "fs_used ?f" "fs_name ?f = fs_name ?g" "name_str ?f = name"
      using so l i by (auto simp: slot_ok_def name_str_def)
    have fb: "file_bytes ?f = take (min (nat len) FS_MAX_SIZE) data"
      using l so by (simp add: file_bytes_def blit_0 slot_ok_def)
    note st = store_ok [OF there(2,3) n0 f(1-3)]
    show ?thesis
    proof (rule stored [OF _ st(1) there(6)])
      show "fs_write s name data len =
          (fs_hook (persist_sync_fn s) name (s\<lparr>fs_vfs := v\<lparr>files := (files v)[i := ?f]\<rparr>\<rparr>), min len (int FS_MAX_SIZE))"
        unfolding w there(1) using there(3) f(4) l(4) by (simp add: Let_def)
      show "contents (v\<lparr>files := (files v)[i := ?f]\<rparr>) m =
          (if m = name then Some (take (min (nat len) FS_MAX_SIZE) data) else contents ?v m)" if "0 \<notin> set m" for m
        using st(3) [OF that] fb there(7) [OF that] by simp
    qed
  qed
qed

lemma blit_extend:
  assumes "0 \<le> sz" "nat sz + length xs \<le> length d"
  shows "take (nat (sz + int (length xs))) (blit d (nat sz) xs) = take (nat sz) d @ xs"
proof -
  have "nat (sz + int (length xs)) = nat sz + length xs" using assms(1) by simp
  then show ?thesis using take_blit [of "nat sz" xs d] assms(2) by simp
qed

lemma fs_append_cases:
  assumes ok: "vfs_ok (fs_vfs s)" and n: "fs_name_ok name" and len: "0 \<le> len" "nat len \<le> length data"
  obtains (full) "fs_append s name data len = Some (s, -1)" "contents (fs_vfs s) name = None"
      "\<forall>i < FS_MAX_FILES. fs_used (files (fs_vfs s) ! i)"
  | (stored) v old k where "fs_append s name data len =
        Some (fs_hook (persist_sync_fn s) name (s\<lparr>fs_vfs := v\<rparr>), int k)" "vfs_ok v"
      "contents (fs_vfs s) name \<noteq> None \<or> \<not> (\<forall>i < FS_MAX_FILES. fs_used (files (fs_vfs s) ! i))"
      "old = (case contents (fs_vfs s) name of None \<Rightarrow> [] | Some b \<Rightarrow> b)" "k = min (nat len) (FS_MAX_SIZE - length old)"
      "\<And>m. 0 \<notin> set m \<Longrightarrow> contents v m = (if m = name then Some (old @ take k data) else contents (fs_vfs s) m)"
proof -
  let ?v = "fs_vfs s"
  have n0: "0 \<notin> set name" using n by (simp add: fs_name_ok_def)
  have w: "fs_append s name data len =
     (let (v, ok) = ensure ?v name; s = s\<lparr>fs_vfs := v\<rparr>
      in if \<not> ok then Some (s, -1)
         else case find_file v name of
             None \<Rightarrow> None
           | Some idx \<Rightarrow>
               let f = files v ! idx;
                   remaining = int FS_MAX_SIZE - fs_size f;
                   len = (if remaining < len then remaining else len);
                   f = f\<lparr>fs_data := blit (fs_data f) (nat (fs_size f)) (take (nat len) data), fs_size := fs_size f + len\<rparr>;
                   s = s\<lparr>fs_vfs := v\<lparr>files := (files v)[idx := f]\<rparr>\<rparr>
               in Some (fs_hook (persist_sync_fn s) (name_str f) s, len))"
    unfolding fs_append_def ensure_def ..
  from ok n show ?thesis
  proof (cases rule: ensure_cases [case_names full there])
    case full
    then show ?thesis using w by (intro that(1)) (simp_all add: contents_def)
  next
    case (there v i old)
    have i: "i < FS_MAX_FILES" "fs_used (files v ! i)" "name_str (files v ! i) = name"
      using find_file_iff(1) [OF there(2) n0] there(3) by auto
    let ?g = "files v ! i"
    let ?len = "if int FS_MAX_SIZE - fs_size ?g < len then int FS_MAX_SIZE - fs_size ?g else len"
    let ?f = "?g\<lparr>fs_data := blit (fs_data ?g) (nat (fs_size ?g)) (take (nat ?len) data), fs_size := fs_size ?g + ?len\<rparr>"
    have so: "slot_ok ?g" by (rule slot_okD [OF there(2) i(1)])
    have sz: "0 \<le> fs_size ?g" "fs_size ?g \<le> int FS_MAX_SIZE" "length (fs_data ?g) = FS_MAX_SIZE" using so by (auto simp: slot_ok_def)
    have old: "old = file_bytes ?g" "length old = nat (fs_size ?g)"
      using there(3,4) sz by (auto simp: contents_def file_bytes_def)
    define k where "k = min (nat len) (FS_MAX_SIZE - length old)"
    have l: "?len = int k" "k \<le> length data" "nat (fs_size ?g) + k \<le> FS_MAX_SIZE"
      using len sz old(2) by (auto simp: k_def)
    have f: "slot_ok ?f" "fs_used ?f" "fs_name ?f = fs_name ?g" "name_str ?f = name"
      using so l i sz by (auto simp: slot_ok_def name_str_def)
    have fb: "file_bytes ?f = old @ take k data"
      using blit_extend [OF sz(1), of "take k data" "fs_data ?g"] l sz old(1) by (simp add: file_bytes_def)
    note st = store_ok [OF there(2,3) n0 f(1-3)]
    show ?thesis
    proof (rule stored [OF _ st(1) there(6,5) k_def])
      show "fs_append s name data len =
          Some (fs_hook (persist_sync_fn s) name (s\<lparr>fs_vfs := v\<lparr>files := (files v)[i := ?f]\<rparr>\<rparr>), int k)"
        unfolding w there(1) using there(3) f(4) l(1) by (simp add: Let_def)
      show "contents (v\<lparr>files := (files v)[i := ?f]\<rparr>) m = (if m = name then Some (old @ take k data) else contents ?v m)"
        if "0 \<notin> set m" for m
        using st(3) [OF that] fb there(7) [OF that] by simp
    qed
  qed
qed

subsection \<open>Deleting and reading\<close>

lemma slot_clear: "slot_ok f \<Longrightarrow> slot_ok (clear_slot f)" "\<not> fs_used (clear_slot f)"
  by (simp_all add: clear_slot_def slot_ok_def)

lemma fs_delete_cases:
  assumes ok: "vfs_ok (fs_vfs s)" and n0: "0 \<notin> set name"
  obtains (absent) "fs_delete s name = (s, 0)" "contents (fs_vfs s) name = None"
  | (gone) v where "fs_delete s name = (fs_hook (persist_delete_fn s) name (s\<lparr>fs_vfs := v\<rparr>), 1)" "vfs_ok v"
      "contents (fs_vfs s) name \<noteq> None"
      "\<And>m. 0 \<notin> set m \<Longrightarrow> contents v m = (if m = name then None else contents (fs_vfs s) m)"
proof (cases "find_file (fs_vfs s) name")
  case None
  then show ?thesis by (intro absent) (simp_all add: fs_delete_def contents_def)
next
  case (Some i)
  let ?v = "fs_vfs s"
  let ?f = "clear_slot (files ?v ! i)"
  define v where "v = ?v\<lparr>files := (files ?v)[i := ?f], file_count := file_count ?v - 1\<rparr>"
  have i: "i < FS_MAX_FILES" "fs_used (files ?v ! i)" "name_str (files ?v ! i) = name"
    using find_file_iff(1) [OF ok n0] Some by auto
  have f: "slot_ok ?f" "\<not> fs_used ?f" using slot_clear slot_okD [OF ok i(1)] by auto
  have v: "vfs_ok v"
    by (rule vfs_okI [OF ok i(1) f(1)]) (use ok f i in \<open>simp_all add: v_def vfs_ok_def\<close>)
  have u: "find_file v m = (if m = name then None else find_file ?v m)" if "0 \<notin> set m" for m
    using find_slot_update [OF ok v i(1) _ that, of ?f] f(2) Some find_file_iff(1) [OF ok that, of i] i
    by (auto simp: v_def)
  show ?thesis
  proof (rule gone [OF _ v])
    show "fs_delete s name = (fs_hook (persist_delete_fn s) name (s\<lparr>fs_vfs := v\<rparr>), 1)"
      using Some i(3) by (simp add: fs_delete_def Let_def v_def)
    show "contents ?v name \<noteq> None" using Some by (simp add: contents_def)
    show "contents v m = (if m = name then None else contents ?v m)" if m: "0 \<notin> set m" for m
    proof (cases "m = name")
      case False
      then have "find_file ?v m \<noteq> Some i" using find_file_iff(1) [OF ok m, of i] i by auto
      then show ?thesis using u [OF m] False by (cases "find_file ?v m") (auto simp: contents_def v_def)
    qed (use u [OF m] in \<open>simp add: contents_def\<close>)
  qed
qed

lemma fs_read_contents:
  assumes ok: "vfs_ok v" and n0: "0 \<notin> set name" and max: "0 \<le> max_len"
  shows "fs_read v name max_len = (case contents v name of
      None \<Rightarrow> ([], -1) | Some b \<Rightarrow> (take (nat max_len) b, int (min (nat max_len) (length b))))"
    "fs_get_size v name = (case contents v name of None \<Rightarrow> -1 | Some b \<Rightarrow> int (length b))"
    "fs_exists v name \<longleftrightarrow> contents v name \<noteq> None"
proof -
  have l: "length (file_bytes (files v ! i)) = nat (fs_size (files v ! i))" "0 \<le> fs_size (files v ! i)" if "find_file v name = Some i" for i
  proof -
    have "slot_ok (files v ! i)" using find_file_iff(1) [OF ok n0] that slot_okD [OF ok] by auto
    then show "length (file_bytes (files v ! i)) = nat (fs_size (files v ! i))" "0 \<le> fs_size (files v ! i)"
      by (auto simp: slot_ok_def file_bytes_def)
  qed
  show "fs_read v name max_len = (case contents v name of
      None \<Rightarrow> ([], -1) | Some b \<Rightarrow> (take (nat max_len) b, int (min (nat max_len) (length b))))"
  proof (cases "find_file v name")
    case (Some i)
    let ?z = "fs_size (files v ! i)"
    have "nat (if max_len < ?z then max_len else ?z) = min (nat max_len) (nat ?z)"
      "(if max_len < ?z then max_len else ?z) = int (min (nat max_len) (nat ?z))" using l(2) [OF Some] max by auto
    then show ?thesis using Some l(1) [OF Some] by (simp add: fs_read_def contents_def Let_def file_bytes_def)
  qed (simp add: fs_read_def contents_def)
  show "fs_get_size v name = (case contents v name of None \<Rightarrow> -1 | Some b \<Rightarrow> int (length b))"
    using l by (cases "find_file v name") (simp_all add: fs_get_size_def contents_def)
  show "fs_exists v name \<longleftrightarrow> contents v name \<noteq> None" by (simp add: fs_exists_def contents_def)
qed

subsection \<open>Properties\<close>

text \<open>\<open>v'\<close> is \<open>v\<close> with the one entry \<open>name\<close> set to \<open>b\<close>.\<close>

definition entry_set :: "vfs \<Rightarrow> bytes \<Rightarrow> bytes option \<Rightarrow> vfs \<Rightarrow> bool" where
  "entry_set v name b v' \<longleftrightarrow> vfs_ok v' \<and> (\<forall>m. 0 \<notin> set m \<longrightarrow> contents v' m = (if m = name then b else contents v m))"

definition vfs_full :: "vfs \<Rightarrow> bool" where
  "vfs_full v \<longleftrightarrow> (\<forall>i < FS_MAX_FILES. fs_used (files v ! i))"

definition old_bytes :: "vfs \<Rightarrow> bytes \<Rightarrow> bytes" where
  "old_bytes v name = (case contents v name of None \<Rightarrow> [] | Some b \<Rightarrow> b)"

lemma old_bytes_length: "vfs_ok v \<Longrightarrow> 0 \<notin> set name \<Longrightarrow> length (old_bytes v name) \<le> FS_MAX_SIZE"
proof -
  assume ok: "vfs_ok v" and n0: "0 \<notin> set name"
  show ?thesis
  proof (cases "find_file v name")
    case (Some i)
    then have "slot_ok (files v ! i)" using find_file_iff(1) [OF ok n0] slot_okD [OF ok] by auto
    then show ?thesis using Some by (simp add: old_bytes_def contents_def slot_ok_def file_bytes_def)
  qed (simp add: old_bytes_def contents_def)
qed

text \<open>C11. For names shorter than 32 bytes the file system is a map from names to contents of at most
  32768 bytes. \<open>fs_write\<close> replaces one entry, cut to 32768 bytes, and returns the bytes stored;
  \<open>fs_append\<close> extends one entry as far as there is room; both return -1 and change nothing exactly
  when the file is not there and all sixteen slots are taken. \<open>fs_delete\<close> removes one entry.
  Reading, size and existence are those of the map, and every operation keeps the table's invariant.\<close>

theorem vfs_refines_map:
  assumes ok: "vfs_ok (fs_vfs s)" and n: "fs_name_ok name" and len: "0 \<le> len" "nat len \<le> length data" and max: "0 \<le> max_len"
  defines "v \<equiv> fs_vfs s"
  defines "refuse \<equiv> contents v name = None \<and> vfs_full v"
  defines "old \<equiv> old_bytes v name"
  defines "k \<equiv> min (nat len) (FS_MAX_SIZE - length old)"
  shows
    "(if refuse then fs_write s name data len = (s, -1)
      else \<exists>s'. fs_write s name data len = (s', min len (int FS_MAX_SIZE)) \<and>
        entry_set v name (Some (take (min (nat len) FS_MAX_SIZE) data)) (fs_vfs s')) \<and>
     (if refuse then fs_append s name data len = Some (s, -1)
      else \<exists>s'. fs_append s name data len = Some (s', int k) \<and>
        entry_set v name (Some (old @ take k data)) (fs_vfs s')) \<and>
     (\<exists>s'. fs_delete s name = (s', if contents v name = None then 0 else 1) \<and> entry_set v name None (fs_vfs s')) \<and>
     fs_read v name max_len = (case contents v name of
       None \<Rightarrow> ([], -1) | Some b \<Rightarrow> (take (nat max_len) b, int (min (nat max_len) (length b)))) \<and>
     fs_get_size v name = (case contents v name of None \<Rightarrow> -1 | Some b \<Rightarrow> int (length b))"
proof (intro conjI)
  have n0: "0 \<notin> set name" using n by (simp add: fs_name_ok_def)
  note ok' = ok [folded v_def]
  show "if refuse then fs_write s name data len = (s, -1)
      else \<exists>s'. fs_write s name data len = (s', min len (int FS_MAX_SIZE)) \<and>
        entry_set v name (Some (take (min (nat len) FS_MAX_SIZE) data)) (fs_vfs s')"
    using ok n len
  proof (cases rule: fs_write_cases [case_names full stored])
    case full
    then show ?thesis by (simp add: refuse_def v_def vfs_full_def)
  next
    case (stored w)
    have "\<not> refuse" using stored(3) unfolding refuse_def v_def vfs_full_def by blast
    moreover have "entry_set v name (Some (take (min (nat len) FS_MAX_SIZE) data)) w"
      using stored(2,4) by (simp add: entry_set_def v_def)
    ultimately show ?thesis using stored(1) by simp
  qed
  show "if refuse then fs_append s name data len = Some (s, -1)
      else \<exists>s'. fs_append s name data len = Some (s', int k) \<and>
        entry_set v name (Some (old @ take k data)) (fs_vfs s')"
    using ok n len
  proof (cases rule: fs_append_cases [case_names full stored])
    case full
    then show ?thesis by (simp add: refuse_def v_def vfs_full_def)
  next
    case (stored w old' k')
    have "\<not> refuse" using stored(3) unfolding refuse_def v_def vfs_full_def by blast
    moreover have e: "old' = old" "k' = k" using stored(4,5) by (simp_all add: old_def k_def old_bytes_def v_def)
    moreover have "entry_set v name (Some (old @ take k data)) w"
      using stored(2,6) e by (simp add: entry_set_def v_def)
    ultimately show ?thesis using stored(1) by simp
  qed
  show "\<exists>s'. fs_delete s name = (s', if contents v name = None then 0 else 1) \<and> entry_set v name None (fs_vfs s')"
    using ok n0
  proof (cases rule: fs_delete_cases [case_names absent gone])
    case absent
    then show ?thesis using ok by (auto simp: entry_set_def v_def)
  next
    case (gone w)
    then show ?thesis by (auto simp: entry_set_def v_def)
  qed
  show "fs_read v name max_len = (case contents v name of
       None \<Rightarrow> ([], -1) | Some b \<Rightarrow> (take (nat max_len) b, int (min (nat max_len) (length b))))"
    "fs_get_size v name = (case contents v name of None \<Rightarrow> -1 | Some b \<Rightarrow> int (length b))"
    unfolding v_def by (rule fs_read_contents [OF ok n0 max])+
qed

text \<open>The state at boot, without a disk.\<close>

definition boot_fs :: "unit fs" where
  "boot_fs = \<lparr>fs_vfs = \<lparr>files = replicate FS_MAX_FILES \<lparr>fs_name = replicate FS_MAX_NAME 0, fs_data = replicate FS_MAX_SIZE 0,
       fs_size = 0, fs_used = False\<rparr>, file_count = 0\<rparr>,
     fs_disk = (), persist_sync_fn = None, persist_delete_fn = None\<rparr>"

lemma boot_ok: "vfs_ok (fs_vfs boot_fs)"
  by (auto simp: vfs_ok_def boot_fs_def slot_ok_def)

lemma boot_empty: "find_file (fs_vfs boot_fs) name = None" "\<not> vfs_full (fs_vfs boot_fs)"
proof -
  have "\<not> fs_used (files (fs_vfs boot_fs) ! i)" if "i < FS_MAX_FILES" for i using that by (simp add: boot_fs_def)
  then show "find_file (fs_vfs boot_fs) name = None" "\<not> vfs_full (fs_vfs boot_fs)"
    by (auto simp: find_file_def find_None_iff vfs_full_def FS_MAX_FILES_def intro: exI [of _ 0])
qed

lemma fs_init_ok: "length (files v) = FS_MAX_FILES \<Longrightarrow> \<forall>f \<in> set (files v). length (fs_name f) = FS_MAX_NAME \<and>
    length (fs_data f) = FS_MAX_SIZE \<Longrightarrow> vfs_ok (fs_init v)"
  by (auto simp: vfs_ok_def fs_init_def slot_ok_def clear_slot_def filter_empty_conv)

theorem vfs_refines_map_witness:
  "\<exists>s'. fs_append boot_fs (ascii ''a'') [1, 2, 3] 3 = Some (s', 3) \<and>
     entry_set (fs_vfs boot_fs) (ascii ''a'') (Some [1, 2, 3]) (fs_vfs s')"
proof -
  have n: "fs_name_ok (ascii ''a'')" by (simp add: fs_name_ok_def ascii_def FS_MAX_NAME_def)
  have "contents (fs_vfs boot_fs) (ascii ''a'') = None" using boot_empty by (simp add: contents_def)
  then show ?thesis using vfs_refines_map [OF boot_ok n, of 3 "[1, 2, 3]" 0] boot_empty
    by (simp add: old_bytes_def FS_MAX_SIZE_def)
qed

lemma long_not_found:
  assumes "vfs_ok v" "0 \<notin> set name" "FS_MAX_NAME \<le> length name"
  shows "find_file v name = None"
proof -
  have "length (name_str f) < FS_MAX_NAME" if "slot_ok f" "fs_used f" for f
  proof -
    have "0 \<in> set (fs_name f)" "length (fs_name f) = FS_MAX_NAME" using that by (auto simp: slot_ok_def)
    moreover have "length (takeWhile (\<lambda>c. c \<noteq> 0) xs) < length xs" if "0 \<in> set xs" for xs :: bytes
      using that by (induction xs) auto
    ultimately show ?thesis by (metis name_str_def)
  qed
  then show ?thesis using find_file_iff(2) [OF assms(1,2)] slot_okD [OF assms(1)] assms(3) by fastforce
qed

text \<open>C36. A name of 32 bytes or more that has room in the table: \<open>fs_create\<close> stores the first 31 bytes,
  so \<open>find_file\<close> does not find the name afterwards. \<open>fs_write\<close> then returns -1 and yet has taken a
  slot and counted a file, and \<open>fs_append\<close>, which does not check the second search, indexes the
  table with -1.\<close>

theorem fs_long_name:
  assumes ok: "vfs_ok (fs_vfs s)" and n: "0 \<notin> set name" "FS_MAX_NAME \<le> length name"
    and free: "\<not> vfs_full (fs_vfs s)" "find_file (fs_vfs s) (take 31 name) = None"
  shows "fs_append s name data len = None \<and>
    (\<exists>s'. fs_write s name data len = (s', -1) \<and> file_count (fs_vfs s') = file_count (fs_vfs s) + 1 \<and>
       contents (fs_vfs s') (take 31 name) = Some [])"
proof -
  let ?v = "fs_vfs s"
  have n0: "find_file ?v name = None" by (rule long_not_found [OF ok n])
  have n31: "fs_name_ok (take 31 name)" using n set_take_subset [of 31 name] by (auto simp: fs_name_ok_def FS_MAX_NAME_def)
  have same: "fs_create ?v name = fs_create ?v (take 31 name)"
    unfolding fs_create_def fs_exists_def n0 free(2) by (simp add: FS_MAX_NAME_def cong: option.case_cong)
  obtain v' i where c: "fs_create ?v name = (v', 1)" "vfs_ok v'" "file_count v' = file_count ?v + 1"
    "contents v' (take 31 name) = Some []"
    using ok n31 free(2)
  proof (cases rule: fs_create_cases [case_names full made])
    case full
    then show ?thesis using free(1) by (simp add: vfs_full_def)
  next
    case (made v' i)
    have "0 \<notin> set (take 31 name)" using n31 by (simp add: fs_name_ok_def)
    then show ?thesis using made same that by simp
  qed
  have n': "find_file v' name = None" by (rule long_not_found [OF c(2) n])
  have "fs_append s name data len = None" using n0 n' c(1) by (simp add: fs_append_def Let_def)
  moreover have "fs_write s name data len = (s\<lparr>fs_vfs := v'\<rparr>, -1)" using n0 n' c(1) by (simp add: fs_write_def Let_def)
  ultimately show ?thesis using c(3,4) by simp
qed

theorem fs_long_name_witness:
  "fs_append boot_fs (replicate 40 65) [1] 1 = None"
  using fs_long_name [OF boot_ok, of "replicate 40 65" "[1]" 1] boot_empty by (simp add: FS_MAX_NAME_def)

end
