(* ===== verification/Pfs.thy ===== *)
theory Pfs
  imports Ata Vfs
begin

text \<open>
  The persistent file system OKPFS1 (\<open>src/pfs.c\<close>, \<open>pfs.h\<close>) on a range of sectors of the disk: the
  superblock with the bitmap of data sectors, the table of sixteen entries and the contiguous run of
  each file. The structures are read and written as their little-endian bytes. The write-through
  hooks have the type \<open>Vfs\<close> expects, with \<open>pfs\<close> as the state behind them.

  \<open>dsk_read\<close>, \<open>sb_read\<close> and \<open>entry_read\<close> return \<open>None\<close> where the code returns -1.
\<close>

subsection \<open>The model\<close>

definition PFS_SB_SECTOR :: u32 where "PFS_SB_SECTOR = 0"
definition PFS_TABLE_START :: u32 where "PFS_TABLE_START = 1"
definition PFS_TABLE_SECTORS :: nat where "PFS_TABLE_SECTORS = 16"
definition PFS_FIRST_DATA :: u32 where "PFS_FIRST_DATA = 17"
definition PFS_VERSION :: u32 where "PFS_VERSION = 1"
definition PFS_MAGIC :: bytes where "PFS_MAGIC = ascii ''OKPFS1''"
definition PFS_FILE_MAX :: u32 where "PFS_FILE_MAX = 64 * 512"

record pfs_super =
  sb_magic :: bytes
  sb_version :: u32
  sb_nfiles :: u32
  sb_bitmap :: bytes

record pfs_entry =
  e_name :: bytes
  e_size :: u32
  e_start :: u32
  e_flags :: u32
  e_reserved :: bytes

record pfs =
  disk :: disk
  pfs_base :: u32
  pfs_len :: u32
  mounted :: bool

definition dsk_read :: "pfs \<Rightarrow> u32 \<Rightarrow> bytes option" where
  "dsk_read p lba = (if lba < pfs_len p then ata_read (disk p) (pfs_base p + lba) else None)"

definition dsk_write :: "pfs \<Rightarrow> u32 \<Rightarrow> bytes \<Rightarrow> pfs \<times> int" where
  "dsk_write p lba buf =
     (if lba < pfs_len p then case ata_write (disk p) (pfs_base p + lba) buf of (d, r) \<Rightarrow> (p\<lparr>disk := d\<rparr>, r)
      else (p, -1))"

definition dsk_sectors :: "pfs \<Rightarrow> u32" where "dsk_sectors p = pfs_len p"

text \<open>The bytes of the structures in memory, 492 and 512 of them.\<close>

definition ld_u32 :: "bytes \<Rightarrow> u32" where
  "ld_u32 bs = le32 (bs ! 0) (bs ! 1) (bs ! 2) (bs ! 3)"

definition super_bytes :: "pfs_super \<Rightarrow> bytes" where
  "super_bytes sb = sb_magic sb @ st_le32 (sb_version sb) @ st_le32 (sb_nfiles sb) @ sb_bitmap sb"

definition super_of :: "bytes \<Rightarrow> pfs_super" where
  "super_of bs = \<lparr>sb_magic = take 8 bs, sb_version = ld_u32 (drop 8 bs), sb_nfiles = ld_u32 (drop 12 bs),
     sb_bitmap = take 476 (drop 16 bs)\<rparr>"

definition entry_bytes :: "pfs_entry \<Rightarrow> bytes" where
  "entry_bytes e = e_name e @ st_le32 (e_size e) @ st_le32 (e_start e) @ st_le32 (e_flags e) @ e_reserved e"

definition entry_of :: "bytes \<Rightarrow> pfs_entry" where
  "entry_of bs = \<lparr>e_name = take 32 bs, e_size = ld_u32 (drop 32 bs), e_start = ld_u32 (drop 36 bs),
     e_flags = ld_u32 (drop 40 bs), e_reserved = take 468 (drop 44 bs)\<rparr>"

definition sb_bitmap_test :: "pfs_super \<Rightarrow> u32 \<Rightarrow> bool" where
  "sb_bitmap_test sb sector =
     (if sector < PFS_FIRST_DATA then True
      else let b = sector - PFS_FIRST_DATA
        in if 476 * 8 \<le> b then True
           else drop_bit (unat (b mod 8)) (sb_bitmap sb ! unat (b div 8)) AND 1 \<noteq> 0)"

definition sb_bitmap_set :: "bool \<Rightarrow> u32 \<Rightarrow> pfs_super \<Rightarrow> pfs_super" where
  "sb_bitmap_set used sector sb =
     (let b = sector - PFS_FIRST_DATA; i = unat (b div 8); m = push_bit (unat (b mod 8)) 1
      in if 476 * 8 \<le> b then sb
         else sb\<lparr>sb_bitmap := (sb_bitmap sb)[i := if used then sb_bitmap sb ! i OR m else sb_bitmap sb ! i AND NOT m]\<rparr>)"

definition sb_read :: "pfs \<Rightarrow> pfs_super option" where
  "sb_read p = map_option (\<lambda>buf. super_of (take 492 buf)) (dsk_read p PFS_SB_SECTOR)"

definition sb_write :: "pfs \<Rightarrow> pfs_super \<Rightarrow> pfs \<times> int" where
  "sb_write p sb = dsk_write p PFS_SB_SECTOR (blit (replicate 512 0) 0 (super_bytes sb))"

definition entry_read :: "pfs \<Rightarrow> nat \<Rightarrow> pfs_entry option" where
  "entry_read p idx = map_option entry_of (dsk_read p (PFS_TABLE_START + of_nat idx))"

definition entry_write :: "pfs \<Rightarrow> nat \<Rightarrow> pfs_entry \<Rightarrow> pfs \<times> int" where
  "entry_write p idx e = dsk_write p (PFS_TABLE_START + of_nat idx) (entry_bytes e)"

definition sb_valid :: "pfs_super \<Rightarrow> bool" where
  "sb_valid sb \<longleftrightarrow> take 6 (sb_magic sb) = PFS_MAGIC \<and> sb_version sb = PFS_VERSION"

definition empty_entry :: pfs_entry where
  "empty_entry = entry_of (replicate 512 0)"

fun clear_table :: "pfs \<Rightarrow> nat list \<Rightarrow> pfs" where
  "clear_table p [] = p"
| "clear_table p (i # is) = clear_table (fst (entry_write p i empty_entry)) is"

definition sb_format :: "pfs \<Rightarrow> pfs \<times> pfs_super" where
  "sb_format p =
     (let sb = (super_of (replicate 492 0))\<lparr>sb_magic := PFS_MAGIC @ [0, 0], sb_version := PFS_VERSION, sb_nfiles := 0\<rparr>;
          p = clear_table p [0..<PFS_TABLE_SECTORS]
      in (fst (sb_write p sb), sb))"

text \<open>\<open>e.name[0]\<close> is not 0, and the comparison of the name with the entry's.\<close>

definition entry_used :: "pfs_entry \<Rightarrow> bool" where
  "entry_used e \<longleftrightarrow> e_name e ! 0 \<noteq> 0"

definition entry_match :: "bytes \<Rightarrow> pfs_entry \<Rightarrow> bool" where
  "entry_match name e \<longleftrightarrow> str_match (name @ [0]) (e_name e)"

definition size_sectors :: "u32 \<Rightarrow> u32" where
  "size_sectors sz = (sz + 511) div 512"

text \<open>The search of \<open>pfs_sync_file\<close>: the entry of the name with its run, or else the first free slot.\<close>

fun scan_slots :: "pfs \<Rightarrow> bytes \<Rightarrow> nat list \<Rightarrow> nat option \<Rightarrow> nat option \<times> u32 \<times> u32" where
  "scan_slots p name [] slot = (slot, 0, 0)"
| "scan_slots p name (i # is) slot =
     (case entry_read p i of
        None \<Rightarrow> scan_slots p name is slot
      | Some e \<Rightarrow>
          if entry_used e then
            if entry_match name e then (Some i, e_start e, size_sectors (e_size e)) else scan_slots p name is slot
          else scan_slots p name is (if slot = None then Some i else slot))"

fun bitmap_range :: "bool \<Rightarrow> u32 \<Rightarrow> nat \<Rightarrow> pfs_super \<Rightarrow> pfs_super" where
  "bitmap_range used start 0 sb = sb"
| "bitmap_range used start (Suc n) sb = bitmap_range used (start + 1) n (sb_bitmap_set used start sb)"

definition run_free :: "pfs_super \<Rightarrow> u32 \<Rightarrow> u32 \<Rightarrow> bool" where
  "run_free sb s need \<longleftrightarrow> (\<forall>k < unat need. \<not> sb_bitmap_test sb (s + of_nat k))"

text \<open>The first-fit search; 0 when there is no run. The code adds \<open>s + need\<close> in 32 bits, which is the
  sum here since a disk has at most 2^28 sectors.\<close>

function find_run :: "pfs_super \<Rightarrow> u32 \<Rightarrow> u32 \<Rightarrow> u32 \<Rightarrow> u32" where
  "find_run sb need max_sec s =
     (if unat s + unat need \<le> unat max_sec \<and> 0 < need then if run_free sb s need then s else find_run sb need max_sec (s + 1)
      else 0)"
  by pat_completeness auto
termination
proof (relation "measure (\<lambda>(sb, need, max_sec, s). 2 ^ 32 - unat s)")
  fix sb :: pfs_super and need max_sec s :: u32
  assume "unat s + unat need \<le> unat max_sec \<and> 0 < need"
  then have "unat s + 1 \<le> unat max_sec" by (simp add: word_less_nat_alt)
  moreover have "unat max_sec < 2 ^ 32" using unsigned_less [of max_sec] by simp
  ultimately have "unat s + 1 < 2 ^ 32" by linarith
  then show "((sb, need, max_sec, s + 1), sb, need, max_sec, s) \<in> measure (\<lambda>(sb, need, max_sec, s). 2 ^ 32 - unat s)"
    by (simp add: unat_plus_small)
qed simp

declare find_run.simps [simp del]

text \<open>Sector \<open>s\<close> of the file: the bytes of \<open>wbuf\<close> from \<open>512 s\<close> on, as many as there are, padded with 0.\<close>

definition file_sector :: "bytes \<Rightarrow> int \<Rightarrow> nat \<Rightarrow> bytes" where
  "file_sector wbuf got s =
     (let n = (of_int got :: u32) - of_nat s * 512; n = (if 512 < n then 512 else n)
      in blit (replicate 512 0) 0 (take (unat n) (drop (s * 512) wbuf)))"

definition count_files :: "pfs \<Rightarrow> u32" where
  "count_files p = of_nat (length (filter (\<lambda>k. \<exists>t. entry_read p k = Some t \<and> entry_used t) [0..<PFS_TABLE_SECTORS]))"

definition new_entry :: "bytes \<Rightarrow> u32 \<Rightarrow> u32 \<Rightarrow> pfs_entry" where
  "new_entry name sz start =
     empty_entry\<lparr>e_name := blit (replicate 32 0) 0 (take 31 name), e_size := sz, e_start := start\<rparr>"

text \<open>From the data sectors on: data, entry, superblock.\<close>

definition sync_write :: "vfs \<Rightarrow> pfs \<Rightarrow> bytes \<Rightarrow> pfs_super \<Rightarrow> nat \<Rightarrow> u32 \<Rightarrow> u32 \<Rightarrow> u32 \<Rightarrow> pfs \<times> int" where
  "sync_write v p name sb slot start need sz =
     (let (wbuf, got) = fs_read v name (uint PFS_FILE_MAX); got = (if got < 0 then 0 else got);
          (p, r) = wr_seq dsk_write p start (map (file_sector wbuf got) [0..<unat need])
      in if r \<noteq> 0 then (p, -1)
         else case entry_write p slot (new_entry name sz start) of (p, r) \<Rightarrow>
           if r \<noteq> 0 then (p, -1)
           else case sb_write p (sb\<lparr>sb_nfiles := count_files p\<rparr>) of (p, r) \<Rightarrow> (p, if r \<noteq> 0 then -1 else 0))"

definition pfs_sync_file :: "vfs \<Rightarrow> pfs \<Rightarrow> bytes \<Rightarrow> pfs \<times> int" where
  "pfs_sync_file v p name =
     (if \<not> mounted p \<or> name = [] then (p, 0)
      else let sz = fs_get_size v name
        in if sz < 0 then (p, -1)
           else let sz = (if PFS_FILE_MAX < of_int sz then PFS_FILE_MAX else of_int sz)
             in case sb_read p of
                  None \<Rightarrow> (p, -1)
                | Some sb \<Rightarrow>
                    if \<not> sb_valid sb then (p, -1)
                    else case scan_slots p name [0..<PFS_TABLE_SECTORS] None of
                        (None, _) \<Rightarrow> (p, -1)
                      | (Some slot, old_start, old_sectors) \<Rightarrow>
                          let sb = bitmap_range False old_start (unat old_sectors) sb;
                              need = size_sectors sz;
                              start = (if 0 < need then find_run sb need (dsk_sectors p) PFS_FIRST_DATA else 0)
                          in if 0 < need \<and> start = 0 then (p, -1)
                             else sync_write v p name (bitmap_range True start (unat need) sb) slot start need sz)"

text \<open>The read loops of \<open>pfs_load_file\<close> and of the mount: \<open>got\<close> is the length of \<open>file_buf\<close>; \<open>False\<close> when a
  sector cannot be read.\<close>

fun read_run :: "pfs \<Rightarrow> u32 \<Rightarrow> u32 \<Rightarrow> nat \<Rightarrow> bytes \<Rightarrow> bytes \<times> bool" where
  "read_run p lba sz 0 file_buf = (file_buf, True)"
| "read_run p lba sz (Suc k) file_buf =
     (case dsk_read p lba of
        None \<Rightarrow> (file_buf, False)
      | Some sec \<Rightarrow>
          let n = sz - of_nat (length file_buf); n = (if 512 < n then 512 else n)
          in read_run p (lba + 1) sz k (file_buf @ take (unat n) sec))"

definition load_entry :: "pfs \<Rightarrow> pfs_entry \<Rightarrow> bytes \<times> bool" where
  "load_entry p e = read_run p (e_start e) (e_size e) (unat (size_sectors (e_size e))) []"

fun pfs_lookup :: "pfs \<Rightarrow> bytes \<Rightarrow> nat list \<Rightarrow> (nat \<times> pfs_entry) option" where
  "pfs_lookup p name [] = None"
| "pfs_lookup p name (i # is) =
     (case entry_read p i of
        None \<Rightarrow> pfs_lookup p name is
      | Some e \<Rightarrow> if entry_used e \<and> entry_match name e then Some (i, e) else pfs_lookup p name is)"

definition pfs_load_file :: "pfs fs \<Rightarrow> bytes \<Rightarrow> pfs fs \<times> int" where
  "pfs_load_file s name =
     (let p = fs_disk s
      in if \<not> mounted p \<or> name = [] then (s, -1)
         else case pfs_lookup p name [0..<PFS_TABLE_SECTORS] of
             None \<Rightarrow> (s, -1)
           | Some (i, e) \<Rightarrow>
               if PFS_FILE_MAX < e_size e then (s, -1)
               else case load_entry p e of (file_buf, ok) \<Rightarrow>
                 if \<not> ok then (s, -1)
                 else (fst (fs_write s name file_buf (int (length file_buf))), int (length file_buf)))"

definition pfs_delete_file :: "vfs \<Rightarrow> pfs \<Rightarrow> bytes \<Rightarrow> pfs \<times> int" where
  "pfs_delete_file v p name =
     (if \<not> mounted p \<or> name = [] then (p, 0)
      else case sb_read p of
          None \<Rightarrow> (p, -1)
        | Some sb \<Rightarrow>
            if \<not> sb_valid sb then (p, -1)
            else case pfs_lookup p name [0..<PFS_TABLE_SECTORS] of
                None \<Rightarrow> (p, 0)
              | Some (i, e) \<Rightarrow>
                  let sb = bitmap_range False (e_start e) (unat (size_sectors (e_size e))) sb;
                      p = fst (entry_write p i empty_entry);
                      p = fst (sb_write p (sb\<lparr>sb_nfiles := count_files p\<rparr>))
                  in (p, 0))"

text \<open>The mount of \<open>pfs_init\<close>, after the partition is known.\<close>

fun hydrate :: "pfs fs \<Rightarrow> nat list \<Rightarrow> pfs fs" where
  "hydrate s [] = s"
| "hydrate s (i # is) =
     (case entry_read (fs_disk s) i of
        None \<Rightarrow> hydrate s is
      | Some e \<Rightarrow>
          if \<not> entry_used e \<or> PFS_FILE_MAX < e_size e then hydrate s is
          else let name = takeWhile (\<lambda>c. c \<noteq> 0) (e_name e); file_buf = fst (load_entry (fs_disk s) e)
            in hydrate (fst (fs_write s name file_buf (int (length file_buf)))) is)"

definition pfs_mount :: "pfs fs \<Rightarrow> pfs fs" where
  "pfs_mount s =
     (let bad = (\<lambda>p. case sb_read p of None \<Rightarrow> True | Some sb \<Rightarrow> \<not> sb_valid sb);
          s = (if bad (fs_disk s) then s\<lparr>fs_disk := fst (sb_format (fs_disk s))\<rparr> else s)
      in if bad (fs_disk s) then s
         else hydrate (s\<lparr>fs_disk := (fs_disk s)\<lparr>mounted := True\<rparr>\<rparr>) [0..<PFS_TABLE_SECTORS])"

end
