(* ===== verification/Pfs_Inv.thy ===== *)
theory Pfs_Inv
  imports Pfs
begin

text \<open>
  The invariant of an OKPFS1 volume and the map from names to contents it stores: encodings of the
  on-disk structures, the partition as a block device, the bitmap as a set of sectors, and what a
  change of one table entry does to the volume.
\<close>

subsection \<open>Encodings\<close>

lemma ld_st_u32 [simp]: "ld_u32 (st_le32 w @ xs) = w"
proof (rule word_unat_eq_iff [THEN iffD2])
  have "unat (ld_u32 (st_le32 w @ xs)) = le_val (st_le32 w)"
    by (simp add: ld_u32_def unat_le32 st_le32_def nth_append)
  also have "\<dots> = unat w"
  proof -
    have "unat w < 2 ^ 32" using unsigned_less [of w] by simp
    then show ?thesis by (simp add: st_le32_le_bytes le_val_le_bytes)
  qed
  finally show "unat (ld_u32 (st_le32 w @ xs)) = unat w" .
qed

lemma super_of_bytes: "length (sb_magic sb) = 8 \<Longrightarrow> length (sb_bitmap sb) = 476 \<Longrightarrow> super_of (super_bytes sb) = sb"
  by (simp add: super_of_def super_bytes_def)

lemma length_super_bytes: "length (sb_magic sb) = 8 \<Longrightarrow> length (sb_bitmap sb) = 476 \<Longrightarrow> length (super_bytes sb) = 492"
  by (simp add: super_bytes_def)

lemma entry_of_bytes: "length (e_name e) = 32 \<Longrightarrow> length (e_reserved e) = 468 \<Longrightarrow> entry_of (entry_bytes e) = e"
  by (simp add: entry_of_def entry_bytes_def)

lemma length_entry_bytes: "length (e_name e) = 32 \<Longrightarrow> length (e_reserved e) = 468 \<Longrightarrow> length (entry_bytes e) = 512"
  by (simp add: entry_bytes_def)

lemma super_of_sel [simp]:
  "492 \<le> length bs \<Longrightarrow> length (sb_magic (super_of bs)) = 8"
  "492 \<le> length bs \<Longrightarrow> length (sb_bitmap (super_of bs)) = 476"
  by (simp_all add: super_of_def)

lemma entry_of_sel [simp]:
  "512 \<le> length bs \<Longrightarrow> length (e_name (entry_of bs)) = 32"
  "512 \<le> length bs \<Longrightarrow> length (e_reserved (entry_of bs)) = 468"
  by (simp_all add: entry_of_def)

subsection \<open>The partition as a block device\<close>

definition dsk_ok :: "pfs \<Rightarrow> bool" where
  "dsk_ok p \<longleftrightarrow> drive_ok (disk p) \<and> unat (pfs_base p) + unat (pfs_len p) \<le> unat (total_sectors (disk p)) \<and>
     (\<forall>i < unat (pfs_len p). \<not> ata_write_protected (disk p) (pfs_base p + of_nat i))"

definition dsk_cfg :: "pfs \<Rightarrow> pfs" where
  "dsk_cfg p = p\<lparr>disk := drive_cfg (disk p)\<rparr>"

definition dsk_len :: "pfs \<Rightarrow> nat" where
  "dsk_len c = unat (pfs_len c)"

definition dsk_wset :: "pfs \<Rightarrow> nat set" where
  "dsk_wset c = {..<unat (pfs_len c)}"

definition dsk_view :: "pfs \<Rightarrow> nat \<Rightarrow> bytes" where
  "dsk_view p i = drive_view (disk p) (unat (pfs_base p) + i)"

lemma dsk_cfg_eq:
  "dsk_cfg q = dsk_cfg p \<longleftrightarrow> pfs_base q = pfs_base p \<and> pfs_len q = pfs_len p \<and> mounted q = mounted p \<and>
     drive_cfg (disk q) = drive_cfg (disk p)"
  by (cases p; cases q) (auto simp: dsk_cfg_def)

lemma dsk_cfg_sel [simp]: "pfs_len (dsk_cfg p) = pfs_len p" "dsk_len (dsk_cfg p) = unat (pfs_len p)"
  "dsk_wset (dsk_cfg p) = {..<unat (pfs_len p)}"
  by (simp_all add: dsk_cfg_def dsk_len_def dsk_wset_def)

lemma dsk_abs:
  assumes "dsk_ok p" "unat l < unat (pfs_len p)"
  shows "unat (pfs_base p + l) = unat (pfs_base p) + unat l" "unat (pfs_base p + l) \<in> drive_wset (drive_cfg (disk p))"
proof -
  have t: "unat (total_sectors (disk p)) < 2 ^ 32" using unsigned_less [of "total_sectors (disk p)"] by simp
  then show s: "unat (pfs_base p + l) = unat (pfs_base p) + unat l"
    using assms by (intro unat_plus_small) (simp add: dsk_ok_def)
  have "\<not> ata_write_protected (disk p) (pfs_base p + of_nat (unat l))" using assms by (auto simp: dsk_ok_def)
  then show "unat (pfs_base p + l) \<in> drive_wset (drive_cfg (disk p))"
    using s assms by (simp add: drive_wset_def dsk_ok_def)
qed

lemma dsk_ok_cong:
  "drive_ok (disk q) \<Longrightarrow> dsk_cfg q = dsk_cfg p \<Longrightarrow> dsk_ok p \<Longrightarrow> dsk_ok q"
  unfolding dsk_ok_def dsk_cfg_eq by (metis drive_cfg_sel(2,5))

interpretation dsk: block_dev dsk_read dsk_write dsk_view dsk_cfg dsk_len dsk_wset dsk_ok
proof unfold_locales
  fix d and l :: u32
  assume d: "dsk_ok d" and "unat l < dsk_len (dsk_cfg d)"
  then have l: "unat l < unat (pfs_len d)" by simp
  have "ata_read (disk d) (pfs_base d + l) = Some (drive_view (disk d) (unat (pfs_base d + l)))"
    using d l dsk_abs(1) [OF d l] by (intro drv.rd_in) (auto simp: dsk_ok_def)
  then show "dsk_read d l = Some (dsk_view d (unat l))"
    using l dsk_abs(1) [OF d l] by (simp add: dsk_read_def dsk_view_def word_less_nat_alt)
next
  fix d :: pfs and b :: bytes and l :: u32
  assume d: "dsk_ok d" and "unat l \<in> dsk_wset (dsk_cfg d)" and b: "length b = 512"
  then have l: "unat l < unat (pfs_len d)" by simp
  obtain d' where w: "ata_write (disk d) (pfs_base d + l) b = (d', 0)" "drive_ok d'" "drive_cfg d' = drive_cfg (disk d)"
    and v: "\<forall>i < drive_len (drive_cfg (disk d)). drive_view d' i = ((drive_view (disk d))(unat (pfs_base d + l) := b)) i"
    using drv.wr_in [of "disk d" "pfs_base d + l" b] d dsk_abs(2) [OF d l] b by (auto simp: dsk_ok_def)
  have cfg: "dsk_cfg (d\<lparr>disk := d'\<rparr>) = dsk_cfg d" using w(3) by (simp add: dsk_cfg_eq)
  have "dsk_view (d\<lparr>disk := d'\<rparr>) i = ((dsk_view d)(unat l := b)) i" if "i < unat (pfs_len d)" for i
    using that v d dsk_abs(1) [OF d l] by (auto simp: dsk_view_def dsk_ok_def)
  then show "\<exists>d'. dsk_write d l b = (d', 0) \<and> dsk_ok d' \<and> dsk_cfg d' = dsk_cfg d \<and>
      (\<forall>i < dsk_len (dsk_cfg d). dsk_view d' i = ((dsk_view d)(unat l := b)) i)"
    using w(1,2) cfg dsk_ok_cong [OF _ cfg d] l by (auto simp: dsk_write_def word_less_nat_alt)
qed (auto simp: dsk_ok_def drive_ok_def dsk_view_def drive_view_def dsk_wset_def dsk_len_def dsk_read_def dsk_write_def word_less_nat_alt)

subsection \<open>The bitmap as a set of sectors\<close>

definition marked :: "pfs_super \<Rightarrow> nat set" where
  "marked sb = {s. 17 \<le> s \<and> s < 3825 \<and> bit (sb_bitmap sb ! ((s - 17) div 8)) ((s - 17) mod 8)}"

lemma unat_div_8: "unat (b div 8) = unat b div 8" "unat (b mod 8) = unat b mod 8" for b :: u32
  by (simp_all add: unat_div unat_mod)

lemma sb_bitmap_test_iff:
  "sb_bitmap_test sb s \<longleftrightarrow> unat s < 17 \<or> 3825 \<le> unat s \<or> unat s \<in> marked sb"
proof (cases "unat s < 17")
  case True
  then show ?thesis by (simp add: sb_bitmap_test_def PFS_FIRST_DATA_def word_less_nat_alt)
next
  case False
  then have u: "unat (s - 17) = unat s - 17" by (simp add: unat_sub word_le_nat_alt)
  have "drop_bit n w AND 1 \<noteq> 0 \<longleftrightarrow> bit w n" for n and w :: u8
    by (simp add: and_one_eq bit_iff_odd_drop_bit odd_iff_mod_2_eq_one)
  then show ?thesis using False
    by (auto simp: sb_bitmap_test_def PFS_FIRST_DATA_def Let_def word_less_nat_alt word_le_nat_alt u marked_def unat_div_8)
qed

lemma sb_bitmap_set_sel [simp]:
  "sb_magic (sb_bitmap_set u s sb) = sb_magic sb" "sb_version (sb_bitmap_set u s sb) = sb_version sb"
  "sb_nfiles (sb_bitmap_set u s sb) = sb_nfiles sb" "length (sb_bitmap (sb_bitmap_set u s sb)) = length (sb_bitmap sb)"
  by (simp_all add: sb_bitmap_set_def Let_def)

lemma sb_bitmap_set_small: "unat s < 17 \<Longrightarrow> sb_bitmap_set u s sb = sb"
proof -
  assume "unat s < 17"
  then have "unat (s - 17) = 2 ^ 32 + unat s - 17" by (simp add: unat_sub_if')
  then show ?thesis by (simp add: sb_bitmap_set_def PFS_FIRST_DATA_def word_le_nat_alt)
qed

lemma marked_set:
  assumes "length (sb_bitmap sb) = 476"
  shows "marked (sb_bitmap_set u s sb) =
    (if u then marked sb \<union> ({unat s} \<inter> {17..<3825}) else marked sb - {unat s})"
proof (cases "17 \<le> unat s \<and> unat s < 3825")
  case False
  then have "sb_bitmap_set u s sb = sb"
    using sb_bitmap_set_small [of s]
    by (cases "unat s < 17") (auto simp: sb_bitmap_set_def PFS_FIRST_DATA_def word_le_nat_alt unat_sub Let_def)
  then show ?thesis using False by (auto simp: marked_def)
next
  case True
  then have u: "unat (s - 17) = unat s - 17" by (simp add: unat_sub word_le_nat_alt)
  let ?i = "(unat s - 17) div 8" and ?m = "(unat s - 17) mod 8"
  have l: "unat s - 17 < 3808" using True by linarith
  then have i: "?i < 476" by (intro less_mult_imp_div_less) simp
  have eq: "(t - 17) div 8 = ?i \<and> (t - 17) mod 8 = ?m \<longleftrightarrow> t = unat s" if "17 \<le> t" for t
    using that True by (metis add_diff_inverse_nat div_mult_mod_eq linorder_not_le)
  have b: "sb_bitmap (sb_bitmap_set u s sb) =
      (sb_bitmap sb)[?i := if u then sb_bitmap sb ! ?i OR push_bit ?m 1 else sb_bitmap sb ! ?i AND NOT (push_bit ?m 1)]"
    using l by (simp add: sb_bitmap_set_def PFS_FIRST_DATA_def Let_def word_le_nat_alt u unat_div_8)
  show ?thesis
  proof (rule set_eqI)
    fix x
    show "x \<in> marked (sb_bitmap_set u s sb) \<longleftrightarrow> x \<in> (if u then marked sb \<union> ({unat s} \<inter> {17..<3825}) else marked sb - {unat s})"
      unfolding marked_def b using i assms eq [of x] True
      by (auto simp: nth_list_update bit_or_iff bit_and_iff bit_not_iff bit_push_bit_iff bit_1_iff simp del: push_bit_of_1)
  qed
qed

lemma bitmap_range_sel [simp]:
  "sb_magic (bitmap_range u s n sb) = sb_magic sb" "sb_version (bitmap_range u s n sb) = sb_version sb"
  "sb_nfiles (bitmap_range u s n sb) = sb_nfiles sb" "length (sb_bitmap (bitmap_range u s n sb)) = length (sb_bitmap sb)"
  by (induction n arbitrary: s sb) auto

lemma marked_range:
  assumes "length (sb_bitmap sb) = 476" "unat s + n < 2 ^ 32"
  shows "marked (bitmap_range u s n sb) =
    (if u then marked sb \<union> ({unat s..<unat s + n} \<inter> {17..<3825}) else marked sb - {unat s..<unat s + n})"
  using assms
proof (induction n arbitrary: s sb)
  case (Suc n)
  have s: "unat (s + 1) = Suc (unat s)" using Suc.prems(2) by (simp add: unat_plus_small)
  have "{unat s..<unat s + Suc n} = insert (unat s) {Suc (unat s)..<Suc (unat s) + n}" by auto
  then show ?case using Suc.IH [of "sb_bitmap_set u s sb" "s + 1"] Suc.prems by (auto simp: s marked_set)
qed simp

lemma ball_shift: "(\<forall>x \<in> {a..<a + n}. P x) \<longleftrightarrow> (\<forall>k < n. P (a + k))" for a n :: nat
  by (metis add_diff_inverse_nat atLeastLessThan_iff le_add1 nat_add_left_cancel_less not_less)

lemma run_free_iff:
  assumes "unat s + unat need < 2 ^ 32"
  shows "run_free sb s need \<longleftrightarrow> (\<forall>x \<in> {unat s..<unat s + unat need}. 17 \<le> x \<and> x < 3825 \<and> x \<notin> marked sb)"
proof -
  have k: "unat (s + of_nat k) = unat s + k" if "k < unat need" for k
    using that assms by (subst unat_plus_small) (simp_all add: unat_of_nat_small)
  have "run_free sb s need \<longleftrightarrow> (\<forall>k < unat need. 17 \<le> unat s + k \<and> unat s + k < 3825 \<and> unat s + k \<notin> marked sb)"
    unfolding run_free_def using k by (auto simp: sb_bitmap_test_iff not_less not_le)
  also have "\<dots> \<longleftrightarrow> (\<forall>x \<in> {unat s..<unat s + unat need}. 17 \<le> x \<and> x < 3825 \<and> x \<notin> marked sb)"
    by (rule ball_shift [symmetric])
  finally show ?thesis .
qed

lemma find_run_step:
  assumes "unat s + unat need \<le> unat max_sec" "0 < need"
  shows "unat (s + 1) = unat s + 1"
    "find_run sb need max_sec s = (if run_free sb s need then s else find_run sb need max_sec (s + 1))"
proof -
  have "unat max_sec < 2 ^ 32" using unsigned_less [of max_sec] by simp
  moreover have "unat s + 1 \<le> unat max_sec" using assms by (simp add: word_less_nat_alt)
  ultimately have "unat s + 1 < 2 ^ 32" by linarith
  then show "unat (s + 1) = unat s + 1" by (simp add: unat_plus_small)
  show "find_run sb need max_sec s = (if run_free sb s need then s else find_run sb need max_sec (s + 1))"
    using assms by (subst find_run.simps) simp
qed

lemma find_run_some:
  "find_run sb need max_sec s \<noteq> 0 \<Longrightarrow>
     unat (find_run sb need max_sec s) + unat need \<le> unat max_sec \<and> run_free sb (find_run sb need max_sec s) need"
proof (induction sb need max_sec s rule: find_run.induct)
  case (1 sb need max_sec s)
  show ?case
  proof (cases "unat s + unat need \<le> unat max_sec \<and> 0 < need")
    case True
    then show ?thesis using 1 find_run_step(2) [of s need max_sec sb] by (auto split: if_splits)
  next
    case False
    then have "find_run sb need max_sec s = 0" by (subst find_run.simps) auto
    then show ?thesis using 1(2) by simp
  qed
qed

lemma find_run_none:
  "find_run sb need max_sec s = 0 \<Longrightarrow> 0 < need \<Longrightarrow> 0 < s \<Longrightarrow> unat s \<le> unat t \<Longrightarrow> unat t + unat need \<le> unat max_sec \<Longrightarrow>
     \<not> run_free sb t need"
proof (induction sb need max_sec s rule: find_run.induct)
  case (1 sb need max_sec s)
  have c: "unat s + unat need \<le> unat max_sec \<and> 0 < need" using 1(3,5,6) by simp
  note st = find_run_step [OF c [THEN conjunct1] 1(3)]
  have nf: "\<not> run_free sb s need" using st(2) 1(2,4) by auto
  show ?case
  proof (cases "t = s")
    case False
    then have "unat (s + 1) \<le> unat t" using 1(5) st(1) by (simp add: word_unat_eq_iff)
    moreover have "0 < s + 1" using st(1) by (simp add: word_less_nat_alt)
    ultimately show ?thesis using 1(1) [OF c nf] st(2) nf 1(2,3,6) by simp
  qed (use nf in simp)
qed

subsection \<open>The volume\<close>

definition ent :: "(nat \<Rightarrow> bytes) \<Rightarrow> nat \<Rightarrow> pfs_entry" where
  "ent V i = entry_of (V (Suc i))"

definition sbv :: "(nat \<Rightarrow> bytes) \<Rightarrow> pfs_super" where
  "sbv V = super_of (take 492 (V 0))"

definition nsec :: "pfs_entry \<Rightarrow> nat" where
  "nsec e = (unat (e_size e) + 511) div 512"

definition run :: "pfs_entry \<Rightarrow> nat set" where
  "run e = {unat (e_start e)..<unat (e_start e) + nsec e}"

definition ename :: "pfs_entry \<Rightarrow> bytes" where
  "ename e = takeWhile (\<lambda>c. c \<noteq> 0) (e_name e)"

definition file_data :: "(nat \<Rightarrow> bytes) \<Rightarrow> pfs_entry \<Rightarrow> bytes" where
  "file_data V e = take (unat (e_size e)) (concat (map V [unat (e_start e)..<unat (e_start e) + nsec e]))"

definition entry_good :: "nat \<Rightarrow> pfs_entry \<Rightarrow> bool" where
  "entry_good len e \<longleftrightarrow> 0 \<in> set (e_name e) \<and> unat (e_size e) \<le> 32768 \<and> run e \<subseteq> {17..<min len 3825}"

definition entries_apart :: "pfs_entry \<Rightarrow> pfs_entry \<Rightarrow> bool" where
  "entries_apart e f \<longleftrightarrow> ename e \<noteq> ename f \<and> run e \<inter> run f = {}"

definition used_slots :: "(nat \<Rightarrow> bytes) \<Rightarrow> nat set" where
  "used_slots V = {i. i < 16 \<and> entry_used (ent V i)}"

text \<open>A valid superblock; good entries with distinct names and disjoint runs; the bitmap marks exactly
  the sectors of the runs, and the file count is right.\<close>

definition layout :: "nat \<Rightarrow> (nat \<Rightarrow> bytes) \<Rightarrow> bool" where
  "layout len V \<longleftrightarrow> 17 \<le> len \<and> sb_valid (sbv V) \<and> (\<forall>i \<in> used_slots V. entry_good len (ent V i)) \<and>
     (\<forall>i \<in> used_slots V. \<forall>j \<in> used_slots V. i \<noteq> j \<longrightarrow> entries_apart (ent V i) (ent V j)) \<and>
     marked (sbv V) = (\<Union>i \<in> used_slots V. run (ent V i)) \<and> unat (sb_nfiles (sbv V)) = card (used_slots V)"

definition disk_files :: "(nat \<Rightarrow> bytes) \<Rightarrow> bytes \<Rightarrow> bytes option" where
  "disk_files V name = map_option (\<lambda>i. file_data V (ent V i)) (List.find (\<lambda>i. entry_used (ent V i) \<and> ename (ent V i) = name) [0..<16])"

lemma entries_apart_sym: "entries_apart e f \<longleftrightarrow> entries_apart f e"
  by (auto simp: entries_apart_def)

lemma layout_entries: "layout len V \<Longrightarrow> i \<in> used_slots V \<Longrightarrow> j \<in> used_slots V \<Longrightarrow> i \<noteq> j \<Longrightarrow> entries_apart (ent V i) (ent V j)"
  by (simp add: layout_def)

lemma disk_files_Some:
  assumes "layout len V" "i \<in> used_slots V" "ename (ent V i) = n"
  shows "disk_files V n = Some (file_data V (ent V i))"
proof -
  have u: "i < 16 \<and> entry_used (ent V i) \<and> ename (ent V i) = n" using assms by (simp add: used_slots_def)
  then have "List.find (\<lambda>i. entry_used (ent V i) \<and> ename (ent V i) = n) [0..<16] \<noteq> None"
    by (auto simp: find_None_iff)
  then obtain j where j: "List.find (\<lambda>i. entry_used (ent V i) \<and> ename (ent V i) = n) [0..<16] = Some j" by auto
  then have "j \<in> used_slots V" "ename (ent V j) = n" by (auto simp: find_Some_iff used_slots_def)
  then have "j = i" using layout_entries [OF assms(1) _ assms(2)] assms(3) unfolding entries_apart_def by metis
  then show ?thesis using j by (simp add: disk_files_def)
qed

lemma disk_files_None:
  "(\<forall>i \<in> used_slots V. ename (ent V i) \<noteq> n) \<Longrightarrow> disk_files V n = None"
  by (auto simp: disk_files_def find_None_iff used_slots_def)

text \<open>Changing the entry of one slot. \<open>V'\<close> is the volume afterwards: the other slots and the sectors of
  their runs are as before, and the bitmap has the old run removed and the new one added.\<close>

lemma layout_change:
  assumes V: "layout len V" and i: "i < 16"
    and others: "\<And>j. j < 16 \<Longrightarrow> j \<noteq> i \<Longrightarrow> ent V' j = ent V j"
    and keep: "\<And>j s. j \<in> used_slots V \<Longrightarrow> j \<noteq> i \<Longrightarrow> s \<in> run (ent V j) \<Longrightarrow> V' s = V s"
    and good: "entry_used (ent V' i) \<Longrightarrow> entry_good len (ent V' i)"
    and fresh: "\<And>j. j \<in> used_slots V \<Longrightarrow> j \<noteq> i \<Longrightarrow> entry_used (ent V' i) \<Longrightarrow> entries_apart (ent V j) (ent V' i)"
    and sb: "sb_valid (sbv V')" "unat (sb_nfiles (sbv V')) = card (used_slots V')"
    and old: "old = (if entry_used (ent V i) then run (ent V i) else {})"
    and new: "new = (if entry_used (ent V' i) then run (ent V' i) else {})"
    and bits: "marked (sbv V') = (marked (sbv V) - old) \<union> new"
  shows "layout len V'"
    "disk_files V' n = (if entry_used (ent V' i) \<and> n = ename (ent V' i) then Some (file_data V' (ent V' i))
      else if entry_used (ent V i) \<and> n = ename (ent V i) then None else disk_files V n)"
proof -
  have us: "used_slots V' = (used_slots V - {i}) \<union> (if entry_used (ent V' i) then {i} else {})"
  proof (rule set_eqI)
    fix j
    show "j \<in> used_slots V' \<longleftrightarrow> j \<in> (used_slots V - {i}) \<union> (if entry_used (ent V' i) then {i} else {})"
      using i others [of j] by (cases "j = i") (auto simp: used_slots_def)
  qed
  have same: "ent V' j = ent V j" if "j \<in> used_slots V - {i}" for j using that others by (auto simp: used_slots_def)
  note L = V [unfolded layout_def]
  have disj: "run (ent V j) \<inter> old = {}" if "j \<in> used_slots V - {i}" for j
    using that layout_entries [OF V, of j i] i by (auto simp: old used_slots_def entries_apart_def)
  let ?A = "\<Union>j \<in> used_slots V - {i}. run (ent V j)"
  have "marked (sbv V) = ?A \<union> old" using L i by (auto simp: old used_slots_def)
  moreover have "?A \<inter> old = {}" using disj by blast
  ultimately have m: "marked (sbv V) - old = ?A" by blast
  have A: "(\<Union>j \<in> used_slots V - {i}. run (ent V' j)) = ?A" using same by simp
  have "marked (sbv V') = (\<Union>j \<in> used_slots V'. run (ent V' j))"
    unfolding bits m us new UN_Un A by simp
  moreover have "entry_good len (ent V' j)" if j: "j \<in> used_slots V'" for j
  proof (cases "j = i")
    case True
    then show ?thesis using j good by (simp add: used_slots_def)
  next
    case False
    then have "j \<in> used_slots V - {i}" using j us by (simp split: if_splits)
    then show ?thesis using L same by simp
  qed
  moreover have "entries_apart (ent V' j) (ent V' k)" if jk: "j \<in> used_slots V'" "k \<in> used_slots V'" "j \<noteq> k" for j k
  proof -
    have c: "(j \<in> used_slots V \<and> j \<noteq> i) \<or> j = i \<and> entry_used (ent V' i)"
      "(k \<in> used_slots V \<and> k \<noteq> i) \<or> k = i \<and> entry_used (ent V' i)"
      using jk(1,2) unfolding us by (auto split: if_splits)
    show ?thesis using c jk(3) fresh [of j] fresh [of k] same [of j] same [of k] layout_entries [OF V, of j k]
      by (auto simp: entries_apart_sym [of "ent V' i"])
  qed
  ultimately show L': "layout len V'" using L sb unfolding layout_def by (intro conjI ballI impI) simp_all
  have data: "file_data V' (ent V j) = file_data V (ent V j)" if "j \<in> used_slots V - {i}" for j
  proof -
    have "map V' [unat (e_start (ent V j))..<unat (e_start (ent V j)) + nsec (ent V j)] =
        map V [unat (e_start (ent V j))..<unat (e_start (ent V j)) + nsec (ent V j)]"
      using that keep [of j] by (auto simp: run_def)
    then show ?thesis by (simp only: file_data_def)
  qed
  show "disk_files V' n = (if entry_used (ent V' i) \<and> n = ename (ent V' i) then Some (file_data V' (ent V' i))
      else if entry_used (ent V i) \<and> n = ename (ent V i) then None else disk_files V n)"
  proof (cases "entry_used (ent V' i) \<and> n = ename (ent V' i)")
    case True
    then show ?thesis using disk_files_Some [OF L', of i n] us by simp
  next
    case False
    show ?thesis
    proof (cases "\<exists>j \<in> used_slots V - {i}. ename (ent V j) = n")
      case True
      then obtain j where j: "j \<in> used_slots V - {i}" "ename (ent V j) = n" by auto
      have "disk_files V' n = Some (file_data V' (ent V' j))"
        using disk_files_Some [OF L', of j n] j same [OF j(1)] us by simp
      moreover have "disk_files V n = Some (file_data V (ent V j))" using disk_files_Some [OF V, of j n] j by simp
      moreover have "\<not> (entry_used (ent V i) \<and> n = ename (ent V i))"
        using j layout_entries [OF V, of j i] i by (auto simp: used_slots_def entries_apart_def)
      ultimately show ?thesis using False same [OF j(1)] data [OF j(1)] by auto
    next
      case none: False
      have "ename (ent V' k) \<noteq> n" if k: "k \<in> used_slots V'" for k
        using k False none same [of k] us by (cases "k = i") (auto split: if_splits)
      then have "disk_files V' n = None" by (intro disk_files_None) simp
      moreover have "disk_files V n = None" if "\<not> (entry_used (ent V i) \<and> n = ename (ent V i))"
        using none that by (intro disk_files_None) (auto simp: used_slots_def)
      ultimately show ?thesis using False by auto
    qed
  qed
qed

end
