(* ===== verification/Pfs_Ops.thy ===== *)
theory Pfs_Ops
  imports Pfs_Inv
begin

text \<open>
  The operations of OKPFS1 on a volume that satisfies the invariant: what the searches find, that a
  run is read back, and the effect of \<open>pfs_sync_file\<close> and \<open>pfs_delete_file\<close> on the stored files.
\<close>

definition vol_ok :: "pfs \<Rightarrow> bool" where
  "vol_ok p \<longleftrightarrow> dsk_ok p \<and> layout (unat (pfs_len p)) (dsk_view p)"

abbreviation pfs_files :: "pfs \<Rightarrow> bytes \<Rightarrow> bytes option" where
  "pfs_files p \<equiv> disk_files (dsk_view p)"

lemma vol_len: "vol_ok p \<Longrightarrow> 17 \<le> unat (pfs_len p)"
  by (simp add: vol_ok_def layout_def)

lemma unat_len_28: "dsk_ok p \<Longrightarrow> unat (pfs_len p) \<le> 2 ^ 28"
  by (simp add: dsk_ok_def drive_ok_def)

lemma table_lba: "i < 16 \<Longrightarrow> unat (PFS_TABLE_START + of_nat i) = Suc i"
  unfolding PFS_TABLE_START_def by (subst unat_plus_small) (simp_all add: unat_of_nat_small)

lemma entry_read_in:
  "dsk_ok p \<Longrightarrow> 17 \<le> unat (pfs_len p) \<Longrightarrow> i < 16 \<Longrightarrow> entry_read p i = Some (ent (dsk_view p) i)"
  using dsk.rd_in [of p "PFS_TABLE_START + of_nat i"] by (simp add: entry_read_def ent_def table_lba)

lemma sb_read_in: "dsk_ok p \<Longrightarrow> 17 \<le> unat (pfs_len p) \<Longrightarrow> sb_read p = Some (sbv (dsk_view p))"
  using dsk.rd_in [of p PFS_SB_SECTOR] by (simp add: sb_read_def sbv_def PFS_SB_SECTOR_def)

lemma view_512: "dsk_ok p \<Longrightarrow> i < unat (pfs_len p) \<Longrightarrow> length (dsk_view p i) = 512"
  using dsk.view_len [of p i] by simp

lemma entry_match_iff: "0 \<notin> set name \<Longrightarrow> 0 \<in> set (e_name e) \<Longrightarrow> entry_match name e \<longleftrightarrow> ename e = name"
  by (simp add: entry_match_def ename_def str_match_takeWhile)

definition slot_of :: "(nat \<Rightarrow> bytes) \<Rightarrow> bytes \<Rightarrow> nat list \<Rightarrow> nat option" where
  "slot_of V name is = List.find (\<lambda>i. entry_used (ent V i) \<and> ename (ent V i) = name) is"

lemma layout_name: "layout len V \<Longrightarrow> i < 16 \<Longrightarrow> entry_used (ent V i) \<Longrightarrow> 0 \<in> set (e_name (ent V i))"
  by (auto simp: layout_def used_slots_def entry_good_def)

lemma pfs_lookup_eq:
  assumes "vol_ok p" "0 \<notin> set name" "\<forall>i \<in> set is. i < 16"
  shows "pfs_lookup p name is = map_option (\<lambda>i. (i, ent (dsk_view p) i)) (slot_of (dsk_view p) name is)"
  using assms(3)
proof (induction "is")
  case (Cons i "is")
  have "entry_used (ent (dsk_view p) i) \<Longrightarrow> entry_match name (ent (dsk_view p) i) \<longleftrightarrow> ename (ent (dsk_view p) i) = name"
    using assms Cons.prems layout_name by (intro entry_match_iff) (auto simp: vol_ok_def)
  then show ?case
    using Cons entry_read_in [of p i] vol_len [OF assms(1)] assms(1) by (auto simp: slot_of_def vol_ok_def)
qed (simp add: slot_of_def)

lemma scan_slots_eq:
  assumes "vol_ok p" "0 \<notin> set name" "\<forall>i \<in> set is. i < 16"
  shows "scan_slots p name is slot = (case slot_of (dsk_view p) name is of
      Some i \<Rightarrow> (Some i, e_start (ent (dsk_view p) i), size_sectors (e_size (ent (dsk_view p) i)))
    | None \<Rightarrow> (if slot = None then List.find (\<lambda>i. \<not> entry_used (ent (dsk_view p) i)) is else slot, 0, 0))"
  using assms(3)
proof (induction "is" arbitrary: slot)
  case (Cons i "is")
  have "entry_used (ent (dsk_view p) i) \<Longrightarrow> entry_match name (ent (dsk_view p) i) \<longleftrightarrow> ename (ent (dsk_view p) i) = name"
    using assms Cons.prems layout_name by (intro entry_match_iff) (auto simp: vol_ok_def)
  then show ?case
    using Cons entry_read_in [of p i] vol_len [OF assms(1)] assms(1)
    by (auto simp: slot_of_def vol_ok_def split: option.split)
qed (simp add: slot_of_def)

lemma slot_of_Some:
  "slot_of V name [0..<16] = Some i \<Longrightarrow> i \<in> used_slots V \<and> ename (ent V i) = name"
  by (auto simp: slot_of_def find_Some_iff used_slots_def)

lemma slot_of_None: "slot_of V name [0..<16] = None \<longleftrightarrow> (\<forall>i \<in> used_slots V. ename (ent V i) \<noteq> name)"
  by (auto simp: slot_of_def find_None_iff used_slots_def)

lemma unat_size_sectors: "unat sz \<le> 32768 \<Longrightarrow> unat (size_sectors sz) = (unat sz + 511) div 512"
  by (simp add: size_sectors_def unat_div unat_plus_small)

subsection \<open>Reading a run\<close>

lemma read_run_ok:
  assumes "dsk_ok p" "unat lba + k \<le> unat (pfs_len p)" "unat sz \<le> length buf + 512 * k"
    and "k = 0 \<or> length buf + 512 * (k - 1) < unat sz" "length buf \<le> unat sz"
  shows "read_run p lba sz k buf = (take (unat sz) (buf @ concat (map (dsk_view p) [unat lba..<unat lba + k])), True)"
  using assms(2-)
proof (induction k arbitrary: lba buf)
  case (Suc k)
  let ?n = "sz - of_nat (length buf)" and ?sec = "dsk_view p (unat lba)"
  have b: "unat (of_nat (length buf) :: u32) = length buf"
    using Suc.prems(4) u32_lt [of sz] by (intro unat_of_nat_small) simp
  then have n: "unat ?n = unat sz - length buf" using Suc.prems(4) by (simp add: unat_sub word_le_nat_alt)
  have 28: "unat (pfs_len p) \<le> 2 ^ 28" by (rule unat_len_28 [OF assms(1)])
  then have l: "unat (lba + 1) = unat lba + 1" using Suc.prems(1) by (intro unat_plus_1) simp
  have r: "dsk_read p lba = Some ?sec" using dsk.rd_in [OF assms(1), of lba] Suc.prems(1) by simp
  have s512: "length ?sec = 512" using view_512 [OF assms(1)] Suc.prems(1) by simp
  let ?m = "unat (if 512 < ?n then 512 else ?n)"
  have m: "?m = min 512 (unat sz - length buf)" using n by (simp add: word_less_nat_alt)
  have "length (buf @ take ?m ?sec) = min (length buf + 512) (unat sz)" using m s512 Suc.prems(4) by simp
  then have ih: "read_run p (lba + 1) sz k (buf @ take ?m ?sec) =
      (take (unat sz) ((buf @ take ?m ?sec) @ concat (map (dsk_view p) [unat (lba + 1)..<unat (lba + 1) + k])), True)"
    using Suc.prems l by (intro Suc.IH) auto
  have "take (unat sz) ((buf @ take ?m ?sec) @ xs) = take (unat sz) (buf @ ?sec @ xs)"
    if "k = 0 \<longrightarrow> xs = []" for xs
  proof (cases "512 \<le> unat sz - length buf")
    case True
    then show ?thesis using m s512 by simp
  next
    case False
    then have "k = 0" using Suc.prems(3) by (cases k) auto
    then show ?thesis using that m False s512 Suc.prems(4) by (simp add: min_def)
  qed
  moreover have "concat (map (dsk_view p) [unat lba..<unat lba + Suc k]) =
      ?sec @ concat (map (dsk_view p) [unat (lba + 1)..<unat (lba + 1) + k])"
    using l by (simp add: upt_conv_Cons del: upt_Suc)
  ultimately show ?case using ih r by (simp add: Let_def)
qed simp

lemma load_entry_ok:
  assumes "dsk_ok p" "entry_good (unat (pfs_len p)) e"
  shows "load_entry p e = (file_data (dsk_view p) e, True)"
proof -
  have sz: "unat (e_size e) \<le> 32768" using assms(2) by (simp add: entry_good_def)
  have k: "unat (size_sectors (e_size e)) = nsec e" using unat_size_sectors [OF sz] by (simp add: nsec_def)
  show ?thesis
  proof (cases "nsec e = 0")
    case True
    then have "unat (e_size e) = 0" unfolding nsec_def by linarith
    then have "e_size e = 0" by (simp add: unat_eq_0)
    then show ?thesis unfolding load_entry_def file_data_def k True by simp
  next
    case False
    then have "unat (e_start e) + nsec e - 1 \<in> run e" by (simp add: run_def)
    then have "unat (e_start e) + nsec e - 1 \<in> {17..<min (unat (pfs_len p)) 3825}"
      using assms(2) unfolding entry_good_def by blast
    then have "unat (e_start e) + nsec e \<le> unat (pfs_len p)" using False by auto
    moreover have "unat (e_size e) \<le> 512 * nsec e" "512 * (nsec e - 1) < unat (e_size e)"
      using False unfolding nsec_def by linarith+
    ultimately show ?thesis
      using read_run_ok [OF assms(1), of "e_start e" "nsec e" "e_size e" "[]"] by (simp add: load_entry_def k file_data_def)
  qed
qed

subsection \<open>The sectors of a file\<close>

lemma file_sector_eq:
  assumes "length b \<le> 32768" "512 * s \<le> length b"
  shows "file_sector b (int (length b)) s = take 512 (drop (512 * s) b) @ replicate (512 - (length b - 512 * s)) 0"
proof -
  have "unat (of_nat s * 512 :: u32) = 512 * s"
    using assms by (subst unat_times_small) (simp_all add: unat_of_nat_small)
  moreover have "unat (of_int (int (length b)) :: u32) = length b" using assms by (simp add: unat_of_nat_small)
  ultimately have n: "unat ((of_int (int (length b)) :: u32) - of_nat s * 512) = length b - 512 * s"
    using assms(2) by (simp add: unat_sub word_le_nat_alt)
  show ?thesis
    using assms unfolding file_sector_def Let_def by (auto simp: n word_less_nat_alt blit_0 mult.commute [of s] min_def simp del: of_int_of_nat_eq)
qed

lemma file_sectors_concat:
  assumes "length b \<le> 32768" "512 * m \<le> length b"
  shows "concat (map (file_sector b (int (length b))) [0..<m]) = take (512 * m) b"
  using assms(2)
proof (induction m)
  case (Suc m)
  then show ?case using file_sector_eq [OF assms(1), of m] by (simp add: take_add [of "512 * m" 512, simplified add.commute, symmetric] add.commute)
qed simp

lemma file_sectors_bytes:
  assumes "length b \<le> 32768"
  shows "take (length b) (concat (map (file_sector b (int (length b))) [0..<(length b + 511) div 512])) = b"
proof (cases "b = []")
  case False
  define m where "m = (length b - 1) div 512"
  have n: "(length b + 511) div 512 = Suc m" using False by (cases b) (simp_all add: m_def div_add_self2 [symmetric])
  have m: "512 * m \<le> length b" "length b \<le> 512 * m + 512" unfolding m_def by linarith+
  have "concat (map (file_sector b (int (length b))) [0..<Suc m]) =
      take (512 * m) b @ take 512 (drop (512 * m) b) @ replicate (512 - (length b - 512 * m)) 0"
    using file_sectors_concat [OF assms m(1)] file_sector_eq [OF assms m(1)] by simp
  also have "take (length b) \<dots> = b" using m by (simp add: min_def)
  finally show ?thesis by (simp only: n)
qed simp

lemma length_file_sector [simp]: "length (file_sector b n s) = 512"
  by (simp add: file_sector_def Let_def blit_0 word_less_nat_alt)

subsection \<open>Writing\<close>

lemma dsk_write_in:
  assumes "dsk_ok p" "unat l < unat (pfs_len p)" "length b = 512"
  obtains p' where "dsk_write p l b = (p', 0)" "dsk_ok p'" "dsk_cfg p' = dsk_cfg p"
    "\<And>i. i < unat (pfs_len p) \<Longrightarrow> dsk_view p' i = (if i = unat l then b else dsk_view p i)"
  using dsk.wr_in [of p l b] assms by auto

lemma dsk_write_seq:
  assumes "dsk_ok p" "{unat l..<unat l + length bs} \<subseteq> {..<unat (pfs_len p)}" "unat l + length bs < 2 ^ 32"
    and "\<forall>b \<in> set bs. length b = 512"
  obtains p' where "wr_seq dsk_write p l bs = (p', 0)" "dsk_ok p'" "dsk_cfg p' = dsk_cfg p"
    "\<And>i. i < unat (pfs_len p) \<Longrightarrow>
       dsk_view p' i = (if unat l \<le> i \<and> i < unat l + length bs then bs ! (i - unat l) else dsk_view p i)"
  using dsk.wr_seq_in [of p l bs, unfolded dsk_cfg_sel, OF assms] by (elim exE conjE) simp

lemma cfg_len: "dsk_cfg q = dsk_cfg p \<Longrightarrow> pfs_len q = pfs_len p" "dsk_cfg q = dsk_cfg p \<Longrightarrow> mounted q = mounted p"
  by (simp_all add: dsk_cfg_eq)

lemma count_files_eq:
  assumes "dsk_ok p" "17 \<le> unat (pfs_len p)"
  shows "unat (count_files p) = card (used_slots (dsk_view p))"
proof -
  have "filter (\<lambda>k. \<exists>t. entry_read p k = Some t \<and> entry_used t) [0..<16] = filter (\<lambda>k. entry_used (ent (dsk_view p) k)) [0..<16]"
    using entry_read_in [OF assms] by (intro filter_cong) auto
  moreover have "length (filter (\<lambda>k. entry_used (ent (dsk_view p) k)) [0..<16]) = card (used_slots (dsk_view p))"
    by (simp add: length_filter_conv_card used_slots_def cong: conj_cong)
  moreover have "card (used_slots (dsk_view p)) \<le> card {..<16 :: nat}"
    by (rule card_mono) (auto simp: used_slots_def)
  ultimately show ?thesis
    unfolding count_files_def PFS_TABLE_SECTORS_def by (simp add: unat_of_nat_small)
qed

lemma new_entry_sel [simp]:
  "e_size (new_entry name sz start) = sz" "e_start (new_entry name sz start) = start"
  "length (e_name (new_entry name sz start)) = 32" "length (e_reserved (new_entry name sz start)) = 468"
  by (simp_all add: new_entry_def empty_entry_def blit_0)

lemma ename_new_entry:
  assumes "fs_name_ok name"
  shows "ename (new_entry name sz start) = name" "0 \<in> set (e_name (new_entry name sz start))"
    "name \<noteq> [] \<Longrightarrow> entry_used (new_entry name sz start)"
proof -
  have e: "e_name (new_entry name sz start) = name @ replicate (32 - length name) 0"
    using assms by (simp add: new_entry_def blit_0 fs_name_ok_def FS_MAX_NAME_def)
  have "\<forall>x \<in> set name. x \<noteq> 0" using assms unfolding fs_name_ok_def by metis
  then have "takeWhile (\<lambda>c. c \<noteq> 0) (name @ ys) = name @ takeWhile (\<lambda>c. c \<noteq> 0) ys" for ys
    by (simp add: takeWhile_append2)
  then show "ename (new_entry name sz start) = name"
    unfolding ename_def e by (simp add: takeWhile_eq_Nil_iff)
  show "0 \<in> set (e_name (new_entry name sz start))" using assms by (simp add: e fs_name_ok_def FS_MAX_NAME_def)
  show "name \<noteq> [] \<Longrightarrow> entry_used (new_entry name sz start)"
    using assms unfolding entry_used_def e by (cases name) (auto simp: fs_name_ok_def)
qed

lemma super_sector:
  assumes "length (sb_magic sb) = 8" "length (sb_bitmap sb) = 476"
  shows "super_of (take 492 (blit (replicate 512 0) 0 (super_bytes sb))) = sb"
    "length (blit (replicate 512 0) 0 (super_bytes sb)) = 512"
  using length_super_bytes [OF assms] super_of_bytes [OF assms] by (simp_all add: blit_0)

lemma ent_cong: "V (Suc i) = W (Suc i) \<Longrightarrow> ent V i = ent W i"
  by (simp add: ent_def)

lemma used_slots_cong: "(\<And>i. i < 16 \<Longrightarrow> V (Suc i) = W (Suc i)) \<Longrightarrow> used_slots V = used_slots W"
  unfolding used_slots_def by (metis (no_types, lifting) ent_cong)

text \<open>A table entry and then the superblock with the new count.\<close>

lemma commit_entry:
  assumes p: "dsk_ok p" "17 \<le> unat (pfs_len p)" and slot: "slot < 16"
    and e: "length (e_name e) = 32" "length (e_reserved e) = 468"
    and sb: "length (sb_magic sb) = 8" "length (sb_bitmap sb) = 476"
  obtains p2 p3 nf where "entry_write p slot e = (p2, 0)" "sb_write p2 (sb\<lparr>sb_nfiles := count_files p2\<rparr>) = (p3, 0)"
    "dsk_ok p3" "dsk_cfg p3 = dsk_cfg p"
    "sbv (dsk_view p3) = sb\<lparr>sb_nfiles := nf\<rparr>" "unat nf = card (used_slots (dsk_view p3))"
    "ent (dsk_view p3) slot = e" "\<And>j. j < 16 \<Longrightarrow> j \<noteq> slot \<Longrightarrow> ent (dsk_view p3) j = ent (dsk_view p) j"
    "\<And>i. 17 \<le> i \<Longrightarrow> i < unat (pfs_len p) \<Longrightarrow> dsk_view p3 i = dsk_view p i"
proof -
  have "unat (PFS_TABLE_START + of_nat slot) < unat (pfs_len p)" "length (entry_bytes e) = 512"
    using table_lba [OF slot] slot p(2) e by (simp_all add: length_entry_bytes)
  then obtain p2 where 2: "entry_write p slot e = (p2, 0)" "dsk_ok p2" "dsk_cfg p2 = dsk_cfg p"
    and v2: "\<And>i. i < unat (pfs_len p) \<Longrightarrow> dsk_view p2 i = (if i = Suc slot then entry_bytes e else dsk_view p i)"
    using dsk_write_in [OF p(1), of "PFS_TABLE_START + of_nat slot" "entry_bytes e"] table_lba [OF slot]
    unfolding entry_write_def by metis
  note l2 = cfg_len [OF 2(3)]
  let ?sb = "sb\<lparr>sb_nfiles := count_files p2\<rparr>"
  have "unat PFS_SB_SECTOR < unat (pfs_len p2)" "length (blit (replicate 512 0) 0 (super_bytes ?sb)) = 512"
    using p(2) l2 super_sector(2) [of ?sb] sb by (simp_all add: PFS_SB_SECTOR_def)
  then obtain p3 where 3: "sb_write p2 ?sb = (p3, 0)" "dsk_ok p3" "dsk_cfg p3 = dsk_cfg p"
    and v3: "\<And>i. i < unat (pfs_len p) \<Longrightarrow> dsk_view p3 i = (if i = 0 then blit (replicate 512 0) 0 (super_bytes ?sb) else dsk_view p2 i)"
    using dsk_write_in [OF 2(2), of PFS_SB_SECTOR "blit (replicate 512 0) 0 (super_bytes ?sb)"] l2 2(3)
    unfolding sb_write_def PFS_SB_SECTOR_def by (metis unat_0)
  have slots: "dsk_view p3 (Suc j) = (if j = slot then entry_bytes e else dsk_view p (Suc j))" if "j < 16" for j
    using that p(2) v2 [of "Suc j"] v3 [of "Suc j"] by auto
  show thesis
  proof (rule that [OF 2(1) 3])
    show "sbv (dsk_view p3) = sb\<lparr>sb_nfiles := count_files p2\<rparr>"
      using v3 [of 0] p(2) super_sector(1) [of ?sb] sb by (simp add: sbv_def)
    have "used_slots (dsk_view p3) = used_slots (dsk_view p2)"
      using v3 p(2) by (intro used_slots_cong) simp
    then show "unat (count_files p2) = card (used_slots (dsk_view p3))" using count_files_eq [OF 2(2)] p(2) l2 by simp
    show "ent (dsk_view p3) slot = e" using slots [OF slot] e by (simp add: ent_def entry_of_bytes)
    show "ent (dsk_view p3) j = ent (dsk_view p) j" if "j < 16" "j \<noteq> slot" for j
      using slots that by (intro ent_cong) simp
    show "dsk_view p3 i = dsk_view p i" if "17 \<le> i" "i < unat (pfs_len p)" for i
      using that slot v2 [of i] v3 [of i] by auto
  qed
qed

text \<open>The writes of \<open>pfs_sync_file\<close>: data, entry, superblock.\<close>

lemma sync_write_in:
  assumes p: "dsk_ok p" "17 \<le> unat (pfs_len p)" and slot: "slot < 16"
    and run: "{unat start..<unat start + unat need} \<subseteq> {17..<unat (pfs_len p)}"
    and sb: "length (sb_magic sb) = 8" "length (sb_bitmap sb) = 476"
    and rd: "fs_read v name (uint PFS_FILE_MAX) = (b, int (length b))"
  obtains p' nf where "sync_write v p name sb slot start need sz = (p', 0)" "dsk_ok p'" "dsk_cfg p' = dsk_cfg p"
    "sbv (dsk_view p') = sb\<lparr>sb_nfiles := nf\<rparr>" "unat nf = card (used_slots (dsk_view p'))"
    "ent (dsk_view p') slot = new_entry name sz start"
    "\<And>j. j < 16 \<Longrightarrow> j \<noteq> slot \<Longrightarrow> ent (dsk_view p') j = ent (dsk_view p) j"
    "\<And>i. 17 \<le> i \<Longrightarrow> i < unat (pfs_len p) \<Longrightarrow> dsk_view p' i =
      (if unat start \<le> i \<and> i < unat start + unat need then file_sector b (int (length b)) (i - unat start) else dsk_view p i)"
proof -
  have len: "unat (pfs_len p) \<le> 2 ^ 28" by (rule unat_len_28 [OF p(1)])
  let ?ss = "map (file_sector b (int (length b))) [0..<unat need]"
  have w: "unat start + length ?ss < 2 ^ 32"
  proof (cases "unat need = 0")
    case False
    then have "unat start + unat need - 1 \<in> {17..<unat (pfs_len p)}" by (intro subsetD [OF run]) auto
    then show ?thesis using len by auto
  qed (simp add: u32_lt)
  have "{unat start..<unat start + length ?ss} \<subseteq> {..<unat (pfs_len p)}" using run by auto
  then obtain p1 where 1: "wr_seq dsk_write p start ?ss = (p1, 0)" "dsk_ok p1" "dsk_cfg p1 = dsk_cfg p"
    and v1: "\<And>i. i < unat (pfs_len p) \<Longrightarrow> dsk_view p1 i =
      (if unat start \<le> i \<and> i < unat start + length ?ss then ?ss ! (i - unat start) else dsk_view p i)"
    by (rule dsk_write_seq [OF p(1), of start ?ss]) (use w in auto)
  note l1 = cfg_len [OF 1(3)]
  have p1: "17 \<le> unat (pfs_len p1)" using p(2) l1 by simp
  obtain p2 p3 nf where 3: "entry_write p1 slot (new_entry name sz start) = (p2, 0)"
      "sb_write p2 (sb\<lparr>sb_nfiles := count_files p2\<rparr>) = (p3, 0)" "dsk_ok p3" "dsk_cfg p3 = dsk_cfg p1"
    and s3: "sbv (dsk_view p3) = sb\<lparr>sb_nfiles := nf\<rparr>" "unat nf = card (used_slots (dsk_view p3))"
      "ent (dsk_view p3) slot = new_entry name sz start"
    and e3: "\<And>j. j < 16 \<Longrightarrow> j \<noteq> slot \<Longrightarrow> ent (dsk_view p3) j = ent (dsk_view p1) j"
    and v3: "\<And>i. 17 \<le> i \<Longrightarrow> i < unat (pfs_len p1) \<Longrightarrow> dsk_view p3 i = dsk_view p1 i"
    by (rule commit_entry [OF 1(2) p1 slot new_entry_sel(3,4) sb]) (rule that)
  show thesis
  proof (rule that)
    show "sync_write v p name sb slot start need sz = (p3, 0)" using 1(1) 3(1,2) by (simp add: sync_write_def rd)
    show "ent (dsk_view p3) j = ent (dsk_view p) j" if "j < 16" "j \<noteq> slot" for j
    proof -
      have "\<not> (unat start \<le> Suc j \<and> Suc j < unat start + unat need)" using run that by auto
      then have "ent (dsk_view p1) j = ent (dsk_view p) j" using v1 [of "Suc j"] that p(2) by (intro ent_cong) auto
      then show ?thesis using e3 [OF that] by simp
    qed
    show "dsk_view p3 i = (if unat start \<le> i \<and> i < unat start + unat need then file_sector b (int (length b)) (i - unat start) else dsk_view p i)"
      if "17 \<le> i" "i < unat (pfs_len p)" for i
      using that v1 [of i] v3 [of i] l1 by (auto split: if_splits)
  qed (use 3 s3 1(3) in auto)
qed

subsection \<open>\<open>pfs_sync_file\<close>\<close>

definition slot_run :: "(nat \<Rightarrow> bytes) \<Rightarrow> nat \<Rightarrow> nat set" where
  "slot_run V i = (if entry_used (ent V i) then run (ent V i) else {})"

text \<open>A run of enough sectors for \<open>n\<close> bytes is free when the present copy of the file does not count.\<close>

definition fits :: "nat \<Rightarrow> (nat \<Rightarrow> bytes) \<Rightarrow> bytes \<Rightarrow> nat \<Rightarrow> bool" where
  "fits len V name n \<longleftrightarrow> (\<exists>t. {t..<t + (n + 511) div 512} \<subseteq>
     {17..<min len 3825} - (\<Union>i \<in> {i \<in> used_slots V. ename (ent V i) \<noteq> name}. run (ent V i)))"

lemma run_small:
  assumes "layout len V" "i \<in> used_slots V"
  shows "unat (size_sectors (e_size (ent V i))) = nsec (ent V i)" "unat (e_start (ent V i)) + nsec (ent V i) < 2 ^ 32"
proof -
  have g: "entry_good len (ent V i)" using assms by (simp add: layout_def)
  then show "unat (size_sectors (e_size (ent V i))) = nsec (ent V i)"
    by (simp add: entry_good_def nsec_def unat_size_sectors)
  show "unat (e_start (ent V i)) + nsec (ent V i) < 2 ^ 32"
  proof (cases "nsec (ent V i) = 0")
    case False
    then have "unat (e_start (ent V i)) \<in> run (ent V i)" by (simp add: run_def)
    then have "unat (e_start (ent V i)) < 3825" using g unfolding entry_good_def by auto
    moreover have "unat (e_size (ent V i)) \<le> 32768" using g by (simp add: entry_good_def)
    then have "nsec (ent V i) \<le> 64" unfolding nsec_def by linarith
    ultimately show ?thesis by simp
  qed (simp add: u32_lt)
qed

lemma scan_cases:
  assumes p: "vol_ok p" "0 \<notin> set name"
  defines "V \<equiv> dsk_view p"
  obtains (full) os where "scan_slots p name [0..<16] None = (None, os)" "pfs_files p name = None" "used_slots V = {..<16}"
  | (slot) i os on where "scan_slots p name [0..<16] None = (Some i, os, on)" "i < 16"
      "unat os + unat on < 2 ^ 32" "{unat os..<unat os + unat on} = slot_run V i"
      "\<And>j. j \<in> used_slots V \<Longrightarrow> ename (ent V j) = name \<longleftrightarrow> j = i"
      "pfs_files p name = None \<longleftrightarrow> \<not> entry_used (ent V i)"
proof (cases "slot_of V name [0..<16]")
  case (Some i)
  then have i: "i \<in> used_slots V" "ename (ent V i) = name" using slot_of_Some by auto
  have L: "layout (unat (pfs_len p)) V" using p(1) by (simp add: vol_ok_def V_def)
  have u: "i < 16" "entry_used (ent V i)" using i by (auto simp: used_slots_def)
  show thesis
  proof (rule slot)
    show "scan_slots p name [0..<16] None = (Some i, e_start (ent V i), size_sectors (e_size (ent V i)))"
      using scan_slots_eq [OF p, of "[0..<16]"] Some by (simp add: V_def)
    show "ename (ent V j) = name \<longleftrightarrow> j = i" if "j \<in> used_slots V" for j
      using layout_entries [OF L that i(1)] i(2) by (auto simp: entries_apart_def)
    show "pfs_files p name = None \<longleftrightarrow> \<not> entry_used (ent V i)"
      using disk_files_Some [OF L i] u(2) by (simp add: V_def)
  qed (use u run_small [OF L i(1)] in \<open>simp_all add: slot_run_def run_def\<close>)
next
  case None
  then have n: "\<And>j. j \<in> used_slots V \<Longrightarrow> ename (ent V j) \<noteq> name" using slot_of_None by auto
  then have f: "pfs_files p name = None" unfolding V_def by (intro disk_files_None) auto
  show thesis
  proof (cases "List.find (\<lambda>i. \<not> entry_used (ent V i)) [0..<16]")
    case none: None
    then have "used_slots V = {..<16}" by (auto simp: find_None_iff used_slots_def)
    then show thesis using full scan_slots_eq [OF p, of "[0..<16]"] None none f by (simp add: V_def)
  next
    case (Some i)
    then have i: "i < 16" "\<not> entry_used (ent V i)" by (auto simp: find_Some_iff)
    show thesis
    proof (rule slot)
      show "scan_slots p name [0..<16] None = (Some i, 0, 0)"
        using scan_slots_eq [OF p, of "[0..<16]"] None Some by (simp add: V_def)
      show "ename (ent V j) = name \<longleftrightarrow> j = i" if "j \<in> used_slots V" for j
        using n [OF that] that i by (auto simp: used_slots_def)
    qed (use i f in \<open>simp_all add: slot_run_def\<close>)
  qed
qed

lemma marked_less: "marked sb \<subseteq> {17..<3825}"
  by (auto simp: marked_def)

lemma layout_others:
  assumes "layout len V" "i < 16"
  shows "marked (sbv V) - slot_run V i = (\<Union>j \<in> used_slots V - {i}. run (ent V j))"
proof -
  have "marked (sbv V) = (\<Union>j \<in> used_slots V - {i}. run (ent V j)) \<union> slot_run V i"
    using assms unfolding layout_def slot_run_def by (auto simp: used_slots_def)
  moreover have "run (ent V j) \<inter> slot_run V i = {}" if "j \<in> used_slots V - {i}" for j
    using that layout_entries [OF assms(1), of j i] assms(2) by (auto simp: slot_run_def entries_apart_def used_slots_def)
  ultimately show ?thesis by blast
qed

lemma file_data_written:
  assumes b: "length b \<le> 32768" and e: "unat (e_size e) = length b"
    and V: "\<And>i. i \<in> run e \<Longrightarrow> V i = file_sector b (int (length b)) (i - unat (e_start e))"
  shows "file_data V e = b"
proof -
  have n: "nsec e = (length b + 511) div 512" by (simp add: nsec_def e)
  have "map V [unat (e_start e)..<unat (e_start e) + nsec e] = map (file_sector b (int (length b))) [0..<nsec e]"
    using V by (intro nth_equalityI) (simp_all add: run_def)
  then show ?thesis using file_sectors_bytes [OF b] by (simp add: file_data_def e n)
qed

lemma sync_start:
  assumes sb: "length (sb_bitmap sb) = 476" and need: "unat need \<le> 64" and max: "unat max_sec \<le> 2 ^ 28"
  defines "start \<equiv> (if 0 < need then find_run sb need max_sec PFS_FIRST_DATA else 0)"
  shows "0 < need \<and> start = 0 \<longleftrightarrow> \<not> (\<exists>t. {t..<t + unat need} \<subseteq> {17..<min (unat max_sec) 3825} - marked sb)" (is ?A)
    and "\<not> (0 < need \<and> start = 0) \<Longrightarrow> {unat start..<unat start + unat need} \<subseteq> {17..<min (unat max_sec) 3825} - marked sb" (is "_ \<Longrightarrow> ?B")
proof -
  have rf: "run_free sb t need \<longleftrightarrow> {unat t..<unat t + unat need} \<subseteq> {17..<3825} - marked sb"
    if "unat t + unat need \<le> unat max_sec" for t
    using that max by (subst run_free_iff) auto
  show b: ?B if "\<not> (0 < need \<and> start = 0)"
  proof (cases "0 < need")
    case True
    then have f: "find_run sb need max_sec PFS_FIRST_DATA \<noteq> 0" "start = find_run sb need max_sec PFS_FIRST_DATA"
      using that by (auto simp: start_def)
    then show ?thesis using find_run_some [OF f(1)] rf [of start] by auto
  qed (simp add: word_less_nat_alt)
  show ?A
  proof
    assume s: "0 < need \<and> start = 0"
    show "\<not> (\<exists>t. {t..<t + unat need} \<subseteq> {17..<min (unat max_sec) 3825} - marked sb)"
    proof
      assume "\<exists>t. {t..<t + unat need} \<subseteq> {17..<min (unat max_sec) 3825} - marked sb"
      then obtain t where t: "{t..<t + unat need} \<subseteq> {17..<min (unat max_sec) 3825} - marked sb" by blast
      have n: "0 < unat need" using s by (simp add: word_less_nat_alt)
      then have "t \<in> {17..<min (unat max_sec) 3825}" "t + unat need - 1 \<in> {17..<min (unat max_sec) 3825}"
        using subsetD [OF t, of t] subsetD [OF t, of "t + unat need - 1"] by auto
      then have t17: "17 \<le> t" "t + unat need \<le> unat max_sec" "t < 3825" using n by auto
      then have u: "unat (of_nat t :: u32) = t" by (intro unat_of_nat_small) simp
      have "find_run sb need max_sec PFS_FIRST_DATA = 0" using s by (auto simp: start_def)
      then have "\<not> run_free sb (of_nat t) need"
        by (rule find_run_none) (use s t17 u in \<open>simp_all add: PFS_FIRST_DATA_def\<close>)
      then show False using rf [of "of_nat t"] t t17 u by auto
    qed
  next
    assume "\<not> (\<exists>t. {t..<t + unat need} \<subseteq> {17..<min (unat max_sec) 3825} - marked sb)"
    then show "0 < need \<and> start = 0" using b by blast
  qed
qed

definition slot_name :: "(nat \<Rightarrow> bytes) \<Rightarrow> nat \<Rightarrow> bytes option" where
  "slot_name V i = (if entry_used (ent V i) then Some (ename (ent V i)) else None)"

lemma pfs_sync_ok:
  assumes p: "vol_ok p" "mounted p" and v: "vfs_ok v" and n: "fs_name_ok name" "name \<noteq> []" and b: "contents v name = Some b"
    and refuse: "refuse \<longleftrightarrow> (pfs_files p name = None \<and> used_slots (dsk_view p) = {..<16}) \<or> \<not> fits (unat (pfs_len p)) (dsk_view p) name (length b)"
  shows "if refuse then pfs_sync_file v p name = (p, -1)
    else \<exists>p'. pfs_sync_file v p name = (p', 0) \<and> vol_ok p' \<and> dsk_cfg p' = dsk_cfg p \<and> pfs_files p' = (pfs_files p)(name \<mapsto> b) \<and>
      (pfs_files p name \<noteq> None \<longrightarrow> (\<forall>j < 16. slot_name (dsk_view p') j = slot_name (dsk_view p) j))"
proof -
  let ?V = "dsk_view p" and ?len = "unat (pfs_len p)"
  have d: "dsk_ok p" and L: "layout ?len ?V" and l17: "17 \<le> ?len" using p(1) vol_len by (auto simp: vol_ok_def)
  have n0: "0 \<notin> set name" using n by (simp add: fs_name_ok_def)
  have b32: "length b \<le> 32768"
    using old_bytes_length [OF v n0] b by (simp add: old_bytes_def FS_MAX_SIZE_def)
  have rd: "fs_read v name (uint PFS_FILE_MAX) = (b, int (length b))" and sz: "fs_get_size v name = int (length b)"
    using fs_read_contents [OF v n0, of 32768] b b32 by (simp_all add: PFS_FILE_MAX_def)
  let ?sz = "of_nat (length b) :: u32"
  have usz: "unat ?sz = length b" using b32 by (intro unat_of_nat_small) simp
  then have cap: "\<not> PFS_FILE_MAX < ?sz" using b32 by (simp add: PFS_FILE_MAX_def word_less_nat_alt)
  let ?need = "size_sectors ?sz"
  have need: "unat ?need = (length b + 511) div 512" using unat_size_sectors [of ?sz] b32 usz by simp
  have n64: "unat ?need \<le> 64" unfolding need using b32 by linarith
  note sb = sb_read_in [OF d l17]
  have V0: "length (?V 0) = 512" using view_512 [OF d] l17 by simp
  have sbl: "length (sb_magic (sbv ?V)) = 8" "length (sb_bitmap (sbv ?V)) = 476" using V0 by (simp_all add: sbv_def)
  have val: "sb_valid (sbv ?V)" using L by (simp add: layout_def)
  have start: "pfs_sync_file v p name =
      (case scan_slots p name [0..<16] None of (None, _) \<Rightarrow> (p, -1)
        | (Some slot, os, on) \<Rightarrow>
            let sb = bitmap_range False os (unat on) (sbv ?V);
                start = (if 0 < ?need then find_run sb ?need (pfs_len p) PFS_FIRST_DATA else 0)
            in if 0 < ?need \<and> start = 0 then (p, -1)
               else sync_write v p name (bitmap_range True start (unat ?need) sb) slot start ?need ?sz)"
    using p(2) n(2) sb val unfolding pfs_sync_file_def sz PFS_TABLE_SECTORS_def dsk_sectors_def Let_def of_int_of_nat_eq if_not_P [OF cap] by simp
  show ?thesis
  proof (cases rule: scan_cases [OF p(1) n0, case_names full slot])
    case (full os)
    then show ?thesis using start refuse by simp
  next
    case (slot i os on)
    let ?sb = "bitmap_range False os (unat on) (sbv ?V)"
    define s where "s = (if 0 < ?need then find_run ?sb ?need (pfs_len p) PFS_FIRST_DATA else 0)"
    have m1: "marked ?sb = (\<Union>j \<in> used_slots ?V - {i}. run (ent ?V j))"
      using marked_range [OF sbl(2) slot(3), of False] slot(4) layout_others [OF L slot(2)] by simp
    have oth: "{j \<in> used_slots ?V. ename (ent ?V j) \<noteq> name} = used_slots ?V - {i}" using slot(5) by auto
    have nfull: "\<not> (pfs_files p name = None \<and> used_slots ?V = {..<16})"
      using slot(2,6) by (auto simp: used_slots_def)
    note ss = sync_start [of ?sb ?need "pfs_len p", folded s_def, OF _ n64 unat_len_28 [OF d], unfolded bitmap_range_sel, OF sbl(2)]
    have f: "fits ?len ?V name (length b) \<longleftrightarrow> (\<exists>t. {t..<t + unat ?need} \<subseteq> {17..<min ?len 3825} - marked ?sb)"
      by (simp only: fits_def oth need m1)
    have fit: "0 < ?need \<and> s = 0 \<longleftrightarrow> refuse"
      unfolding ss(1) refuse f using nfull by blast
    have sync: "pfs_sync_file v p name = (if 0 < ?need \<and> s = 0 then (p, -1)
        else sync_write v p name (bitmap_range True s (unat ?need) ?sb) i s ?need ?sz)"
      unfolding start slot(1) by (simp add: s_def Let_def)
    show ?thesis
    proof (cases refuse)
      case True
      then show ?thesis using sync fit by simp
    next
      case False
      then have ok: "\<not> (0 < ?need \<and> s = 0)" using fit by simp
      then have rs: "{unat s..<unat s + unat ?need} \<subseteq> {17..<min ?len 3825} - marked ?sb" by (rule ss(2))
      let ?sb2 = "bitmap_range True s (unat ?need) ?sb" and ?e = "new_entry name ?sz s"
      have re: "run ?e = {unat s..<unat s + unat ?need}" by (simp add: run_def nsec_def usz need)
      have rs2: "{unat s..<unat s + unat ?need} \<subseteq> {17..<?len}" using rs by (rule subset_trans) auto
      obtain p' nf where w: "sync_write v p name ?sb2 i s ?need ?sz = (p', 0)" "dsk_ok p'" "dsk_cfg p' = dsk_cfg p"
          and sb': "sbv (dsk_view p') = ?sb2\<lparr>sb_nfiles := nf\<rparr>" "unat nf = card (used_slots (dsk_view p'))"
          and ei: "ent (dsk_view p') i = ?e" and ej: "\<And>j. j < 16 \<Longrightarrow> j \<noteq> i \<Longrightarrow> ent (dsk_view p') j = ent ?V j"
          and data: "\<And>k. 17 \<le> k \<Longrightarrow> k < ?len \<Longrightarrow> dsk_view p' k =
            (if unat s \<le> k \<and> k < unat s + unat ?need then file_sector b (int (length b)) (k - unat s) else ?V k)"
        by (rule sync_write_in [OF d l17 slot(2) rs2 _ _ rd, of ?sb2 ?sz]) (use sbl in simp, use sbl in simp, rule that)
      have w32: "unat s + unat ?need < 2 ^ 32"
      proof (cases "unat ?need = 0")
        case False
        then have "unat s \<in> {17..<min ?len 3825}" using subsetD [OF rs, of "unat s"] by simp
        then show ?thesis using n64 by simp
      qed (use u32_lt [of s] in simp)
      have m2: "marked ?sb2 = marked ?sb \<union> run ?e"
        using marked_range [of ?sb s "unat ?need" True] w32 sbl(2) rs re by auto
      have new: "ename ?e = name" "entry_used ?e" "0 \<in> set (e_name ?e)" using ename_new_entry [OF n(1)] n(2) by auto
      have others: "j \<in> used_slots ?V \<Longrightarrow> j \<noteq> i \<Longrightarrow> run (ent ?V j) \<subseteq> marked ?sb" for j unfolding m1 by blast
      have keep: "dsk_view p' k = ?V k" if "j \<in> used_slots ?V" "j \<noteq> i" "k \<in> run (ent ?V j)" for j k
      proof -
        have "k \<in> {17..<min ?len 3825}" using L that(1,3) unfolding layout_def entry_good_def by blast
        moreover have "k \<notin> {unat s..<unat s + unat ?need}" using others [OF that(1,2)] that(3) rs by blast
        ultimately show ?thesis using data [of k] by auto
      qed
      have "run ?e \<subseteq> {17..<min ?len 3825}" using rs unfolding re by blast
      then have good: "entry_good ?len ?e" using new(3) b32 unfolding entry_good_def new_entry_sel usz by blast
      have fresh: "entries_apart (ent ?V j) ?e" if "j \<in> used_slots ?V" "j \<noteq> i" for j
      proof -
        have "run (ent ?V j) \<inter> run ?e = {}" using others [OF that] rs unfolding re by blast
        then show ?thesis using slot(5) [OF that(1)] that(2) by (simp add: entries_apart_def new(1))
      qed
      have bits: "marked (sbv (dsk_view p')) = (marked (sbv ?V) - slot_run ?V i) \<union> run ?e"
        using m1 m2 layout_others [OF L slot(2)] by (simp add: sb' marked_def)
      have valid: "sb_valid (sbv (dsk_view p'))" using val by (simp add: sb' sb_valid_def)
      note change = layout_change [OF L slot(2), of "dsk_view p'" "slot_run ?V i" "run ?e", unfolded ei]
      have L': "layout ?len (dsk_view p')"
        by (rule change(1)) (use ej keep good fresh bits valid sb' new(2) in \<open>auto simp: slot_run_def\<close>)
      have fd: "file_data (dsk_view p') ?e = b"
      proof (rule file_data_written [OF b32])
        show "dsk_view p' k = file_sector b (int (length b)) (k - unat (e_start ?e))" if "k \<in> run ?e" for k
          using that data [of k] rs unfolding re by auto
      qed (simp add: usz)
      have "pfs_files p' m = (if entry_used ?e \<and> m = ename ?e then Some (file_data (dsk_view p') ?e)
          else if entry_used (ent ?V i) \<and> m = ename (ent ?V i) then None else pfs_files p m)" for m
        by (rule change(2)) (use ej keep good fresh bits valid sb' new(2) in \<open>auto simp: slot_run_def\<close>)
      then have "pfs_files p' = (pfs_files p)(name \<mapsto> b)"
        using new fd slot(2) slot(5) [of i] by (auto simp: fun_eq_iff used_slots_def)
      moreover have "vol_ok p'" using w(2) L' cfg_len(1) [OF w(3)] by (simp add: vol_ok_def)
      moreover have "slot_name (dsk_view p') j = slot_name ?V j" if "j < 16" "pfs_files p name \<noteq> None" for j
        using that slot(2,5,6) ej [OF that(1)] ei new by (cases "j = i") (auto simp: slot_name_def used_slots_def)
      ultimately show ?thesis using False sync ok w by auto
    qed
  qed
qed

subsection \<open>\<open>pfs_delete_file\<close>\<close>

lemma empty_entry_sel [simp]:
  "length (e_name empty_entry) = 32" "length (e_reserved empty_entry) = 468" "\<not> entry_used empty_entry"
  by (simp_all add: empty_entry_def entry_used_def entry_of_def)

lemma pfs_delete_ok:
  assumes p: "vol_ok p" "mounted p" and n: "fs_name_ok name" "name \<noteq> []"
  shows "\<exists>p'. pfs_delete_file v p name = (p', 0) \<and> vol_ok p' \<and> dsk_cfg p' = dsk_cfg p \<and> pfs_files p' = (pfs_files p)(name := None)"
proof -
  let ?V = "dsk_view p" and ?len = "unat (pfs_len p)"
  have d: "dsk_ok p" and L: "layout ?len ?V" and l17: "17 \<le> ?len" using p(1) vol_len by (auto simp: vol_ok_def)
  have n0: "0 \<notin> set name" using n by (simp add: fs_name_ok_def)
  note sb = sb_read_in [OF d l17]
  have V0: "length (?V 0) = 512" using view_512 [OF d] l17 by simp
  have sbl: "length (sb_magic (sbv ?V)) = 8" "length (sb_bitmap (sbv ?V)) = 476" using V0 by (simp_all add: sbv_def)
  have val: "sb_valid (sbv ?V)" using L by (simp add: layout_def)
  have look: "pfs_lookup p name [0..<16] = map_option (\<lambda>i. (i, ent ?V i)) (slot_of ?V name [0..<16])"
    by (rule pfs_lookup_eq [OF p(1) n0]) simp
  show ?thesis
  proof (cases "slot_of ?V name [0..<16]")
    case None
    then have "pfs_files p name = None" by (intro disk_files_None) (simp add: slot_of_None)
    then have "(pfs_files p)(name := None) = pfs_files p" by (simp add: fun_upd_idem)
    then show ?thesis using None look p n sb val by (simp add: pfs_delete_file_def PFS_TABLE_SECTORS_def)
  next
    case (Some i)
    then have i: "i \<in> used_slots ?V" "ename (ent ?V i) = name" using slot_of_Some by auto
    then have i16: "i < 16" and iu: "entry_used (ent ?V i)" by (auto simp: used_slots_def)
    let ?e = "ent ?V i"
    let ?sb = "bitmap_range False (e_start ?e) (unat (size_sectors (e_size ?e))) (sbv ?V)"
    have m: "marked ?sb = marked (sbv ?V) - slot_run ?V i"
      using marked_range [OF sbl(2), of "e_start ?e" "nsec ?e" False] run_small [OF L i(1)] iu
      by (simp add: slot_run_def run_def)
    obtain p2 p3 nf where w: "entry_write p i empty_entry = (p2, 0)"
        "sb_write p2 (?sb\<lparr>sb_nfiles := count_files p2\<rparr>) = (p3, 0)" "dsk_ok p3" "dsk_cfg p3 = dsk_cfg p"
      and sb': "sbv (dsk_view p3) = ?sb\<lparr>sb_nfiles := nf\<rparr>" "unat nf = card (used_slots (dsk_view p3))"
      and ei: "ent (dsk_view p3) i = empty_entry"
      and ej: "\<And>j. j < 16 \<Longrightarrow> j \<noteq> i \<Longrightarrow> ent (dsk_view p3) j = ent ?V j"
      and keep: "\<And>k. 17 \<le> k \<Longrightarrow> k < ?len \<Longrightarrow> dsk_view p3 k = ?V k"
      by (rule commit_entry [OF d l17 i16 empty_entry_sel(1,2), of ?sb]) (use sbl in simp, use sbl in simp, rule that)
    have del: "pfs_delete_file v p name = (p3, 0)"
      using p(2) n(2) sb val look Some w(1,2) by (simp add: pfs_delete_file_def PFS_TABLE_SECTORS_def Let_def)
    have keep': "dsk_view p3 k = ?V k" if "j \<in> used_slots ?V" "k \<in> run (ent ?V j)" for j k
    proof -
      have "k \<in> {17..<min ?len 3825}" using L that unfolding layout_def entry_good_def by blast
      then show ?thesis using keep by simp
    qed
    have bits: "marked (sbv (dsk_view p3)) = (marked (sbv ?V) - slot_run ?V i) \<union> {}"
      using m by (simp add: sb' marked_def)
    have valid: "sb_valid (sbv (dsk_view p3))" using val by (simp add: sb' sb_valid_def)
    note change = layout_change [OF L i16, of "dsk_view p3" "slot_run ?V i" "{}", unfolded ei]
    have L': "layout ?len (dsk_view p3)"
      by (rule change(1)) (use ej keep' bits valid sb' in \<open>auto simp: slot_run_def\<close>)
    have "pfs_files p3 m = (if entry_used empty_entry \<and> m = ename empty_entry then Some (file_data (dsk_view p3) empty_entry)
        else if entry_used ?e \<and> m = ename ?e then None else pfs_files p m)" for m
      by (rule change(2)) (use ej keep' bits valid sb' in \<open>auto simp: slot_run_def\<close>)
    then have "pfs_files p3 = (pfs_files p)(name := None)" using i(2) iu by (auto simp: fun_eq_iff)
    moreover have "vol_ok p3" using w(3) L' cfg_len(1) [OF w(4)] by (simp add: vol_ok_def)
    ultimately show ?thesis using del w(4) by auto
  qed
qed

end
