(* ===== verification/Pfs_Mount.thy ===== *)
theory Pfs_Mount
  imports Pfs_Ops
begin

text \<open>
  The persistent file system behind the in-memory one: the contract of the write-through hooks as a
  locale, its interpretation on \<open>pfs_sync_file\<close> and \<open>pfs_delete_file\<close>, formatting and mounting.
\<close>

subsection \<open>The contract of the hooks\<close>

text \<open>\<open>room d n k\<close> says that the store has room for \<open>k\<close> bytes under the name \<open>n\<close>.\<close>

locale persist =
  fixes sync del :: "'d hook"
    and stored :: "'d \<Rightarrow> bytes \<Rightarrow> bytes option"
    and good :: "'d \<Rightarrow> bool"
    and room :: "'d \<Rightarrow> bytes \<Rightarrow> nat \<Rightarrow> bool"
  assumes sync_room: "good d \<Longrightarrow> vfs_ok v \<Longrightarrow> fs_name_ok n \<Longrightarrow> n \<noteq> [] \<Longrightarrow> contents v n = Some b \<Longrightarrow> room d n (length b) \<Longrightarrow>
      \<exists>d'. sync v d n = (d', 0) \<and> good d' \<and> stored d' = (stored d)(n \<mapsto> b)"
    and sync_full: "good d \<Longrightarrow> vfs_ok v \<Longrightarrow> fs_name_ok n \<Longrightarrow> n \<noteq> [] \<Longrightarrow> contents v n = Some b \<Longrightarrow> \<not> room d n (length b) \<Longrightarrow>
      sync v d n = (d, -1)"
    and del_good: "good d \<Longrightarrow> fs_name_ok n \<Longrightarrow> n \<noteq> [] \<Longrightarrow>
      \<exists>d'. del v d n = (d', 0) \<and> good d' \<and> stored d' = (stored d)(n := None)"
begin

definition attached :: "'d fs \<Rightarrow> bool" where
  "attached s \<longleftrightarrow> vfs_ok (fs_vfs s) \<and> good (fs_disk s) \<and> persist_sync_fn s = Some sync \<and> persist_delete_fn s = Some del"

text \<open>The names whose stored contents are not the present ones.\<close>

definition stale :: "'d fs \<Rightarrow> bytes set" where
  "stale s = {m. fs_name_ok m \<and> m \<noteq> [] \<and> stored (fs_disk s) m \<noteq> contents (fs_vfs s) m}"

lemma hook_sync:
  assumes a: "attached s" and v: "vfs_ok v" and n: "fs_name_ok name" "name \<noteq> []"
    and c: "\<And>m. 0 \<notin> set m \<Longrightarrow> contents v m = (if m = name then Some b else contents (fs_vfs s) m)"
  defines "s' \<equiv> fs_hook (persist_sync_fn s) name (s\<lparr>fs_vfs := v\<rparr>)"
  shows "attached s'" "fs_vfs s' = v" "stale s' \<subseteq> insert name (stale s)"
    "room (fs_disk s) name (length b) \<Longrightarrow> stale s' = stale s - {name} \<and> stored (fs_disk s') = (stored (fs_disk s))(name \<mapsto> b)"
proof -
  have g: "good (fs_disk s)" "persist_sync_fn s = Some sync" "persist_delete_fn s = Some del" using a by (simp_all add: attached_def)
  have n0: "0 \<notin> set name" using n by (simp add: fs_name_ok_def)
  have b: "contents v name = Some b" using c [OF n0] by simp
  have s': "s' = s\<lparr>fs_vfs := v, fs_disk := fst (sync v (fs_disk s) name)\<rparr>"
    by (simp add: s'_def fs_hook_def g)
  have nm: "fs_name_ok m \<Longrightarrow> 0 \<notin> set m" for m by (simp add: fs_name_ok_def)
  have *: "good (fst (sync v (fs_disk s) name)) \<and>
      (if room (fs_disk s) name (length b) then stored (fst (sync v (fs_disk s) name)) = (stored (fs_disk s))(name \<mapsto> b)
       else stored (fst (sync v (fs_disk s) name)) = stored (fs_disk s))"
    using sync_room [OF g(1) v n b] sync_full [OF g(1) v n b] g(1) by auto
  show "attached s'" "fs_vfs s' = v" using * v g by (simp_all add: s' attached_def)
  show "stale s' \<subseteq> insert name (stale s)"
    using * c nm by (auto simp: s' stale_def split: if_splits)
  show "stale s' = stale s - {name} \<and> stored (fs_disk s') = (stored (fs_disk s))(name \<mapsto> b)"
    if "room (fs_disk s) name (length b)"
    using * c nm that b by (auto simp: s' stale_def)
qed

lemma write_kept:
  assumes a: "attached s" and n: "fs_name_ok name" "name \<noteq> []" and len: "0 \<le> len" "nat len \<le> length data"
    and w: "fs_write s name data len = (s', r)"
  shows "attached s' \<and> stale s' \<subseteq> insert name (stale s) \<and>
    (room (fs_disk s) name (min (nat len) FS_MAX_SIZE) \<and> r \<noteq> -1 \<longrightarrow> name \<notin> stale s') \<and> (r = -1 \<longrightarrow> s' = s)"
proof -
  have v: "vfs_ok (fs_vfs s)" using a by (simp add: attached_def)
  from v n(1) len show ?thesis
  proof (cases rule: fs_write_cases [of s name len data, case_names full stored])
    case full
    then show ?thesis using a w by auto
  next
    case (stored u)
    let ?b = "take (min (nat len) FS_MAX_SIZE) data"
    note h = hook_sync [OF a stored(2) n stored(4)]
    have "length ?b = min (nat len) FS_MAX_SIZE" using len by simp
    then show ?thesis using w stored(1) h len(1) by (auto simp: FS_MAX_SIZE_def)
  qed
qed

lemma append_kept:
  assumes a: "attached s" and n: "fs_name_ok name" "name \<noteq> []" and len: "0 \<le> len" "nat len \<le> length data"
  shows "\<exists>s' r. fs_append s name data len = Some (s', r) \<and> attached s' \<and> stale s' \<subseteq> insert name (stale s) \<and>
    (room (fs_disk s) name (length (old_bytes (fs_vfs s') name)) \<and> r \<noteq> -1 \<longrightarrow> name \<notin> stale s') \<and> (r = -1 \<longrightarrow> s' = s)"
proof -
  have v: "vfs_ok (fs_vfs s)" using a by (simp add: attached_def)
  have n0: "0 \<notin> set name" using n by (simp add: fs_name_ok_def)
  from v n(1) len show ?thesis
  proof (cases rule: fs_append_cases [of s name len data, case_names full stored])
    case full
    then show ?thesis using a by auto
  next
    case (stored u old k)
    note h = hook_sync [OF a stored(2) n stored(6)]
    show ?thesis using stored(1) h stored(6) [OF n0] by (auto simp: old_bytes_def)
  qed
qed

lemma delete_kept:
  assumes a: "attached s" and n: "fs_name_ok name" "name \<noteq> []" and w: "fs_delete s name = (s', r)"
  shows "attached s' \<and> stale s' \<subseteq> stale s \<and> (r = 1 \<longrightarrow> name \<notin> stale s')"
proof -
  have v: "vfs_ok (fs_vfs s)" using a by (simp add: attached_def)
  have n0: "0 \<notin> set name" using n by (simp add: fs_name_ok_def)
  have nm: "fs_name_ok m \<Longrightarrow> 0 \<notin> set m" for m by (simp add: fs_name_ok_def)
  from v n0 show ?thesis
  proof (cases rule: fs_delete_cases [case_names absent gone])
    case absent
    then show ?thesis using a w by auto
  next
    case (gone u)
    obtain d where d: "del u (fs_disk s) name = (d, 0)" "good d" "stored d = (stored (fs_disk s))(name := None)"
      using del_good [of "fs_disk s" name u] a n by (auto simp: attached_def)
    have s': "s' = s\<lparr>fs_vfs := u, fs_disk := d\<rparr>" "r = 1"
      using w gone(1) a d(1) by (auto simp: fs_hook_def attached_def)
    show ?thesis using a gone(2,4) d nm unfolding s' attached_def stale_def by auto
  qed
qed

end

subsection \<open>OKPFS1 keeps the contract\<close>

definition can_store :: "pfs \<Rightarrow> bytes \<Rightarrow> nat \<Rightarrow> bool" where
  "can_store p name k \<longleftrightarrow> \<not> (pfs_files p name = None \<and> used_slots (dsk_view p) = {..<16}) \<and>
     fits (unat (pfs_len p)) (dsk_view p) name k"

definition pfs_good :: "pfs \<Rightarrow> bool" where
  "pfs_good p \<longleftrightarrow> vol_ok p \<and> mounted p"

interpretation hooks: persist pfs_sync_file pfs_delete_file pfs_files pfs_good can_store
proof unfold_locales
  fix d v n b
  assume g: "pfs_good d" "vfs_ok v" "fs_name_ok n" "n \<noteq> []" "contents v n = Some b"
  have r: "\<not> can_store d n (length b) \<longleftrightarrow> (pfs_files d n = None \<and> used_slots (dsk_view d) = {..<16}) \<or>
      \<not> fits (unat (pfs_len d)) (dsk_view d) n (length b)" unfolding can_store_def by blast
  have d: "vol_ok d" "mounted d" using g(1) by (simp_all add: pfs_good_def)
  note s = pfs_sync_ok [OF d g(2-5) r]
  show "\<exists>d'. pfs_sync_file v d n = (d', 0) \<and> pfs_good d' \<and> pfs_files d' = (pfs_files d)(n \<mapsto> b)" if c: "can_store d n (length b)"
  proof -
    obtain d' where "pfs_sync_file v d n = (d', 0)" "vol_ok d'" "dsk_cfg d' = dsk_cfg d" "pfs_files d' = (pfs_files d)(n \<mapsto> b)"
      using s c by (simp only: if_False not_True_eq_False) blast
    then show ?thesis using d cfg_len(2) [of d' d] by (auto simp: pfs_good_def)
  qed
  show "pfs_sync_file v d n = (d, -1)" if "\<not> can_store d n (length b)"
    using s that by simp
next
  fix d n v
  assume "pfs_good d" "fs_name_ok n" "n \<noteq> []"
  then show "\<exists>d'. pfs_delete_file v d n = (d', 0) \<and> pfs_good d' \<and> pfs_files d' = (pfs_files d)(n := None)"
    unfolding pfs_good_def by (metis pfs_delete_ok cfg_len(2))
qed

definition attached_fs :: "pfs fs \<Rightarrow> bool" where
  "attached_fs s \<longleftrightarrow> vfs_ok (fs_vfs s) \<and> vol_ok (fs_disk s) \<and> mounted (fs_disk s) \<and>
     persist_sync_fn s = Some pfs_sync_file \<and> persist_delete_fn s = Some pfs_delete_file"

definition stale_names :: "pfs fs \<Rightarrow> bytes set" where
  "stale_names s = {m. fs_name_ok m \<and> m \<noteq> [] \<and> pfs_files (fs_disk s) m \<noteq> contents (fs_vfs s) m}"

lemma attached_fs_eq: "hooks.attached = attached_fs" "hooks.stale = stale_names"
  by (auto simp: fun_eq_iff hooks.attached_def attached_fs_def pfs_good_def hooks.stale_def stale_names_def)

text \<open>C9. Write-through. With the hooks of a mounted volume installed, \<open>fs_write\<close>, \<open>fs_append\<close> and
  \<open>fs_delete\<close> keep the invariants of the table and of the volume. Every other file whose copy on disk was
  current stays current, and the copy of the named file is current whenever the volume has room
  for it: a table slot and a free run of sectors, the present run of the file counted as free.\<close>

theorem write_through:
  assumes a: "attached_fs s" and n: "fs_name_ok name" "name \<noteq> []" and len: "0 \<le> len" "nat len \<le> length data"
  shows "(\<exists>s' r. fs_write s name data len = (s', r) \<and> attached_fs s' \<and> stale_names s' \<subseteq> insert name (stale_names s) \<and>
      (can_store (fs_disk s) name (min (nat len) FS_MAX_SIZE) \<and> r \<noteq> -1 \<longrightarrow> name \<notin> stale_names s')) \<and>
    (\<exists>s' r. fs_append s name data len = Some (s', r) \<and> attached_fs s' \<and> stale_names s' \<subseteq> insert name (stale_names s) \<and>
      (can_store (fs_disk s) name (length (old_bytes (fs_vfs s') name)) \<and> r \<noteq> -1 \<longrightarrow> name \<notin> stale_names s')) \<and>
    (\<exists>s' r. fs_delete s name = (s', r) \<and> attached_fs s' \<and> stale_names s' \<subseteq> stale_names s \<and> (r = 1 \<longrightarrow> name \<notin> stale_names s'))"
proof (intro conjI)
  note a' = a [folded attached_fs_eq]
  obtain s1 r1 where 1: "fs_write s name data len = (s1, r1)" by fastforce
  show "\<exists>s' r. fs_write s name data len = (s', r) \<and> attached_fs s' \<and> stale_names s' \<subseteq> insert name (stale_names s) \<and>
      (can_store (fs_disk s) name (min (nat len) FS_MAX_SIZE) \<and> r \<noteq> -1 \<longrightarrow> name \<notin> stale_names s')"
    using hooks.write_kept [OF a' n len 1, unfolded attached_fs_eq] 1 by blast
  show "\<exists>s' r. fs_append s name data len = Some (s', r) \<and> attached_fs s' \<and> stale_names s' \<subseteq> insert name (stale_names s) \<and>
      (can_store (fs_disk s) name (length (old_bytes (fs_vfs s') name)) \<and> r \<noteq> -1 \<longrightarrow> name \<notin> stale_names s')"
    using hooks.append_kept [OF a' n len, unfolded attached_fs_eq] by blast
  obtain s2 r2 where 2: "fs_delete s name = (s2, r2)" by fastforce
  show "\<exists>s' r. fs_delete s name = (s', r) \<and> attached_fs s' \<and> stale_names s' \<subseteq> stale_names s \<and> (r = 1 \<longrightarrow> name \<notin> stale_names s')"
    using hooks.delete_kept [OF a' n 2, unfolded attached_fs_eq] 2 by blast
qed

subsection \<open>Formatting\<close>

lemma clear_table_ok:
  assumes "dsk_ok p" "17 \<le> unat (pfs_len p)" "set is \<subseteq> {..<16}"
  shows "dsk_ok (clear_table p is) \<and> dsk_cfg (clear_table p is) = dsk_cfg p \<and>
    (\<forall>j < 16. j \<in> set is \<or> ent (dsk_view p) j = empty_entry \<longrightarrow> ent (dsk_view (clear_table p is)) j = empty_entry)"
  using assms
proof (induction "is" arbitrary: p)
  case (Cons i "is")
  have i: "i < 16" using Cons.prems(3) by simp
  then have u: "unat (PFS_TABLE_START + of_nat i) < unat (pfs_len p)" using table_lba [OF i] Cons.prems(2) by simp
  obtain q where q: "entry_write p i empty_entry = (q, 0)" "dsk_ok q" "dsk_cfg q = dsk_cfg p"
    and v: "\<And>k. k < unat (pfs_len p) \<Longrightarrow> dsk_view q k = (if k = Suc i then entry_bytes empty_entry else dsk_view p k)"
    using dsk_write_in [OF Cons.prems(1) u, of "entry_bytes empty_entry"] table_lba [OF i] length_entry_bytes [of empty_entry]
    unfolding entry_write_def by (metis empty_entry_sel(1,2))
  have e: "ent (dsk_view q) j = (if j = i then empty_entry else ent (dsk_view p) j)" if "j < 16" for j
    using v [of "Suc j"] that Cons.prems(2) by (simp add: ent_def entry_of_bytes)
  have "17 \<le> unat (pfs_len q)" using Cons.prems(2) cfg_len(1) [OF q(3)] by simp
  then show ?case using Cons.IH [OF q(2)] Cons.prems(3) e q by auto
qed simp

lemma replicate_marked: "sb_bitmap sb = replicate 476 0 \<Longrightarrow> marked sb = {}"
proof -
  assume b: "sb_bitmap sb = replicate 476 0"
  have "(s - 17) div 8 < 476" if "s < 3825" for s :: nat
    by (rule less_mult_imp_div_less) (use that in linarith)
  then show ?thesis by (auto simp: marked_def b)
qed

lemma sb_format_ok:
  assumes "dsk_ok p" "17 \<le> unat (pfs_len p)"
  shows "vol_ok (fst (sb_format p)) \<and> dsk_cfg (fst (sb_format p)) = dsk_cfg p \<and> pfs_files (fst (sb_format p)) = Map.empty"
proof -
  let ?q = "clear_table p [0..<16]"
  let ?sb = "(super_of (replicate 492 0))\<lparr>sb_magic := PFS_MAGIC @ [0, 0], sb_version := PFS_VERSION, sb_nfiles := 0\<rparr>"
  have q: "dsk_ok ?q" "dsk_cfg ?q = dsk_cfg p" "\<forall>j < 16. ent (dsk_view ?q) j = empty_entry"
    using clear_table_ok [OF assms, of "[0..<16]"] by (simp_all add: lessThan_atLeast0)
  have ql: "pfs_len ?q = pfs_len p" by (rule cfg_len(1) [OF q(2)])
  have sb: "length (sb_magic ?sb) = 8" "length (sb_bitmap ?sb) = 476"
    by (simp_all add: PFS_MAGIC_def super_of_def)
  let ?blk = "blit (replicate 512 0) 0 (super_bytes ?sb)"
  have 0: "unat PFS_SB_SECTOR < unat (pfs_len ?q)" using assms(2) by (simp add: PFS_SB_SECTOR_def ql)
  obtain r where r: "sb_write ?q ?sb = (r, 0)" "dsk_ok r" "dsk_cfg r = dsk_cfg ?q"
    and v: "\<And>i. i < unat (pfs_len p) \<Longrightarrow> dsk_view r i = (if i = unat PFS_SB_SECTOR then ?blk else dsk_view ?q i)"
    using dsk_write_in [OF q(1) 0 super_sector(2) [OF sb]] unfolding sb_write_def ql by blast
  note v = v [unfolded PFS_SB_SECTOR_def unat_0]
  have s: "sbv (dsk_view r) = ?sb" using v [of 0] assms(2) super_sector(1) [OF sb] by (simp add: sbv_def)
  have e: "ent (dsk_view r) j = empty_entry" if "j < 16" for j
    using v [of "Suc j"] q(3) that assms(2) by (simp add: ent_def)
  then have u: "used_slots (dsk_view r) = {}" by (auto simp: used_slots_def)
  have "marked ?sb = {}" by (rule replicate_marked) (simp add: super_of_def)
  then have "layout (unat (pfs_len p)) (dsk_view r)"
    using assms(2) by (simp add: layout_def u s sb_valid_def PFS_MAGIC_def)
  moreover have "pfs_files r = Map.empty" using disk_files_None [of "dsk_view r"] u by auto
  moreover have "fst (sb_format p) = r" using r(1) by (simp add: sb_format_def PFS_TABLE_SECTORS_def)
  moreover have "pfs_len r = pfs_len p" using cfg_len(1) [OF r(3)] ql by simp
  ultimately show ?thesis using r q(2) by (simp add: vol_ok_def)
qed

subsection \<open>Mounting\<close>

lemma length_concat_512: "\<forall>x \<in> set xs. length (f x) = 512 \<Longrightarrow> length (concat (map f xs)) = 512 * length xs"
  by (induction xs) auto

lemma length_file_data:
  assumes "dsk_ok p" "entry_good (unat (pfs_len p)) e"
  shows "length (file_data (dsk_view p) e) = unat (e_size e)"
proof -
  have "length (dsk_view p i) = 512" if "i \<in> run e" for i
  proof -
    have "i \<in> {17..<min (unat (pfs_len p)) 3825}" using assms(2) that unfolding entry_good_def by blast
    then show ?thesis using view_512 [OF assms(1), of i] by simp
  qed
  then have "length (concat (map (dsk_view p) [unat (e_start e)..<unat (e_start e) + nsec e])) = 512 * nsec e"
    by (subst length_concat_512) (simp_all add: run_def)
  moreover have "unat (e_size e) \<le> 512 * nsec e" unfolding nsec_def by linarith
  ultimately show ?thesis by (simp add: file_data_def)
qed

lemma fits_again:
  assumes L: "layout len V" and i: "i \<in> used_slots V"
  shows "fits len V (ename (ent V i)) (unat (e_size (ent V i)))"
proof -
  let ?e = "ent V i"
  have "run (ent V j) \<inter> run ?e = {}" if "j \<in> used_slots V" "ename (ent V j) \<noteq> ename ?e" for j
    using layout_entries [OF L that(1) i] that(2) by (cases "j = i") (auto simp: entries_apart_def)
  moreover have "run ?e \<subseteq> {17..<min len 3825}" using L i by (simp add: layout_def entry_good_def)
  ultimately have "run ?e \<subseteq> {17..<min len 3825} - (\<Union>j \<in> {j \<in> used_slots V. ename (ent V j) \<noteq> ename ?e}. run (ent V j))"
    by blast
  then show ?thesis unfolding fits_def run_def nsec_def by blast
qed

lemma vfs_full_card:
  assumes v: "vfs_ok v" and full: "\<forall>i < FS_MAX_FILES. fs_used (files v ! i)"
    and A: "\<And>m. 0 \<notin> set m \<Longrightarrow> contents v m \<noteq> None \<Longrightarrow> m \<in> A" and f: "finite A"
  shows "16 \<le> card A"
proof -
  let ?g = "\<lambda>i. name_str (files v ! i)"
  have "inj_on ?g {..<FS_MAX_FILES}" using v full unfolding vfs_ok_def inj_on_def by blast
  then have "card (?g ` {..<FS_MAX_FILES}) = 16" by (simp add: card_image FS_MAX_FILES_def)
  moreover have "?g i \<in> A" if "i < FS_MAX_FILES" for i
  proof (rule A)
    show n0: "0 \<notin> set (?g i)" by (auto simp: name_str_def dest: set_takeWhileD)
    show "contents v (?g i) \<noteq> None"
      using find_file_iff(1) [OF v n0, of i] that full by (simp add: contents_def)
  qed
  ultimately show ?thesis using card_mono [OF f, of "?g ` {..<FS_MAX_FILES}"] by auto
qed

lemma ename_ok:
  assumes "entry_good len e" "length (e_name e) = 32" "entry_used e"
  shows "fs_name_ok (ename e)" "ename e \<noteq> []"
proof -
  have "length (takeWhile (\<lambda>c. c \<noteq> 0) xs) < length xs" if "0 \<in> set xs" for xs :: bytes
    using that by (induction xs) auto
  from this [of "e_name e"] show "fs_name_ok (ename e)"
    using assms(1,2) by (auto simp: fs_name_ok_def ename_def FS_MAX_NAME_def entry_good_def dest: set_takeWhileD)
  show "ename e \<noteq> []"
    using assms(2,3) by (cases "e_name e") (simp_all add: ename_def entry_used_def)
qed

lemma hydrate_ok:
  assumes "attached_fs s" "k \<le> 16"
    and "\<And>m. 0 \<notin> set m \<Longrightarrow> contents (fs_vfs s) m =
      (if \<exists>j < k. slot_name (dsk_view (fs_disk s)) j = Some m then pfs_files (fs_disk s) m else None)"
  shows "attached_fs (hydrate s [k..<16]) \<and> pfs_files (fs_disk (hydrate s [k..<16])) = pfs_files (fs_disk s) \<and>
    (\<forall>m. 0 \<notin> set m \<longrightarrow> contents (fs_vfs (hydrate s [k..<16])) m =
      (if \<exists>j < 16. slot_name (dsk_view (fs_disk s)) j = Some m then pfs_files (fs_disk s) m else None))"
  using assms
proof (induction "16 - k" arbitrary: k s)
  case 0
  then show ?case by simp
next
  case (Suc d)
  then have k: "k < 16" by simp
  let ?p = "fs_disk s" and ?V = "dsk_view (fs_disk s)"
  have vo: "vol_ok ?p" and mt: "mounted ?p" and vk: "vfs_ok (fs_vfs s)" and hk: "persist_sync_fn s = Some pfs_sync_file"
    using Suc.prems(1) by (simp_all add: attached_fs_def)
  have dk: "dsk_ok ?p" and L: "layout (unat (pfs_len ?p)) ?V" and l17: "17 \<le> unat (pfs_len ?p)"
    using vo vol_len by (auto simp: vol_ok_def)
  let ?e = "ent ?V k"
  have h: "hydrate s [k..<16] = (if \<not> entry_used ?e \<or> PFS_FILE_MAX < e_size ?e then hydrate s [Suc k..<16]
      else let name = ename ?e; file_buf = fst (load_entry ?p ?e)
        in hydrate (fst (fs_write s name file_buf (int (length file_buf)))) [Suc k..<16])"
    using k entry_read_in [OF dk l17 k] by (simp add: upt_conv_Cons ename_def)
  have less: "(\<exists>j < Suc k. Q j) \<longleftrightarrow> (\<exists>j < k. Q j) \<or> Q k" for Q by (auto simp: less_Suc_eq)
  show ?case
  proof (cases "entry_used ?e")
    case False
    then have "slot_name ?V k = None" by (simp add: slot_name_def)
    then show ?thesis using Suc.hyps(1) [of "Suc k" s] Suc.hyps(2) Suc.prems False h k by (simp add: less)
  next
    case True
    then have ku: "k \<in> used_slots ?V" using k by (simp add: used_slots_def)
    then have g: "entry_good (unat (pfs_len ?p)) ?e" using L by (simp add: layout_def)
    let ?n = "ename ?e" let ?b = "file_data ?V ?e"
    have V32: "length (e_name ?e) = 32" using view_512 [OF dk] k l17 by (simp add: ent_def)
    note n = ename_ok [OF g V32 True]
    have n0: "0 \<notin> set ?n" using n(1) by (simp add: fs_name_ok_def)
    have lb: "length ?b = unat (e_size ?e)" by (rule length_file_data [OF dk g])
    have sz: "unat (e_size ?e) \<le> 32768" using g by (simp add: entry_good_def)
    have l32: "length ?b \<le> 32768" using lb sz by simp
    have F: "pfs_files ?p ?n = Some ?b" by (rule disk_files_Some [OF L ku refl])
    obtain u where w: "fs_write s ?n ?b (int (length ?b)) = (fs_hook (persist_sync_fn s) ?n (s\<lparr>fs_vfs := u\<rparr>), int (length ?b))"
        "vfs_ok u" and cu: "\<And>m. 0 \<notin> set m \<Longrightarrow> contents u m = (if m = ?n then Some ?b else contents (fs_vfs s) m)"
    proof (cases rule: fs_write_cases [OF vk n(1), of "int (length ?b)" ?b, case_names pos len full stored])
      case full
      have "m \<in> (\<lambda>j. the (slot_name ?V j)) ` {..<k}" if "0 \<notin> set m" "contents (fs_vfs s) m \<noteq> None" for m
        using that Suc.prems(3) [OF that(1)] by (force split: if_splits)
      then have "16 \<le> card ((\<lambda>j. the (slot_name ?V j)) ` {..<k})" by (intro vfs_full_card [OF vk full(3)]) auto
      also have "\<dots> \<le> k" using card_image_le [of "{..<k}" "\<lambda>j. the (slot_name ?V j)"] by simp
      finally show ?thesis using k by simp
    next
      case (stored u)
      have m: "min (int (length ?b)) (int FS_MAX_SIZE) = int (length ?b)" "take (min (nat (int (length ?b))) FS_MAX_SIZE) ?b = ?b"
        using l32 by (simp_all add: FS_MAX_SIZE_def)
      show ?thesis by (rule that [OF stored(1) [unfolded m] stored(2) stored(4) [unfolded m]])
    qed simp_all
    have cb: "contents u ?n = Some ?b" using cu [OF n0] by simp
    have "fits (unat (pfs_len ?p)) ?V ?n (length ?b)" using fits_again [OF L ku] by (simp add: lb)
    then obtain q where q: "pfs_sync_file u ?p ?n = (q, 0)" "vol_ok q" "dsk_cfg q = dsk_cfg ?p"
        "pfs_files q = (pfs_files ?p)(?n \<mapsto> ?b)" and sn: "\<forall>j < 16. slot_name (dsk_view q) j = slot_name ?V j"
      using pfs_sync_ok [OF vo mt w(2) n cb, of False] F by auto
    have qF: "pfs_files q = pfs_files ?p" using q(4) F by (simp add: fun_upd_idem)
    let ?t = "s\<lparr>fs_vfs := u, fs_disk := q\<rparr>"
    have wt: "fst (fs_write s ?n ?b (int (length ?b))) = ?t" using w(1) q(1) hk by (simp add: fs_hook_def)
    have at: "attached_fs ?t" using Suc.prems(1) w(2) q cfg_len(2) [OF q(3)] by (simp add: attached_fs_def)
    have "\<not> PFS_FILE_MAX < e_size ?e" using sz by (simp add: PFS_FILE_MAX_def word_less_nat_alt)
    then have hs: "hydrate s [k..<16] = hydrate ?t [Suc k..<16]"
      using h True wt load_entry_ok [OF dk g] by simp
    have sk: "slot_name ?V k = Some ?n" using True by (simp add: slot_name_def)
    have "contents (fs_vfs ?t) m = (if \<exists>j < Suc k. slot_name (dsk_view (fs_disk ?t)) j = Some m then pfs_files (fs_disk ?t) m else None)"
      if "0 \<notin> set m" for m
    proof -
      have "(\<exists>j < Suc k. slot_name (dsk_view q) j = Some m) \<longleftrightarrow> (\<exists>j < k. slot_name ?V j = Some m) \<or> m = ?n"
        unfolding less using sn k sk by auto
      then show ?thesis using cu [OF that] Suc.prems(3) [OF that] F by (auto simp: qF)
    qed
    moreover have "(\<exists>j < 16. slot_name (dsk_view q) j = Some m) \<longleftrightarrow> (\<exists>j < 16. slot_name ?V j = Some m)" for m
      using sn by auto
    ultimately show ?thesis using Suc.hyps(1) [of "Suc k" ?t, OF _ at] Suc.hyps(2) k by (simp add: hs qF) blast
  qed
qed

lemma slot_name_files:
  assumes "layout len V"
  shows "(if \<exists>j < 16. slot_name V j = Some m then disk_files V m else None) = disk_files V m"
proof (cases "\<exists>j < 16. slot_name V j = Some m")
  case False
  then have "disk_files V m = None"
    by (intro disk_files_None) (auto simp: slot_name_def used_slots_def split: if_splits)
  then show ?thesis by simp
qed simp

text \<open>The state before the mount: an empty table, the hooks installed, a working drive with at least the
  17 sectors of superblock and table in the partition.\<close>

definition boots :: "pfs fs \<Rightarrow> bool" where
  "boots s \<longleftrightarrow> vfs_ok (fs_vfs s) \<and> (\<forall>m. 0 \<notin> set m \<longrightarrow> contents (fs_vfs s) m = None) \<and> dsk_ok (fs_disk s) \<and>
     17 \<le> unat (pfs_len (fs_disk s)) \<and>
     persist_sync_fn s = Some pfs_sync_file \<and> persist_delete_fn s = Some pfs_delete_file"

lemma mount_core:
  assumes b: "boots s" and s': "s' = pfs_mount s"
    and ok: "sb_valid (sbv (dsk_view (fs_disk s))) \<longrightarrow> vol_ok (fs_disk s)"
  shows "attached_fs s' \<and> stale_names s' = {} \<and>
    pfs_files (fs_disk s') = (if sb_valid (sbv (dsk_view (fs_disk s))) then pfs_files (fs_disk s) else Map.empty)"
proof -
  let ?p = "fs_disk s"
  have d: "dsk_ok ?p" and l: "17 \<le> unat (pfs_len ?p)" using b by (simp_all add: boots_def)
  define q where "q = (if sb_valid (sbv (dsk_view ?p)) then ?p else fst (sb_format ?p))"
  have q: "vol_ok q" "dsk_cfg q = dsk_cfg ?p" "pfs_files q = (if sb_valid (sbv (dsk_view ?p)) then pfs_files ?p else Map.empty)"
    using ok sb_format_ok [OF d l] by (auto simp: q_def)
  then have qd: "dsk_ok q" and L: "layout (unat (pfs_len q)) (dsk_view q)" and ql: "17 \<le> unat (pfs_len q)"
    using vol_len by (auto simp: vol_ok_def)
  let ?t = "s\<lparr>fs_disk := q\<lparr>mounted := True\<rparr>\<rparr>"
  have view: "dsk_view (q\<lparr>mounted := True\<rparr>) = dsk_view q" by (simp add: fun_eq_iff dsk_view_def)
  have mnt: "pfs_mount s = hydrate ?t [0..<16]"
    using sb_read_in [OF d l] sb_read_in [OF qd ql] L by (auto simp: pfs_mount_def q_def layout_def PFS_TABLE_SECTORS_def Let_def)
  have at: "attached_fs ?t"
    using b q(1) by (simp add: attached_fs_def boots_def vol_ok_def dsk_ok_def view)
  have hy: "attached_fs s' \<and> pfs_files (fs_disk s') = pfs_files (fs_disk ?t) \<and> (\<forall>m. 0 \<notin> set m \<longrightarrow> contents (fs_vfs s') m =
      (if \<exists>j < 16. slot_name (dsk_view (fs_disk ?t)) j = Some m then pfs_files (fs_disk ?t) m else None))"
    unfolding s' mnt by (rule hydrate_ok [OF at]) (use b in \<open>simp_all add: boots_def\<close>)
  have tq: "dsk_view (fs_disk ?t) = dsk_view q" by (simp add: view)
  have h: "attached_fs s'" "pfs_files (fs_disk s') = pfs_files q" "\<And>m. 0 \<notin> set m \<Longrightarrow> contents (fs_vfs s') m = pfs_files q m"
    using hy unfolding tq slot_name_files [OF L] by blast+
  then have "stale_names s' = {}" by (auto simp: stale_names_def fs_name_ok_def)
  then show ?thesis using h q(3) by simp
qed

text \<open>C10. Mounting. On a volume that satisfies the invariant the mount loads every file: afterwards the
  in-memory files are exactly the stored ones, the stored ones are what they were (although loading
  writes every file back, possibly to other sectors), and the invariants hold. Without a valid
  superblock the volume is formatted and both are empty.\<close>

theorem pfs_mount_restores:
  assumes b: "boots s" and s': "s' = pfs_mount s"
    and ok: "sb_valid (sbv (dsk_view (fs_disk s))) \<longrightarrow> vol_ok (fs_disk s)"
  shows "attached_fs s' \<and> stale_names s' = {} \<and>
    pfs_files (fs_disk s') = (if sb_valid (sbv (dsk_view (fs_disk s))) then pfs_files (fs_disk s) else Map.empty)"
  by (rule mount_core [OF assms])

definition boot_pfs :: "pfs fs" where
  "boot_pfs = \<lparr>fs_vfs = fs_vfs boot_fs, fs_disk = \<lparr>disk = blank_disk, pfs_base = 0, pfs_len = 2048, mounted = False\<rparr>,
     persist_sync_fn = Some pfs_sync_file, persist_delete_fn = Some pfs_delete_file\<rparr>"

lemma boot_pfs_boots: "boots boot_pfs" "\<not> sb_valid (sbv (dsk_view (fs_disk boot_pfs)))"
proof -
  show "boots boot_pfs"
    using blank_disk_ok boot_ok boot_empty(1)
    by (auto simp: boots_def boot_pfs_def contents_def dsk_ok_def blank_disk_def ata_write_protected_def in_ranges_def)
  have "dsk_view (fs_disk boot_pfs) 0 = replicate 512 0"
    by (simp add: boot_pfs_def dsk_view_def drive_view_def blank_disk_def)
  moreover have "replicate 6 (0 :: u8) \<noteq> [79, 75, 80, 70, 83, 49]" by (simp add: replicate_numeral)
  ultimately show "\<not> sb_valid (sbv (dsk_view (fs_disk boot_pfs)))"
    by (simp add: sbv_def super_of_def sb_valid_def PFS_MAGIC_def ascii_def)
qed

theorem pfs_mount_restores_witness:
  "attached_fs (pfs_mount boot_pfs) \<and> pfs_files (fs_disk (pfs_mount boot_pfs)) = Map.empty"
  using pfs_mount_restores [OF boot_pfs_boots(1) refl] boot_pfs_boots(2) by simp

lemma boot_attached: "attached_fs (pfs_mount boot_pfs)" "stale_names (pfs_mount boot_pfs) = {}"
  using mount_core [OF boot_pfs_boots(1) refl] boot_pfs_boots(2) by simp_all

theorem write_through_witness:
  "\<exists>s' r. fs_write (pfs_mount boot_pfs) (ascii ''a'') [1, 2, 3] 3 = (s', r) \<and> attached_fs s' \<and> stale_names s' \<subseteq> {ascii ''a''}"
proof -
  have n: "fs_name_ok (ascii ''a'')" "ascii ''a'' \<noteq> []" by (simp_all add: fs_name_ok_def ascii_def FS_MAX_NAME_def)
  show ?thesis using write_through [OF boot_attached(1) n, of 3 "[1, 2, 3]"] boot_attached(2) by auto
qed

subsection \<open>Loading one file\<close>

lemma pfs_load_ok:
  assumes a: "attached_fs s" and n: "fs_name_ok name" "name \<noteq> []" and there: "contents (fs_vfs s) name \<noteq> None"
  shows "case pfs_files (fs_disk s) name of
      None \<Rightarrow> pfs_load_file s name = (s, -1)
    | Some b \<Rightarrow> \<exists>s'. pfs_load_file s name = (s', int (length b)) \<and> attached_fs s' \<and> contents (fs_vfs s') name = Some b"
proof -
  let ?p = "fs_disk s" and ?V = "dsk_view (fs_disk s)"
  have vo: "vol_ok ?p" and mt: "mounted ?p" and vk: "vfs_ok (fs_vfs s)" using a by (simp_all add: attached_fs_def)
  have dk: "dsk_ok ?p" and L: "layout (unat (pfs_len ?p)) ?V" using vo by (simp_all add: vol_ok_def)
  have n0: "0 \<notin> set name" using n by (simp add: fs_name_ok_def)
  have look: "pfs_lookup ?p name [0..<16] = map_option (\<lambda>i. (i, ent ?V i)) (slot_of ?V name [0..<16])"
    by (rule pfs_lookup_eq [OF vo n0]) simp
  show ?thesis
  proof (cases "slot_of ?V name [0..<16]")
    case None
    then have "pfs_files ?p name = None" by (intro disk_files_None) (simp add: slot_of_None)
    then show ?thesis using None look by (simp add: pfs_load_file_def PFS_TABLE_SECTORS_def Let_def)
  next
    case (Some i)
    then have i: "i \<in> used_slots ?V" "ename (ent ?V i) = name" using slot_of_Some by auto
    have g: "entry_good (unat (pfs_len ?p)) (ent ?V i)" using L i by (simp add: layout_def)
    let ?b = "file_data ?V (ent ?V i)"
    have sz: "unat (e_size (ent ?V i)) \<le> 32768" using g by (simp add: entry_good_def)
    then have lb: "length ?b \<le> 32768" using length_file_data [OF dk g] by simp
    have m: "take (min (nat (int (length ?b))) FS_MAX_SIZE) ?b = ?b" using lb by (simp add: FS_MAX_SIZE_def)
    have "\<not> PFS_FILE_MAX < e_size (ent ?V i)" using sz by (simp add: PFS_FILE_MAX_def word_less_nat_alt)
    then have ld: "pfs_load_file s name = (fst (fs_write s name ?b (int (length ?b))), int (length ?b))"
      using look Some load_entry_ok [OF dk g] mt n(2) by (simp add: pfs_load_file_def PFS_TABLE_SECTORS_def Let_def)
    obtain s' r where w: "fs_write s name ?b (int (length ?b)) = (s', r)" by fastforce
    have "attached_fs s'"
      using hooks.write_kept [OF a [folded attached_fs_eq] n _ _ w, unfolded attached_fs_eq] by simp
    moreover have "contents (fs_vfs s') name = Some ?b"
    proof (cases rule: fs_write_cases [OF vk n(1), of "int (length ?b)" ?b, case_names pos len full stored])
      case (stored u)
      then show ?thesis using w stored(4) [OF n0, unfolded m] by (auto simp: fs_hook_def split: option.splits)
    qed (use there in simp_all)
    ultimately show ?thesis using ld w disk_files_Some [OF L i] by simp
  qed
qed

end
