(* ===== verification/Part.thy ===== *)
theory Part
  imports Ata Kstring "HOL-Library.Monad_Syntax"
begin

text \<open>
  The partition table, the FAT reader and writer and the GRUB environment block (\<open>src/part.c\<close>,
  \<open>part.h\<close>) over the disk of \<open>Ata\<close>. The scratch sector the file keeps is the byte list of the last read.
  A FAT volume and a file are the structs of \<open>part.h\<close>; 32-bit arithmetic wraps as in C.

  A loop that follows a cluster chain read from the disk is a \<open>partial_function\<close> whose value \<open>None\<close> means
  that it does not return; an operation that can run such a loop has a result of type \<open>'a option\<close> for
  the same reason, and a C result of -1 is an inner \<open>None\<close> or the integer -1. Divisions by \<open>spc\<close> are by
  a power of two: \<open>fat_open\<close> returns no other volume.
\<close>

subsection \<open>Reading and writing fields\<close>

definition rd16 :: "bytes \<Rightarrow> nat \<Rightarrow> u16" where
  "rd16 p i = ucast (p ! i) OR push_bit 8 (ucast (p ! (i + 1)))"

definition rd32 :: "bytes \<Rightarrow> nat \<Rightarrow> u32" where
  "rd32 p i = le32 (p ! i) (p ! (i + 1)) (p ! (i + 2)) (p ! (i + 3))"

definition wr16 :: "bytes \<Rightarrow> nat \<Rightarrow> u32 \<Rightarrow> bytes" where
  "wr16 p i v = p[i := ucast v, i + 1 := ucast (drop_bit 8 v)]"

definition wr32 :: "bytes \<Rightarrow> nat \<Rightarrow> u32 \<Rightarrow> bytes" where
  "wr32 p i v = p[i := ucast v, i + 1 := ucast (drop_bit 8 v), i + 2 := ucast (drop_bit 16 v), i + 3 := ucast (drop_bit 24 v)]"

definition rd16u :: "bytes \<Rightarrow> nat \<Rightarrow> u32" where
  "rd16u p i = ucast (rd16 p i)"

subsection \<open>FAT volumes\<close>

record fat =
  fbase :: u32
  fat_lba :: u32
  data_lba :: u32
  root_lba :: u32
  root_secs :: u32
  root_clus :: u32
  spc :: u32
  nclus :: u32
  fat_secs :: u32
  nfats :: u32
  fat_type :: nat

record fat_file =
  ff_clus :: u32
  ff_size :: u32
  ff_dir_lba :: u32
  ff_dir_off :: u32
  ff_attr :: u8

definition fat_open :: "disk \<Rightarrow> u32 \<Rightarrow> fat option" where
  "fat_open d bs =
     (case ata_read d bs of
        None \<Rightarrow> None
      | Some sec \<Rightarrow>
          if sec ! 510 \<noteq> 0x55 \<or> sec ! 511 \<noteq> 0xAA \<or> rd16 sec 11 \<noteq> 512 then None
          else let sp = ucast (sec ! 13); resv = rd16u sec 14; nf = ucast (sec ! 16); rootents = rd16u sec 17;
                   total = rd16u sec 19; fatsz = rd16u sec 22;
                   total = (if total = 0 then rd32 sec 32 else total);
                   fatsz = (if fatsz = 0 then rd32 sec 36 else fatsz)
            in if sp = 0 \<or> sp AND (sp - 1) \<noteq> 0 \<or> resv = 0 \<or> nf = 0 \<or> fatsz = 0 then None
               else let rsecs = (rootents * 32 + 511) div 512; used = resv + nf * fatsz + rsecs
                 in if total \<le> used then None
                    else let nc = (total - used) div sp; ty = (if nc < 65525 then 16 else 32)
                      in if nc < 4085 then None
                         else Some \<lparr>fbase = bs, fat_lba = bs + resv, data_lba = bs + resv + nf * fatsz + rsecs,
                           root_lba = bs + resv + nf * fatsz, root_secs = rsecs,
                           root_clus = (if ty = 32 then rd32 sec 44 else 0),
                           spc = sp, nclus = nc, fat_secs = fatsz, nfats = nf, fat_type = ty\<rparr>)"

definition fat_clus_lba :: "fat \<Rightarrow> u32 \<Rightarrow> u32" where
  "fat_clus_lba f c = data_lba f + (c - 2) * spc f"

definition fat_eoc :: "fat \<Rightarrow> u32 \<Rightarrow> bool" where
  "fat_eoc f c \<longleftrightarrow> c < 2 \<or> nclus f + 2 \<le> c \<or> (if fat_type f = 16 then 0xFFF8 else 0x0FFFFFF8) \<le> c"

definition fat_ent_off :: "fat \<Rightarrow> u32 \<Rightarrow> u32" where
  "fat_ent_off f c = c * (if fat_type f = 16 then 2 else 4)"

definition fat_next :: "disk \<Rightarrow> fat \<Rightarrow> u32 \<Rightarrow> u32" where
  "fat_next d f c =
     (let off = fat_ent_off f c
      in case ata_read d (fat_lba f + off div 512) of
           None \<Rightarrow> 0x0FFFFFFF
         | Some sec \<Rightarrow>
             if fat_type f = 16 then let v = rd16u sec (unat (off mod 512)) in if 0xFFF8 \<le> v then 0x0FFFFFFF else v
             else rd32 sec (unat (off mod 512)) AND 0x0FFFFFFF)"

text \<open>One copy of the table, then all of them.\<close>

definition fat_put :: "fat \<Rightarrow> u32 \<Rightarrow> u32 \<Rightarrow> bytes \<Rightarrow> bytes" where
  "fat_put f off val sec =
     (let o' = unat (off mod 512)
      in if fat_type f = 16 then wr16 sec o' (if 0x0FFFFFF8 \<le> val then 0xFFFF else val)
         else wr32 sec o' ((rd32 sec o' AND 0xF0000000) OR (val AND 0x0FFFFFFF)))"

fun fat_set_copies :: "fat \<Rightarrow> u32 \<Rightarrow> u32 \<Rightarrow> nat list \<Rightarrow> disk \<Rightarrow> disk \<times> int" where
  "fat_set_copies f off val [] d = (d, 0)"
| "fat_set_copies f off val (k # ks) d =
     (let lba = fat_lba f + of_nat k * fat_secs f + off div 512
      in case ata_read d lba of
           None \<Rightarrow> (d, -1)
         | Some sec \<Rightarrow> case ata_write d lba (fat_put f off val sec) of
             (d, r) \<Rightarrow> if r \<noteq> 0 then (d, -1) else fat_set_copies f off val ks d)"

definition fat_set :: "disk \<Rightarrow> fat \<Rightarrow> u32 \<Rightarrow> u32 \<Rightarrow> disk \<times> int" where
  "fat_set d f c val = fat_set_copies f (fat_ent_off f c) val [0..<unat (nfats f)] d"

fun fat_alloc_from :: "disk \<Rightarrow> fat \<Rightarrow> nat \<Rightarrow> u32 \<Rightarrow> u32" where
  "fat_alloc_from d f 0 c = 0"
| "fat_alloc_from d f (Suc n) c =
     (let off = fat_ent_off f c
      in case ata_read d (fat_lba f + off div 512) of
           None \<Rightarrow> 0
         | Some sec \<Rightarrow>
             let v = (if fat_type f = 16 then rd16u sec (unat (off mod 512))
                      else rd32 sec (unat (off mod 512)) AND 0x0FFFFFFF)
             in if v = 0 then c else fat_alloc_from d f n (c + 1))"

text \<open>The loop runs for \<open>c\<close> from \<open>from\<close> (at least 2) below \<open>nclus + 2\<close>; 0 is "none".\<close>

definition fat_alloc :: "disk \<Rightarrow> fat \<Rightarrow> u32 \<Rightarrow> u32" where
  "fat_alloc d f hint =
     (let c = (if hint < 2 then 2 else hint) in fat_alloc_from d f (unat (nclus f + 2) - unat c) c)"

subsection \<open>Directories\<close>

definition upcase :: "u8 \<Rightarrow> u8" where
  "upcase c = (if 0x61 \<le> c \<and> c \<le> 0x7A then c - 32 else c)"

fun put83 :: "nat \<Rightarrow> nat \<Rightarrow> bytes \<Rightarrow> bytes \<Rightarrow> bytes option" where
  "put83 lim k [] out = Some out"
| "put83 lim k (c # s) out = (if lim \<le> k then None else put83 lim (k + 1) s (out[k := upcase c]))"

definition name83 :: "bytes \<Rightarrow> bytes option" where
  "name83 s =
     (let nm = takeWhile (\<lambda>c. c \<noteq> 0x2E) s; rest = dropWhile (\<lambda>c. c \<noteq> 0x2E) s
      in case put83 8 0 nm (replicate 11 0x20) of
           None \<Rightarrow> None
         | Some out \<Rightarrow> if rest = [] then Some out else put83 11 8 (drop 1 rest) out)"

text \<open>The walk threads the callback's context: \<open>Inl\<close> to go on, \<open>Inr\<close> with the result to return.\<close>

type_synonym 'a dir_fn = "bytes \<Rightarrow> u32 \<Rightarrow> u32 \<Rightarrow> 'a \<Rightarrow> 'a \<times> bool"

fun walk_entries :: "'a dir_fn \<Rightarrow> u32 \<Rightarrow> u32 \<Rightarrow> bytes list \<Rightarrow> 'a \<Rightarrow> 'a + ('a \<times> int)" where
  "walk_entries fn lba off [] ud = Inl ud"
| "walk_entries fn lba off (e # es) ud =
     (if e ! 0 = 0 then Inr (ud, 0)
      else if e ! 0 = 0xE5 \<or> e ! 11 = 0x0F \<or> e ! 11 AND 0x08 \<noteq> 0 then walk_entries fn lba (off + 32) es ud
      else case fn e lba off ud of
          (ud, stop) \<Rightarrow> if stop then Inr (ud, 1) else walk_entries fn lba (off + 32) es ud)"

fun walk_sectors :: "disk \<Rightarrow> 'a dir_fn \<Rightarrow> u32 \<Rightarrow> nat \<Rightarrow> 'a \<Rightarrow> 'a + ('a \<times> int)" where
  "walk_sectors d fn lba 0 ud = Inl ud"
| "walk_sectors d fn lba (Suc n) ud =
     (case ata_read d lba of
        None \<Rightarrow> Inr (ud, -1)
      | Some b \<Rightarrow> case walk_entries fn lba 0 (chunks 32 b) ud of
          Inr r \<Rightarrow> Inr r
        | Inl ud \<Rightarrow> walk_sectors d fn (lba + 1) n ud)"

partial_function (option) dir_chain :: "disk \<Rightarrow> fat \<Rightarrow> 'a dir_fn \<Rightarrow> u32 \<Rightarrow> u32 \<Rightarrow> 'a \<Rightarrow> ('a \<times> int) option" where
  "dir_chain d f fn c guard ud =
     (case walk_sectors d fn (if c \<noteq> 0 then fat_clus_lba f c else root_lba f) (unat (if c \<noteq> 0 then spc f else root_secs f)) ud of
        Inr r \<Rightarrow> Some r
      | Inl ud \<Rightarrow>
          if c = 0 then Some (ud, 0)
          else let c = fat_next d f c
            in if fat_eoc f c \<or> nclus f < guard + 1 then Some (ud, 0) else dir_chain d f fn c (guard + 1) ud)"

declare dir_chain.simps [code]

definition dir_walk :: "disk \<Rightarrow> fat \<Rightarrow> u32 \<Rightarrow> 'a dir_fn \<Rightarrow> 'a \<Rightarrow> ('a \<times> int) option" where
  "dir_walk d f c fn ud = dir_chain d f fn (if c = 0 \<and> fat_type f = 32 then root_clus f else c) 0 ud"

definition fill_file :: "fat \<Rightarrow> bytes \<Rightarrow> u32 \<Rightarrow> u32 \<Rightarrow> fat_file" where
  "fill_file f e lba off =
     \<lparr>ff_clus = rd16u e 26 OR (if fat_type f = 32 then push_bit 16 (rd16u e 20) else 0),
      ff_size = rd32 e 28, ff_dir_lba = lba, ff_dir_off = off, ff_attr = e ! 11\<rparr>"

definition find_cb :: "fat \<Rightarrow> bytes \<Rightarrow> fat_file dir_fn" where
  "find_cb f n e lba off out = (if take 11 e \<noteq> n then (out, False) else (fill_file f e lba off, True))"

text \<open>The components of a path: the code skips the slashes around each.\<close>

function fat_find_from :: "disk \<Rightarrow> fat \<Rightarrow> bytes \<Rightarrow> u32 \<Rightarrow> fat_file \<Rightarrow> fat_file option option" where
  "fat_find_from d f path dir out =
     (if path = [] then Some (Some out)
      else let n = takeWhile (\<lambda>c. c \<noteq> 0x2F) path; rest = dropWhile (\<lambda>c. c = 0x2F) (drop (length n) path)
        in case name83 n of
             None \<Rightarrow> Some None
           | Some n \<Rightarrow> case dir_walk d f dir (find_cb f n) out of
               None \<Rightarrow> None
             | Some (out, r) \<Rightarrow>
                 if r \<noteq> 1 then Some None
                 else if rest = [] then Some (Some out)
                 else if ff_attr out AND 0x10 = 0 then Some None
                 else fat_find_from d f rest (ff_clus out) out)"
  by pat_completeness auto
termination
proof (relation "measure (\<lambda>(d, f, path, dir, out). length path)", goal_cases)
  case (2 d f path dir out n rest)
  have "length rest < length path"
  proof (cases "n = []")
    case True
    then have "\<exists>p. path = 0x2F # p" using 2(1-2) by (cases path) (auto split: if_splits)
    then show ?thesis using True 2(3) by (auto simp: less_Suc_eq_le length_dropWhile_le)
  next
    case False
    then have "length (drop (length n) path) < length path" using 2(1) by (cases path) auto
    then show ?thesis using 2(3) length_dropWhile_le le_less_trans by metis
  qed
  then show ?case by simp
qed simp

declare fat_find_from.simps [simp del]

definition fat_find :: "disk \<Rightarrow> fat \<Rightarrow> bytes \<Rightarrow> fat_file option option" where
  "fat_find d f path =
     fat_find_from d f (dropWhile (\<lambda>c. c = 0x2F) path) 0
       \<lparr>ff_clus = 0, ff_size = 0, ff_dir_lba = 0, ff_dir_off = 0, ff_attr = 0x10\<rparr>"

text \<open>The name the listing shows, and the listing: \<open>fn\<close> takes the name, the file and its own context.\<close>

definition list_name :: "bytes \<Rightarrow> bytes" where
  "list_name e = takeWhile (\<lambda>c. c \<noteq> 0x20) (take 8 e) @
     (if e ! 8 \<noteq> 0x20 then 0x2E # takeWhile (\<lambda>c. c \<noteq> 0x20) (take 3 (drop 8 e)) else [])"

definition list_cb :: "fat \<Rightarrow> (bytes \<Rightarrow> fat_file \<Rightarrow> 'u \<Rightarrow> 'u) \<Rightarrow> 'u dir_fn" where
  "list_cb f fn e lba off ud = (if e ! 0 = 0x2E then (ud, False) else (fn (list_name e) (fill_file f e lba off) ud, False))"

definition fat_list :: "disk \<Rightarrow> fat \<Rightarrow> bytes \<Rightarrow> (bytes \<Rightarrow> fat_file \<Rightarrow> 'u \<Rightarrow> 'u) \<Rightarrow> 'u \<Rightarrow> ('u \<times> int) option" where
  "fat_list d f path fn ud =
     (case fat_find d f path of
        None \<Rightarrow> None
      | Some None \<Rightarrow> Some (ud, -1)
      | Some (Some e) \<Rightarrow>
          if ff_attr e AND 0x10 = 0 then Some (ud, -1)
          else case dir_walk d f (ff_clus e) (list_cb f fn) ud of
              None \<Rightarrow> None
            | Some (ud, r) \<Rightarrow> Some (ud, if r < 0 then -1 else 0))"

subsection \<open>Files\<close>

definition clus_bytes :: "fat \<Rightarrow> u32" where
  "clus_bytes f = spc f * 512"

fun fat_skip :: "disk \<Rightarrow> fat \<Rightarrow> nat \<Rightarrow> u32 \<Rightarrow> u32 option" where
  "fat_skip d f 0 c = Some c"
| "fat_skip d f (Suc n) c = (let c = fat_next d f c in if fat_eoc f c then None else fat_skip d f n c)"

text \<open>The loop of \<open>fat_read\<close>; \<open>left\<close> is \<open>len - done\<close>, and the bytes copied are the result.\<close>

function fat_read_loop :: "disk \<Rightarrow> fat \<Rightarrow> u32 \<Rightarrow> u32 \<Rightarrow> u32 \<Rightarrow> bytes option" where
  "fat_read_loop d f c off left =
     (if left = 0 then Some []
      else if fat_eoc f c then None
      else case ata_read d (fat_clus_lba f c + off div 512) of
          None \<Rightarrow> None
        | Some b \<Rightarrow>
            let so = off mod 512; n = (if left < 512 - so then left else 512 - so); off = off + n;
                (c, off) = (if off = clus_bytes f then (fat_next d f c, 0) else (c, off))
            in case fat_read_loop d f c off (left - n) of
                 None \<Rightarrow> None
               | Some rest \<Rightarrow> Some (take (unat n) (drop (unat so) b) @ rest))"
  by pat_completeness auto
termination
proof (relation "measure (\<lambda>(d, f, c, off, left). unat left)", goal_cases)
  case (2 d f c off left b so n off' x c' off'')
  have "unat so < 512" using 2(4) by (simp add: unat_mod)
  then have "0 < unat (512 - so)" by (simp add: unat_sub word_le_nat_alt)
  then have "0 < unat n" "unat n \<le> unat left" using 2(1,5) by (auto simp: word_less_nat_alt unat_gt_0 split: if_splits)
  then show ?case by (simp add: unat_sub word_le_nat_alt)
qed simp

declare fat_read_loop.simps [simp del]

definition fat_read :: "disk \<Rightarrow> fat \<Rightarrow> fat_file \<Rightarrow> u32 \<Rightarrow> u32 \<Rightarrow> bytes option" where
  "fat_read d f e off len =
     (if ff_size e \<le> off then Some []
      else let len = (if ff_size e - off < len then ff_size e - off else len); csz = clus_bytes f
        in case fat_skip d f (unat (off div csz)) (ff_clus e) of
             None \<Rightarrow> None
           | Some c \<Rightarrow> fat_read_loop d f c (off mod csz) len)"

fun fat_steps :: "disk \<Rightarrow> fat \<Rightarrow> nat \<Rightarrow> u32 \<Rightarrow> u32" where
  "fat_steps d f 0 c = c"
| "fat_steps d f (Suc n) c = fat_steps d f n (fat_next d f c)"

text \<open>Whether the clusters that follow are adjacent until \<open>end\<close> is within one.\<close>

function adjacent :: "disk \<Rightarrow> fat \<Rightarrow> u32 \<Rightarrow> u32 \<Rightarrow> bool" where
  "adjacent d f c end' =
     (if clus_bytes f < end' \<and> clus_bytes f \<noteq> 0 then
        let nx = fat_next d f c in if nx \<noteq> c + 1 then False else adjacent d f nx (end' - clus_bytes f)
      else True)"
  by pat_completeness auto
termination
proof (relation "measure (\<lambda>(d, f, c, e). unat e)", goal_cases)
  case (2 d f c e nx)
  then have "0 < unat (clus_bytes f)" "unat (clus_bytes f) < unat e" by (auto simp: word_less_nat_alt unat_gt_0)
  then show ?case by (simp add: unat_sub word_le_nat_alt)
qed simp

declare adjacent.simps [simp del]

definition fat_file_lba :: "disk \<Rightarrow> fat \<Rightarrow> fat_file \<Rightarrow> u32 \<Rightarrow> u32 \<Rightarrow> u32" where
  "fat_file_lba d f e off len =
     (let csz = clus_bytes f
      in if len = 0 \<or> off mod 512 \<noteq> 0 \<or> ((ff_size e + csz - 1) div csz) * csz < off + len then 0
         else let c = fat_steps d f (unat (off div csz)) (ff_clus e)
           in if fat_eoc f c then 0
              else if adjacent d f c (off mod csz + len) then fat_clus_lba f c + (off mod csz) div 512 else 0)"

subsection \<open>Overwriting a file\<close>

text \<open>A cursor is the cluster and the sector in it.\<close>

type_synonym cur = "u32 \<times> u32"

definition cur_lba :: "fat \<Rightarrow> cur \<Rightarrow> u32" where
  "cur_lba f c = fat_clus_lba f (fst c) + snd c"

definition cur_step :: "disk \<Rightarrow> fat \<Rightarrow> cur \<Rightarrow> cur" where
  "cur_step d f c = (if snd c + 1 = spc f then (fat_next d f (fst c), 0) else (fst c, snd c + 1))"

fun fit_chain :: "disk \<Rightarrow> fat \<Rightarrow> nat \<Rightarrow> u32 \<Rightarrow> u32 \<Rightarrow> u32 \<Rightarrow> u32 \<times> u32 \<times> u32" where
  "fit_chain d f 0 have' last' c = (have', last', c)"
| "fit_chain d f (Suc n) have' last' c =
     (if fat_eoc f c then (have', last', c) else fit_chain d f n (have' + 1) c (fat_next d f c))"

partial_function (option) free_chain :: "fat \<Rightarrow> disk \<Rightarrow> u32 \<Rightarrow> (disk \<times> int) option" where
  "free_chain f d c =
     (if fat_eoc f c then Some (d, 0)
      else let nx = fat_next d f c
        in case fat_set d f c 0 of (d, r) \<Rightarrow> if r \<noteq> 0 then Some (d, -1) else free_chain f d nx)"

declare free_chain.simps [code]

text \<open>Appending \<open>n\<close> clusters; the result has the first cluster of the file.\<close>

fun grow_chain :: "fat \<Rightarrow> nat \<Rightarrow> u32 \<Rightarrow> u32 \<Rightarrow> u32 \<Rightarrow> disk \<Rightarrow> disk \<times> u32 \<times> int" where
  "grow_chain f 0 last' hint first d = (d, first, 0)"
| "grow_chain f (Suc k) last' hint first d =
     (let n = fat_alloc d f hint
      in if n = 0 then (d, first, -1)
         else case fat_set d f n 0x0FFFFFFF of (d, r) \<Rightarrow>
           if r \<noteq> 0 then (d, first, -1)
           else if last' \<noteq> 0 then
             (case fat_set d f last' n of (d, r) \<Rightarrow>
                if r \<noteq> 0 then (d, first, -1) else grow_chain f k n (n + 1) first d)
           else grow_chain f k n (n + 1) n d)"

fun copy_secs :: "fat \<Rightarrow> fat \<Rightarrow> (u32 \<Rightarrow> u32 \<Rightarrow> 'p \<Rightarrow> 'p) \<Rightarrow> u32 \<Rightarrow> nat \<Rightarrow> u32 \<Rightarrow> cur \<Rightarrow> cur \<Rightarrow> disk \<Rightarrow> 'p \<Rightarrow> disk \<times> 'p \<times> int" where
  "copy_secs sf df progress secs 0 i a b d p = (d, p, 0)"
| "copy_secs sf df progress secs (Suc n) i a b d p =
     (if fat_eoc sf (fst a) \<or> fat_eoc df (fst b) then (d, p, -1)
      else case ata_read d (cur_lba sf a) of
          None \<Rightarrow> (d, p, -1)
        | Some buf \<Rightarrow> case ata_write d (cur_lba df b) buf of (d, r) \<Rightarrow>
            if r \<noteq> 0 then (d, p, -1)
            else case ata_read d (cur_lba df b) of
                None \<Rightarrow> (d, p, -1)
              | Some chk \<Rightarrow>
                  if buf \<noteq> chk then (d, p, -1)
                  else copy_secs sf df progress secs n (i + 1) (cur_step d sf a) (cur_step d df b) d
                    (if i mod 256 = 255 \<or> i + 1 = secs then progress (i + 1) secs p else p))"

text \<open>Fitting the chain: cut it and free the tail, or append to it.\<close>

definition fit_file :: "disk \<Rightarrow> fat \<Rightarrow> fat_file \<Rightarrow> u32 \<Rightarrow> (disk \<times> fat_file \<times> int) option" where
  "fit_file d df dst need =
     (case fit_chain d df (unat need) 0 0 (ff_clus dst) of (have', last', c) \<Rightarrow>
        if have' = need then
          let dst = (if need = 0 then dst\<lparr>ff_clus := 0\<rparr> else dst);
              (d, r) = (if need = 0 then (d, 0) else fat_set d df last' 0x0FFFFFFF)
          in if r \<noteq> 0 then Some (d, dst, -1)
             else map_option (\<lambda>(d, r). (d, dst, r)) (free_chain df d c)
        else
          case grow_chain df (unat need - unat have') last' (if last' \<noteq> 0 then last' + 1 else 2) (ff_clus dst) d of
            (d, first, r) \<Rightarrow> Some (d, dst\<lparr>ff_clus := first\<rparr>, r))"

definition put_entry :: "fat \<Rightarrow> fat_file \<Rightarrow> bytes \<Rightarrow> bytes" where
  "put_entry df dst sec =
     (let o' = unat (ff_dir_off dst);
          sec = wr16 sec (o' + 26) (ff_clus dst AND 0xFFFF);
          sec = (if fat_type df = 32 then wr16 sec (o' + 20) (drop_bit 16 (ff_clus dst)) else sec)
      in wr32 sec (o' + 28) (ff_size dst))"

definition fat_copy :: "fat \<Rightarrow> fat_file \<Rightarrow> fat \<Rightarrow> (u32 \<Rightarrow> u32 \<Rightarrow> 'p \<Rightarrow> 'p) \<Rightarrow> fat_file \<Rightarrow> disk \<Rightarrow> 'p \<Rightarrow> (disk \<times> fat_file \<times> 'p \<times> int) option" where
  "fat_copy sf src df progress dst d p =
     (let csz = clus_bytes df; need = (ff_size src + csz - 1) div csz
      in case fit_file d df dst need of
           None \<Rightarrow> None
         | Some (d, dst, r) \<Rightarrow>
             if r \<noteq> 0 then Some (d, dst, p, -1)
             else let secs = (ff_size src + 511) div 512
               in case copy_secs sf df progress secs (unat secs) 0 (ff_clus src, 0) (ff_clus dst, 0) d p of (d, p, r) \<Rightarrow>
                    if r \<noteq> 0 then Some (d, dst, p, -1)
                    else let dst = dst\<lparr>ff_size := ff_size src\<rparr>
                      in case ata_read d (ff_dir_lba dst) of
                           None \<Rightarrow> Some (d, dst, p, -1)
                         | Some sec \<Rightarrow> case ata_write d (ff_dir_lba dst) (put_entry df dst sec) of
                             (d, r) \<Rightarrow> Some (d, dst, p, r))"

subsection \<open>The partition table\<close>

definition PART_TYPE_LOG :: u8 where "PART_TYPE_LOG = 0xDA"
definition PART_TYPE_PFS :: u8 where "PART_TYPE_PFS = 0x4B"
definition PART_LABEL_BOOT :: bytes where "PART_LABEL_BOOT = ascii ''KANBOOT''"
definition PART_LABEL_RECOVERY :: bytes where "PART_LABEL_RECOVERY = ascii ''KANRECOV''"

definition PART_BOOT :: nat where "PART_BOOT = 0"
definition PART_RECOVERY :: nat where "PART_RECOVERY = 1"
definition PART_LOG :: nat where "PART_LOG = 2"
definition PART_DATA :: nat where "PART_DATA = 3"
definition PART_ROLES :: nat where "PART_ROLES = 4"

record part =
  pt_start :: u32
  pt_count :: u32
  pt_type :: u8
  pt_active :: u8
  pt_fat :: u8
  pt_label :: bytes

text \<open>The static variables \<open>P\<close> (here \<open>ptab\<close>), \<open>nparts\<close> and \<open>roles\<close>. A label is the C string in its array: the bytes
  before the terminating 0.\<close>

record parts =
  ptab :: "part list"
  nparts :: int
  roles :: "int list"

definition no_part :: part where
  "no_part = \<lparr>pt_start = 0, pt_count = 0, pt_type = 0, pt_active = 0, pt_fat = 0, pt_label = []\<rparr>"

definition no_parts :: parts where
  "no_parts = \<lparr>ptab = replicate 4 no_part, nparts = 0, roles = replicate PART_ROLES (-1)\<rparr>"

definition is_fat_type :: "u8 \<Rightarrow> bool" where
  "is_fat_type t \<longleftrightarrow> t = 0x01 \<or> t = 0x04 \<or> t = 0x06 \<or> t = 0x0B \<or> t = 0x0C \<or> t = 0x0E \<or> t = 0xEF"

definition copy_label :: "bytes \<Rightarrow> bytes" where
  "copy_label p = rev (dropWhile (\<lambda>c. c = 0x20 \<or> c = 0) (rev (take 11 p)))"

fun root_label :: "bytes \<Rightarrow> bytes list \<Rightarrow> bytes" where
  "root_label out [] = out"
| "root_label out (e # es) =
     (if e ! 0 = 0 then out else if e ! 0 \<noteq> 0xE5 \<and> e ! 11 = 0x08 then copy_label e else root_label out es)"

definition fat_label :: "disk \<Rightarrow> fat \<Rightarrow> bytes" where
  "fat_label d f =
     (case ata_read d (fbase f) of
        None \<Rightarrow> []
      | Some sec \<Rightarrow>
          let out = copy_label (drop (if fat_type f = 32 then 71 else 43) sec);
              lba = (if fat_type f = 32 then fat_clus_lba f (root_clus f) else root_lba f)
          in case ata_read d lba of None \<Rightarrow> out | Some sec \<Rightarrow> root_label out (chunks 32 sec))"

text \<open>The comparison \<open>!strcmp(label, s)\<close>: a label may hold a 0 before its end.\<close>

definition label_is :: "bytes \<Rightarrow> bytes \<Rightarrow> bool" where
  "label_is label s \<longleftrightarrow> strcmp (label @ [0]) (s @ [0]) = Some 0"

definition set_role :: "nat \<Rightarrow> nat \<Rightarrow> parts \<Rightarrow> parts" where
  "set_role r i ps = ps\<lparr>roles := (roles ps)[r := int i]\<rparr>"

text \<open>The body of the loop for entry \<open>i\<close> once its status byte is accepted.\<close>

definition part_entry :: "disk \<Rightarrow> bytes \<Rightarrow> nat \<Rightarrow> parts \<Rightarrow> parts" where
  "part_entry d e i ps =
     (let p = (ptab ps ! i)\<lparr>pt_type := e ! 4, pt_active := drop_bit 7 (e ! 0), pt_start := rd32 e 8, pt_count := rd32 e 12\<rparr>;
          store = (\<lambda>p ps. ps\<lparr>ptab := (ptab ps)[i := p]\<rparr>)
      in if pt_type p = 0 \<or> pt_count p = 0 then store (p\<lparr>pt_count := 0\<rparr>) ps
         else if ata_sectors d \<le> pt_start p \<or> ata_sectors d - pt_start p < pt_count p then store (p\<lparr>pt_count := 0\<rparr>) ps
         else let ps = store p (ps\<lparr>nparts := nparts ps + 1\<rparr>)
           in if pt_type p = PART_TYPE_LOG \<and> roles ps ! PART_LOG < 0 then set_role PART_LOG i ps
              else if pt_type p = PART_TYPE_PFS \<and> roles ps ! PART_DATA < 0 then set_role PART_DATA i ps
              else if is_fat_type (pt_type p) then
                case fat_open d (pt_start p) of
                  None \<Rightarrow> ps
                | Some f \<Rightarrow>
                    let label = fat_label d f;
                        ps = store (p\<lparr>pt_fat := of_nat (fat_type f), pt_label := label\<rparr>) ps;
                        ps = (if label_is label PART_LABEL_BOOT \<and> roles ps ! PART_BOOT < 0 then set_role PART_BOOT i ps else ps)
                    in if label_is label PART_LABEL_RECOVERY \<and> roles ps ! PART_RECOVERY < 0
                       then set_role PART_RECOVERY i ps else ps
              else ps)"

fun part_loop :: "disk \<Rightarrow> bytes \<Rightarrow> nat list \<Rightarrow> parts \<Rightarrow> parts" where
  "part_loop d mbr [] ps = ps"
| "part_loop d mbr (i # is) ps =
     (let e = take 16 (drop (i * 16) mbr)
      in if e ! 0 AND 0x7F \<noteq> 0 then ps\<lparr>nparts := 0\<rparr> else part_loop d mbr is (part_entry d e i ps))"

text \<open>The result of \<open>part_scan\<close> is \<open>nparts\<close> of the state it leaves.\<close>

definition part_scan :: "disk \<Rightarrow> parts" where
  "part_scan d =
     (if \<not> ata_present d then no_parts
      else case ata_read d 0 of
          None \<Rightarrow> no_parts
        | Some sec \<Rightarrow>
            if sec ! 510 \<noteq> 0x55 \<or> sec ! 511 \<noteq> 0xAA then no_parts
            else if take 6 sec = ascii ''OKPFS1'' then no_parts
            else part_loop d (take 64 (drop 446 sec)) [0..<4] no_parts)"

definition part_count :: "parts \<Rightarrow> int" where
  "part_count ps = nparts ps"

definition part_at :: "parts \<Rightarrow> int \<Rightarrow> part option" where
  "part_at ps i = (if 0 \<le> i \<and> i < 4 then Some (ptab ps ! nat i) else None)"

definition part_role :: "parts \<Rightarrow> nat \<Rightarrow> part option" where
  "part_role ps r = (if r < PART_ROLES \<and> 0 \<le> roles ps ! r then Some (ptab ps ! nat (roles ps ! r)) else None)"

definition part_role_name :: "nat \<Rightarrow> string" where
  "part_role_name r = (if r < PART_ROLES then [''boot'', ''recovery'', ''log'', ''data''] ! r else ''?'')"

subsection \<open>The GRUB environment block\<close>

text \<open>\<open>env_lba\<close> is passed and returned; the result is the disk with the hole opened, the new \<open>env_lba\<close> and
  0 or -1.\<close>

definition grubenv_init :: "parts \<Rightarrow> disk \<times> u32 \<Rightarrow> (disk \<times> u32 \<times> int) option" where
  "grubenv_init ps = (\<lambda>(d, env_lba).
     case part_role ps PART_BOOT of
       None \<Rightarrow> Some (d, env_lba, -1)
     | Some p \<Rightarrow> case fat_open d (pt_start p) of
         None \<Rightarrow> Some (d, env_lba, -1)
       | Some f \<Rightarrow> case fat_find d f (ascii ''/boot/grub/grubenv'') of
           None \<Rightarrow> None
         | Some None \<Rightarrow> Some (d, env_lba, -1)
         | Some (Some e) \<Rightarrow>
             if ff_size e \<noteq> 1024 then Some (d, env_lba, -1)
             else let env_lba = fat_file_lba d f e 0 1024
               in if env_lba = 0 then Some (d, env_lba, -1) else Some (ata_allow env_lba 2 d, env_lba, 0))"

definition env_head :: bytes where
  "env_head = ascii ''# GRUB Environment Block'' @ [0x0A]"

definition env_key :: bytes where
  "env_key = ascii ''next_entry=''"

text \<open>The lines of the old block that are kept, from the bytes that are left of it.\<close>

function env_keep :: "bytes \<Rightarrow> bytes \<Rightarrow> bytes" where
  "env_keep old blk =
     (if old = [] \<or> old ! 0 = 0x23 then blk
      else let line = takeWhile (\<lambda>c. c \<noteq> 0x0A) old; n = length line + 1
        in if length old < n then blk
           else env_keep (drop n old)
             (if strncmp old (env_key @ [0]) 11 \<noteq> Some 0 \<and> length blk + n < 1024 then blk @ take n old else blk))"
  by pat_completeness auto
termination
  by (relation "measure (\<lambda>(old, blk). length old)") auto

declare env_keep.simps [simp del]

text \<open>The new block; \<open>entry\<close> is \<open>[]\<close> for the null pointer too.\<close>

definition env_block :: "bytes \<Rightarrow> bytes \<Rightarrow> bytes" where
  "env_block old entry =
     (let blk = (if take (length env_head) old = env_head then env_keep (drop (length env_head) old) env_head else env_head);
          blk = (if entry = [] then blk
                 else let blk = blk @ take (1000 - length blk) env_key; blk = blk @ take (1020 - length blk) entry
                   in blk @ [0x0A])
      in blk @ replicate (1024 - length blk) 0x23)"

definition grubenv_set_next :: "u32 \<Rightarrow> bytes \<Rightarrow> disk \<Rightarrow> disk \<times> int" where
  "grubenv_set_next env_lba entry d =
     (if env_lba = 0 then (d, -1)
      else case (ata_read d env_lba, ata_read d (env_lba + 1)) of
          (Some a, Some b) \<Rightarrow>
            let blk = env_block (a @ b) entry
            in (case ata_write d env_lba (take 512 blk) of (d, r) \<Rightarrow>
                 if r \<noteq> 0 then (d, -1)
                 else case ata_write d (env_lba + 1) (drop 512 blk) of (d, r) \<Rightarrow> (d, if r \<noteq> 0 then -1 else 0))
        | _ \<Rightarrow> (d, -1))"

end
