(* ===== verification/Part_Loops.thy ===== *)
theory Part_Loops
  imports Part
begin

text \<open>
  The loops of the FAT driver that follow cluster chains read from the disk end, whatever the disk
  holds: the directory walk because of its guard, the loop that frees a chain because each round clears
  one table entry and never sets one.
\<close>

subsection \<open>The directory walk\<close>

lemma fat_eoc_top: "4294967294 \<le> unat (nclus f) \<Longrightarrow> fat_eoc f c"
proof -
  assume a: "4294967294 \<le> unat (nclus f)"
  have "unat (nclus f) = 4294967294 \<or> unat (nclus f) = 4294967295" using a u32_lt [of "nclus f"] by linarith
  then have "nclus f + 2 \<le> 1" by (auto simp: word_le_nat_alt unat_word_ariths)
  then show ?thesis by (auto simp: fat_eoc_def word_le_nat_alt word_less_nat_alt)
qed

lemma dir_chain_returns: "unat guard \<le> unat (nclus f) \<Longrightarrow> \<exists>r. dir_chain d f fn c guard ud = Some r"
proof (induction "unat (nclus f) - unat guard" arbitrary: guard c ud rule: less_induct)
  case less
  let ?c = "fat_next d f c"
  show ?case
  proof (cases "fat_eoc f ?c \<or> nclus f < guard + 1")
    case True
    then show ?thesis by (subst dir_chain.simps) (auto simp: Let_def split: sum.split)
  next
    case False
    then have n: "unat (nclus f) < 4294967294" using fat_eoc_top [of f ?c] by linarith
    then have g: "unat (guard + 1) = unat guard + 1" using less.prems by (intro unat_plus_1) linarith
    have "unat guard + 1 \<le> unat (nclus f)" using False g by (simp add: word_less_nat_alt)
    then have "\<exists>r. dir_chain d f fn ?c (guard + 1) ud' = Some r" for ud'
      using less.hyps [of "guard + 1" ?c ud'] g by simp
    then show ?thesis by (subst dir_chain.simps) (auto simp: Let_def split: sum.split)
  qed
qed

lemma dir_walk_returns: "\<exists>r. dir_walk d f c fn ud = Some r"
  unfolding dir_walk_def by (rule dir_chain_returns) simp

lemma fat_find_from_returns: "\<exists>r. fat_find_from d f path dir out = Some r"
proof (induction d f path dir out rule: fat_find_from.induct)
  case (1 d f path dir out)
  let ?n = "takeWhile (\<lambda>c. c \<noteq> 0x2F) path"
  show ?case
  proof (cases "name83 ?n")
    case None
    then show ?thesis by (subst fat_find_from.simps) simp
  next
    case (Some n)
    obtain out' r where w: "dir_walk d f dir (find_cb f n) out = Some (out', r)" using dir_walk_returns [of d f dir "find_cb f n" out] by auto
    then show ?thesis using 1 [OF _ refl refl Some w refl] by (subst fat_find_from.simps) (auto simp: Some Let_def)
  qed
qed

lemma fat_find_returns: "\<exists>r. fat_find d f path = Some r"
  unfolding fat_find_def by (rule fat_find_from_returns)

lemma fat_list_returns: "\<exists>r. fat_list d f path fn ud = Some r"
proof -
  obtain e where "fat_find d f path = Some e" using fat_find_returns by blast
  moreover obtain r where "dir_walk d f (ff_clus (the e)) (list_cb f fn) ud = Some r"
    using dir_walk_returns [of d f "ff_clus (the e)" "list_cb f fn" ud] by auto
  ultimately show ?thesis by (cases e) (auto simp: fat_list_def split: prod.split)
qed

subsection \<open>Entries of the table\<close>

definition ent_width :: "fat \<Rightarrow> nat" where
  "ent_width f = (if fat_type f = 16 then 2 else 4)"

definition ent_val :: "fat \<Rightarrow> nat \<Rightarrow> bytes \<Rightarrow> u32" where
  "ent_val f i sec = (if fat_type f = 16 then rd16u sec i else rd32 sec i AND 0x0FFFFFFF)"

lemma ent_off_aligned:
  "ent_width f dvd unat (fat_ent_off f c mod 512)" "unat (fat_ent_off f c mod 512) + ent_width f \<le> 512"
proof -
  have u: "unat (fat_ent_off f c mod 512) = (unat c * ent_width f) mod 512"
    by (simp add: fat_ent_off_def ent_width_def unat_mod unat_word_ariths mod_mod_cancel)
  have w: "ent_width f dvd 512" by (simp add: ent_width_def)
  show d: "ent_width f dvd unat (fat_ent_off f c mod 512)"
    unfolding u using w by (simp add: dvd_mod)
  obtain j k where "unat (fat_ent_off f c mod 512) = ent_width f * j" "512 = ent_width f * k" using d w by (auto simp: dvd_def)
  moreover have "unat (fat_ent_off f c mod 512) < 512" unfolding u by simp
  ultimately show "unat (fat_ent_off f c mod 512) + ent_width f \<le> 512"
    by (metis Suc_leI mult_Suc_right mult_le_mono2 add.commute nat_mult_less_cancel1 ent_width_def mult_less_cancel1)
qed

lemma fat_put_length [simp]: "length (fat_put f off v sec) = length sec"
  by (simp add: fat_put_def wr16_def wr32_def Let_def)

lemma aligned_gap: "w dvd i \<Longrightarrow> w dvd j \<Longrightarrow> i < j \<Longrightarrow> i + w \<le> (j :: nat)"
  by (metis add.commute dvd_diff_nat dvd_imp_le le_add_diff_inverse less_imp_le_nat nat_add_left_cancel_le zero_less_diff)

lemma le32_ucast: "le32 (ucast v) (ucast (drop_bit 8 v)) (ucast (drop_bit 16 v)) (ucast (drop_bit 24 v)) = v"
  by (rule bit_word_eqI) (auto simp: bit_le32_byte bit_ucast_iff bit_drop_bit_eq)

lemma ent_val_put:
  assumes "length sec = 512" "ent_width f dvd i" "i + ent_width f \<le> 512"
  shows "ent_val f i (fat_put f (fat_ent_off f c) 0 sec) = (if i = unat (fat_ent_off f c mod 512) then 0 else ent_val f i sec)"
proof -
  let ?o = "unat (fat_ent_off f c mod 512)"
  note o = ent_off_aligned [of f c]
  have far: "i + ent_width f \<le> ?o \<or> ?o + ent_width f \<le> i" if "i \<noteq> ?o"
    using that aligned_gap [OF assms(2) o(1)] aligned_gap [OF o(1) assms(2)] by linarith
  show ?thesis
  proof (cases "fat_type f = 16")
    case True
    then show ?thesis using far o(2) assms(1,3)
      by (auto simp: ent_val_def fat_put_def ent_width_def wr16_def rd16u_def rd16_def Let_def nth_list_update)
  next
    case False
    have z: "(rd32 sec ?o AND 0xF0000000) AND 0x0FFFFFFF = 0" by (simp add: and.assoc)
    have r: "rd32 (wr32 sec ?o v) ?o = v" for v
      using o(2) assms(1) False by (simp add: ent_width_def rd32_def wr32_def nth_list_update le32_ucast)
    have "rd32 (wr32 sec ?o v) i = rd32 sec i" if "i \<noteq> ?o" for v
      using far [OF that] o(2) assms(1,3) False by (auto simp: ent_width_def wr32_def rd32_def nth_list_update)
    then show ?thesis using False r z by (auto simp: ent_val_def fat_put_def Let_def)
  qed
qed

subsection \<open>Freeing a chain\<close>

text \<open>The sector where the entry of a cluster is read, as the drive addresses it.\<close>

definition ent_at :: "fat \<Rightarrow> u32 \<Rightarrow> u32" where
  "ent_at f c = regs_lba (lba_regs (fat_lba f + fat_ent_off f c div 512))"

lemma fat_next_val:
  assumes "ata_read d (fat_lba f + fat_ent_off f c div 512) = Some sec"
  shows "fat_next d f c = (let v = ent_val f (unat (fat_ent_off f c mod 512)) sec in if fat_type f = 16 \<and> 0xFFF8 \<le> v then 0x0FFFFFFF else v)"
  using assms by (simp add: fat_next_def ent_val_def Let_def)

text \<open>From \<open>d\<close> to \<open>d'\<close> table entries are only cleared.\<close>

definition clears :: "fat \<Rightarrow> disk \<Rightarrow> disk \<Rightarrow> bool" where
  "clears f d d' \<longleftrightarrow> drive_cfg d' = drive_cfg d \<and> (\<forall>l. length (platter d' l) = length (platter d l)) \<and>
     (\<forall>c. fat_next d' f c = fat_next d f c \<or> fat_next d' f c = 0)"

lemma clears_trans: "clears f d d1 \<Longrightarrow> clears f d1 d2 \<Longrightarrow> clears f d d2"
  unfolding clears_def by metis

lemma cfg_read:
  "drive_cfg d' = drive_cfg d \<Longrightarrow> ata_read d' l = (if ata_read d l = None then None else Some (platter d' (regs_lba (lba_regs l))))"
  unfolding drive_cfg_def ata_read_def by (cases d; cases d') (simp add: Let_def)

lemma fat_put_clears:
  assumes len: "\<forall>l. length (platter d l) = 512" and rd: "ata_read d lba = Some sec"
    and wr: "ata_write d lba (fat_put f (fat_ent_off f c) 0 sec) = (d', 0)"
  shows "clears f d d'" "lba = fat_lba f + fat_ent_off f c div 512 \<Longrightarrow> fat_next d' f c = 0"
proof -
  let ?at = "regs_lba (lba_regs lba)"
  let ?sec = "fat_put f (fat_ent_off f c) 0 sec"
  have s: "sec = platter d ?at" using rd by (auto simp: ata_read_def Let_def split: if_splits)
  have d': "d' = d\<lparr>platter := (platter d)(?at := ?sec)\<rparr>"
    using wr len s by (auto simp: ata_write_def Let_def split: if_splits option.splits)
  have cfg: "drive_cfg d' = drive_cfg d" by (simp add: d' drive_cfg_def)
  have ls: "length sec = 512" using s len by simp
  have put: "fat_next d' f c' = (if ent_at f c' = ?at \<and> fat_ent_off f c' mod 512 = fat_ent_off f c mod 512 then 0 else fat_next d f c')"
    if "ata_read d (fat_lba f + fat_ent_off f c' div 512) = Some x" for c' x
  proof -
    let ?i = "unat (fat_ent_off f c' mod 512)"
    have x: "x = platter d (ent_at f c')" using that by (auto simp: ata_read_def ent_at_def Let_def split: if_splits)
    have r': "ata_read d' (fat_lba f + fat_ent_off f c' div 512) = Some (platter d' (ent_at f c'))"
      using cfg_read [OF cfg] that by (simp add: ent_at_def)
    have v: "ent_val f ?i ?sec = (if fat_ent_off f c' mod 512 = fat_ent_off f c mod 512 then 0 else ent_val f ?i sec)"
      using ent_val_put [OF ls ent_off_aligned, of f c' c] by (simp only: word_unat_eq_iff [symmetric])
    show ?thesis
      unfolding fat_next_val [OF r'] fat_next_val [OF that]
      using v x s by (cases "ent_at f c' = ?at") (simp_all add: d' Let_def)
  qed
  have "fat_next d' f c' = fat_next d f c' \<or> fat_next d' f c' = 0" for c'
  proof (cases "ata_read d (fat_lba f + fat_ent_off f c' div 512)")
    case None
    then have "ata_read d' (fat_lba f + fat_ent_off f c' div 512) = None" using cfg_read [OF cfg] by simp
    then show ?thesis using None by (simp add: fat_next_def)
  next
    case (Some x)
    then show ?thesis using put by metis
  qed
  then show "clears f d d'" using cfg len ls by (auto simp: clears_def d')
  show "fat_next d' f c = 0" if "lba = fat_lba f + fat_ent_off f c div 512"
    using put [of c sec] rd that by (simp add: ent_at_def)
qed

lemma fat_set_clears:
  assumes "\<forall>l. length (platter d l) = 512" "fat_set_copies f (fat_ent_off f c) 0 ks d = (d', 0)"
  shows "clears f d d' \<and> (0 \<in> set ks \<longrightarrow> fat_next d' f c = 0)"
  using assms
proof (induction ks arbitrary: d)
  case Nil
  then show ?case by (simp add: clears_def)
next
  case (Cons k ks)
  let ?lba = "fat_lba f + of_nat k * fat_secs f + fat_ent_off f c div 512"
  obtain sec d1 where 1: "ata_read d ?lba = Some sec" "ata_write d ?lba (fat_put f (fat_ent_off f c) 0 sec) = (d1, 0)"
      "fat_set_copies f (fat_ent_off f c) 0 ks d1 = (d', 0)"
    using Cons.prems(2) by (auto simp: Let_def split: option.splits prod.splits if_splits)
  note c1 = fat_put_clears [OF Cons.prems(1) 1(1,2)]
  have "\<forall>l. length (platter d1 l) = 512" using c1(1) Cons.prems(1) by (simp add: clears_def)
  note c2 = Cons.IH [OF this 1(3)]
  have "fat_next d' f c = 0" if "k = 0"
  proof -
    have "fat_next d1 f c = 0" using c1(2) that by simp
    then show ?thesis using c2 unfolding clears_def by metis
  qed
  then show ?case using clears_trans [OF c1(1)] c2 by auto
qed

lemma free_chain_returns:
  assumes "\<forall>l. length (platter d l) = 512" "nfats f \<noteq> 0"
  shows "\<exists>r. free_chain f d c = Some r"
  using assms(1)
proof (induction "card {c. \<not> fat_eoc f c \<and> fat_next d f c \<noteq> 0}" arbitrary: d c rule: less_induct)
  case less
  show ?case
  proof (cases "fat_eoc f c")
    case True
    then show ?thesis by (subst free_chain.simps) simp
  next
    case False
    obtain d' r where s: "fat_set d f c 0 = (d', r)" by fastforce
    show ?thesis
    proof (cases "r = 0")
      case True
      have "0 \<in> set [0..<unat (nfats f)]" using assms(2) by (simp add: unat_gt_0)
      then have cl: "clears f d d'" and z: "fat_next d' f c = 0"
        using fat_set_clears [OF less.prems] s True by (auto simp: fat_set_def)
      have l': "\<forall>l. length (platter d' l) = 512" using cl less.prems by (simp add: clears_def)
      let ?S = "\<lambda>d. {c. \<not> fat_eoc f c \<and> fat_next d f c \<noteq> 0}"
      have "?S d' \<subseteq> ?S d" using cl unfolding clears_def by force
      have "\<exists>r. free_chain f d' (fat_next d f c) = Some r"
      proof (cases "fat_next d f c = 0")
        case True
        then show ?thesis by (subst free_chain.simps) (simp add: fat_eoc_def)
      next
        case nz: False
        then have "?S d' \<subset> ?S d" using \<open>?S d' \<subseteq> ?S d\<close> False z by blast
        then have "card (?S d') < card (?S d)" by (intro psubset_card_mono) simp_all
        then show ?thesis using less.hyps l' by blast
      qed
      then show ?thesis using False s True by (subst free_chain.simps) simp
    qed (use False s in \<open>subst free_chain.simps, simp\<close>)
  qed
qed

lemma fat_set_length:
  "\<forall>l. length (platter d l) = 512 \<Longrightarrow> fat_set_copies f off v ks d = (d', r) \<Longrightarrow> \<forall>l. length (platter d' l) = 512"
proof (induction ks arbitrary: d)
  case (Cons k ks)
  let ?lba = "fat_lba f + of_nat k * fat_secs f + off div 512"
  show ?case
  proof (cases "ata_read d ?lba")
    case None
    then show ?thesis using Cons.prems by simp
  next
    case (Some sec)
    then have "length sec = 512" using Cons.prems(1) by (auto simp: ata_read_def Let_def split: if_splits)
    moreover obtain d1 r1 where w: "ata_write d ?lba (fat_put f off v sec) = (d1, r1)" by fastforce
    ultimately have "\<forall>l. length (platter d1 l) = 512"
      using Cons.prems(1) by (auto simp: ata_write_def Let_def split: if_splits option.splits)
    then show ?thesis using Cons Some w by (auto simp: Let_def split: if_splits)
  qed
qed simp

lemma fit_file_returns:
  assumes "\<forall>l. length (platter d l) = 512" "nfats f \<noteq> 0"
  shows "\<exists>r. fit_file d f dst need = Some r"
proof -
  obtain h l c where c: "fit_chain d f (unat need) 0 0 (ff_clus dst) = (h, l, c)" by (metis prod_cases3)
  obtain d1 r where s: "(if need = 0 then (d, 0) else fat_set d f l 0x0FFFFFFF) = (d1, r)" by fastforce
  then have "\<forall>l. length (platter d1 l) = 512"
    using assms(1) fat_set_length [OF assms(1)] by (auto simp: fat_set_def split: if_splits)
  then obtain x where "free_chain f d1 c = Some x" using free_chain_returns assms(2) by blast
  then show ?thesis using c s by (auto simp: fit_file_def Let_def split: prod.split)
qed

lemma fat_open_nfats: "fat_open d bs = Some f \<Longrightarrow> nfats f \<noteq> 0"
  by (auto simp: fat_open_def Let_def split: option.splits if_splits)

lemma fat_copy_returns:
  assumes "\<forall>l. length (platter d l) = 512" "nfats df \<noteq> 0"
  shows "\<exists>r. fat_copy sf src df progress dst d p = Some r"
proof -
  let ?need = "(ff_size src + clus_bytes df - 1) div clus_bytes df"
  obtain d1 dst1 r where "fit_file d df dst ?need = Some (d1, dst1, r)" using fit_file_returns [OF assms] by (metis prod_cases3)
  then show ?thesis by (auto simp: fat_copy_def Let_def split: prod.split option.split)
qed

end
