(* ===== verification/Part_Scan.thy ===== *)
theory Part_Scan
  imports Part_Loops
begin

text \<open>
  What the scan of the partition table guarantees: the partitions it accepts lie on the disk and the
  roles name accepted partitions of the right kind.
\<close>

definition role_fits :: "nat \<Rightarrow> part \<Rightarrow> bool" where
  "role_fits r p \<longleftrightarrow> pt_count p \<noteq> 0 \<and>
     (r = PART_LOG \<longrightarrow> pt_type p = PART_TYPE_LOG) \<and> (r = PART_DATA \<longrightarrow> pt_type p = PART_TYPE_PFS) \<and>
     (r = PART_BOOT \<longrightarrow> is_fat_type (pt_type p) \<and> label_is (pt_label p) PART_LABEL_BOOT) \<and>
     (r = PART_RECOVERY \<longrightarrow> is_fat_type (pt_type p) \<and> label_is (pt_label p) PART_LABEL_RECOVERY)"

definition on_disk :: "disk \<Rightarrow> part \<Rightarrow> bool" where
  "on_disk d p \<longleftrightarrow> unat (pt_start p) + unat (pt_count p) \<le> unat (ata_sectors d)"

definition parts_ok :: "disk \<Rightarrow> parts \<Rightarrow> bool" where
  "parts_ok d ps \<longleftrightarrow> length (ptab ps) = 4 \<and> length (roles ps) = 4 \<and>
     (\<forall>i < 4. pt_count (ptab ps ! i) \<noteq> 0 \<longrightarrow> on_disk d (ptab ps ! i)) \<and>
     (\<forall>r < 4. roles ps ! r = -1 \<or> (\<exists>i < 4. roles ps ! r = int i \<and> role_fits r (ptab ps ! i)))"

lemmas part_defs = PART_BOOT_def PART_RECOVERY_def PART_LOG_def PART_DATA_def PART_ROLES_def

lemma parts_ok_store:
  assumes "parts_ok d ps" "i < 4" "pt_count (ptab ps ! i) = 0" "pt_count p \<noteq> 0 \<Longrightarrow> on_disk d p"
  shows "parts_ok d (ps\<lparr>ptab := (ptab ps)[i := p]\<rparr>)"
proof -
  have "\<exists>j < 4. roles ps ! r = int j \<and> role_fits r ((ptab ps)[i := p] ! j)"
    if r: "r < 4" "roles ps ! r \<noteq> -1" for r
  proof -
    obtain j where j: "j < 4" "roles ps ! r = int j" "role_fits r (ptab ps ! j)" using r assms(1) unfolding parts_ok_def by blast
    then have "j \<noteq> i" using assms(3) by (auto simp: role_fits_def)
    then show ?thesis using j by auto
  qed
  then have "\<forall>r < 4. roles ps ! r = -1 \<or> (\<exists>j < 4. roles ps ! r = int j \<and> role_fits r ((ptab ps)[i := p] ! j))" by blast
  moreover have "\<forall>j < 4. pt_count ((ptab ps)[i := p] ! j) \<noteq> 0 \<longrightarrow> on_disk d ((ptab ps)[i := p] ! j)"
    using assms by (simp add: parts_ok_def nth_list_update)
  ultimately show ?thesis using assms(1) by (simp add: parts_ok_def)
qed

lemma parts_ok_role:
  assumes "parts_ok d ps" "i < 4" "r < 4" "role_fits r (ptab ps ! i)"
  shows "parts_ok d (set_role r i ps)"
  using assms by (auto simp: parts_ok_def set_role_def nth_list_update)

lemma set_role_ptab [simp]: "ptab (set_role r i ps) = ptab ps" "nparts (set_role r i ps) = nparts ps"
  by (simp_all add: set_role_def)

lemma parts_ok_nparts: "parts_ok d (ps\<lparr>nparts := n\<rparr>) = parts_ok d ps"
  by (simp add: parts_ok_def)

lemma part_entry_ok:
  assumes ok: "parts_ok d ps" and i: "i < 4" and z: "ptab ps ! i = no_part"
  shows "parts_ok d (part_entry d e i ps)"
proof -
  let ?p = "no_part\<lparr>pt_type := e ! 4, pt_active := drop_bit 7 (e ! 0), pt_start := rd32 e 8, pt_count := rd32 e 12\<rparr>"
  let ?store = "\<lambda>p ps. ps\<lparr>ptab := (ptab ps)[i := p]\<rparr>"
  have len: "length (ptab ps) = 4" using ok by (simp add: parts_ok_def)
  have c0: "pt_count (ptab ps ! i) = 0" by (simp add: z no_part_def)
  have reject: "parts_ok d (?store (?p\<lparr>pt_count := 0\<rparr>) ps)" by (rule parts_ok_store [OF ok i c0]) simp
  show ?thesis
  proof (cases "e ! 4 = 0 \<or> rd32 e 12 = 0 \<or> ata_sectors d \<le> rd32 e 8 \<or> ata_sectors d - rd32 e 8 < rd32 e 12")
    case True
    then show ?thesis using reject z by (auto simp: part_entry_def Let_def no_part_def)
  next
    case False
    then have "rd32 e 8 \<le> ata_sectors d" "unat (rd32 e 12) \<le> unat (ata_sectors d - rd32 e 8)"
      by (simp_all add: word_less_nat_alt word_le_nat_alt)
    then have on: "on_disk d (q\<lparr>pt_fat := a, pt_label := b\<rparr>)" if "q = ?p" for q a b
      using that by (simp add: on_disk_def unat_sub word_le_nat_alt)
    let ?ps = "ps\<lparr>nparts := nparts ps + 1\<rparr>"
    have st: "parts_ok d (?store (?p\<lparr>pt_fat := a, pt_label := b\<rparr>) ?ps)" for a b
      by (rule parts_ok_store) (use ok i c0 on in \<open>simp_all add: parts_ok_nparts\<close>)
    have st0: "parts_ok d (?store ?p ?ps)" using st [of "[]" 0] by (simp add: no_part_def)
    let ?tab = "\<lambda>p. (ptab ps)[i := p]"
    have log: "parts_ok d (set_role PART_LOG i (?store ?p ?ps))" if "e ! 4 = PART_TYPE_LOG"
      using that False i len by (intro parts_ok_role st0) (simp_all add: role_fits_def part_defs)
    have data: "parts_ok d (set_role PART_DATA i (?store ?p ?ps))" if "e ! 4 = PART_TYPE_PFS"
      using that False i len by (intro parts_ok_role st0) (simp_all add: role_fits_def part_defs)
    have boot: "parts_ok d (set_role PART_BOOT i (?store (?p\<lparr>pt_fat := a, pt_label := b\<rparr>) ?ps))"
      if "is_fat_type (e ! 4)" "label_is b PART_LABEL_BOOT" for a b
      using that False i len by (intro parts_ok_role st) (simp_all add: role_fits_def part_defs)
    have rec: "parts_ok d (set_role PART_RECOVERY i qs)"
      if "is_fat_type (e ! 4)" "label_is b PART_LABEL_RECOVERY" "parts_ok d qs" "ptab qs = ?tab (?p\<lparr>pt_fat := a, pt_label := b\<rparr>)" for a b qs
      using that False i len by (intro parts_ok_role) (simp_all add: role_fits_def part_defs)
    show ?thesis
    proof (cases "is_fat_type (e ! 4)")
      case True
      have "e ! 4 \<noteq> PART_TYPE_LOG" "e ! 4 \<noteq> PART_TYPE_PFS" using True by (auto simp: is_fat_type_def PART_TYPE_LOG_def PART_TYPE_PFS_def)
      then show ?thesis using False True st0 st boot rec len i
        by (auto simp: part_entry_def Let_def z split: option.split)
    next
      case nf: False
      then show ?thesis using False st0 log data len i by (auto simp: part_entry_def Let_def z)
    qed
  qed
qed

lemma part_entry_frame:
  assumes "i < 4" "length (ptab ps) = 4"
  shows "\<And>j. j \<noteq> i \<Longrightarrow> ptab (part_entry d e i ps) ! j = ptab ps ! j"
    "nparts (part_entry d e i ps) = nparts ps + of_bool (pt_count (ptab (part_entry d e i ps) ! i) \<noteq> 0)"
  using assms by (auto simp: part_entry_def Let_def split: option.split)

lemma part_loop_ok:
  assumes "parts_ok d ps" "k \<le> 4" "\<forall>i. k \<le> i \<and> i < 4 \<longrightarrow> ptab ps ! i = no_part"
    and "nparts ps = int (card {i. i < k \<and> pt_count (ptab ps ! i) \<noteq> 0})" "ps' = part_loop d mbr [k..<4] ps"
  shows "parts_ok d ps' \<and> (0 < nparts ps' \<longrightarrow> nparts ps' = int (card {i. i < 4 \<and> pt_count (ptab ps' ! i) \<noteq> 0}))"
  using assms
proof (induction "4 - k" arbitrary: k ps)
  case 0
  then show ?case by simp
next
  case (Suc m)
  let ?e = "take 16 (drop (k * 16) mbr)"
  let ?q = "part_entry d ?e k ps"
  have k: "k < 4" using Suc.hyps(2) by simp
  then have upt: "[k..<4] = k # [Suc k..<4]" by (simp add: upt_conv_Cons)
  show ?case
  proof (cases "?e ! 0 AND 0x7F \<noteq> 0")
    case True
    then show ?thesis using Suc.prems upt by (simp add: Let_def parts_ok_nparts)
  next
    case False
    have len: "length (ptab ps) = 4" using Suc.prems(1) by (simp add: parts_ok_def)
    note fr = part_entry_frame [OF k len, where d = d and e = ?e]
    have ok: "parts_ok d ?q" using Suc.prems(1,3) k by (intro part_entry_ok) auto
    have "{i. i < Suc k \<and> pt_count (ptab ?q ! i) \<noteq> 0} =
        {i. i < k \<and> pt_count (ptab ps ! i) \<noteq> 0} \<union> (if pt_count (ptab ?q ! k) \<noteq> 0 then {k} else {})"
      using fr(1) by (auto simp: less_Suc_eq)
    then have "nparts ?q = int (card {i. i < Suc k \<and> pt_count (ptab ?q ! i) \<noteq> 0})"
      using fr(2) Suc.prems(4) by simp
    moreover have "\<forall>i. Suc k \<le> i \<and> i < 4 \<longrightarrow> ptab ?q ! i = no_part" using fr(1) Suc.prems(3) by auto
    moreover have "ps' = part_loop d mbr [Suc k..<4] ?q" using Suc.prems(5) False upt by (simp add: Let_def)
    ultimately show ?thesis using Suc.hyps(1) [of "Suc k" ?q] Suc.hyps(2) ok k by simp
  qed
qed

lemma no_parts_ok: "parts_ok d no_parts"
  by (auto simp: parts_ok_def no_parts_def no_part_def part_defs)

lemma part_scan_ok:
  "parts_ok d (part_scan d)"
  "0 < nparts (part_scan d) \<Longrightarrow> nparts (part_scan d) = int (card {i. i < 4 \<and> pt_count (ptab (part_scan d) ! i) \<noteq> 0})"
proof -
  have l: "parts_ok d ps \<and> (0 < nparts ps \<longrightarrow> nparts ps = int (card {i. i < 4 \<and> pt_count (ptab ps ! i) \<noteq> 0}))"
    if "ps = part_loop d mbr [0..<4] no_parts" for ps mbr
    by (rule part_loop_ok [OF no_parts_ok _ _ _ that]) (simp_all add: no_parts_def)
  have n: "nparts no_parts = 0" by (simp add: no_parts_def)
  show "parts_ok d (part_scan d)"
    using l no_parts_ok by (auto simp: part_scan_def split: option.split)
  show "0 < nparts (part_scan d) \<Longrightarrow> nparts (part_scan d) = int (card {i. i < 4 \<and> pt_count (ptab (part_scan d) ! i) \<noteq> 0})"
    using l n by (auto simp: part_scan_def split: option.splits if_splits)
qed

lemma part_role_ok: "part_role (part_scan d) r = Some p \<Longrightarrow> p \<in> set (ptab (part_scan d)) \<and> role_fits r p \<and> on_disk d p"
proof -
  assume a: "part_role (part_scan d) r = Some p"
  then have r: "r < 4" "roles (part_scan d) ! r \<noteq> -1" "p = ptab (part_scan d) ! nat (roles (part_scan d) ! r)"
    by (auto simp: part_role_def PART_ROLES_def split: if_splits)
  then obtain i where "i < 4" "roles (part_scan d) ! r = int i" "role_fits r (ptab (part_scan d) ! i)"
    using part_scan_ok(1) [of d] unfolding parts_ok_def by blast
  then show ?thesis using r part_scan_ok(1) [of d] by (auto simp: parts_ok_def role_fits_def)
qed

subsection \<open>A partitioned disk\<close>

definition sector_of :: "(nat \<times> bytes) list \<Rightarrow> bytes" where
  "sector_of xs = fold (\<lambda>(i, b) s. blit s i b) xs (replicate 512 0)"

definition sample_mbr :: bytes where
  "sample_mbr = sector_of [(450, [0x06]), (454, [64, 0, 0, 0, 0x68, 0x10]), (466, [0x4B]), (470, [0xA8, 0x10, 0, 0, 0, 0x10]), (510, [0x55, 0xAA])]"

definition sample_bpb :: bytes where
  "sample_bpb = sector_of [(11, [0x00, 0x02, 0x01, 0x01, 0x00, 0x01, 0x10, 0x00, 0x68, 0x10]), (22, [0x11, 0x00]),
     (43, ascii ''KANRECOV   ''), (510, [0x55, 0xAA])]"

definition sample_disk :: disk where
  "sample_disk = \<lparr>present = True, total_sectors = 20000, prot = [], hole = [],
     platter = (\<lambda>l. if l = 0 then sample_mbr else if l = 64 then sample_bpb else replicate 512 0),
     rd_fault = (\<lambda>_. False), wr_fault = (\<lambda>_. None)\<rparr>"

lemma sample_scan:
  "(nparts (part_scan sample_disk), roles (part_scan sample_disk),
    map (\<lambda>p. (pt_start p, pt_count p)) (ptab (part_scan sample_disk))) =
   (2, [-1, 0, -1, 1], [(64, 4200), (4264, 4096), (0, 0), (0, 0)])"
  by code_simp

text \<open>C24. The partition table is read safely. Whatever is on the disk, every partition the scan accepts
  lies on it, the roles name accepted partitions of their type or label, and a count above 0 is the
  number of accepted partitions.\<close>

theorem part_scan_sound:
  "parts_ok d (part_scan d) \<and>
   (0 < part_count (part_scan d) \<longrightarrow>
      part_count (part_scan d) = int (card {i. i < 4 \<and> pt_count (ptab (part_scan d) ! i) \<noteq> 0})) \<and>
   (\<forall>r p. part_role (part_scan d) r = Some p \<longrightarrow> p \<in> set (ptab (part_scan d)) \<and> role_fits r p \<and> on_disk d p)"
  using part_scan_ok part_role_ok by (auto simp: part_count_def)

theorem part_scan_sound_witness:
  "\<exists>p. part_role (part_scan sample_disk) PART_RECOVERY = Some p \<and> pt_start p = 64 \<and> role_fits PART_RECOVERY p \<and>
     card {i. i < 4 \<and> pt_count (ptab (part_scan sample_disk) ! i) \<noteq> 0} = 2"
proof -
  let ?p = "ptab (part_scan sample_disk) ! 0"
  have "part_role (part_scan sample_disk) PART_RECOVERY = Some ?p" "pt_start ?p = 64" "part_count (part_scan sample_disk) = 2"
    using sample_scan by (auto simp: part_role_def part_count_def part_defs map_eq_Cons_conv)
  then show ?thesis using part_scan_sound [of sample_disk] by auto
qed

text \<open>C25. Every loop of the FAT driver ends. On a drive with arbitrary contents, cyclic chains included,
  finding a file, listing a directory and overwriting a file on a volume that was opened return.\<close>

theorem fat_loops_return:
  assumes "\<forall>l. length (platter d l) = 512" "fat_open d0 bs = Some f"
  shows "(\<exists>r. fat_find d f path = Some r) \<and> (\<exists>r. fat_list d f path fn ud = Some r) \<and>
    (\<exists>r. fat_copy sf src f progress dst d p = Some r)"
  by (intro conjI fat_find_returns fat_list_returns fat_copy_returns [OF assms(1) fat_open_nfats [OF assms(2)]])

theorem fat_loops_return_witness:
  "\<exists>f. fat_open sample_disk 64 = Some f \<and>
     (\<exists>r. fat_copy f \<lparr>ff_clus = 2, ff_size = 600, ff_dir_lba = 0, ff_dir_off = 0, ff_attr = 0\<rparr> f (\<lambda>_ _ p. p)
        \<lparr>ff_clus = 9, ff_size = 0, ff_dir_lba = 82, ff_dir_off = 0, ff_attr = 0\<rparr> sample_disk () = Some r)"
proof -
  have "map_option nclus (fat_open sample_disk 64) = Some 4181" by code_simp
  then obtain f where f: "fat_open sample_disk 64 = Some f" by auto
  have l: "\<forall>l. length (platter sample_disk l) = 512" by (simp add: sample_disk_def sample_mbr_def sample_bpb_def sector_of_def)
  show ?thesis by (intro exI [of _ f] conjI f fat_loops_return [OF l f, THEN conjunct2, THEN conjunct2])
qed

text \<open>A table that is given up because of a later entry leaves the roles of the earlier ones set: here
  the scan returns 0 partitions and \<open>part_role\<close> still returns a log partition.\<close>

definition stale_disk :: disk where
  "stale_disk = sample_disk\<lparr>platter := (\<lambda>l. if l = 0 then sector_of [(450, [0xDA]), (454, [64, 0, 0, 0, 0, 0x10]), (462, [0x01]), (510, [0x55, 0xAA])]
     else replicate 512 0)\<rparr>"

theorem part_scan_stale:
  "part_count (part_scan stale_disk) = 0 \<and> map_option pt_start (part_role (part_scan stale_disk) PART_LOG) = Some 64"
  by code_simp

end
