(* ===== verification/Pfs_Boot.thy ===== *)
theory Pfs_Boot
  imports Pfs_Mount Part_Scan
begin

text \<open>
  The start of persistence (\<open>pfs_init\<close> and \<open>pfs_init_recovery\<close> of \<open>src/pfs.c\<close>): probing the disk, reading the
  partition table, protecting the boot and recovery partitions, finding the GRUB environment block,
  choosing the volume and mounting it. \<open>answer\<close> is the drive's IDENTIFY data.
\<close>

record boot =
  b_fs :: "pfs fs"
  b_parts :: parts
  b_env :: u32

text \<open>\<open>if (p) ata_protect(p->start, p->count)\<close> for the partition of a role.\<close>

definition protect_role :: "parts \<Rightarrow> nat \<Rightarrow> disk \<Rightarrow> disk" where
  "protect_role ps r d = (case part_role ps r of None \<Rightarrow> d | Some p \<Rightarrow> ata_protect (pt_start p) (pt_count p) d)"

definition set_disk :: "disk \<Rightarrow> boot \<Rightarrow> boot" where
  "set_disk d b = b\<lparr>b_fs := (b_fs b)\<lparr>fs_disk := (fs_disk (b_fs b))\<lparr>disk := d\<rparr>\<rparr>\<rparr>"

definition set_range :: "u32 \<Rightarrow> u32 \<Rightarrow> boot \<Rightarrow> boot" where
  "set_range start len b = b\<lparr>b_fs := (b_fs b)\<lparr>fs_disk := (fs_disk (b_fs b))\<lparr>pfs_base := start, pfs_len := len\<rparr>\<rparr>\<rparr>"

abbreviation b_disk :: "boot \<Rightarrow> disk" where
  "b_disk b \<equiv> disk (fs_disk (b_fs b))"

definition pfs_init_recovery :: "u16 list option \<Rightarrow> boot \<Rightarrow> boot option" where
  "pfs_init_recovery answer b =
     (case ata_init answer (b_disk b) of (d, found) \<Rightarrow>
        let b = set_disk d b
        in if \<not> found then Some b
           else let ps = part_scan d; b = b\<lparr>b_parts := ps\<rparr>
             in if part_count ps \<le> 0 then Some b
                else case grubenv_init ps (protect_role ps PART_RECOVERY d, b_env b) of
                    None \<Rightarrow> None
                  | Some (d, env, r) \<Rightarrow> Some (set_disk d (b\<lparr>b_env := env\<rparr>)))"

definition pfs_init :: "u16 list option \<Rightarrow> boot \<Rightarrow> boot option" where
  "pfs_init answer b =
     (let b = b\<lparr>b_fs := fs_install_persist pfs_sync_file pfs_delete_file (b_fs b)\<rparr>
      in case ata_init answer (b_disk b) of (d, found) \<Rightarrow>
        let b = set_disk d b
        in if \<not> found then Some b
           else let b = set_range 0 (ata_sectors d) b; ps = part_scan d; b = b\<lparr>b_parts := ps\<rparr>
             in if 0 < part_count ps then
                  case grubenv_init ps (protect_role ps PART_RECOVERY (protect_role ps PART_BOOT d), b_env b) of
                    None \<Rightarrow> None
                  | Some (d, env, r) \<Rightarrow>
                      let b = set_disk d (b\<lparr>b_env := env\<rparr>)
                      in case part_role ps PART_DATA of
                           None \<Rightarrow> Some b
                         | Some q \<Rightarrow>
                             let b = set_range (pt_start q) (pt_count q) b in Some (b\<lparr>b_fs := pfs_mount (b_fs b)\<rparr>)
                else Some (b\<lparr>b_fs := pfs_mount (b_fs b)\<rparr>))"

subsection \<open>The file system writes its own range only\<close>

definition inside :: "pfs \<Rightarrow> pfs \<Rightarrow> bool" where
  "inside p p' \<longleftrightarrow> pfs_base p' = pfs_base p \<and> pfs_len p' = pfs_len p \<and> drive_cfg (disk p') = drive_cfg (disk p) \<and>
     (\<forall>l. platter (disk p') l \<noteq> platter (disk p) l \<longrightarrow> l - pfs_base p < pfs_len p \<and> \<not> ata_write_protected (disk p) l)"

definition small_disk :: "disk \<Rightarrow> bool" where
  "small_disk d \<longleftrightarrow> unat (total_sectors d) \<le> 2 ^ 28"

lemma cfg_sel:
  assumes "drive_cfg d' = drive_cfg d"
  shows "prot d' = prot d" "hole d' = hole d" "total_sectors d' = total_sectors d" "present d' = present d"
    "ata_write_protected d' = ata_write_protected d" "small_disk d' = small_disk d"
  using assms drive_cfg_sel [of d] drive_cfg_sel [of d'] by (simp_all add: small_disk_def)

lemma ata_write_changes:
  assumes "small_disk d" "ata_write d l b = (d', r)"
  shows "drive_cfg d' = drive_cfg d \<and> (\<forall>k. platter d' k \<noteq> platter d k \<longrightarrow> k = l \<and> \<not> ata_write_protected d k)"
proof -
  have "regs_lba (lba_regs l) = l" if "l < total_sectors d"
    using that assms(1) by (intro lba28) (simp add: small_disk_def word_less_nat_alt)
  then show ?thesis
    using assms(2) by (auto simp: ata_write_def Let_def drive_cfg_def not_le split: if_splits option.splits)
qed

lemma inside_refl [simp]: "inside p p"
  by (simp add: inside_def)

lemma inside_trans:
  assumes 1: "inside p q" and 2: "inside q r"
  shows "inside p r"
proof -
  have c: "drive_cfg (disk q) = drive_cfg (disk p)" using 1 by (simp add: inside_def)
  have "l - pfs_base p < pfs_len p \<and> \<not> ata_write_protected (disk p) l" if "platter (disk r) l \<noteq> platter (disk p) l" for l
  proof (cases "platter (disk q) l = platter (disk p) l")
    case True
    then have "platter (disk r) l \<noteq> platter (disk q) l" using that by simp
    then show ?thesis using 1 2 cfg_sel(5) [OF c] by (simp add: inside_def)
  qed (use 1 in \<open>simp add: inside_def\<close>)
  then show ?thesis using 1 2 by (simp add: inside_def)
qed

lemma inside_small: "inside p q \<Longrightarrow> small_disk (disk q) = small_disk (disk p)"
  unfolding inside_def by (intro cfg_sel(6)) blast

lemma dsk_write_inside: "small_disk (disk p) \<Longrightarrow> inside p (fst (dsk_write p l b))"
proof (cases "l < pfs_len p")
  case True
  assume s: "small_disk (disk p)"
  obtain d r where w: "ata_write (disk p) (pfs_base p + l) b = (d, r)" by fastforce
  have c: "drive_cfg d = drive_cfg (disk p)"
    and k: "\<And>k. platter d k \<noteq> platter (disk p) k \<Longrightarrow> k = pfs_base p + l \<and> \<not> ata_write_protected (disk p) k"
    using ata_write_changes [OF s w] by blast+
  have "k - pfs_base p < pfs_len p \<and> \<not> ata_write_protected (disk p) k" if "platter d k \<noteq> platter (disk p) k" for k
    using k [OF that] True by auto
  then show ?thesis using w c True by (simp add: dsk_write_def inside_def)
qed (simp add: dsk_write_def)

lemma wr_seq_inside: "small_disk (disk p) \<Longrightarrow> inside p (fst (wr_seq dsk_write p l bs))"
proof (induction bs arbitrary: p l)
  case (Cons b bs)
  note 1 = dsk_write_inside [OF Cons.prems, of l b]
  then show ?case
    using Cons inside_small [OF 1] inside_trans [OF 1] by (auto split: prod.splits)
qed simp

lemma sync_write_inside: "small_disk (disk p) \<Longrightarrow> inside p (fst (sync_write v p name sb slot start need sz))"
proof -
  assume s: "small_disk (disk p)"
  obtain wbuf got where g: "fs_read v name (uint PFS_FILE_MAX) = (wbuf, got)" by fastforce
  let ?g = "if got < 0 then 0 else got"
  obtain p1 r1 where 1: "wr_seq dsk_write p start (map (file_sector wbuf ?g) [0..<unat need]) = (p1, r1)" by fastforce
  have i1: "inside p p1" using wr_seq_inside [OF s] 1 by (metis fst_conv)
  obtain p2 r2 where 2: "entry_write p1 slot (new_entry name sz start) = (p2, r2)" by fastforce
  have s1: "small_disk (disk p1)" using inside_small [OF i1] s by simp
  have i2: "inside p1 p2" using dsk_write_inside [OF s1] 2 unfolding entry_write_def by (metis fst_conv)
  let ?sb = "sb\<lparr>sb_nfiles := count_files p2\<rparr>"
  obtain p3 r3 where 3: "sb_write p2 ?sb = (p3, r3)" by fastforce
  have s2: "small_disk (disk p2)" using inside_small [OF i2] s1 by simp
  have i3: "inside p2 p3" using dsk_write_inside [OF s2] 3 unfolding sb_write_def by (metis fst_conv)
  show ?thesis using g 1 2 3 i1 inside_trans [OF i1 i2] inside_trans [OF inside_trans [OF i1 i2] i3]
    by (simp add: sync_write_def)
qed

lemma pfs_sync_inside: "small_disk (disk p) \<Longrightarrow> inside p (fst (pfs_sync_file v p name))"
  by (auto simp: pfs_sync_file_def Let_def sync_write_inside split: option.splits prod.splits)

lemma clear_table_inside: "small_disk (disk p) \<Longrightarrow> inside p (clear_table p is)"
proof (induction "is" arbitrary: p)
  case (Cons i "is")
  have 1: "inside p (fst (entry_write p i empty_entry))" using dsk_write_inside [OF Cons.prems] by (simp add: entry_write_def)
  then show ?case using Cons inside_small [OF 1] inside_trans [OF 1] by simp
qed simp

lemma sb_format_inside: "small_disk (disk p) \<Longrightarrow> inside p (fst (sb_format p))"
proof -
  assume s: "small_disk (disk p)"
  note 1 = clear_table_inside [OF s, of "[0..<PFS_TABLE_SECTORS]"]
  have "small_disk (disk (clear_table p [0..<PFS_TABLE_SECTORS]))" using inside_small [OF 1] s by simp
  then show ?thesis using inside_trans [OF 1] dsk_write_inside by (simp add: sb_format_def sb_write_def Let_def)
qed

lemma fs_write_inside:
  assumes "small_disk (disk (fs_disk s))" "persist_sync_fn s = Some pfs_sync_file"
  shows "inside (fs_disk s) (fs_disk (fst (fs_write s name data len)))"
    "persist_sync_fn (fst (fs_write s name data len)) = Some pfs_sync_file"
  using assms pfs_sync_inside [OF assms(1)]
  by (auto simp: fs_write_def fs_hook_def Let_def split: prod.splits option.splits)

lemma hydrate_inside:
  "small_disk (disk (fs_disk s)) \<Longrightarrow> persist_sync_fn s = Some pfs_sync_file \<Longrightarrow> inside (fs_disk s) (fs_disk (hydrate s is))"
proof (induction "is" arbitrary: s)
  case (Cons i "is")
  have step: "inside (fs_disk s) (fs_disk (hydrate (fst (fs_write s name data len)) is))" for name data len
  proof -
    note 1 = fs_write_inside [OF Cons.prems, of name data len]
    show ?thesis using inside_trans [OF 1(1)] Cons.IH [of "fst (fs_write s name data len)"] inside_small [OF 1(1)] 1(2) Cons.prems(1) by simp
  qed
  then show ?case using Cons by (auto simp: Let_def split: option.split)
qed simp

lemma pfs_mount_inside:
  assumes s: "small_disk (disk (fs_disk s))" and p: "persist_sync_fn s = Some pfs_sync_file"
  shows "inside (fs_disk s) (fs_disk (pfs_mount s))"
proof -
  have m: "inside p (p\<lparr>mounted := True\<rparr>)" for p by (simp add: inside_def)
  have h: "inside (fs_disk t) (fs_disk (hydrate (t\<lparr>fs_disk := (fs_disk t)\<lparr>mounted := True\<rparr>\<rparr>) is))"
    if "small_disk (disk (fs_disk t))" "persist_sync_fn t = Some pfs_sync_file" for t "is"
    using hydrate_inside [of "t\<lparr>fs_disk := (fs_disk t)\<lparr>mounted := True\<rparr>\<rparr>" "is"] that inside_trans [OF m] by simp
  let ?t = "s\<lparr>fs_disk := fst (sb_format (fs_disk s))\<rparr>"
  have f: "inside (fs_disk s) (fs_disk ?t)" using sb_format_inside [OF s] by simp
  have ht: "inside (fs_disk s) (fs_disk (hydrate (?t\<lparr>fs_disk := (fs_disk ?t)\<lparr>mounted := True\<rparr>\<rparr>) is))" for "is"
    using inside_trans [OF f h [of ?t "is"]] inside_small [OF f] s p by simp
  show ?thesis unfolding pfs_mount_def Let_def using f h [OF s p] ht by (simp split: option.split)
qed

subsection \<open>Protection at boot\<close>

lemma grubenv_cases:
  obtains d' env r where "grubenv_init ps (d, e0) = Some (d', env, r)" "d' = d \<or> d' = ata_allow env 2 d \<and> part_role ps PART_BOOT \<noteq> None"
proof -
  have "\<exists>d' env r. grubenv_init ps (d, e0) = Some (d', env, r) \<and> (d' = d \<or> d' = ata_allow env 2 d \<and> part_role ps PART_BOOT \<noteq> None)"
  proof (cases "part_role ps PART_BOOT")
    case (Some p)
    show ?thesis
    proof (cases "fat_open d (pt_start p)")
      case f: (Some f)
      obtain e where "fat_find d f (ascii ''/boot/grub/grubenv'') = Some e" using fat_find_returns by blast
      then show ?thesis using Some f by (cases e) (auto simp: grubenv_init_def Let_def)
    qed (use Some in \<open>simp add: grubenv_init_def\<close>)
  qed (simp add: grubenv_init_def)
  then show thesis using that by blast
qed

definition writes :: "(u32 \<times> bytes) list \<Rightarrow> disk \<Rightarrow> disk" where
  "writes ws d = fold (\<lambda>(l, b) d. fst (ata_write d l b)) ws d"

lemma writes_protected: "small_disk d \<Longrightarrow> ata_write_protected d l \<Longrightarrow> platter (writes ws d) l = platter d l"
proof (induction ws arbitrary: d)
  case (Cons w ws)
  obtain k b where w: "w = (k, b)" by fastforce
  obtain d' r where a: "ata_write d k b = (d', r)" by fastforce
  have c: "drive_cfg d' = drive_cfg d" "platter d' l = platter d l"
    using ata_write_changes [OF Cons.prems(1) a] Cons.prems(2) by blast+
  then have "platter (writes ws d') l = platter d' l" using Cons.IH [of d'] cfg_sel [OF c(1)] Cons.prems by simp
  then show ?case using w a c(2) by (simp add: writes_def)
qed (simp add: writes_def)

lemma protect_role_prot:
  assumes "length (prot d) < 4"
  shows "prot (protect_role ps r d) = prot d @ (case part_role ps r of None \<Rightarrow> [] | Some q \<Rightarrow> [(pt_start q, pt_count q)])"
    "hole (protect_role ps r d) = hole d" "platter (protect_role ps r d) = platter d"
    "total_sectors (protect_role ps r d) = total_sectors d"
  using assms by (simp_all add: protect_role_def ata_protect_def split: option.split)

text \<open>Where the environment block's hole lets writes through.\<close>

definition env_hole :: "boot \<Rightarrow> u32 \<Rightarrow> bool" where
  "env_hole b l \<longleftrightarrow> hole (b_disk b) = [(b_env b, 2)] \<and> l - b_env b < 2"

lemma boot_protects:
  assumes z: "prot d = []" "hole d = []"
    and d2: "d2 = protect_role ps PART_RECOVERY (protect_role ps PART_BOOT d)"
    and d3: "d3 = d2 \<or> d3 = ata_allow env 2 d2 \<and> part_role ps PART_BOOT \<noteq> None"
  shows "platter d3 = platter d" "total_sectors d3 = total_sectors d"
    "hole d3 = [] \<or> hole d3 = [(env, 2)] \<and> part_role ps PART_BOOT \<noteq> None"
    "r = PART_BOOT \<or> r = PART_RECOVERY \<Longrightarrow> part_role ps r = Some q \<Longrightarrow> l - pt_start q < pt_count q \<Longrightarrow>
       ata_write_protected d3 l \<or> hole d3 = [(env, 2)] \<and> l - env < 2"
proof -
  let ?d1 = "protect_role ps PART_BOOT d"
  have l1: "length (prot ?d1) < 4" using z protect_role_prot [of d ps PART_BOOT] by (auto split: option.splits)
  note p1 = protect_role_prot [of d ps PART_BOOT] and p2 = protect_role_prot [OF l1, of ps PART_RECOVERY]
  have h: "hole d2 = []" "platter d2 = platter d" "total_sectors d2 = total_sectors d"
    using z p1 p2 d2 by simp_all
  then have e: "platter d3 = platter d" "total_sectors d3 = total_sectors d" "prot d3 = prot d2" "hole d3 = [] \<or> hole d3 = [(env, 2)] \<and> part_role ps PART_BOOT \<noteq> None"
    using d3 by (auto simp: ata_allow_def)
  then show "platter d3 = platter d" "total_sectors d3 = total_sectors d"
    "hole d3 = [] \<or> hole d3 = [(env, 2)] \<and> part_role ps PART_BOOT \<noteq> None" by simp_all
  assume r: "r = PART_BOOT \<or> r = PART_RECOVERY" "part_role ps r = Some q" "l - pt_start q < pt_count q"
  have "(pt_start q, pt_count q) \<in> set (prot d2)" using r(1,2) z p1 p2 d2 by auto
  then have "in_ranges l (prot d3)" using r(3) e(3) unfolding in_ranges_def by auto
  then show "ata_write_protected d3 l \<or> hole d3 = [(env, 2)] \<and> l - env < 2"
    using e(4) by (auto simp: ata_write_protected_def in_ranges_def)
qed

lemma ata_init_sel:
  "ata_init answer d0 = (d, found) \<Longrightarrow> prot d = prot d0 \<and> hole d = hole d0 \<and> platter d = platter d0"
  by (auto simp: ata_init_def Let_def split: if_splits option.splits)

text \<open>The run of \<open>pfs_init\<close> on a disk with partitions: the state before the mount, then the mount.\<close>

lemma mount_changes:
  assumes s: "small_disk (b_disk c)" "persist_sync_fn (b_fs c) = Some pfs_sync_file"
    and b': "b' = (let c = set_range (pt_start q) (pt_count q) c in c\<lparr>b_fs := pfs_mount (b_fs c)\<rparr>)"
  shows "b_parts b' = b_parts c" "b_env b' = b_env c" "drive_cfg (b_disk b') = drive_cfg (b_disk c)"
    "platter (b_disk b') l \<noteq> platter (b_disk c) l \<Longrightarrow> l - pt_start q < pt_count q \<and> \<not> ata_write_protected (b_disk c) l"
proof -
  let ?c = "set_range (pt_start q) (pt_count q) c"
  have c: "b_disk ?c = b_disk c" "persist_sync_fn (b_fs ?c) = Some pfs_sync_file"
    "pfs_base (fs_disk (b_fs ?c)) = pt_start q" "pfs_len (fs_disk (b_fs ?c)) = pt_count q"
    using s by (simp_all add: set_range_def)
  have m: "inside (fs_disk (b_fs ?c)) (fs_disk (pfs_mount (b_fs ?c)))" using pfs_mount_inside [of "b_fs ?c"] c s by simp
  show "b_parts b' = b_parts c" "b_env b' = b_env c" by (simp_all add: b' set_range_def Let_def)
  have d: "b_disk b' = disk (fs_disk (pfs_mount (b_fs ?c)))" by (simp add: b' Let_def)
  show "drive_cfg (b_disk b') = drive_cfg (b_disk c)" using m c(1) unfolding d inside_def by simp
  show "l - pt_start q < pt_count q \<and> \<not> ata_write_protected (b_disk c) l" if "platter (b_disk b') l \<noteq> platter (b_disk c) l"
    using m that unfolding d inside_def c by blast
qed

lemma pfs_init_run:
  assumes i: "ata_init answer (b_disk b) = (d, True)" and s: "small_disk d3" and ps: "ps = part_scan d" "0 < part_count ps"
    and g: "grubenv_init ps (protect_role ps PART_RECOVERY (protect_role ps PART_BOOT d), b_env b) = Some (d3, env, r0)"
  shows "\<exists>b'. pfs_init answer b = Some b' \<and> b_parts b' = ps \<and> b_env b' = env \<and> drive_cfg (b_disk b') = drive_cfg d3 \<and>
    (\<forall>l. platter (b_disk b') l \<noteq> platter d3 l \<longrightarrow>
      (\<exists>q. part_role ps PART_DATA = Some q \<and> l - pt_start q < pt_count q) \<and> \<not> ata_write_protected d3 l)"
proof -
  define b1 where "b1 = set_disk d3 ((set_range 0 (ata_sectors d) (set_disk d
    (b\<lparr>b_fs := fs_install_persist pfs_sync_file pfs_delete_file (b_fs b)\<rparr>)))\<lparr>b_parts := ps, b_env := env\<rparr>)"
  have b1: "b_disk b1 = d3" "b_env b1 = env" "b_parts b1 = ps" "persist_sync_fn (b_fs b1) = Some pfs_sync_file"
    by (simp_all add: b1_def set_disk_def set_range_def fs_install_persist_def)
  define b' where "b' = (case part_role ps PART_DATA of None \<Rightarrow> b1
    | Some q \<Rightarrow> let c = set_range (pt_start q) (pt_count q) b1 in c\<lparr>b_fs := pfs_mount (b_fs c)\<rparr>)"
  have run: "pfs_init answer b = Some b'"
    using i g ps by (simp add: pfs_init_def b'_def b1_def set_disk_def set_range_def fs_install_persist_def Let_def split: option.split)
  show ?thesis
  proof (cases "part_role ps PART_DATA")
    case None
    then have "b' = b1" by (simp add: b'_def)
    then show ?thesis using run b1 by auto
  next
    case (Some q)
    then have b': "b' = (let c = set_range (pt_start q) (pt_count q) b1 in c\<lparr>b_fs := pfs_mount (b_fs c)\<rparr>)" by (simp add: b'_def)
    have s1: "small_disk (b_disk b1)" using s b1(1) by simp
    note m = mount_changes [OF s1 b1(4) b']
    show ?thesis
    proof (intro exI conjI allI impI)
      show "pfs_init answer b = Some b'" by (rule run)
      show "b_parts b' = ps" "b_env b' = env" "drive_cfg (b_disk b') = drive_cfg d3" using m(1-3) b1 by simp_all
      fix l assume "platter (b_disk b') l \<noteq> platter d3 l"
      then have "l - pt_start q < pt_count q \<and> \<not> ata_write_protected d3 l" using m(4) [of l] b1(1) by simp
      then show "part_role ps PART_DATA = Some q" "l - pt_start q < pt_count q" "\<not> ata_write_protected d3 l" using Some by simp_all
    qed
  qed
qed

text \<open>C13. An installed disk is protected. For every disk with a partition table, whatever its contents,
  \<open>pfs_init\<close> returns; it changes no sector outside the data partition; it opens at most one hole in the
  protection, the two sectors of the environment block, and only with a boot partition; and from then on
  no sequence of writes through the driver changes any other sector of the boot or recovery partition.\<close>

theorem pfs_init_protects:
  assumes z: "prot (b_disk b) = []" "hole (b_disk b) = []"
    and i: "ata_init answer (b_disk b) = (d, True)" and s: "small_disk d"
    and ps: "ps = part_scan d" "0 < part_count ps"
  shows "\<exists>b'. pfs_init answer b = Some b' \<and> b_parts b' = ps \<and>
    (hole (b_disk b') = [] \<or> hole (b_disk b') = [(b_env b', 2)] \<and> part_role ps PART_BOOT \<noteq> None) \<and>
    (\<forall>l. platter (b_disk b') l \<noteq> platter d l \<longrightarrow> (\<exists>q. part_role ps PART_DATA = Some q \<and> l - pt_start q < pt_count q)) \<and>
    (\<forall>r q l ws. (r = PART_BOOT \<or> r = PART_RECOVERY) \<and> part_role ps r = Some q \<and>
       pt_start q \<le> l \<and> unat l < unat (pt_start q) + unat (pt_count q) \<and> \<not> env_hole b' l \<longrightarrow>
       platter (writes ws (b_disk b')) l = platter d l)"
proof -
  let ?d2 = "protect_role ps PART_RECOVERY (protect_role ps PART_BOOT d)"
  obtain d3 env r0 where g: "grubenv_init ps (?d2, b_env b) = Some (d3, env, r0)"
      and d3: "d3 = ?d2 \<or> d3 = ata_allow env 2 ?d2 \<and> part_role ps PART_BOOT \<noteq> None"
    by (rule grubenv_cases)
  have zd: "prot d = []" "hole d = []" using ata_init_sel [OF i] z by simp_all
  note bp = boot_protects [OF zd refl d3]
  have s3: "small_disk d3" using s bp(2) by (simp add: small_disk_def)
  obtain b' where b': "pfs_init answer b = Some b'" "b_parts b' = ps" "b_env b' = env" "drive_cfg (b_disk b') = drive_cfg d3"
    and chg: "\<And>l. platter (b_disk b') l \<noteq> platter d3 l \<Longrightarrow>
      (\<exists>q. part_role ps PART_DATA = Some q \<and> l - pt_start q < pt_count q) \<and> \<not> ata_write_protected d3 l"
    using pfs_init_run [OF i s3 ps g] by blast
  note cs = cfg_sel [OF b'(4)]
  have "platter (writes ws (b_disk b')) l = platter d l"
    if r: "r = PART_BOOT \<or> r = PART_RECOVERY" "part_role ps r = Some q"
      and l: "pt_start q \<le> l" "unat l < unat (pt_start q) + unat (pt_count q)" and e: "\<not> env_hole b' l" for r q l ws
  proof -
    have "unat (l - pt_start q) = unat l - unat (pt_start q)" using l(1) by (simp add: unat_sub)
    then have "l - pt_start q < pt_count q" using l unfolding word_less_nat_alt word_le_nat_alt by linarith
    then have p: "ata_write_protected d3 l" using bp(4) [OF r] e cs(2) b'(3) by (auto simp: env_hole_def)
    then have "platter (b_disk b') l = platter d l" using chg [of l] bp(1) by auto
    then show ?thesis using writes_protected [of "b_disk b'" l ws] p cs s3 by simp
  qed
  then show ?thesis using b' chg bp(1,3) cs(2) by metis
qed

theorem pfs_init_protects_witness:
  "\<exists>b'. pfs_init None (\<lparr>b_fs = boot_pfs\<lparr>fs_disk := (fs_disk boot_pfs)\<lparr>disk := sample_disk\<rparr>\<rparr>, b_parts = no_parts, b_env = 0\<rparr>) = Some b' \<and>
     (\<forall>ws. platter (writes ws (b_disk b')) 64 = sample_bpb)"
proof -
  let ?b = "\<lparr>b_fs = boot_pfs\<lparr>fs_disk := (fs_disk boot_pfs)\<lparr>disk := sample_disk\<rparr>\<rparr>, b_parts = no_parts, b_env = 0\<rparr>"
  let ?ps = "part_scan sample_disk"
  have sel: "prot sample_disk = []" "hole sample_disk = []" "present sample_disk" "total_sectors sample_disk = 20000"
    "platter sample_disk 64 = sample_bpb"
    by (simp_all add: sample_disk_def)
  have sc: "0 < part_count ?ps" "roles ?ps = [-1, 0, -1, 1]" "map (\<lambda>p. (pt_start p, pt_count p)) (ptab ?ps) = [(64, 4200), (4264, 4096), (0, 0), (0, 0)]"
    using sample_scan by (simp_all add: part_count_def)
  then have q: "part_role ?ps PART_BOOT = None" "part_role ?ps PART_RECOVERY = Some (ptab ?ps ! 0)" "pt_start (ptab ?ps ! 0) = 64" "pt_count (ptab ?ps ! 0) = 4200"
    by (auto simp: part_role_def part_defs map_eq_Cons_conv)
  have i: "ata_init None (b_disk ?b) = (sample_disk, True)" using sel by (simp add: ata_init_def)
  obtain b' where b': "pfs_init None ?b = Some b'" "hole (b_disk b') = []"
    "\<forall>r q l ws. (r = PART_BOOT \<or> r = PART_RECOVERY) \<and> part_role ?ps r = Some q \<and>
       pt_start q \<le> l \<and> unat l < unat (pt_start q) + unat (pt_count q) \<and> \<not> env_hole b' l \<longrightarrow>
       platter (writes ws (b_disk b')) l = platter sample_disk l"
    using pfs_init_protects [OF _ _ i _ refl sc(1)] sel q(1) by (auto simp: small_disk_def)
  then have "\<not> env_hole b' 64" by (simp add: env_hole_def)
  then show ?thesis using b'(1) b'(3) [rule_format, of PART_RECOVERY "ptab ?ps ! 0" 64] q sel(5) by auto
qed

end
