(* ===== verification/Part_Env.thy ===== *)
theory Part_Env
  imports Part
begin

text \<open>
  The GRUB environment block: a header line and lines \<open>name=value\<close>, padded with \<open>#\<close> to 1024 bytes.
  \<open>env_vars\<close> are the variables of a block: its complete lines after the header except the comments, wherever they stand.
  \<open>env_lines\<close> are those the driver sees, which stops at the first line that starts with \<open>#\<close>; they agree when no variable
  follows a comment. The theorem says what \<open>grubenv_set_next\<close> makes of the variables. The backslash escapes of GRUB have no
  meaning to the driver and none here: a newline ends a line.
\<close>

function env_parse :: "bytes \<Rightarrow> bytes list" where
  "env_parse s =
     (if s = [] \<or> s ! 0 = 0x23 \<or> 0x0A \<notin> set s then []
      else let n = length (takeWhile (\<lambda>c. c \<noteq> 0x0A) s) + 1 in take n s # env_parse (drop n s))"
  by pat_completeness auto
termination
  by (relation "measure length") auto

declare env_parse.simps [simp del]

definition env_lines :: "bytes \<Rightarrow> bytes list" where
  "env_lines blk = (if take (length env_head) blk = env_head then env_parse (drop (length env_head) blk) else [])"

definition env_kept :: "bytes \<Rightarrow> bytes list" where
  "env_kept blk = filter (\<lambda>l. take 11 l \<noteq> env_key) (env_lines blk)"

function env_split :: "bytes \<Rightarrow> bytes list" where
  "env_split s = (if 0x0A \<notin> set s then [] else let n = length (takeWhile (\<lambda>c. c \<noteq> 0x0A) s) + 1 in take n s # env_split (drop n s))"
  by pat_completeness auto
termination
  by (relation "measure length") (auto intro!: diff_less dest: length_pos_if_in_set)

declare env_split.simps [simp del]

definition env_all_lines :: "bytes \<Rightarrow> bytes list" where
  "env_all_lines blk = (if take (length env_head) blk = env_head then env_split (drop (length env_head) blk) else [])"

definition env_vars :: "bytes \<Rightarrow> bytes list" where
  "env_vars blk = filter (\<lambda>l. l ! 0 \<noteq> 0x23) (env_all_lines blk)"

definition env_others :: "bytes \<Rightarrow> bytes list" where
  "env_others blk = filter (\<lambda>l. take 11 l \<noteq> env_key) (env_vars blk)"

text \<open>After the first comment line there are only comment lines.\<close>

definition comments_last :: "bytes \<Rightarrow> bool" where
  "comments_last blk \<longleftrightarrow> list_all (\<lambda>l. l ! 0 = 0x23) (dropWhile (\<lambda>l. l ! 0 \<noteq> 0x23) (env_all_lines blk))"

definition env_line :: "bytes \<Rightarrow> bool" where
  "env_line l \<longleftrightarrow> (\<exists>b. l = b @ [0x0A] \<and> 0x0A \<notin> set b) \<and> l ! 0 \<noteq> 0x23"

lemma env_sizes [simp]: "length env_head = 25" "length env_key = 11"
  by (simp_all add: env_head_def env_key_def)

lemma takeWhile_line: "0x0A \<notin> set b \<Longrightarrow> takeWhile (\<lambda>c. c \<noteq> 0x0A) (b @ 0x0A # r) = b" for b :: bytes
  by (induction b) auto

lemma env_cases [case_names stop line]:
  assumes "s = [] \<or> s ! 0 = 0x23 \<or> 0x0A \<notin> set s \<Longrightarrow> thesis"
    and "\<And>b r. s = b @ 0x0A # r \<Longrightarrow> 0x0A \<notin> set b \<Longrightarrow> (b @ [0x0A]) ! 0 \<noteq> 0x23 \<Longrightarrow> thesis"
  shows thesis
proof (cases "s = [] \<or> s ! 0 = 0x23 \<or> 0x0A \<notin> set s")
  case False
  then obtain b r where b: "s = b @ 0x0A # r" "0x0A \<notin> set b" using split_list_first by metis
  then have "(b @ [0x0A]) ! 0 \<noteq> 0x23" using False by (cases b) auto
  then show thesis using assms(2) b by blast
qed (rule assms(1))

lemma env_parse_stop: "s = [] \<or> s ! 0 = 0x23 \<or> 0x0A \<notin> set s \<Longrightarrow> env_parse s = []"
  by (simp add: env_parse.simps)

lemma env_parse_line:
  "0x0A \<notin> set b \<Longrightarrow> (b @ [0x0A]) ! 0 \<noteq> 0x23 \<Longrightarrow> env_parse (b @ 0x0A # r) = (b @ [0x0A]) # env_parse r"
  by (subst env_parse.simps) (cases b, auto simp: Let_def takeWhile_line takeWhile_line [of "_ # _", simplified])

lemma env_split_line: "0x0A \<notin> set b \<Longrightarrow> env_split (b @ 0x0A # r) = (b @ [0x0A]) # env_split r"
  by (subst env_split.simps) (simp add: Let_def takeWhile_line)

lemma env_split_none: "0x0A \<notin> set s \<Longrightarrow> env_split s = []"
  by (simp add: env_split.simps)

lemma env_parse_split: "env_parse s = takeWhile (\<lambda>l. l ! 0 \<noteq> 0x23) (env_split s)"
proof (induction s rule: measure_induct_rule [of length])
  case (less s)
  show ?case
  proof (cases "0x0A \<in> set s")
    case False
    then show ?thesis by (simp add: env_parse_stop env_split_none)
  next
    case True
    then obtain b r where b: "s = b @ 0x0A # r" "0x0A \<notin> set b" using split_list_first by metis
    have n: "s ! 0 = (b @ [0x0A]) ! 0" using b(1) by (cases b) auto
    show ?thesis
    proof (cases "(b @ [0x0A]) ! 0 = 0x23")
      case True
      then have "env_parse s = []" using n by (intro env_parse_stop) simp
      then show ?thesis using True unfolding b(1) env_split_line [OF b(2), of r] by (simp only: takeWhile.simps simp_thms if_False)
    next
      case False
      then show ?thesis using less.IH [of r]
        unfolding b(1) env_split_line [OF b(2), of r] env_parse_line [OF b(2) False, of r] by (simp only: takeWhile.simps simp_thms if_True) simp
    qed
  qed
qed

lemma takeWhile_filter: "list_all (\<lambda>x. \<not> P x) (dropWhile P xs) \<Longrightarrow> takeWhile P xs = filter P xs"
proof (induction xs)
  case (Cons x xs)
  show ?case
  proof (cases "P x")
    case True
    then show ?thesis using Cons by simp
  next
    case False
    then have "filter P xs = []" using Cons.prems by (simp add: list_all_iff filter_empty_conv)
    then show ?thesis using False by simp
  qed
qed simp

lemma env_vars_lines:
  assumes "comments_last blk"
  shows "env_vars blk = env_lines blk" "env_others blk = env_kept blk"
proof -
  have "takeWhile (\<lambda>l. l ! 0 \<noteq> 0x23) (env_all_lines blk) = filter (\<lambda>l. l ! 0 \<noteq> 0x23) (env_all_lines blk)"
    using assms unfolding comments_last_def by (intro takeWhile_filter) simp
  then show v: "env_vars blk = env_lines blk"
    by (auto simp: env_vars_def env_lines_def env_all_lines_def env_parse_split split: if_splits)
  show "env_others blk = env_kept blk" by (simp add: env_others_def env_kept_def v)
qed

lemma env_keep_stop: "s = [] \<or> s ! 0 = 0x23 \<or> 0x0A \<notin> set s \<Longrightarrow> env_keep s blk = blk"
proof -
  assume a: "s = [] \<or> s ! 0 = 0x23 \<or> 0x0A \<notin> set s"
  have "length (takeWhile (\<lambda>c. c \<noteq> 0x0A) s) = length s" if "0x0A \<notin> set s"
    using that by (intro arg_cong [of _ _ length]) (auto simp: takeWhile_eq_all_conv)
  then show ?thesis using a by (subst env_keep.simps) (auto simp: Let_def)
qed

lemma env_key_line:
  assumes "0x0A \<notin> set b"
  shows "take 11 (b @ 0x0A # r) = env_key \<longleftrightarrow> take 11 (b @ [0x0A]) = env_key"
proof (cases "length b < 11")
  case True
  then have "0x0A \<in> set (take 11 (b @ 0x0A # r))" "0x0A \<in> set (take 11 (b @ [0x0A]))"
    by (auto simp: take_Cons' )
  moreover have "0x0A \<notin> set env_key" by (simp add: env_key_def ascii_def)
  ultimately show ?thesis by metis
qed simp

lemma strncmp_prefix: "0 \<notin> set k \<Longrightarrow> strncmp a (k @ b) (length k) = Some 0 \<longleftrightarrow> take (length k) a = k"
proof (induction k arbitrary: a)
  case (Cons c k)
  then show ?case by (cases a) (auto simp: uint_diff_zero)
qed simp

lemma env_key_cmp: "strncmp a (env_key @ [0]) 11 = Some 0 \<longleftrightarrow> take 11 a = env_key"
proof -
  have "0 \<notin> set env_key" by (simp add: env_key_def ascii_def)
  then show ?thesis using strncmp_prefix [of env_key a "[0]"] by simp
qed

lemma env_keep_line:
  assumes "0x0A \<notin> set b" "(b @ [0x0A]) ! 0 \<noteq> 0x23"
  shows "env_keep (b @ 0x0A # r) blk =
    env_keep r (if take 11 (b @ [0x0A]) \<noteq> env_key \<and> length blk + length b + 1 < 1024 then blk @ b @ [0x0A] else blk)"
proof -
  have "(b @ 0x0A # r) ! 0 \<noteq> 0x23" using assms(2) by (cases b) auto
  then show ?thesis
    using assms env_key_line [OF assms(1), of r] by (subst env_keep.simps) (simp add: Let_def takeWhile_line env_key_cmp)
qed

lemma env_parse_lines: "l \<in> set (env_parse s) \<Longrightarrow> env_line l"
proof (induction s rule: measure_induct_rule [of length])
  case (less s)
  show ?case
  proof (cases s rule: env_cases)
    case stop
    then show ?thesis using less.prems by (simp add: env_parse_stop)
  next
    case (line b r)
    then show ?thesis using less.prems less.IH [of r] by (auto simp: env_parse_line env_line_def)
  qed
qed

lemma env_all_concat:
  "\<forall>l \<in> set ls. env_line l \<Longrightarrow> env_all_lines (env_head @ concat ls @ replicate k 0x23) = ls"
proof -
  assume "\<forall>l \<in> set ls. env_line l"
  then have "env_split (concat ls @ replicate k 0x23) = ls"
  proof (induction ls)
    case Nil
    then show ?case by (simp add: env_split_none)
  next
    case (Cons l ls)
    then obtain b where "l = b @ [0x0A]" "0x0A \<notin> set b" by (auto simp: env_line_def)
    then show ?case using Cons env_split_line [of b "concat ls @ replicate k 0x23"] by simp
  qed
  then show ?thesis by (simp add: env_all_lines_def)
qed

lemma env_vars_concat:
  "\<forall>l \<in> set ls. env_line l \<Longrightarrow> env_vars (env_head @ concat ls @ replicate k 0x23) = ls"
  unfolding env_vars_def using env_all_concat [of ls k] by (simp add: env_line_def filter_id_conv)

lemma env_keep_parse:
  "length blk + length (concat (filter (\<lambda>l. take 11 l \<noteq> env_key) (env_parse s))) < 1024 \<Longrightarrow>
   env_keep s blk = blk @ concat (filter (\<lambda>l. take 11 l \<noteq> env_key) (env_parse s))"
proof (induction s arbitrary: blk rule: measure_induct_rule [of length])
  case (less s)
  show ?case
  proof (cases s rule: env_cases)
    case stop
    then show ?thesis by (simp add: env_keep_stop env_parse_stop)
  next
    case (line b r)
    then show ?thesis using less.prems less.IH [of r "if take 11 (b @ [0x0A]) \<noteq> env_key then blk @ b @ [0x0A] else blk"]
      by (auto simp: env_parse_line env_keep_line)
  qed
qed

lemma env_block_lines:
  assumes "length (env_head @ concat (env_kept old)) < 1024" "0x0A \<notin> set entry"
    and "entry \<noteq> [] \<Longrightarrow> length (concat (env_kept old)) + length entry \<le> 984 \<and> length (concat (env_kept old)) \<le> 964"
  shows "length (env_block old entry) = 1024"
    "env_vars (env_block old entry) = env_kept old @ (if entry = [] then [] else [env_key @ entry @ [0x0A]])"
proof -
  let ?K = "concat (env_kept old)" and ?E = "if entry = [] then [] else [env_key @ entry @ [0x0A]]"
  let ?head = "if take (length env_head) old = env_head then env_keep (drop (length env_head) old) env_head else env_head"
  have h: "?head = env_head @ ?K"
    using env_keep_parse [of env_head "drop (length env_head) old"] assms(1) by (auto simp: env_kept_def env_lines_def)
  have e: "env_block old entry = env_head @ concat (env_kept old @ ?E) @ replicate (1024 - (25 + length (concat (env_kept old @ ?E)))) 0x23"
  proof (cases "entry = []")
    case True
    then show ?thesis using h by (simp add: env_block_def Let_def)
  next
    case False
    have k: "take (1000 - length (env_head @ ?K)) env_key = env_key"
      "take (1020 - length ((env_head @ ?K) @ env_key)) entry = entry"
      using assms(3) [OF False] by auto
    show ?thesis unfolding env_block_def h Let_def k using False by simp
  qed
  show "length (env_block old entry) = 1024" unfolding e using assms(1,3) by auto
  have "env_line (env_key @ entry @ [0x0A])" using assms(2) by (auto simp: env_line_def env_key_def ascii_def)
  then have "\<forall>l \<in> set (env_kept old @ ?E). env_line l"
    by (auto simp: env_kept_def env_lines_def intro: env_parse_lines)
  then show "env_vars (env_block old entry) = env_kept old @ ?E"
    unfolding e by (rule env_vars_concat)
qed

text \<open>C26. Setting the next boot entry. On a working drive where the two sectors of the block may be written, when no variable
  follows a comment line, the other variables leave room for the entry and the entry has no newline in it,
  \<open>grubenv_set_next\<close> succeeds; the block read back has every other variable unchanged and in order, exactly one \<open>next_entry\<close>
  line with the new value (none for the empty entry), and no other sector is touched.\<close>

theorem grubenv_set_next_ok:
  assumes d: "drive_ok d" and env: "env \<noteq> 0" "unat env \<in> drive_wset (drive_cfg d)" "unat env + 1 \<in> drive_wset (drive_cfg d)"
    and old: "old = drive_view d (unat env) @ drive_view d (unat env + 1)" "comments_last old"
    and room: "length (env_head @ concat (env_others old)) < 1024" "0x0A \<notin> set entry"
      "entry \<noteq> [] \<longrightarrow> length (concat (env_others old)) + length entry \<le> 984 \<and> length (concat (env_others old)) \<le> 964"
  shows "\<exists>d'. grubenv_set_next env entry d = (d', 0) \<and> drive_ok d' \<and> drive_cfg d' = drive_cfg d \<and>
    env_vars (drive_view d' (unat env) @ drive_view d' (unat env + 1)) =
      env_others old @ (if entry = [] then [] else [env_key @ entry @ [0x0A]]) \<and>
    (\<forall>i < unat (total_sectors d). i \<noteq> unat env \<and> i \<noteq> unat env + 1 \<longrightarrow> drive_view d' i = drive_view d i)"
proof -
  let ?blk = "env_block old entry"
  note ko = env_vars_lines(2) [OF old(2)]
  have b: "length ?blk = 1024" "env_vars ?blk = env_others old @ (if entry = [] then [] else [env_key @ entry @ [0x0A]])"
    using env_block_lines [OF room(1,2) [unfolded ko]] room(3) unfolding ko by simp_all
  have lt: "unat env + 1 < unat (total_sectors d)" using env(3) by (simp add: drive_wset_def)
  then have e1: "unat (env + 1) = unat env + 1" using u32_lt [of "total_sectors d"] by (intro unat_plus_1) linarith
  have r: "ata_read d env = Some (drive_view d (unat env))" "ata_read d (env + 1) = Some (drive_view d (unat env + 1))"
    using drv.rd_in [OF d, of env] drv.rd_in [OF d, of "env + 1"] lt e1 by simp_all
  obtain d1 where 1: "ata_write d env (take 512 ?blk) = (d1, 0)" "drive_ok d1" "drive_cfg d1 = drive_cfg d"
      and v1: "\<forall>i < unat (total_sectors d). drive_view d1 i = ((drive_view d)(unat env := take 512 ?blk)) i"
    using drv.wr_in [OF d env(2), of "take 512 ?blk"] b(1) by auto
  obtain d2 where 2: "ata_write d1 (env + 1) (drop 512 ?blk) = (d2, 0)" "drive_ok d2" "drive_cfg d2 = drive_cfg d"
      and v2: "\<forall>i < unat (total_sectors d). drive_view d2 i = ((drive_view d1)(unat env + 1 := drop 512 ?blk)) i"
    using drv.wr_in [OF 1(2), of "env + 1" "drop 512 ?blk"] env(3) e1 b(1) 1(3) drive_cfg_sel(6) [of d] by auto
  have "drive_view d2 (unat env) @ drive_view d2 (unat env + 1) = ?blk" using v1 v2 lt by simp
  moreover have "grubenv_set_next env entry d = (d2, 0)" using r 1(1) 2(1) env(1) old(1) by (simp add: grubenv_set_next_def Let_def)
  ultimately show ?thesis using b(2) 2 v1 v2 by auto
qed

text \<open>A drive with an environment block that has two variables.\<close>

definition env_sample :: bytes where
  "env_sample = env_head @ ascii ''saved=0'' @ [0x0A] @ env_key @ ascii ''x'' @ [0x0A]"

definition env_disk :: disk where
  "env_disk = blank_disk\<lparr>platter := (platter blank_disk)(100 := env_sample @ replicate (512 - length env_sample) 0x23, 101 := replicate 512 0x23)\<rparr>"

theorem grubenv_set_next_ok_witness:
  "\<exists>d'. grubenv_set_next 100 (ascii ''recovery'') env_disk = (d', 0) \<and>
     env_vars (drive_view d' 100 @ drive_view d' 101) = [ascii ''saved=0'' @ [0x0A], env_key @ ascii ''recovery'' @ [0x0A]]"
proof -
  let ?old = "drive_view env_disk (unat (100 :: u32)) @ drive_view env_disk (unat (100 :: u32) + 1)"
  have l: "length env_sample = 46" by (simp add: env_sample_def)
  have d: "drive_ok env_disk" using blank_disk_ok l by (auto simp: drive_ok_def env_disk_def)
  have w: "unat (100 :: u32) \<in> drive_wset (drive_cfg env_disk)" "unat (100 :: u32) + 1 \<in> drive_wset (drive_cfg env_disk)"
    by (simp_all add: drive_wset_def drive_len_def drive_cfg_def env_disk_def blank_disk_def ata_write_protected_def in_ranges_def)
  have o: "?old = env_head @ concat [ascii ''saved=0'' @ [0x0A], env_key @ ascii ''x'' @ [0x0A]] @ replicate (466 + 512) 0x23"
    unfolding replicate_add by (simp add: drive_view_def env_disk_def l) (simp add: env_sample_def)
  have "env_vars ?old = [ascii ''saved=0'' @ [0x0A], env_key @ ascii ''x'' @ [0x0A]]"
    unfolding o by (rule env_vars_concat) (simp add: env_line_def env_key_def ascii_def)
  then have k: "env_others ?old = [ascii ''saved=0'' @ [0x0A]]" by (simp add: env_others_def env_key_def ascii_def)
  have "env_all_lines ?old = [ascii ''saved=0'' @ [0x0A], env_key @ ascii ''x'' @ [0x0A]]"
    unfolding o by (rule env_all_concat) (simp add: env_line_def env_key_def ascii_def)
  then have c: "comments_last ?old" by (simp add: comments_last_def env_key_def ascii_def)
  show ?thesis using grubenv_set_next_ok [OF d _ w refl c, of "ascii ''recovery''"] k by (auto simp: ascii_def)
qed

end
