(* ===== verification/Hpack.thy ===== *)
theory Hpack
  imports Hpack_Tables
begin

text \<open>
  HPACK header compression (\<open>src/net/hpack.c\<close>): prefix integers, Huffman strings, the dynamic table as
  the ring buffer the code keeps, the decoder and the encoder. A pointer and a length are a byte list;
  a result of 0 (or -1 for the Huffman decoder) is \<open>None\<close>. The callback \<open>emit\<close> threads its context, and
  \<open>alloc\<close> tells whether the two allocations of \<open>dyn_add\<close> succeed.
\<close>

subsection \<open>Huffman strings\<close>

text \<open>The trie: child \<open>(n, bit)\<close> of node \<open>n\<close>, negative for the leaf of symbol \<open>-(v + 1)\<close>, 0 for none.\<close>

record huff_trie =
  huff_next :: "int \<times> bool \<Rightarrow> int"
  huff_nnodes :: int

definition HUFF_NODES :: int where "HUFF_NODES = 520"

text \<open>The bits of a symbol's code, from the highest down.\<close>

definition code_bits :: "nat \<Rightarrow> bool list" where
  "code_bits s = map (bit (hpack_huff_code ! s)) (rev [0..<hpack_huff_len ! s])"

fun huff_insert :: "int \<Rightarrow> bool list \<Rightarrow> int \<Rightarrow> huff_trie \<Rightarrow> huff_trie" where
  "huff_insert leaf [] n t = t"
| "huff_insert leaf [b] n t = t\<lparr>huff_next := (huff_next t)((n, b) := leaf)\<rparr>"
| "huff_insert leaf (b # c # bs) n t =
     (let t = (if huff_next t (n, b) = 0
               then t\<lparr>huff_next := (huff_next t)((n, b) := huff_nnodes t), huff_nnodes := huff_nnodes t + 1\<rparr> else t)
      in huff_insert leaf (c # bs) (huff_next t (n, b)) t)"

definition huff_build :: huff_trie where
  "huff_build = fold (\<lambda>s. huff_insert (- (int s + 1)) (code_bits s) 0) [0..<257] \<lparr>huff_next = (\<lambda>_. 0), huff_nnodes = 1\<rparr>"

text \<open>The bits of the input in the order of the two nested loops.\<close>

definition byte_bits :: "u8 \<Rightarrow> bool list" where
  "byte_bits b = map (bit b) [7, 6, 5, 4, 3, 2, 1, 0]"

fun huff_run :: "huff_trie \<Rightarrow> nat \<Rightarrow> bool list \<Rightarrow> int \<Rightarrow> bytes \<Rightarrow> nat \<Rightarrow> bool \<Rightarrow> bytes option" where
  "huff_run t cap [] n out pad_bits pad_ones =
     (if 7 < pad_bits \<or> (0 < pad_bits \<and> \<not> pad_ones) then None else Some out)"
| "huff_run t cap (b # bs) n out pad_bits pad_ones =
     (let nx = huff_next t (n, b)
      in if nx = 0 then None
         else if nx < 0 then
           let sym = - nx - 1
           in if sym = 256 then None
              else if cap \<le> length out then None
              else huff_run t cap bs 0 (out @ [of_int sym]) 0 True
         else huff_run t cap bs nx out (pad_bits + 1) (if b then pad_ones else False))"

definition hpack_huff_decode :: "bytes \<Rightarrow> nat \<Rightarrow> bytes option" where
  "hpack_huff_decode inp cap = huff_run huff_build cap (concat (map byte_bits inp)) 0 [] 0 True"

definition hpack_huff_encoded_len :: "bytes \<Rightarrow> u32" where
  "hpack_huff_encoded_len s = (fold (\<lambda>c bits. bits + of_nat (hpack_huff_len ! unat c)) s 0 + 7) div 8"

text \<open>\<open>out[bitpos >> 3] |= 0x80 >> (bitpos & 7)\<close>.\<close>

definition set_bit_at :: "u32 \<Rightarrow> bytes \<Rightarrow> bytes" where
  "set_bit_at bitpos out = (let i = unat (drop_bit 3 bitpos)
     in out[i := out ! i OR drop_bit (unat (bitpos AND 7)) 0x80])"

fun put_bits :: "bool list \<Rightarrow> bytes \<times> u32 \<Rightarrow> bytes \<times> u32" where
  "put_bits [] st = st"
| "put_bits (b # bs) (out, bitpos) = put_bits bs (if b then set_bit_at bitpos out else out, bitpos + 1)"

text \<open>The padding loop runs while \<open>bitpos & 7\<close>; seven rounds reach the next byte.\<close>

fun pad_bits :: "nat \<Rightarrow> bytes \<times> u32 \<Rightarrow> bytes \<times> u32" where
  "pad_bits 0 st = st"
| "pad_bits (Suc k) (out, bitpos) =
     (if bitpos AND 7 \<noteq> 0 then pad_bits k (set_bit_at bitpos out, bitpos + 1) else (out, bitpos))"

definition hpack_huff_encode :: "bytes \<Rightarrow> nat \<Rightarrow> bytes option" where
  "hpack_huff_encode s cap =
     (let need = hpack_huff_encoded_len s
      in if cap < unat need then None
         else Some (fst (pad_bits 8 (fold (\<lambda>c. put_bits (code_bits (unat c))) s (replicate (unat need) 0, 0)))))"

subsection \<open>Integers and strings\<close>

fun get_int_loop :: "bytes \<Rightarrow> u32 \<Rightarrow> nat \<Rightarrow> nat \<Rightarrow> (u32 \<times> nat) option" where
  "get_int_loop [] v m i = None"
| "get_int_loop (b # bs) v m i =
     (if 21 < m then None
      else let v = v + push_bit m (ucast b AND 0x7F)
        in if push_bit 28 1 \<le> v then None
           else if b AND 0x80 = 0 then Some (v, i + 1) else get_int_loop bs v (m + 7) (i + 1))"

definition get_int :: "bytes \<Rightarrow> nat \<Rightarrow> (u32 \<times> nat) option" where
  "get_int p prefix =
     (case p of
        [] \<Rightarrow> None
      | b # bs \<Rightarrow>
          let mask = push_bit prefix 1 - 1; v = ucast b AND mask
          in if v < mask then Some (v, 1) else get_int_loop bs v 0 1)"

function put_int_loop :: "nat \<Rightarrow> bytes \<Rightarrow> u32 \<Rightarrow> bytes option" where
  "put_int_loop cap out v =
     (if 128 \<le> v then if cap \<le> length out then None else put_int_loop cap (out @ [ucast (v AND 0x7F) OR 0x80]) (drop_bit 7 v)
      else if cap \<le> length out then None else Some (out @ [ucast v]))"
  by pat_completeness auto
termination
proof (relation "measure (\<lambda>(cap, out, v). unat v)")
  fix cap :: nat and out :: bytes and v :: u32
  assume "128 \<le> v"
  then have "128 \<le> unat v" by (simp add: word_le_nat_alt)
  then show "((cap, out @ [ucast (v AND 0x7F) OR 0x80], drop_bit 7 v), cap, out, v) \<in> measure (\<lambda>(cap, out, v). unat v)"
    by (simp add: unat_drop_bit)
qed simp

declare put_int_loop.simps [simp del]

definition put_int :: "nat \<Rightarrow> u8 \<Rightarrow> nat \<Rightarrow> u32 \<Rightarrow> bytes option" where
  "put_int cap first prefix v =
     (let mask = push_bit prefix 1 - 1
      in if cap = 0 then None
         else if v < mask then Some [ucast (ucast first OR v)]
         else put_int_loop cap [ucast (ucast first OR mask)] (v - mask))"

subsection \<open>The dynamic table\<close>

definition HPACK_MAX_ENTRIES :: nat where "HPACK_MAX_ENTRIES = 128"
definition HPACK_STR_MAX :: nat where "HPACK_STR_MAX = 16384"

type_synonym hpack_dyn = "bytes \<times> bytes"

record hpack_dec =
  hp_ent :: "hpack_dyn list"
  hp_head :: nat
  hp_count :: nat
  hp_size :: u32
  hp_max_size :: u32
  hp_limit :: u32

text \<open>\<open>got\<close> tells whether the scratch buffer was allocated.\<close>

definition hpack_dec_init :: "bool \<Rightarrow> u32 \<Rightarrow> hpack_dec \<times> int" where
  "hpack_dec_init got limit = (\<lparr>hp_ent = replicate HPACK_MAX_ENTRIES ([], []), hp_head = 0, hp_count = 0,
     hp_size = 0, hp_max_size = limit, hp_limit = limit\<rparr>, if got then 0 else -1)"

definition dyn_size :: "hpack_dyn \<Rightarrow> u32" where
  "dyn_size e = of_nat (length (fst e)) + of_nat (length (snd e)) + 32"

definition dyn_drop_oldest :: "hpack_dec \<Rightarrow> hpack_dec" where
  "dyn_drop_oldest d =
     (let idx = (hp_head d + hp_count d - 1) mod HPACK_MAX_ENTRIES
      in d\<lparr>hp_size := hp_size d - dyn_size (hp_ent d ! idx), hp_ent := (hp_ent d)[idx := ([], [])], hp_count := hp_count d - 1\<rparr>)"

text \<open>\<open>while (d->count && cond) dyn_drop_oldest(d)\<close>; the count bounds the rounds.\<close>

fun dyn_drop_while :: "nat \<Rightarrow> (u32 \<Rightarrow> bool) \<Rightarrow> hpack_dec \<Rightarrow> hpack_dec" where
  "dyn_drop_while 0 c d = d"
| "dyn_drop_while (Suc k) c d = (if 0 < hp_count d \<and> c (hp_size d) then dyn_drop_while k c (dyn_drop_oldest d) else d)"

definition dyn_resize :: "u32 \<Rightarrow> hpack_dec \<Rightarrow> hpack_dec" where
  "dyn_resize mx d = (let d = d\<lparr>hp_max_size := mx\<rparr> in dyn_drop_while (hp_count d) (\<lambda>s. mx < s) d)"

definition hpack_dec_free :: "hpack_dec \<Rightarrow> hpack_dec" where
  "hpack_dec_free d = dyn_drop_while (hp_count d) (\<lambda>_. True) d"

definition dyn_add :: "(nat \<Rightarrow> nat \<Rightarrow> bool) \<Rightarrow> hpack_dyn \<Rightarrow> hpack_dec \<Rightarrow> hpack_dec" where
  "dyn_add alloc e d =
     (let sz = dyn_size e
      in if hp_max_size d < sz then dyn_drop_while (hp_count d) (\<lambda>_. True) d
         else if \<not> alloc (length (fst e)) (length (snd e)) then d
         else let d = dyn_drop_while (hp_count d) (\<lambda>s. hp_max_size d < s + sz) d;
                  d = (if HPACK_MAX_ENTRIES \<le> hp_count d then dyn_drop_oldest d else d);
                  h = (hp_head d + HPACK_MAX_ENTRIES - 1) mod HPACK_MAX_ENTRIES
              in d\<lparr>hp_head := h, hp_ent := (hp_ent d)[h := e], hp_count := hp_count d + 1, hp_size := hp_size d + sz\<rparr>)"

definition lookup :: "hpack_dec \<Rightarrow> u32 \<Rightarrow> hpack_dyn option" where
  "lookup d idx =
     (if idx = 0 then None
      else if idx \<le> 61 then
        case hpack_static_table ! (unat idx - 1) of (name, value) \<Rightarrow> Some (ascii name, ascii value)
      else let k = unat (idx - 62)
        in if hp_count d \<le> k then None else Some (hp_ent d ! ((hp_head d + k) mod HPACK_MAX_ENTRIES)))"

definition get_string :: "bytes \<Rightarrow> nat \<Rightarrow> (bytes \<times> nat) option" where
  "get_string p cap =
     (case get_int p 7 of
        None \<Rightarrow> None
      | Some (sl, c) \<Rightarrow>
          let sl = unat sl; body = take sl (drop c p)
          in if length p - c < sl then None
             else if p ! 0 AND 0x80 \<noteq> 0 then map_option (\<lambda>buf. (buf, c + sl)) (hpack_huff_decode body cap)
             else if cap < sl then None else Some (body, c + sl))"

subsection \<open>Decoder and encoder\<close>

text \<open>One round of the loop of \<open>hpack_decode\<close>: the new table, the field to emit, if any, and the rest of
  the input; \<open>None\<close> for \<open>return -1\<close>.\<close>

definition hpack_name :: "hpack_dec \<Rightarrow> bytes \<Rightarrow> u32 \<Rightarrow> (bytes \<times> bytes) option" where
  "hpack_name d bs idx =
     (if idx \<noteq> 0 then
        case lookup d idx of
          None \<Rightarrow> None
        | Some (name, _) \<Rightarrow> if HPACK_STR_MAX < length name then None else Some (name, bs)
      else map_option (\<lambda>(name, c). (name, drop c bs)) (get_string bs HPACK_STR_MAX))"

definition hpack_step :: "(nat \<Rightarrow> nat \<Rightarrow> bool) \<Rightarrow> hpack_dec \<Rightarrow> bytes \<Rightarrow> (hpack_dec \<times> hpack_dyn option \<times> bytes) option" where
  "hpack_step alloc d bs =
     (let b = bs ! 0
      in if b AND 0x80 \<noteq> 0 then
           case get_int bs 7 of
             None \<Rightarrow> None
           | Some (idx, c) \<Rightarrow> (case lookup d idx of None \<Rightarrow> None | Some f \<Rightarrow> Some (d, Some f, drop c bs))
         else if b AND 0xE0 = 0x20 then
           case get_int bs 5 of
             None \<Rightarrow> None
           | Some (sz, c) \<Rightarrow> if hp_limit d < sz then None else Some (dyn_resize sz d, None, drop c bs)
         else let add = (b AND 0xC0 = 0x40)
           in case get_int bs (if add then 6 else 4) of
                None \<Rightarrow> None
              | Some (idx, c) \<Rightarrow>
                  (case hpack_name d (drop c bs) idx of
                     None \<Rightarrow> None
                   | Some (name, bs) \<Rightarrow>
                       (case get_string bs HPACK_STR_MAX of
                          None \<Rightarrow> None
                        | Some (value, c) \<Rightarrow>
                            Some (if add then dyn_add alloc (name, value) d else d, Some (name, value), drop c bs))))"

lemma get_int_loop_count: "get_int_loop bs v m i = Some (w, c) \<Longrightarrow> i < c \<and> c \<le> i + length bs"
  by (induction bs v m i rule: get_int_loop.induct) (auto simp: Let_def split: if_splits)

lemma get_int_count: "get_int p prefix = Some (v, c) \<Longrightarrow> 0 < c \<and> c \<le> length p"
  by (auto simp: get_int_def Let_def split: list.splits if_splits dest: get_int_loop_count)

lemma get_string_count: "get_string p cap = Some (buf, c) \<Longrightarrow> 0 < c \<and> c \<le> length p"
  by (auto simp: get_string_def Let_def split: option.splits prod.splits if_splits dest!: get_int_count)

lemma hpack_name_count: "hpack_name d bs idx = Some (name, rest) \<Longrightarrow> length rest \<le> length bs"
  by (auto simp: hpack_name_def split: option.splits prod.splits if_splits)

lemma hpack_step_less:
  assumes "hpack_step alloc d bs = Some (d', f, rest)"
  shows "length rest < length bs"
proof -
  have less: "length (drop c bs) < length bs" if "get_int bs prefix = Some (v, c)" for prefix v c
    using get_int_count [OF that] by auto
  show ?thesis
    using assms unfolding hpack_step_def Let_def
    by (auto split: option.splits prod.splits if_splits dest!: less dest: hpack_name_count)
qed

function hpack_decode :: "(nat \<Rightarrow> nat \<Rightarrow> bool) \<Rightarrow> ('c \<Rightarrow> bytes \<Rightarrow> bytes \<Rightarrow> 'c \<times> bool) \<Rightarrow> hpack_dec \<Rightarrow> bytes \<Rightarrow> 'c \<Rightarrow> hpack_dec \<times> 'c \<times> int" where
  "hpack_decode alloc emit d bs ctx =
     (if bs = [] then (d, ctx, 0)
      else case hpack_step alloc d bs of
          None \<Rightarrow> (d, ctx, -1)
        | Some (d', None, rest) \<Rightarrow> hpack_decode alloc emit d' rest ctx
        | Some (d', Some (name, value), rest) \<Rightarrow>
            (case emit ctx name value of (ctx', stop) \<Rightarrow>
              if stop then (d', ctx', -2) else hpack_decode alloc emit d' rest ctx'))"
  by pat_completeness auto
termination
  by (relation "measure (\<lambda>(alloc, emit, d, bs, ctx). length bs)") (auto dest: hpack_step_less)

declare hpack_decode.simps [simp del]

text \<open>The search of the static table: the index of the first entry with the name, and of an exact match.\<close>

fun static_find :: "bytes \<Rightarrow> bytes \<Rightarrow> bool \<Rightarrow> nat \<Rightarrow> nat \<Rightarrow> (string \<times> string) list \<Rightarrow> nat \<times> nat option" where
  "static_find name value sensitive i name_idx [] = (name_idx, None)"
| "static_find name value sensitive i name_idx ((sn, sv) # ss) =
     (if ascii sn \<noteq> name then static_find name value sensitive (i + 1) name_idx ss
      else let name_idx = (if name_idx = 0 then i + 1 else name_idx)
        in if \<not> sensitive \<and> sv \<noteq> [] \<and> ascii sv = value then (name_idx, Some (i + 1))
           else static_find name value sensitive (i + 1) name_idx ss)"

text \<open>A length and the plain bytes.\<close>

definition put_string :: "nat \<Rightarrow> bytes \<Rightarrow> bytes option" where
  "put_string cap s =
     (case put_int cap 0 7 (of_nat (length s)) of
        None \<Rightarrow> None
      | Some out \<Rightarrow> if cap - length out < length s then None else Some (out @ s))"

definition hpack_encode_field :: "nat \<Rightarrow> bytes \<Rightarrow> bytes \<Rightarrow> bool \<Rightarrow> bytes option" where
  "hpack_encode_field cap name value sensitive =
     (case static_find name value sensitive 0 0 hpack_static_table of
        (_, Some i) \<Rightarrow> put_int cap 0x80 7 (of_nat i)
      | (name_idx, None) \<Rightarrow>
          (case put_int cap (if sensitive then 0x10 else 0) 4 (of_nat name_idx) of
             None \<Rightarrow> None
           | Some o1 \<Rightarrow>
               (case (if name_idx = 0 then put_string (cap - length o1) name else Some []) of
                  None \<Rightarrow> None
                | Some o2 \<Rightarrow>
                    (case put_string (cap - length o1 - length o2) value of
                       None \<Rightarrow> None
                     | Some o3 \<Rightarrow> Some (o1 @ o2 @ o3)))))"

end
