(* ===== verification/Hpack_Int.thy ===== *)
theory Hpack_Int
  imports Hpack
begin

text \<open>
  Prefix integers and plain strings: what \<open>put_int\<close> and \<open>put_string\<close> write is what \<open>get_int\<close> and
  \<open>get_string\<close> read, with the same number of bytes.
\<close>

lemma unat_and_127: "unat (v AND 0x7F) = unat v mod 128" for v :: "'a::len word"
  using unat_and_mask [of v 7] by (simp add: mask_numeral)

lemma group_byte:
  fixes v :: u32
  defines "b \<equiv> ucast (v AND 0x7F) OR 0x80 :: u8"
  shows "ucast b AND 0x7F = v AND (0x7F :: u32)" "b AND 0x80 \<noteq> 0"
proof -
  have i: "bit (127 :: int) n \<longleftrightarrow> n < 7" "bit (128 :: int) n \<longleftrightarrow> n = 7" for n
    using bit_mask_iff [where 'a=int, of 7 n] bit_push_bit_iff_int [of 7 1 n] by (auto simp: mask_numeral bit_1_iff)
  show "ucast b AND 0x7F = v AND (0x7F :: u32)"
    by (rule bit_word_eqI) (auto simp: b_def bit_and_iff bit_or_iff bit_ucast_iff i)
  have "bit (b AND 0x80) 7" by (simp add: b_def bit_and_iff bit_or_iff i)
  then show "b AND 0x80 \<noteq> 0" by auto
qed

lemma small_byte:
  fixes v :: u32
  assumes "v < 128"
  shows "ucast (ucast v :: u8) AND 0x7F = v" "(ucast v :: u8) AND 0x80 = 0"
proof -
  have v: "unat v < 128" using assms by (simp add: word_less_nat_alt)
  then have u: "unat (ucast v :: u8) = unat v" by (simp add: unsigned_ucast_eq take_bit_eq_mod)
  have "unat (ucast (ucast v :: u8) AND 0x7F :: u32) = unat v"
    using u v unfolding unat_and_127 ucast_of_nat [of "ucast v :: u8"] by (simp add: unat_of_nat_small)
  then show "ucast (ucast v :: u8) AND 0x7F = v" by (simp add: word_unat_eq_iff)
  have "(ucast v :: u8) = ucast v AND mask 7"
    using u v by (simp only: word_unat_eq_iff unat_and_mask) simp
  then have "\<not> bit (ucast v :: u8) 7" by (metis bit_and_iff bit_mask_iff less_irrefl)
  then show "(ucast v :: u8) AND 0x80 = 0"
    using bit_push_bit_iff_int [of 7 1] by (intro bit_word_eqI) (auto simp: bit_and_iff bit_1_iff dest: le_antisym [of 7])
qed

lemma get_put_loop:
  assumes "put_int_loop cap out v = Some res" "7 dvd m" "m \<le> 21" "unat acc + unat v * 2 ^ m < 2 ^ 28"
  shows "\<exists>g. res = out @ g \<and> length res \<le> cap \<and> g \<noteq> [] \<and>
    get_int_loop (g @ rest) acc m i = Some (acc + push_bit m v, i + length g)"
  using assms
proof (induction cap out v arbitrary: acc m i rule: put_int_loop.induct)
  case (1 cap out v)
  have lim: "push_bit 28 (1 :: u32) = 268435456" by simp
  have m28: "(2 :: nat) ^ m \<le> 2 ^ 21" using 1(4) by (intro power_increasing) auto
  show ?case
  proof (cases "128 \<le> v")
    case True
    then have v: "128 \<le> unat v" by (simp add: word_le_nat_alt)
    let ?b = "ucast (v AND 0x7F) OR 0x80 :: u8" and ?w = "push_bit m (v AND 0x7F)"
    have c: "length out < cap" "put_int_loop cap (out @ [?b]) (drop_bit 7 v) = Some res"
      using 1(2) True by (auto simp: put_int_loop.simps [of cap out v] split: if_splits)
    have vm: "unat v * 2 ^ m < 2 ^ 28" using 1(5) by simp
    moreover have "128 * 2 ^ m \<le> unat v * 2 ^ m" using v by simp
    ultimately have "128 * 2 ^ m < (2 :: nat) ^ 28" by (rule le_less_trans [rotated])
    then have "(2 :: nat) ^ (7 + m) < 2 ^ 28" by (simp add: power_add)
    then have "7 + m < 28" by (rule power_less_imp_less_exp [rotated]) simp
    then have m': "7 dvd m + 7" "m + 7 \<le> 21" using 1(3) by auto
    have sm: "unat v mod 128 * 2 ^ m < 2 ^ 28"
      using vm by (meson le_less_trans mod_less_eq_dividend mult_le_mono1)
    have uw: "unat ?w = unat v mod 128 * 2 ^ m" unfolding unat_push_bit unat_and_127 using sm by simp
    have "unat v * 2 ^ m = (unat v mod 128 + unat v div 128 * 128) * 2 ^ m" by simp
    then have sum: "unat v * 2 ^ m = unat v mod 128 * 2 ^ m + unat v div 128 * 2 ^ (m + 7)"
      by (simp only: distrib_right) (simp add: power_add)
    have ua: "unat (acc + ?w) = unat acc + unat v mod 128 * 2 ^ m"
      using 1(5) sum uw by (subst unat_plus_small) (auto simp del: push_bit_and)
    have lt: "\<not> push_bit 28 1 \<le> acc + ?w" using 1(5) sum by (simp add: lim word_le_nat_alt ua del: push_bit_and)
    have "unat (acc + ?w) + unat (drop_bit 7 v) * 2 ^ (m + 7) < 2 ^ 28"
      using 1(5) sum ua by (simp add: unat_drop_bit del: push_bit_and)
    from 1(1) [OF True _ c(2) m' this, of "i + 1"] c(1)
    obtain g where g: "res = (out @ [?b]) @ g" "length res \<le> cap"
        "get_int_loop (g @ rest) (acc + ?w) (m + 7) (i + 1) = Some (acc + ?w + push_bit (m + 7) (drop_bit 7 v), i + 1 + length g)"
      by auto
    have "?w + push_bit (m + 7) (drop_bit 7 v) = push_bit m v"
    proof (rule word_unat_eq_iff [THEN iffD2])
      have "unat (push_bit (m + 7) (drop_bit 7 v)) = unat v div 128 * 2 ^ (m + 7)"
        using vm sum by (simp add: unat_push_bit unat_drop_bit)
      then show "unat (?w + push_bit (m + 7) (drop_bit 7 v)) = unat (push_bit m v)"
        using vm sum uw by (subst unat_plus_small) (simp_all add: unat_push_bit del: push_bit_and)
    qed
    then have "get_int_loop ((?b # g) @ rest) acc m i = Some (acc + push_bit m v, i + length (?b # g))"
      using g(3) 1(4) group_byte [of v] lt by (simp add: Let_def add.assoc del: push_bit_and)
    then show ?thesis using g(1,2) by (intro exI [of _ "?b # g"]) auto
  next
    case False
    then have v: "v < 128" by simp
    have c: "length out < cap" "res = out @ [ucast v]"
      using 1(2) False by (auto simp: put_int_loop.simps [of cap out v] split: if_splits)
    have "unat (push_bit m v) = unat v * 2 ^ m" using 1(5) by (simp add: unat_push_bit)
    then have "unat (acc + push_bit m v) = unat acc + unat v * 2 ^ m"
      using 1(5) by (subst unat_plus_small) auto
    then have "\<not> push_bit 28 1 \<le> acc + push_bit m v" using 1(5) by (simp add: lim word_le_nat_alt)
    then have "get_int_loop ([ucast v] @ rest) acc m i = Some (acc + push_bit m v, i + 1)"
      using 1(4) small_byte [OF v] by (simp add: Let_def)
    then show ?thesis using c by (intro exI [of _ "[ucast v]"]) auto
  qed
qed

lemma prefix_mask: "push_bit k 1 - 1 = (mask k :: u32)"
  by (simp add: mask_eq_exp_minus_1)

lemma put_int_mask: "put_int cap first k v = (if cap = 0 then None else if v < mask k then Some [ucast (ucast first OR v)]
    else put_int_loop cap [ucast (ucast first OR (mask k :: u32))] (v - mask k))"
  by (simp only: put_int_def prefix_mask Let_def)

lemma get_int_mask: "get_int (b # bs) k = (if ucast b AND mask k < (mask k :: u32) then Some (ucast b AND mask k, 1)
    else get_int_loop bs (ucast b AND mask k) 0 1)"
  by (simp only: get_int_def prefix_mask Let_def list.case)

lemma first_byte:
  fixes v :: u32
  assumes "k \<le> 8" "v AND mask k = v" "first AND mask k = (0 :: u8)"
  shows "ucast (ucast (ucast first OR v) :: u8) AND mask k = v"
    "(ucast (ucast first OR v) :: u8) AND NOT (mask k) = first"
proof -
  have v: "n < k" if "bit v n" for n using that assms(2) by (metis bit_and_iff bit_mask_iff not_le)
  have f: "k \<le> n" if "bit first n" for n
    using that assms(3) by (metis not_le bit_0_eq bit_and_iff bit_imp_le_length bit_mask_iff bot_apply bot_bool_def possible_bit_word)
  show "ucast (ucast (ucast first OR v) :: u8) AND mask k = v"
    using assms(1) v f by (intro bit_word_eqI) (fastforce simp: bit_and_iff bit_or_iff bit_ucast_iff bit_mask_iff not_less)
  show "(ucast (ucast first OR v) :: u8) AND NOT (mask k) = first"
    using assms(1) v f by (intro bit_word_eqI) (fastforce simp: bit_and_iff bit_or_iff bit_ucast_iff bit_mask_iff bit_not_iff not_less)
qed

lemma unat_mask32: "k \<le> 8 \<Longrightarrow> unat (mask k :: u32) = 2 ^ k - 1"
proof -
  assume "k \<le> 8"
  then have "uint (mask k :: u32) = 2 ^ k - 1" by (simp only: uint_mask_eq) (simp add: mask_eq_exp_minus_1 min_def)
  then show ?thesis by (simp add: nat_diff_distrib nat_power_eq flip: nat_uint_eq)
qed

lemma int_core:
  assumes k: "1 \<le> k" "k \<le> 8" and first: "first AND mask k = (0 :: u8)" and v: "unat v < 2 ^ 28"
    and put: "put_int cap first k v = Some out"
  shows "get_int (out @ rest) k = Some (v, length out) \<and> length out \<le> cap \<and> out \<noteq> [] \<and> (out ! 0) AND NOT (mask k) = first"
proof (cases "v < mask k")
  case True
  have "unat v < 2 ^ k" using True unat_mask32 [OF k(2)] by (simp add: word_less_nat_alt)
  then have m: "v AND mask k = v" by (simp add: word_unat_eq_iff unat_and_mask)
  have o: "out = [ucast (ucast first OR v)]" "0 < cap"
    using put True by (auto simp: put_int_mask split: if_splits)
  then show ?thesis using first_byte [OF k(2) m first] True by (simp add: get_int_mask)
next
  case False
  let ?b = "ucast (ucast first OR (mask k :: u32)) :: u8"
  note fb = first_byte [OF k(2) and.idem first]
  have o: "put_int_loop cap [?b] (v - mask k) = Some out"
    using put False by (auto simp: put_int_mask split: if_splits)
  have u: "unat (v - mask k) = unat v - (2 ^ k - 1)" "unat (mask k :: u32) \<le> unat v"
    using False unat_mask32 [OF k(2)] by (simp_all add: unat_sub word_le_nat_alt not_less)
  then have "unat (mask k :: u32) + unat (v - mask k) * 2 ^ 0 < 2 ^ 28" using v unat_mask32 [OF k(2)] by simp
  from get_put_loop [OF o _ _ this, of rest 1]
  obtain g where g: "out = [?b] @ g" "length out \<le> cap" "get_int_loop (g @ rest) (mask k) 0 1 = Some (v, 1 + length g)" by auto
  then show ?thesis using fb by (simp add: get_int_mask)
qed

text \<open>Prefix integers. Whatever number below 2^28 the encoder writes, in any prefix of one to eight
  bits and behind any flag bits, the decoder reads back, consuming exactly the written bytes; the
  encoder fails only when the bytes do not fit.\<close>

theorem hpack_int_roundtrip:
  assumes k: "1 \<le> k" "k \<le> 8" and first: "first AND mask k = (0 :: u8)" and v: "unat v < 2 ^ 28"
    and put: "put_int cap first k v = Some out"
  shows "get_int (out @ rest) k = Some (v, length out) \<and> length out \<le> cap \<and> out \<noteq> [] \<and> (out ! 0) AND NOT (mask k) = first"
  by (rule int_core [OF assms])

theorem hpack_int_roundtrip_witness: "get_int (the (put_int 8 0x40 6 1337) @ [0]) 6 = Some (1337, 3)"
proof -
  have "put_int 8 0x40 6 1337 = Some [0x7F, 0xFA, 0x09]" by code_simp
  then show ?thesis using hpack_int_roundtrip [of 6 "0x40" 1337 8 "[0x7F, 0xFA, 0x09]" "[0]"] by (simp add: mask_numeral)
qed

end
