(* ===== verification/Hpack_Huff.thy ===== *)
theory Hpack_Huff
  imports Hpack_Int
begin

text \<open>
  The Huffman strings: the trie \<open>huff_build\<close> makes holds exactly the 257 codes and fits its array, and
  decoding undoes encoding.
\<close>

subsection \<open>The code is prefix-free\<close>

datatype ctree = CE | CL | CN ctree ctree

fun ctree_add :: "bool list \<Rightarrow> ctree \<Rightarrow> ctree option" where
  "ctree_add [] CE = Some CL"
| "ctree_add (b # bs) CE = map_option (\<lambda>t. if b then CN CE t else CN t CE) (ctree_add bs CE)"
| "ctree_add (b # bs) (CN l r) =
     (if b then map_option (CN l) (ctree_add bs r) else map_option (\<lambda>t. CN t r) (ctree_add bs l))"
| "ctree_add _ _ = None"

fun ctree_codes :: "ctree \<Rightarrow> bool list set" where
  "ctree_codes CE = {}"
| "ctree_codes CL = {[]}"
| "ctree_codes (CN l r) = Cons False ` ctree_codes l \<union> Cons True ` ctree_codes r"

fun ctree_nodes :: "ctree \<Rightarrow> nat" where
  "ctree_nodes (CN l r) = Suc (ctree_nodes l + ctree_nodes r)"
| "ctree_nodes _ = 0"

fun ctree_build :: "bool list list \<Rightarrow> ctree \<Rightarrow> ctree option" where
  "ctree_build [] t = Some t"
| "ctree_build (c # cs) t = (case ctree_add c t of None \<Rightarrow> None | Some t' \<Rightarrow> ctree_build cs t')"

text \<open>The code bits by repeated halving, and the evaluation of the whole table.\<close>

fun nbits :: "nat \<Rightarrow> int \<Rightarrow> bool list \<Rightarrow> bool list" where
  "nbits 0 v acc = acc"
| "nbits (Suc k) v acc = nbits k (v div 2) (odd v # acc)"

lemma nbits_eq: "nbits k v acc = map (\<lambda>b. odd (v div 2 ^ b)) (rev [0..<k]) @ acc"
proof (induction k arbitrary: v acc)
  case (Suc k)
  have "map (\<lambda>b. odd (v div 2 div 2 ^ b)) (rev [0..<k]) @ [odd v] = map (\<lambda>b. odd (v div 2 ^ b)) (rev (map Suc [0..<k]) @ [0])"
    by (simp add: zdiv_zmult2_eq rev_map)
  also have "rev (map Suc [0..<k]) @ [0] = rev [0..<Suc k]"
    by (simp add: map_Suc_upt upt_conv_Cons del: upt_Suc)
  finally have "map (\<lambda>b. odd (v div 2 div 2 ^ b)) (rev [0..<k]) @ [odd v] = map (\<lambda>b. odd (v div 2 ^ b)) (rev [0..<Suc k])" .
  then show ?case using Suc.IH [of "v div 2" "odd v # acc"] by simp
qed simp

lemma code_bits_nbits: "code_bits s = nbits (hpack_huff_len ! s) (uint (hpack_huff_code ! s)) []"
proof -
  have "bit w n \<longleftrightarrow> odd (uint w div 2 ^ n)" for w :: u32 and n
    using bit_imp_le_length [of w n] by (auto simp: bit_uint_iff simp flip: bit_iff_odd)
  then show ?thesis by (simp add: code_bits_def nbits_eq)
qed

lemma code_tree:
  "map_option ctree_nodes (ctree_build (map (\<lambda>s. nbits (hpack_huff_len ! s) (uint (hpack_huff_code ! s)) []) [0..<257]) CE) = Some 256"
  by code_simp

definition incomparable :: "bool list \<Rightarrow> bool list \<Rightarrow> bool" where
  "incomparable u w \<longleftrightarrow> (\<nexists>x. u = w @ x \<or> w = u @ x)"

lemma incomparable_sym: "incomparable u w \<longleftrightarrow> incomparable w u"
  by (auto simp: incomparable_def)

lemma ctree_add_codes:
  "ctree_add c t = Some t' \<Longrightarrow> ctree_codes t' = insert c (ctree_codes t) \<and> (\<forall>w \<in> ctree_codes t. incomparable c w)"
proof (induction c t arbitrary: t' rule: ctree_add.induct)
  case (2 b bs)
  then show ?case by (auto split: if_splits)
next
  case (3 b bs l r)
  show ?case
  proof (cases b)
    case True
    then obtain u where u: "ctree_add bs r = Some u" "t' = CN l u" using 3(3) by auto
    then show ?thesis using 3(1) [OF True u(1)] True by (auto simp: incomparable_def)
  next
    case False
    then obtain u where u: "ctree_add bs l = Some u" "t' = CN u r" using 3(3) by auto
    then show ?thesis using 3(2) [OF False u(1)] False by (auto simp: incomparable_def)
  qed
qed auto

lemma ctree_build_codes:
  "ctree_build cs t = Some t' \<Longrightarrow> ctree_codes t' = set cs \<union> ctree_codes t \<and>
     (\<forall>i < length cs. \<forall>w \<in> set (take i cs) \<union> ctree_codes t. incomparable (cs ! i) w)"
proof (induction cs arbitrary: t)
  case (Cons c cs)
  then obtain u where u: "ctree_add c t = Some u" "ctree_build cs u = Some t'" by (auto split: option.splits)
  note a = ctree_add_codes [OF u(1)] and b = Cons.IH [OF u(2)]
  have "incomparable ((c # cs) ! i) w" if "i < length (c # cs)" "w \<in> set (take i (c # cs)) \<union> ctree_codes t" for i w
    using that a b by (cases i) auto
  then show ?case using a b by auto
qed simp

text \<open>The proper prefixes of the codes of a tree are its inner nodes.\<close>

lemma ctree_prefixes:
  "finite {u. \<exists>x. x \<noteq> [] \<and> u @ x \<in> ctree_codes t} \<and> card {u. \<exists>x. x \<noteq> [] \<and> u @ x \<in> ctree_codes t} \<le> ctree_nodes t"
proof (induction t)
  case (CN l r)
  let ?P = "\<lambda>t. {u. \<exists>x. x \<noteq> [] \<and> u @ x \<in> ctree_codes t}"
  have sub: "?P (CN l r) \<subseteq> insert [] (Cons False ` ?P l \<union> Cons True ` ?P r)"
  proof
    fix u assume "u \<in> ?P (CN l r)"
    then show "u \<in> insert [] (Cons False ` ?P l \<union> Cons True ` ?P r)" by (cases u) auto
  qed
  have fin: "finite (insert [] (Cons False ` ?P l \<union> Cons True ` ?P r))" using CN.IH by simp
  have "card (insert [] (Cons False ` ?P l \<union> Cons True ` ?P r)) \<le> Suc (card (Cons False ` ?P l \<union> Cons True ` ?P r))"
    using fin by (simp add: card_insert_if)
  also have "\<dots> \<le> Suc (card (Cons False ` ?P l) + card (Cons True ` ?P r))"
    using card_Un_le [of "Cons False ` ?P l" "Cons True ` ?P r"] by simp
  also have "\<dots> \<le> ctree_nodes (CN l r)"
    using CN.IH card_image_le [of "?P l" "Cons False"] card_image_le [of "?P r" "Cons True"] by simp
  finally show ?case using card_mono [OF fin sub] finite_subset [OF sub fin] by simp
qed auto

lemma code_facts:
  obtains t where "ctree_codes t = code_bits ` {..<257}" "ctree_nodes t = 256"
    "\<And>i j. j < i \<Longrightarrow> i < 257 \<Longrightarrow> incomparable (code_bits i) (code_bits j)"
proof -
  let ?cs = "map code_bits [0..<257]"
  have "map_option ctree_nodes (ctree_build ?cs CE) = Some 256"
    using code_tree unfolding code_bits_nbits [abs_def] .
  then obtain t where t: "ctree_build ?cs CE = Some t" "ctree_nodes t = 256" by auto
  note b = ctree_build_codes [OF t(1)]
  show thesis
  proof (rule that)
    show "ctree_codes t = code_bits ` {..<257}" using b by (simp add: lessThan_atLeast0)
    show "incomparable (code_bits i) (code_bits j)" if "j < i" "i < 257" for i j
    proof -
      have "code_bits j \<in> set (take i ?cs)" using that by (auto simp: take_map in_set_conv_nth intro!: exI [of _ j])
      then show ?thesis using b that by auto
    qed
  qed (fact t(2))
qed

subsection \<open>The trie\<close>

text \<open>The node or leaf that a bit string leads to.\<close>

fun path_from :: "huff_trie \<Rightarrow> bool list \<Rightarrow> int option" where
  "path_from t [] = Some 0"
| "path_from t (b # w) = (case path_from t w of
      None \<Rightarrow> None | Some n \<Rightarrow> if n < 0 \<or> huff_next t (n, b) = 0 then None else Some (huff_next t (n, b)))"

text \<open>\<open>path_from\<close> takes the last bit first; \<open>path\<close> takes the bits in order.\<close>

definition path :: "huff_trie \<Rightarrow> bool list \<Rightarrow> int option" where
  "path t w = path_from t (rev w)"

lemma path_Nil [simp]: "path t [] = Some 0"
  by (simp add: path_def)

lemma path_snoc: "path t (w @ [b]) = (case path t w of
    None \<Rightarrow> None | Some n \<Rightarrow> if n < 0 \<or> huff_next t (n, b) = 0 then None else Some (huff_next t (n, b)))"
  by (simp add: path_def)

lemma path_prefix: "path t (u @ x) = Some m \<Longrightarrow> x \<noteq> [] \<Longrightarrow> \<exists>n \<ge> 0. path t u = Some n"
proof (induction x arbitrary: m rule: rev_induct)
  case (snoc b x)
  then have "path t ((u @ x) @ [b]) = Some m" by simp
  then obtain n where n: "path t (u @ x) = Some n" "0 \<le> n" unfolding path_snoc by (auto split: option.splits if_splits)
  then show ?case using snoc.IH by (cases "x = []") auto
qed simp

definition path_nodes :: "huff_trie \<Rightarrow> bool list set" where
  "path_nodes t = {w. \<exists>n \<ge> 0. path t w = Some n}"

text \<open>\<open>C\<close> holds the codes with their leaves, \<open>P\<close> the codes whose prefixes may be nodes.\<close>

definition trie_ok :: "(bool list \<times> int) set \<Rightarrow> bool list set \<Rightarrow> huff_trie \<Rightarrow> bool" where
  "trie_ok C P t \<longleftrightarrow> 1 \<le> huff_nnodes t \<and>
     (\<forall>n b. huff_next t (n, b) \<noteq> 0 \<longrightarrow> 0 \<le> n \<and> n < huff_nnodes t \<and> huff_next t (n, b) < huff_nnodes t) \<and>
     (\<forall>w n. path t w = Some n \<and> 0 < n \<longrightarrow> (\<exists>x. x \<noteq> [] \<and> w @ x \<in> P)) \<and>
     (\<forall>w n. n < 0 \<longrightarrow> path t w = Some n \<longleftrightarrow> (w, n) \<in> C) \<and>
     (\<forall>u w n. path t u = Some n \<and> path t w = Some n \<and> 0 \<le> n \<longrightarrow> u = w) \<and>
     finite (path_nodes t) \<and> huff_nnodes t = int (card (path_nodes t))"

lemma trie_cell:
  "trie_ok C P t \<Longrightarrow> huff_next t (n, b) \<noteq> 0 \<Longrightarrow> 0 \<le> n \<and> n < huff_nnodes t \<and> huff_next t (n, b) < huff_nnodes t"
  unfolding trie_ok_def by blast

lemma trie_prefix: "trie_ok C P t \<Longrightarrow> path t w = Some n \<Longrightarrow> 0 < n \<Longrightarrow> \<exists>x. x \<noteq> [] \<and> w @ x \<in> P"
  unfolding trie_ok_def by blast

lemma trie_code: "trie_ok C P t \<Longrightarrow> n < 0 \<Longrightarrow> path t w = Some n \<longleftrightarrow> (w, n) \<in> C"
  unfolding trie_ok_def by blast

lemma trie_path_less:
  assumes t: "trie_ok C P t" and p: "path t u = Some m"
  shows "m < huff_nnodes t"
proof (cases "u = []")
  case True
  then show ?thesis using p t by (simp add: trie_ok_def)
next
  case False
  then obtain v d where v: "u = v @ [d]" by (metis rev_exhaust)
  then obtain k where "huff_next t (k, d) = m" "m \<noteq> 0"
    using p unfolding v path_snoc by (auto split: option.splits if_splits)
  then show ?thesis using trie_cell [OF t, of k d] by simp
qed

lemma path_add:
  assumes t: "trie_ok C P t" and w: "path t w = Some n" "0 \<le> n" and z: "huff_next t (n, b) = 0"
    and x: "x < 0 \<or> x = huff_nnodes t" and nx: "huff_next t' = (huff_next t)((n, b) := x)"
  shows "path t' u = (if u = w @ [b] then Some x else path t u)"
proof (induction u rule: rev_induct)
  case (snoc c u)
  have x0: "x \<noteq> 0" using t x by (auto simp: trie_ok_def)
  have wb: "path t (w @ [b]) = None" using w z by (simp add: path_snoc)
  have fresh: "huff_next t (huff_nnodes t, c) = 0" for c using trie_cell [OF t, of "huff_nnodes t" c] by auto
  have n: "n < huff_nnodes t" by (rule trie_path_less [OF t w(1)])
  show ?case
  proof (cases "u = w @ [b]")
    case True
    then have "path t' (u @ [c]) = None" using snoc x nx fresh n unfolding path_snoc by auto
    moreover have "path t (u @ [c]) = None" unfolding True path_snoc [of t "w @ [b]" c] by (simp add: wb)
    ultimately show ?thesis using True by simp
  next
    case False
    have uniq: "path t u = Some n \<Longrightarrow> u = w" using t w unfolding trie_ok_def by blast
    have ih: "path t' u = path t u" using snoc False by simp
    show ?thesis
    proof (cases "path t u")
      case None
      then have "u \<noteq> w" using w(1) by auto
      then show ?thesis using None ih unfolding path_snoc [of _ u c] by simp
    next
      case (Some m)
      have "m = n \<longleftrightarrow> u = w" using Some uniq w(1) by auto
      then show ?thesis using Some ih nx x0 z w(2) unfolding path_snoc [of _ u c] by (auto simp: wb)
    qed
  qed
qed (simp)

lemma trie_node:
  assumes t: "trie_ok C P t" and w: "path t w = Some n" "0 \<le> n" and z: "huff_next t (n, b) = 0" and P: "w @ [b] @ x \<in> P" "x \<noteq> []"
  defines "t' \<equiv> t\<lparr>huff_next := (huff_next t)((n, b) := huff_nnodes t), huff_nnodes := huff_nnodes t + 1\<rparr>"
  shows "trie_ok C P t'" "path t' (w @ [b]) = Some (huff_nnodes t)"
proof -
  have p: "path t' u = (if u = w @ [b] then Some (huff_nnodes t) else path t u)" for u
    by (rule path_add [OF t w z]) (simp_all add: t'_def)
  have wb: "path t (w @ [b]) = None" using w z by (simp add: path_snoc)
  have nn: "1 \<le> huff_nnodes t" using t by (simp add: trie_ok_def)
  have "path_nodes t' = insert (w @ [b]) (path_nodes t)" "w @ [b] \<notin> path_nodes t"
    using nn wb by (auto simp: path_nodes_def p)
  then have c: "finite (path_nodes t')" "huff_nnodes t' = int (card (path_nodes t'))"
    using t by (auto simp: trie_ok_def t'_def)
  note less = trie_path_less [OF t]
  have n: "n < huff_nnodes t" by (rule less [OF w(1)])
  have cells: "0 \<le> m \<and> m < huff_nnodes t' \<and> huff_next t' (m, d) < huff_nnodes t'" if "huff_next t' (m, d) \<noteq> 0" for m d
  proof (cases "(m, d) = (n, b)")
    case True
    then show ?thesis using w(2) n by (simp add: t'_def)
  next
    case False
    then have "huff_next t (m, d) \<noteq> 0" "huff_next t' (m, d) = huff_next t (m, d)" using that by (auto simp: t'_def)
    then show ?thesis using trie_cell [OF t, of m d] by (simp add: t'_def)
  qed
  have pre: "\<exists>y. y \<noteq> [] \<and> u @ y \<in> P" if "path t' u = Some m" "0 < m" for u m
    using that t P unfolding p trie_ok_def by (auto split: if_splits)
  have leaf: "path t' u = Some m \<longleftrightarrow> (u, m) \<in> C" if "m < 0" for u m
  proof -
    have "(w @ [b], m) \<notin> C" using t wb that unfolding trie_ok_def by (metis option.distinct(1))
    then show ?thesis using t that nn unfolding p trie_ok_def by auto
  qed
  have inj: "u = v" if "path t' u = Some m" "path t' v = Some m" "0 \<le> m" for u v m
    using that less [of u m] less [of v m] t unfolding p trie_ok_def by (auto split: if_splits)
  show "trie_ok C P t'" using nn cells pre leaf inj c unfolding trie_ok_def by (auto simp: t'_def)
  show "path t' (w @ [b]) = Some (huff_nnodes t)" by (simp add: p)
qed

lemma trie_leaf:
  assumes t: "trie_ok C P t" and w: "path t w = Some n" "0 \<le> n" and z: "huff_next t (n, b) = 0" and leaf: "leaf < 0"
  shows "trie_ok (insert (w @ [b], leaf) C) P (t\<lparr>huff_next := (huff_next t)((n, b) := leaf)\<rparr>)" (is "trie_ok ?C P ?t")
proof -
  have p: "path ?t u = (if u = w @ [b] then Some leaf else path t u)" for u
    by (rule path_add [OF t w z]) (use leaf in simp_all)
  have wb: "path t (w @ [b]) = None" using w z by (simp add: path_snoc)
  have nn: "1 \<le> huff_nnodes t" using t by (simp add: trie_ok_def)
  have "path_nodes ?t = path_nodes t" using leaf wb by (auto simp: path_nodes_def p)
  then have c: "finite (path_nodes ?t)" "huff_nnodes ?t = int (card (path_nodes ?t))"
    using t by (auto simp: trie_ok_def)
  have n: "n < huff_nnodes t" by (rule trie_path_less [OF t w(1)])
  have cells: "0 \<le> m \<and> m < huff_nnodes ?t \<and> huff_next ?t (m, d) < huff_nnodes ?t" if "huff_next ?t (m, d) \<noteq> 0" for m d
    using that trie_cell [OF t, of m d] w(2) n leaf nn by (cases "(m, d) = (n, b)") auto
  have pre: "\<exists>y. y \<noteq> [] \<and> u @ y \<in> P" if "path ?t u = Some m" "0 < m" for u m
    using that t leaf unfolding p trie_ok_def by (auto split: if_splits)
  have lf: "path ?t u = Some m \<longleftrightarrow> (u, m) \<in> ?C" if "m < 0" for u m
  proof -
    have "(w @ [b], m) \<notin> C" using t wb that unfolding trie_ok_def by (metis option.distinct(1))
    then show ?thesis using t that unfolding p trie_ok_def by auto
  qed
  have inj: "u = v" if "path ?t u = Some m" "path ?t v = Some m" "0 \<le> m" for u v m
    using that leaf t unfolding p trie_ok_def by (auto split: if_splits)
  show ?thesis using nn cells pre lf inj c unfolding trie_ok_def by auto
qed

lemma huff_insert_ok:
  assumes "trie_ok C P t" "path t w = Some n" "0 \<le> n" "bs \<noteq> []" "w @ bs \<in> P" "leaf < 0"
    and "\<And>c x. (c, x) \<in> C \<Longrightarrow> incomparable (w @ bs) c" "\<And>c. c \<in> P \<Longrightarrow> c = w @ bs \<or> incomparable (w @ bs) c"
  shows "trie_ok (insert (w @ bs, leaf) C) P (huff_insert leaf bs n t)"
  using assms
proof (induction leaf bs n t arbitrary: w rule: huff_insert.induct)
  case (2 leaf b n t)
  have "huff_next t (n, b) = 0"
  proof (rule ccontr)
    assume z: "huff_next t (n, b) \<noteq> 0"
    then have p: "path t (w @ [b]) = Some (huff_next t (n, b))" using 2(2,3) by (simp add: path_snoc)
    show False
    proof (cases "huff_next t (n, b) < 0")
      case True
      then have "(w @ [b], huff_next t (n, b)) \<in> C" using p trie_code [OF 2(1)] by blast
      then show False using 2(7) unfolding incomparable_def by blast
    next
      case False
      then obtain x where x: "x \<noteq> []" "(w @ [b]) @ x \<in> P" using z trie_prefix [OF 2(1) p] by auto
      then show False using 2(8) [OF x(2)] by (auto simp: incomparable_def)
    qed
  qed
  then show ?case using trie_leaf [OF 2(1,2,3) _ 2(6)] by simp
next
  case (3 leaf b c bs n t)
  let ?t = "if huff_next t (n, b) = 0
     then t\<lparr>huff_next := (huff_next t)((n, b) := huff_nnodes t), huff_nnodes := huff_nnodes t + 1\<rparr> else t"
  have r: "huff_insert leaf (b # c # bs) n t = huff_insert leaf (c # bs) (huff_next ?t (n, b)) ?t" by (simp add: Let_def)
  have step: "trie_ok C P ?t" "path ?t (w @ [b]) = Some (huff_next ?t (n, b))" "0 \<le> huff_next ?t (n, b)"
  proof -
    have P: "w @ [b] @ (c # bs) \<in> P" using 3(6) by simp
    have nn: "1 \<le> huff_nnodes t" using 3(2) by (simp add: trie_ok_def)
    have neg: "\<not> huff_next t (n, b) < 0"
    proof
      assume l: "huff_next t (n, b) < 0"
      then have "path t (w @ [b]) = Some (huff_next t (n, b))" using 3(3,4) by (simp add: path_snoc)
      then have "(w @ [b], huff_next t (n, b)) \<in> C" using l trie_code [OF 3(2)] by blast
      from 3(8) [OF this] show False by (auto simp: incomparable_def)
    qed
    show "trie_ok C P ?t" "path ?t (w @ [b]) = Some (huff_next ?t (n, b))" "0 \<le> huff_next ?t (n, b)"
      using trie_node [OF 3(2,3,4) _ P] 3(2,3,4) neg nn by (auto simp: path_snoc)
  qed
  show ?case
    unfolding r using 3(1) [OF refl, of "w @ [b]"] step 3(6,7,8,9) by simp
qed simp

subsection \<open>The trie of the table\<close>

lemma trie_start: "trie_ok {} P \<lparr>huff_next = (\<lambda>_. 0), huff_nnodes = 1\<rparr>" (is "trie_ok _ _ ?t")
proof -
  have p: "path ?t w = (if w = [] then Some 0 else None)" for w
    by (induction w rule: rev_induct) (simp_all add: path_snoc)
  have "path_nodes ?t = {[]}" by (auto simp: path_nodes_def p)
  then show ?thesis by (simp add: trie_ok_def p)
qed

lemma code_bits_incomparable: "i < 257 \<Longrightarrow> j < 257 \<Longrightarrow> i \<noteq> j \<Longrightarrow> incomparable (code_bits i) (code_bits j)"
  using code_facts incomparable_sym by (metis linorder_neqE_nat)

lemma code_bits_nonempty: "s < 257 \<Longrightarrow> code_bits s \<noteq> []"
  using code_bits_incomparable [of s 0] code_bits_incomparable [of 0 1] by (cases "s = 0") (auto simp: incomparable_def)

definition huff_codes :: "nat \<Rightarrow> (bool list \<times> int) set" where
  "huff_codes k = (\<lambda>s. (code_bits s, - (int s + 1))) ` {..<k}"

lemma huff_build_ok: "trie_ok (huff_codes 257) (code_bits ` {..<257}) huff_build"
proof -
  let ?P = "code_bits ` {..<257}" and ?ins = "\<lambda>s. huff_insert (- (int s + 1)) (code_bits s) 0"
  have "trie_ok (huff_codes k) ?P (fold ?ins [0..<k] \<lparr>huff_next = (\<lambda>_. 0), huff_nnodes = 1\<rparr>)" if "k \<le> 257" for k
    using that
  proof (induction k)
    case 0
    then show ?case by (simp add: huff_codes_def trie_start)
  next
    case (Suc k)
    let ?t = "fold ?ins [0..<k] \<lparr>huff_next = (\<lambda>_. 0), huff_nnodes = 1\<rparr>"
    have t: "trie_ok (huff_codes k) ?P ?t" using Suc by simp
    have k: "k < 257" using Suc.prems by simp
    have old: "incomparable ([] @ code_bits k) c" if c: "(c, x) \<in> huff_codes k" for c x
      using c k code_bits_incomparable [of k] by (auto simp: huff_codes_def)
    have all: "c = [] @ code_bits k \<or> incomparable ([] @ code_bits k) c" if c: "c \<in> ?P" for c
    proof -
      obtain j where "j < 257" "c = code_bits j" using c by blast
      then show ?thesis using code_bits_incomparable [OF k, of j] by (cases "j = k") auto
    qed
    have "trie_ok (insert ([] @ code_bits k, - (int k + 1)) (huff_codes k)) ?P (?ins k ?t)"
      by (rule huff_insert_ok [OF t _ _ _ _ _ old all]) (use code_bits_nonempty [OF k] k in auto)
    moreover have "insert ([] @ code_bits k, - (int k + 1)) (huff_codes k) = huff_codes (Suc k)"
      by (simp add: huff_codes_def lessThan_Suc)
    ultimately show ?case by simp
  qed
  from this [of 257] show ?thesis by (simp add: huff_build_def)
qed

lemma huff_build_nodes: "huff_nnodes huff_build \<le> 256"
proof -
  note t = huff_build_ok
  obtain c where c: "ctree_codes c = code_bits ` {..<257}" "ctree_nodes c = 256" using code_facts by metis
  have "path_nodes huff_build \<subseteq> {u. \<exists>x. x \<noteq> [] \<and> u @ x \<in> ctree_codes c}"
  proof
    fix u assume "u \<in> path_nodes huff_build"
    then obtain n where n: "0 \<le> n" "path huff_build u = Some n" by (auto simp: path_nodes_def)
    show "u \<in> {u. \<exists>x. x \<noteq> [] \<and> u @ x \<in> ctree_codes c}"
    proof (cases "n = 0")
      case True
      then have "u = []" using n t path_Nil [of huff_build] unfolding trie_ok_def by metis
      then show ?thesis using code_bits_nonempty [of 0] by (auto simp: c)
    next
      case False
      then show ?thesis using trie_prefix [OF t n(2)] n(1) by (simp add: c)
    qed
  qed
  then have "card (path_nodes huff_build) \<le> 256"
    using ctree_prefixes [of c] c(2) by (metis (no_types, lifting) card_mono le_trans)
  then show ?thesis using t by (simp add: trie_ok_def)
qed

subsection \<open>Decoding\<close>

lemma huff_run_code:
  assumes t: "trie_ok C P t" and p: "path t w = Some n" "0 \<le> n" "path t (w @ bs) = Some (- (int s + 1))" "bs \<noteq> []"
    and s: "s < 256" and cap: "length out < cap"
  shows "huff_run t cap (bs @ rest) n out pb po = huff_run t cap rest 0 (out @ [of_nat s]) 0 True"
  using p
proof (induction bs arbitrary: w n pb po)
  case (Cons b bs)
  obtain m where m: "path t (w @ [b]) = Some m" "huff_next t (n, b) = m" "m \<noteq> 0"
  proof (cases "bs = []")
    case True
    then show ?thesis using Cons.prems that by (auto simp: path_snoc split: if_splits)
  next
    case False
    then obtain m where "path t (w @ [b]) = Some m"
      using path_prefix [of t "w @ [b]" bs] Cons.prems(3) by auto
    then show ?thesis using Cons.prems(1,2) that by (auto simp: path_snoc split: if_splits)
  qed
  show ?case
  proof (cases "bs = []")
    case True
    then have "m = - (int s + 1)" using m(1) Cons.prems(3) by simp
    then show ?thesis using True m s cap by (simp add: Let_def)
  next
    case False
    then have "0 < m" using path_prefix [of t "w @ [b]" bs] Cons.prems(3) m by auto
    then show ?thesis using Cons.IH [of "w @ [b]" m] m Cons.prems(3) False by (simp add: Let_def)
  qed
qed simp

lemma huff_run_ones:
  assumes "path t (replicate j True) = Some n" "0 \<le> n" "path t (replicate (j + k) True @ x) = Some m" "x \<noteq> []" "j + k \<le> 7"
  shows "huff_run t cap (replicate k True) n out j True = Some out"
  using assms
proof (induction k arbitrary: j n)
  case (Suc k)
  have r: "replicate (Suc j) True = replicate j True @ [True]" by (simp add: replicate_append_same)
  have "path t (replicate (Suc j) True @ (replicate k True @ x)) = Some m"
    using Suc.prems(3) by (metis add_Suc_shift append_assoc replicate_add)
  then obtain n' where n': "0 \<le> n'" "path t (replicate (Suc j) True) = Some n'"
    using path_prefix Suc.prems(4) by blast
  then have nx: "huff_next t (n, True) = n'" "n' \<noteq> 0"
    using Suc.prems(1,2) unfolding r path_snoc by (auto split: if_splits)
  have "huff_run t cap (replicate k True) n' out (Suc j) True = Some out"
    using Suc.IH [OF n'(2,1)] Suc.prems(3,4,5) by simp
  then show ?case using nx n'(1) by (simp add: Let_def)
qed simp

lemma leaf_path: "s < 257 \<Longrightarrow> path huff_build (code_bits s) = Some (- (int s + 1))"
  by (subst trie_code [OF huff_build_ok]) (auto simp: huff_codes_def)

lemma huff_run_string:
  assumes "length out + length s \<le> cap" "k \<le> 7"
  shows "huff_run huff_build cap (concat (map (\<lambda>c. code_bits (unat c)) s) @ replicate k True) 0 out 0 True = Some (out @ s)"
  using assms(1)
proof (induction s arbitrary: out)
  case Nil
  have "path huff_build (code_bits 256) = Some (- (int 256 + 1))" by (rule leaf_path) simp
  moreover have "code_bits 256 = replicate 30 True" by code_simp
  moreover have "replicate 30 True = replicate (0 + k) True @ replicate (30 - k) True"
    using assms(2) by (simp flip: replicate_add)
  ultimately show ?case using huff_run_ones [of huff_build 0 0 k "replicate (30 - k) True"] assms(2) by simp
next
  case (Cons c s)
  have u: "unat c < 256" using unsigned_less [of c] by simp
  then have "path huff_build ([] @ code_bits (unat c)) = Some (- (int (unat c) + 1))"
    using leaf_path [of "unat c"] by simp
  then show ?case
    using huff_run_code [OF huff_build_ok _ _ _ _ u, of "[]" 0 "code_bits (unat c)" out cap] code_bits_nonempty [of "unat c"] u Cons
    by simp
qed

subsection \<open>Encoding\<close>

definition bits_of :: "bytes \<Rightarrow> bool list" where
  "bits_of bs = concat (map byte_bits bs)"

lemma length_bits_of [simp]: "length (bits_of bs) = 8 * length bs"
  by (induction bs) (simp_all add: bits_of_def byte_bits_def)

lemma nth_byte_bits: "j < 8 \<Longrightarrow> byte_bits b ! j = bit b (7 - j)"
  by (auto simp: byte_bits_def less_Suc_eq numeral_eq_Suc)

lemma nth_bits_of: "i < 8 * length bs \<Longrightarrow> bits_of bs ! i = bit (bs ! (i div 8)) (7 - i mod 8)"
proof (induction bs arbitrary: i)
  case (Cons b bs)
  have l: "length (byte_bits b) = 8" by (simp add: byte_bits_def)
  have c: "bits_of (b # bs) = byte_bits b @ bits_of bs" by (simp add: bits_of_def)
  show ?case
  proof (cases "i < 8")
    case True
    then show ?thesis using nth_byte_bits [OF True] l by (simp add: c nth_append)
  next
    case False
    then have "(b # bs) ! (i div 8) = bs ! ((i - 8) div 8)" "i mod 8 = (i - 8) mod 8"
      by (simp_all add: nth_Cons' le_div_geq le_mod_geq)
    then show ?thesis using Cons False l by (simp add: c nth_append)
  qed
qed simp

lemma set_bit_at_bits:
  assumes "unat pos < 8 * length out"
  shows "bits_of (set_bit_at pos out) = (bits_of out)[unat pos := True]" "length (set_bit_at pos out) = length out"
proof -
  let ?i = "unat pos div 8" and ?k = "unat pos mod 8"
  have p: "unat (drop_bit 3 pos) = ?i" "unat (pos AND 7) = ?k"
    using unat_and_mask [of pos 3] by (simp_all add: unat_drop_bit mask_numeral)
  have s: "set_bit_at pos out = out[?i := out ! ?i OR drop_bit ?k 0x80]" by (simp add: set_bit_at_def p Let_def)
  have 80: "bit (128 :: int) m \<longleftrightarrow> m = 7" for m using bit_push_bit_iff_int [of 7 1 m] by (auto simp: bit_1_iff)
  have i: "?i < length out" using assms by linarith
  show "length (set_bit_at pos out) = length out" by (simp add: s)
  show "bits_of (set_bit_at pos out) = (bits_of out)[unat pos := True]"
  proof (rule nth_equalityI)
    fix n assume "n < length (bits_of (set_bit_at pos out))"
    then have n: "n < 8 * length out" by (simp add: s)
    have nn: "n = unat pos \<longleftrightarrow> n div 8 = ?i \<and> n mod 8 = ?k" by (metis div_mult_mod_eq)
    have "(set_bit_at pos out) ! (n div 8) = (if n div 8 = ?i then out ! ?i OR drop_bit ?k 0x80 else out ! (n div 8))"
      using i by (simp add: s nth_list_update)
    moreover have "bit (drop_bit ?k (0x80 :: u8)) (7 - n mod 8) \<longleftrightarrow> n mod 8 = ?k"
      by (simp add: bit_drop_bit_eq 80) linarith
    ultimately show "bits_of (set_bit_at pos out) ! n = (bits_of out)[unat pos := True] ! n"
      using n nn by (auto simp: nth_bits_of s nth_list_update bit_or_iff simp del: bit_drop_bit_eq)
  qed (simp add: s)
qed

text \<open>\<open>B\<close> has been written, the rest of the buffer is 0.\<close>

definition wrote :: "bool list \<Rightarrow> nat \<Rightarrow> bytes \<times> u32 \<Rightarrow> bool" where
  "wrote B n st \<longleftrightarrow> length (fst st) = n \<and> unat (snd st) = length B \<and> length B \<le> 8 * n \<and>
     bits_of (fst st) = B @ replicate (8 * n - length B) False"

lemma wrote_bit:
  assumes "wrote B n (out, pos)" "length B < 8 * n" "8 * n < 2 ^ 32"
  shows "wrote (B @ [b]) n (if b then set_bit_at pos out else out, pos + 1)"
proof -
  have w: "length out = n" "unat pos = length B" "bits_of out = B @ replicate (8 * n - length B) False"
    using assms(1) by (simp_all add: wrote_def)
  have r: "replicate (8 * n - length B) False = False # replicate (8 * n - length (B @ [b])) False"
    using assms(2) by (simp add: Suc_diff_Suc flip: replicate_Suc)
  have pos: "unat (pos + 1) = Suc (length B)"
    using assms(2,3) w(2) unat_plus_small [of pos 1] by simp
  have "bits_of (if b then set_bit_at pos out else out) = (B @ [b]) @ replicate (8 * n - length (B @ [b])) False"
    using set_bit_at_bits(1) [of pos out] assms(2) w by (simp add: r list_update_append)
  then show ?thesis using pos set_bit_at_bits(2) [of pos out] w assms(2) by (simp add: wrote_def)
qed

lemma wrote_put_bits:
  assumes "wrote B n st" "length B + length bs \<le> 8 * n" "8 * n < 2 ^ 32"
  shows "wrote (B @ bs) n (put_bits bs st)"
  using assms
proof (induction bs st arbitrary: B rule: put_bits.induct)
  case (2 b bs out pos)
  have "wrote (B @ [b]) n (if b then set_bit_at pos out else out, pos + 1)" using wrote_bit [OF 2(2)] 2(3,4) by simp
  then show ?case using 2(1) [of "B @ [b]"] 2(3,4) by simp
qed simp

lemma wrote_string:
  assumes "wrote B n st" "length B + length (concat (map (\<lambda>c. code_bits (unat c)) s)) \<le> 8 * n" "8 * n < 2 ^ 32"
  shows "wrote (B @ concat (map (\<lambda>c. code_bits (unat c)) s)) n (fold (\<lambda>c. put_bits (code_bits (unat c))) s st)"
  using assms
proof (induction s arbitrary: B st)
  case (Cons c s)
  then show ?case using Cons.IH [OF wrote_put_bits [of B n st "code_bits (unat c)"]] by simp
qed simp

lemma pad_count: "(8 - l mod 8) mod 8 = (if l mod 8 = 0 then 0 else 8 - l mod 8)" for l :: nat
  by simp

lemma pad_round: "l mod 8 \<noteq> 0 \<Longrightarrow> (Suc l + 7) div 8 = (l + 7) div 8" for l :: nat
  by presburger

lemma wrote_pad:
  assumes "wrote B n (out, pos)" "8 * n < 2 ^ 32" "(8 - length B mod 8) mod 8 \<le> k"
  shows "\<exists>p \<le> 7. length B + p = 8 * ((length B + 7) div 8) \<and> wrote (B @ replicate p True) n (pad_bits k (out, pos))"
  using assms
proof (induction k arbitrary: B out pos)
  case 0
  then have "length B mod 8 = 0" by (simp add: pad_count split: if_splits)
  then have "8 dvd length B" by presburger
  then show ?case using 0 by (intro exI [of _ 0]) auto
next
  case (Suc k)
  have 7: "pos AND 7 = 0 \<longleftrightarrow> length B mod 8 = 0"
    using unat_and_mask [of pos 3] Suc.prems(1) by (simp add: wrote_def mask_numeral flip: unat_eq_0)
  show ?case
  proof (cases "length B mod 8 = 0")
    case True
    then show ?thesis using Suc.prems(1) 7 by (intro exI [of _ 0]) auto
  next
    case False
    then have "length B \<noteq> 8 * n" by auto
    moreover have "length B \<le> 8 * n" using Suc.prems(1) by (simp add: wrote_def)
    ultimately have l: "length B < 8 * n" by simp
    note w = wrote_bit [OF Suc.prems(1) l Suc.prems(2), of True]
    have m: "(8 - length (B @ [True]) mod 8) mod 8 \<le> k"
      using Suc.prems(3) False by (simp add: pad_count mod_Suc split: if_splits) linarith
    obtain p where p: "p \<le> 7" "length (B @ [True]) + p = 8 * ((length (B @ [True]) + 7) div 8)"
        "wrote ((B @ [True]) @ replicate p True) n (pad_bits k (set_bit_at pos out, pos + 1))"
      using Suc.IH [OF w [simplified] Suc.prems(2) m] by auto
    have d: "(length (B @ [True]) + 7) div 8 = (length B + 7) div 8" using pad_round [OF False] by simp
    then have "length B + Suc p = 8 * ((length B + 7) div 8)" using p(2) by simp
    then have "Suc p \<le> 7" using p(1) False by presburger
    then show ?thesis using p d 7 False by (intro exI [of _ "Suc p"]) simp
  qed
qed

lemma code_lens: "s < 257 \<Longrightarrow> hpack_huff_len ! s \<le> 30"
proof -
  have "\<forall>l \<in> set hpack_huff_len. l \<le> 30" by code_simp
  then show "s < 257 \<Longrightarrow> hpack_huff_len ! s \<le> 30" using nth_mem [of s hpack_huff_len] by simp
qed

lemma huff_bits:
  fixes s :: bytes
  assumes "30 * length s + 8 < 2 ^ 32"
  defines "N \<equiv> length (concat (map (\<lambda>c. code_bits (unat c)) s))"
  shows "unat (hpack_huff_encoded_len s) = (N + 7) div 8" "N \<le> 30 * length s"
proof -
  have u: "unat c < 257" for c :: u8
  proof -
    have "unat c < 256" using unsigned_less [of c] by simp
    then show ?thesis by simp
  qed
  let ?f = "\<lambda>c bits. bits + of_nat (hpack_huff_len ! unat c) :: u32"
  let ?n = "\<lambda>s. length (concat (map (\<lambda>c :: u8. code_bits (unat c)) s))"
  have len: "length (code_bits k) = hpack_huff_len ! k" for k by (simp add: code_bits_def)
  have bound: "?n s \<le> 30 * length s" for s :: bytes
    using code_lens [OF u] by (induction s) (auto simp: len intro: add_le_mono)
  then show "N \<le> 30 * length s" by (simp add: N_def)
  have "unat (fold ?f s acc) = unat acc + ?n s" if "unat acc + 30 * length s < 2 ^ 32" for acc
    using that
  proof (induction s arbitrary: acc)
    case (Cons c s)
    have l: "hpack_huff_len ! unat c \<le> 30" by (rule code_lens [OF u])
    then have "unat (?f c acc) = unat acc + hpack_huff_len ! unat c"
      using Cons.prems by (subst unat_plus_small) (simp_all add: unat_of_nat_small)
    then show ?case using Cons.IH [of "?f c acc"] Cons.prems l by (simp add: len)
  qed simp
  from this [of 0] have f: "unat (fold ?f s 0) = N" using assms(1) by (simp add: N_def)
  have "N + 7 < 2 ^ 32" using bound [of s] assms(1) by (simp add: N_def)
  then show "unat (hpack_huff_encoded_len s) = (N + 7) div 8"
    unfolding hpack_huff_encoded_len_def by (simp add: unat_div unat_plus_small f)
qed

lemma huff_encode_bits:
  assumes "30 * length s + 8 < 2 ^ 32" "hpack_huff_encode s cap = Some out"
  obtains p where "p \<le> 7" "bits_of out = concat (map (\<lambda>c. code_bits (unat c)) s) @ replicate p True"
    "length out = unat (hpack_huff_encoded_len s)"
proof -
  let ?B = "concat (map (\<lambda>c. code_bits (unat c)) s)" and ?n = "unat (hpack_huff_encoded_len s)"
  note n = huff_bits [OF assms(1)]
  have n8: "8 * ?n < 2 ^ 32" "length ?B \<le> 8 * ?n" unfolding n using n(2) assms(1) by linarith+
  have "replicate 8 False = byte_bits 0" by (simp add: byte_bits_def replicate_numeral)
  then have "concat (map byte_bits (replicate k 0)) = replicate (8 * k) False" for k
    by (induction k) (simp_all add: replicate_add)
  then have "wrote [] ?n (replicate ?n 0, 0)" by (simp add: wrote_def bits_of_def)
  then have "wrote ([] @ ?B) ?n (fold (\<lambda>c. put_bits (code_bits (unat c))) s (replicate ?n 0, 0))"
    using n8 by (intro wrote_string) simp_all
  moreover obtain o1 pos where o1: "fold (\<lambda>c. put_bits (code_bits (unat c))) s (replicate ?n 0, 0) = (o1, pos)" by fastforce
  ultimately have w: "wrote ?B ?n (o1, pos)" by simp
  have "(8 - length ?B mod 8) mod 8 \<le> 8" by (rule order_trans [OF mod_less_eq_dividend diff_le_self])
  from wrote_pad [OF w n8(1) this] obtain p where p: "p \<le> 7" "length ?B + p = 8 * ((length ?B + 7) div 8)"
      "wrote (?B @ replicate p True) ?n (pad_bits 8 (o1, pos))" by auto
  have o: "out = fst (pad_bits 8 (o1, pos))" using assms(2) o1 by (simp add: hpack_huff_encode_def Let_def split: if_splits)
  show thesis
  proof (rule that [OF p(1)])
    show "bits_of out = ?B @ replicate p True" "length out = ?n"
      using p(2,3) n(1) by (simp_all add: wrote_def o)
  qed
qed

text \<open>Huffman strings. Decoding what was encoded gives the string back, for every string that the
  output buffers hold; encoding fails exactly when the buffer is shorter than \<open>hpack_huff_encoded_len\<close>.\<close>

theorem huff_roundtrip:
  assumes "30 * length s + 8 < 2 ^ 32" "length s \<le> cap2"
  shows "(hpack_huff_encode s cap = None \<longleftrightarrow> cap < unat (hpack_huff_encoded_len s)) \<and>
    (\<forall>out. hpack_huff_encode s cap = Some out \<longrightarrow>
      length out = unat (hpack_huff_encoded_len s) \<and> hpack_huff_decode out cap2 = Some s)"
proof (intro conjI allI impI)
  show "hpack_huff_encode s cap = None \<longleftrightarrow> cap < unat (hpack_huff_encoded_len s)"
    by (simp add: hpack_huff_encode_def Let_def)
  fix out assume e: "hpack_huff_encode s cap = Some out"
  obtain p where p: "p \<le> 7" "bits_of out = concat (map (\<lambda>c. code_bits (unat c)) s) @ replicate p True"
      "length out = unat (hpack_huff_encoded_len s)"
    by (rule huff_encode_bits [OF assms(1) e])
  show "length out = unat (hpack_huff_encoded_len s)" by (fact p(3))
  show "hpack_huff_decode out cap2 = Some s"
    unfolding hpack_huff_decode_def p(2) [unfolded bits_of_def]
    using huff_run_string [of "[]" s cap2 p] p(1) assms(2) by simp
qed

theorem huff_roundtrip_witness:
  "hpack_huff_decode (the (hpack_huff_encode (ascii ''www.example.com'') 12)) 64 = Some (ascii ''www.example.com'')"
proof -
  let ?s = "ascii ''www.example.com''"
  have "unat (hpack_huff_encoded_len ?s) = 12" by code_simp
  then show ?thesis using huff_roundtrip [of ?s 64 12] by auto
qed

text \<open>C37. The trie fits its array. Building the trie uses 256 of the 520 nodes: every cell that is written
  belongs to a node below \<open>HUFF_NODES\<close>, every child number in the trie does too, and following the bits of a
  string through it never leaves the array.\<close>

theorem huff_trie_bounds:
  "huff_nnodes huff_build \<le> HUFF_NODES \<and>
   (\<forall>n b. huff_next huff_build (n, b) \<noteq> 0 \<longrightarrow> 0 \<le> n \<and> n < HUFF_NODES \<and> huff_next huff_build (n, b) < HUFF_NODES) \<and>
   (\<forall>w n. path huff_build w = Some n \<longrightarrow> n < HUFF_NODES)"
proof -
  have b: "m < 520" if "m < huff_nnodes huff_build" for m using that huff_build_nodes by linarith
  show ?thesis
    using huff_build_nodes trie_cell [OF huff_build_ok] trie_path_less [OF huff_build_ok] b
    unfolding HUFF_NODES_def by (intro conjI allI impI) (linarith, metis, metis, metis, metis)
qed

theorem huff_trie_bounds_witness:
  "path huff_build (code_bits 97) = Some (-98) \<and> huff_nnodes huff_build \<le> 520 \<and> (-98 :: int) < HUFF_NODES"
proof -
  have "path huff_build (code_bits 97) = Some (-98)"
    using trie_code [OF huff_build_ok, of "-98" "code_bits 97"] by (force simp: huff_codes_def)
  then show ?thesis using huff_trie_bounds HUFF_NODES_def by metis
qed

end
