(* ===== verification/Hpack_Codec.thy ===== *)
theory Hpack_Codec
  imports Hpack_Huff
begin

text \<open>
  The dynamic table as the list of RFC 7541 and the invariant of the decoder; decoding what
  \<open>hpack_encode_field\<close> wrote.
\<close>

subsection \<open>The ring as a list\<close>

definition ring :: "hpack_dec \<Rightarrow> hpack_dyn list" where
  "ring d = map (\<lambda>k. hp_ent d ! ((hp_head d + k) mod 128)) [0..<hp_count d]"

definition esz :: "hpack_dyn \<Rightarrow> nat" where
  "esz e = length (fst e) + length (snd e) + 32"

definition tsize :: "hpack_dyn list \<Rightarrow> nat" where
  "tsize es = sum_list (map esz es)"

text \<open>The entries that stay when the maximum is \<open>m\<close>: the oldest are at the end and go first.\<close>

fun evict :: "nat \<Rightarrow> hpack_dyn list \<Rightarrow> hpack_dyn list" where
  "evict m [] = []"
| "evict m (e # es) = (if esz e \<le> m then e # evict (m - esz e) es else [])"

lemma tsize_append: "tsize (a @ b) = tsize a + tsize b"
  by (simp add: tsize_def)

lemma evict_all: "tsize es \<le> m \<Longrightarrow> evict m es = es"
  by (induction m es rule: evict.induct) (auto simp: tsize_def)

lemma evict_snoc: "m < tsize (es @ [e]) \<Longrightarrow> evict m (es @ [e]) = evict m es"
  by (induction m es rule: evict.induct) (auto simp: tsize_def)

lemma tsize_evict: "tsize (evict m es) \<le> m"
  by (induction m es rule: evict.induct) (auto simp: tsize_def)

lemma set_evict: "set (evict m es) \<subseteq> set es"
  by (induction m es rule: evict.induct) auto

lemma tsize_length: "32 * length es \<le> tsize es"
  by (induction es) (auto simp: tsize_def esz_def)

definition entry_fits :: "hpack_dyn \<Rightarrow> bool" where
  "entry_fits e \<longleftrightarrow> length (fst e) \<le> HPACK_STR_MAX \<and> length (snd e) \<le> HPACK_STR_MAX"

definition ring_ok :: "hpack_dec \<Rightarrow> bool" where
  "ring_ok d \<longleftrightarrow> length (hp_ent d) = 128 \<and> hp_head d < 128 \<and> hp_count d \<le> 128 \<and> unat (hp_size d) = tsize (ring d) \<and>
     (\<forall>e \<in> set (ring d). entry_fits e)"

definition dec_ok :: "hpack_dec \<Rightarrow> bool" where
  "dec_ok d \<longleftrightarrow> ring_ok d \<and> hp_size d \<le> hp_max_size d \<and> hp_max_size d \<le> hp_limit d \<and> hp_limit d \<le> 4096"

lemma unat_dyn_size: "entry_fits e \<Longrightarrow> unat (dyn_size e) = esz e"
  unfolding dyn_size_def esz_def entry_fits_def HPACK_STR_MAX_def
  by (subst unat_plus_small, subst unat_plus_small) (simp_all add: unat_of_nat_small unat_plus_small)

lemma ring_length [simp]: "length (ring d) = hp_count d"
  by (simp add: ring_def)

lemma nth_ring: "k < hp_count d \<Longrightarrow> ring d ! k = hp_ent d ! ((hp_head d + k) mod 128)"
  by (simp add: ring_def)

lemma ring_ne: "0 < hp_count d \<Longrightarrow> ring d \<noteq> []"
  by (metis length_0_conv less_numeral_extra(3) ring_length)

lemma mod_256: "x < 256 \<Longrightarrow> x mod 128 = (if x < 128 then x else x - 128)" for x :: nat
  by (simp add: le_mod_geq)

lemma ring_drop:
  assumes ok: "ring_ok d" and c: "0 < hp_count d"
  shows "ring (dyn_drop_oldest d) = butlast (ring d)" "ring_ok (dyn_drop_oldest d)"
proof -
  let ?idx = "(hp_head d + hp_count d - 1) mod 128" and ?d = "dyn_drop_oldest d"
  have r: "length (hp_ent d) = 128" "hp_head d < 128" "hp_count d \<le> 128" using ok by (simp_all add: ring_ok_def)
  have far: "(hp_head d + k) mod 128 \<noteq> ?idx" if "k < hp_count d - 1" for k
  proof
    assume "(hp_head d + k) mod 128 = ?idx"
    then have "(hp_head d + k) mod 128 = (hp_head d + (hp_count d - 1)) mod 128" using c by simp
    then show False using that r by (auto simp: mod_256 split: if_splits)
  qed
  have sel: "hp_head ?d = hp_head d" "hp_count ?d = hp_count d - 1" "hp_ent ?d = (hp_ent d)[?idx := ([], [])]"
    by (simp_all add: dyn_drop_oldest_def HPACK_MAX_ENTRIES_def Let_def)
  show rb: "ring ?d = butlast (ring d)"
  proof (rule nth_equalityI)
    fix k assume "k < length (ring ?d)"
    then have k: "k < hp_count d - 1" by (simp add: sel)
    then show "ring ?d ! k = butlast (ring d) ! k"
      using far [OF k] by (simp add: nth_ring sel nth_butlast)
  qed (simp add: sel)
  have last: "last (ring d) = hp_ent d ! ?idx"
    using c ring_ne [OF c] by (simp add: last_conv_nth nth_ring)
  have fe: "entry_fits (last (ring d))" using ok last_in_set [OF ring_ne [OF c]] by (simp add: ring_ok_def)
  have ts: "tsize (ring d) = tsize (butlast (ring d)) + esz (last (ring d))"
    using append_butlast_last_id [OF ring_ne [OF c]] by (metis (no_types, lifting) map_append sum_list_append tsize_def list.map sum_list.Cons sum_list.Nil add_0_right)
  have "hp_size ?d = hp_size d - dyn_size (last (ring d))"
    by (simp add: dyn_drop_oldest_def HPACK_MAX_ENTRIES_def Let_def last)
  moreover have "unat (dyn_size (last (ring d))) \<le> unat (hp_size d)" using ok ts unat_dyn_size [OF fe] by (simp add: ring_ok_def)
  ultimately have "unat (hp_size ?d) = tsize (ring ?d)"
    using ok ts rb unat_dyn_size [OF fe] by (simp add: unat_sub word_le_nat_alt ring_ok_def)
  then show "ring_ok ?d" using ok rb r by (auto simp: ring_ok_def sel dest: in_set_butlastD)
qed

lemma dyn_drop_sel [simp]:
  "hp_max_size (dyn_drop_oldest d) = hp_max_size d" "hp_limit (dyn_drop_oldest d) = hp_limit d"
  by (simp_all add: dyn_drop_oldest_def Let_def)

lemma dyn_drop_while_sel [simp]:
  "hp_max_size (dyn_drop_while k c d) = hp_max_size d" "hp_limit (dyn_drop_while k c d) = hp_limit d"
  by (induction k c d rule: dyn_drop_while.induct) auto

lemma dyn_drop_all:
  assumes "ring_ok d" "hp_count d \<le> k"
  shows "ring (dyn_drop_while k (\<lambda>_. True) d) = [] \<and> ring_ok (dyn_drop_while k (\<lambda>_. True) d)"
  using assms
proof (induction k arbitrary: d)
  case 0
  then show ?case by (simp add: ring_def)
next
  case (Suc k)
  have "hp_count (dyn_drop_oldest d) = hp_count d - 1" by (simp add: dyn_drop_oldest_def Let_def)
  then show ?case using Suc ring_drop(2) [of d] by (auto simp: ring_def)
qed

lemma dyn_drop_evict:
  assumes "ring_ok d" "hp_count d \<le> k" "tsize (ring d) \<le> B" "\<And>s. unat s \<le> B \<Longrightarrow> c s \<longleftrightarrow> m < unat s"
  shows "ring (dyn_drop_while k c d) = evict m (ring d) \<and> ring_ok (dyn_drop_while k c d)"
  using assms(1,2,3)
proof (induction k arbitrary: d)
  case 0
  then show ?case by (simp add: ring_def)
next
  case (Suc k)
  have u: "unat (hp_size d) = tsize (ring d)" using Suc.prems(1) by (simp add: ring_ok_def)
  then have c: "c (hp_size d) \<longleftrightarrow> m < tsize (ring d)" using assms(4) [of "hp_size d"] Suc.prems(3) by simp
  show ?case
  proof (cases "0 < hp_count d \<and> c (hp_size d)")
    case True
    then have ab: "ring d = butlast (ring d) @ [last (ring d)]" using ring_ne [of d] by simp
    have "hp_count (dyn_drop_oldest d) = hp_count d - 1" by (simp add: dyn_drop_oldest_def Let_def)
    moreover have "evict m (butlast (ring d)) = evict m (ring d)"
      using evict_snoc [of m "butlast (ring d)" "last (ring d)"] True c ab by simp
    moreover have "tsize (butlast (ring d)) \<le> tsize (ring d)"
      by (metis ab le_add1 tsize_append)
    ultimately show ?thesis using Suc True ring_drop [of d] by simp
  next
    case False
    then have "tsize (ring d) \<le> m"
      using c by (cases "hp_count d") (auto simp: ring_def tsize_def)
    then show ?thesis using False Suc.prems(1) evict_all by auto
  qed
qed

lemma dyn_resize_ok:
  assumes "dec_ok d" "sz \<le> hp_limit d"
  shows "dec_ok (dyn_resize sz d) \<and> ring (dyn_resize sz d) = evict (unat sz) (ring d)"
proof -
  let ?d = "d\<lparr>hp_max_size := sz\<rparr>"
  have r: "ring_ok ?d" "ring ?d = ring d" using assms(1) by (simp_all add: dec_ok_def ring_ok_def ring_def)
  have e: "dyn_resize sz d = dyn_drop_while (hp_count d) (\<lambda>s. sz < s) ?d" by (simp add: dyn_resize_def)
  have k: "ring (dyn_resize sz d) = evict (unat sz) (ring d) \<and> ring_ok (dyn_resize sz d)"
    unfolding e r(2) [symmetric] by (rule dyn_drop_evict [OF r(1) _ order_refl]) (auto simp: word_less_nat_alt)
  then have "unat (hp_size (dyn_resize sz d)) \<le> unat sz" using tsize_evict [of "unat sz" "ring d"] by (simp add: ring_ok_def)
  then show ?thesis using k assms by (simp add: dec_ok_def word_le_nat_alt e)
qed

lemma ring_push:
  assumes ok: "ring_ok d" and c: "hp_count d < 128" and e: "entry_fits e" and sz: "tsize (ring d) + esz e < 2 ^ 32"
  defines "h \<equiv> (hp_head d + HPACK_MAX_ENTRIES - 1) mod HPACK_MAX_ENTRIES"
  defines "d' \<equiv> d\<lparr>hp_head := h, hp_ent := (hp_ent d)[h := e], hp_count := hp_count d + 1, hp_size := hp_size d + dyn_size e\<rparr>"
  shows "ring d' = e # ring d \<and> ring_ok d'"
proof -
  have r: "length (hp_ent d) = 128" "hp_head d < 128" using ok by (simp_all add: ring_ok_def)
  have h: "h = (if hp_head d = 0 then 127 else hp_head d - 1)"
    using r(2) by (auto simp: h_def HPACK_MAX_ENTRIES_def mod_256 split: if_splits)
  then have h128: "h < 128" using r(2) by (simp split: if_splits)
  have nth: "hp_ent d' ! ((h + Suc k) mod 128) = hp_ent d ! ((hp_head d + k) mod 128)" if "k < hp_count d" for k
  proof -
    have "(h + Suc k) mod 128 = (hp_head d + k) mod 128"
      using h r(2) that c by (auto simp: mod_256 split: if_splits)
    moreover have "(h + Suc k) mod 128 \<noteq> h"
      using h128 that c by (auto simp: mod_256 split: if_splits)
    ultimately show ?thesis by (simp add: d'_def)
  qed
  have rd: "ring d' = e # ring d"
  proof (rule nth_equalityI)
    fix i assume i: "i < length (ring d')"
    show "ring d' ! i = (e # ring d) ! i"
    proof (cases i)
      case 0
      then show ?thesis using h128 r by (simp add: nth_ring d'_def)
    next
      case (Suc k)
      then have k: "k < hp_count d" using i by (simp add: d'_def)
      have "hp_head d' = h" "hp_count d' = Suc (hp_count d)" by (simp_all add: d'_def)
      then show ?thesis using nth [OF k] k Suc by (simp add: nth_ring)
    qed
  qed (simp add: d'_def)
  have "unat (hp_size d') = tsize (ring d')"
    using ok sz unat_dyn_size [OF e] rd by (simp add: d'_def ring_ok_def unat_plus_small tsize_def)
  then show ?thesis using rd ok e c h128 by (auto simp: ring_ok_def d'_def)
qed

lemma dyn_add_ok:
  assumes d: "dec_ok d" and e: "entry_fits e"
  shows "dec_ok (dyn_add alloc e d) \<and>
    ring (dyn_add alloc e d) = (if unat (hp_max_size d) < esz e then []
      else if alloc (length (fst e)) (length (snd e)) then e # evict (unat (hp_max_size d) - esz e) (ring d) else ring d)"
proof -
  have r: "ring_ok d" "unat (hp_max_size d) \<le> 4096" using d by (auto simp: dec_ok_def word_le_nat_alt)
  note u = unat_dyn_size [OF e]
  let ?m = "unat (hp_max_size d)"
  consider (big) "?m < esz e" | (oom) "esz e \<le> ?m" "\<not> alloc (length (fst e)) (length (snd e))"
    | (add) "esz e \<le> ?m" "alloc (length (fst e)) (length (snd e))" by linarith
  then show ?thesis
  proof cases
    case big
    let ?d = "dyn_drop_while (hp_count d) (\<lambda>_. True) d"
    have a: "dyn_add alloc e d = ?d" using big u by (simp add: dyn_add_def Let_def word_less_nat_alt)
    have k: "ring ?d = []" "ring_ok ?d" using dyn_drop_all [OF r(1) order_refl] by auto
    then have "hp_size ?d = 0" by (simp add: ring_ok_def tsize_def unat_eq_0)
    then show ?thesis using a k big d by (simp add: dec_ok_def)
  next
    case oom
    then show ?thesis using u d by (simp add: dyn_add_def Let_def word_less_nat_alt)
  next
    case add
    let ?c = "\<lambda>s. hp_max_size d < s + dyn_size e"
    let ?d = "dyn_drop_while (hp_count d) ?c d"
    have "?c s \<longleftrightarrow> ?m - esz e < unat s" if "unat s \<le> 4096" for s
    proof -
      have "unat (s + dyn_size e) = unat s + esz e" using that u add(1) r(2) by (subst unat_plus_small) auto
      then show ?thesis using add(1) by (auto simp: word_less_nat_alt)
    qed
    moreover have "tsize (ring d) \<le> 4096" using d r(2) by (simp add: dec_ok_def ring_ok_def word_le_nat_alt)
    ultimately have k: "ring ?d = evict (?m - esz e) (ring d)" "ring_ok ?d"
      using dyn_drop_evict [OF r(1) order_refl, of 4096 ?c] by auto
    have ts: "tsize (ring ?d) + esz e \<le> ?m" using tsize_evict [of "?m - esz e" "ring d"] add(1) by (simp add: k)
    then have cnt: "hp_count ?d < 128" using tsize_length [of "ring ?d"] r(2) by (simp add: esz_def)
    let ?h = "(hp_head ?d + HPACK_MAX_ENTRIES - 1) mod HPACK_MAX_ENTRIES"
    let ?e = "?d\<lparr>hp_head := ?h, hp_ent := (hp_ent ?d)[?h := e], hp_count := hp_count ?d + 1, hp_size := hp_size ?d + dyn_size e\<rparr>"
    have "\<not> hp_max_size d < dyn_size e" using add(1) u by (simp add: word_less_nat_alt)
    then have a: "dyn_add alloc e d = ?e" using add(2) cnt by (simp add: dyn_add_def Let_def HPACK_MAX_ENTRIES_def)
    have p: "ring ?e = e # ring ?d \<and> ring_ok ?e" by (rule ring_push [OF k(2) cnt e]) (use ts r(2) in simp)
    then have "unat (hp_size ?e) \<le> ?m" using ts by (simp only: ring_ok_def tsize_def) (simp add: tsize_def)
    then show ?thesis using a p k(1) add d by (simp add: dec_ok_def word_le_nat_alt)
  qed
qed

text \<open>C16. The dynamic table. The ring buffer is the table of RFC 7541, section 4: an insertion puts the
  new entry in front and drops the oldest entries until the sizes (32 bytes per entry included) fit
  the maximum, an entry larger than the maximum empties the table, a size update drops the oldest
  entries; the 32-bit size is the sum of the sizes, at most 128 entries are ever held, and an index
  past the static table counts the entries from the newest.\<close>

theorem hpack_table_refines:
  assumes d: "dec_ok d" and e: "entry_fits e" and sz: "sz \<le> hp_limit d"
  shows "dec_ok (dyn_add alloc e d) \<and> dec_ok (dyn_resize sz d) \<and>
    ring (dyn_add alloc e d) = (if unat (hp_max_size d) < esz e then []
      else if alloc (length (fst e)) (length (snd e)) then e # evict (unat (hp_max_size d) - esz e) (ring d) else ring d) \<and>
    ring (dyn_resize sz d) = evict (unat sz) (ring d) \<and> ring (hpack_dec_free d) = [] \<and>
    (\<forall>idx. 61 < idx \<longrightarrow> lookup d idx = (if unat idx - 62 < length (ring d) then Some (ring d ! (unat idx - 62)) else None)) \<and>
    unat (hp_size d) = tsize (ring d) \<and> length (ring d) \<le> 128"
proof -
  have l: "lookup d idx = (if unat idx - 62 < length (ring d) then Some (ring d ! (unat idx - 62)) else None)" if "61 < idx" for idx
  proof -
    have i: "61 < unat idx" using that by (simp add: word_less_nat_alt)
    then have "unat (idx - 62) = unat idx - 62" by (simp add: unat_sub word_le_nat_alt)
    moreover have n: "idx \<noteq> 0" "\<not> idx \<le> 61" using that by auto
    ultimately show ?thesis
      unfolding lookup_def Let_def if_not_P [OF n(1)] if_not_P [OF n(2)] by (auto simp: nth_ring HPACK_MAX_ENTRIES_def)
  qed
  have r: "ring_ok d" using d by (simp add: dec_ok_def)
  show ?thesis
    using dyn_add_ok [OF d e] dyn_resize_ok [OF d sz] dyn_drop_all [OF r order_refl] l r
    by (simp add: hpack_dec_free_def ring_ok_def)
qed

lemma hpack_init_ok: "limit \<le> 4096 \<Longrightarrow> dec_ok (fst (hpack_dec_init got limit)) \<and> ring (fst (hpack_dec_init got limit)) = []"
  by (simp add: dec_ok_def ring_ok_def ring_def hpack_dec_init_def tsize_def HPACK_MAX_ENTRIES_def)

theorem hpack_table_refines_witness:
  "ring (dyn_add (\<lambda>_ _. True) ([1, 2], [3]) (fst (hpack_dec_init True 4096))) = [([1, 2], [3])]"
  using hpack_table_refines [of "fst (hpack_dec_init True 4096)" "([1, 2], [3])" 0 "\<lambda>_ _. True"] hpack_init_ok [of 4096 True]
  by (simp add: entry_fits_def HPACK_STR_MAX_def esz_def hpack_dec_init_def)

subsection \<open>Every step keeps the invariant\<close>

lemma huff_run_length: "huff_run t cap bs n out pb po = Some r \<Longrightarrow> length out \<le> cap \<Longrightarrow> length r \<le> cap"
  by (induction t cap bs n out pb po rule: huff_run.induct) (auto simp: Let_def split: if_splits)

lemma get_string_length: "get_string p cap = Some (buf, c) \<Longrightarrow> length buf \<le> cap"
  by (auto simp: get_string_def hpack_huff_decode_def Let_def split: option.splits prod.splits if_splits dest: huff_run_length)

lemma hpack_name_length: "hpack_name d bs idx = Some (name, rest) \<Longrightarrow> length name \<le> HPACK_STR_MAX"
  by (auto simp: hpack_name_def split: option.splits prod.splits if_splits dest: get_string_length)

lemma hpack_step_ok:
  assumes "dec_ok d" "hpack_step alloc d bs = Some (d', f, rest)"
  shows "dec_ok d'"
proof -
  have "dec_ok (dyn_resize sz d)" if "\<not> hp_limit d < sz" for sz using dyn_resize_ok [OF assms(1)] that by simp
  moreover have "dec_ok (dyn_add alloc (name, v) d)"
    if "hpack_name d b idx = Some (name, b')" "get_string b' HPACK_STR_MAX = Some (v, c)" for name v b b' idx c
    using dyn_add_ok [OF assms(1), of "(name, v)"] hpack_name_length [OF that(1)] get_string_length [OF that(2)]
    by (simp add: entry_fits_def)
  ultimately show ?thesis
    using assms unfolding hpack_step_def Let_def by (auto split: option.splits prod.splits if_splits)
qed

lemma hpack_step_limit: "hpack_step alloc d bs = Some (d', f, rest) \<Longrightarrow> hp_limit d' = hp_limit d"
  unfolding hpack_step_def Let_def
  by (auto simp: dyn_resize_def dyn_add_def Let_def split: option.splits prod.splits if_splits)

text \<open>C17. The decoder on arbitrary input. Whatever the bytes, the callback and the allocator do,
  \<open>hpack_decode\<close> returns 0, -1 or -2 and leaves the table within its invariant.\<close>

theorem hpack_decode_safe:
  assumes "dec_ok d"
  shows "case hpack_decode alloc emit d bs ctx of (d', ctx', r) \<Rightarrow> dec_ok d' \<and> hp_limit d' = hp_limit d \<and> r \<in> {0, -1, -2}"
  using assms
proof (induction alloc emit d bs ctx rule: hpack_decode.induct)
  case (1 alloc emit d bs ctx)
  show ?case
  proof (cases "bs = [] \<or> hpack_step alloc d bs = None")
    case True
    then show ?thesis using 1(3) by (subst hpack_decode.simps) auto
  next
    case False
    then obtain d' f rest where st: "hpack_step alloc d bs = Some (d', f, rest)" and ne: "bs \<noteq> []" by auto
    note d' = hpack_step_ok [OF 1(3) st] hpack_step_limit [OF st]
    show ?thesis
    proof (cases f)
      case None
      then show ?thesis using 1(1) [OF ne st refl refl None d'(1)] st ne d'(2) by (subst hpack_decode.simps) auto
    next
      case (Some nv)
      obtain name v where nv: "nv = (name, v)" by fastforce
      obtain c stop where em: "emit ctx name v = (c, stop)" by fastforce
      show ?thesis
      proof (cases stop)
        case True
        then show ?thesis using st ne Some nv em d' by (subst hpack_decode.simps) auto
      next
        case False
        then show ?thesis
          using 1(2) [OF ne st refl refl Some nv [symmetric] em [symmetric] False d'(1)] st ne Some nv em d'(2)
          by (subst hpack_decode.simps) auto
      qed
    qed
  qed
qed

theorem hpack_decode_safe_witness:
  "case hpack_decode (\<lambda>_ _. True) (\<lambda>c n v. (c @ [(n, v)], False)) (fst (hpack_dec_init True 4096)) [0x82, 0xFF] [] of
     (d', c, r) \<Rightarrow> dec_ok d' \<and> hp_limit d' = 4096 \<and> r \<in> {0, -1, -2}"
  using hpack_decode_safe [of "fst (hpack_dec_init True 4096)"] hpack_init_ok [of 4096 True]
  by (simp add: hpack_dec_init_def)

subsection \<open>Decoding what the encoder wrote\<close>

lemma and_not_mask: "b AND NOT (mask k) = first \<Longrightarrow> b AND (m AND NOT (mask k)) = first AND m" for b :: u8
  by (rule bit_word_eqI) (auto simp: bit_and_iff)

lemma put_string_get:
  assumes "put_string cap str = Some out" "length str \<le> HPACK_STR_MAX"
  shows "get_string (out @ rest) HPACK_STR_MAX = Some (str, length out)"
proof -
  obtain o1 where o1: "put_int cap 0 7 (of_nat (length str)) = Some o1" "out = o1 @ str"
    using assms(1) by (auto simp: put_string_def split: option.splits if_splits)
  have u: "unat (of_nat (length str) :: u32) = length str"
    using assms(2) by (intro unat_of_nat_small) (simp add: HPACK_STR_MAX_def)
  have "get_int (o1 @ str @ rest) 7 = Some (of_nat (length str), length o1) \<and> length o1 \<le> cap \<and> o1 \<noteq> [] \<and> o1 ! 0 AND NOT (mask 7) = 0"
    by (rule int_core [OF _ _ _ _ o1(1)]) (use u assms(2) in \<open>simp_all add: HPACK_STR_MAX_def\<close>)
  then have g: "get_int (o1 @ str @ rest) 7 = Some (of_nat (length str), length o1)" "o1 \<noteq> []" "o1 ! 0 AND NOT (mask 7) = 0" by auto
  have "o1 ! 0 AND (0x80 AND NOT (mask 7)) = 0 AND 0x80" by (rule and_not_mask [OF g(3)])
  then have "o1 ! 0 AND 0x80 = 0" by (simp add: mask_numeral)
  then show ?thesis using g(1,2) u assms(2) by (simp add: get_string_def o1(2) nth_append)
qed

lemma static_find_ok:
  "static_find name v sens i ni ss = (r, m) \<Longrightarrow>
     (m = Some j \<longrightarrow> i < j \<and> j \<le> i + length ss \<and> (\<lambda>(n, w). ascii n = name \<and> ascii w = v) (ss ! (j - Suc i))) \<and>
     (r = ni \<or> i < r \<and> r \<le> i + length ss \<and> ascii (fst (ss ! (r - Suc i))) = name)"
proof (induction name v sens i ni ss rule: static_find.induct)
  case (2 name v sens i ni sn sv ss)
  have sh: "((sn, sv) # ss) ! (k - Suc i) = ss ! (k - Suc (i + 1))" if "i + 1 < k" for k
    using that by (simp add: nth_Cons')
  let ?ni = "if ni = 0 then i + 1 else ni"
  consider (other) "ascii sn \<noteq> name" | (exact) "ascii sn = name" "\<not> sens \<and> sv \<noteq> [] \<and> ascii sv = v"
    | (more) "ascii sn = name" "\<not> (\<not> sens \<and> sv \<noteq> [] \<and> ascii sv = v)" by blast
  then show ?case
  proof cases
    case other
    then have "static_find name v sens (i + 1) ni ss = (r, m)" using 2(3) by simp
    then show ?thesis using 2(1) [OF other] sh by fastforce
  next
    case exact
    then have "r = ?ni" "m = Some (i + 1)" using 2(3) by (auto simp: Let_def)
    then show ?thesis using exact by auto
  next
    case more
    then have "static_find name v sens (i + 1) ?ni ss = (r, m)" using 2(3) by (auto simp: Let_def)
    then show ?thesis using 2(2) [OF _ refl more(2)] more(1) sh by (fastforce split: if_splits)
  qed
qed auto

lemma lookup_static:
  assumes "0 < i" "i \<le> 61"
  shows "lookup d (of_nat i) = Some (ascii (fst (hpack_static_table ! (i - 1))), ascii (snd (hpack_static_table ! (i - 1))))"
proof -
  have u: "unat (of_nat i :: u32) = i" using assms by (intro unat_of_nat_small) simp
  then have "(of_nat i :: u32) \<noteq> 0" "of_nat i \<le> (61 :: u32)" using assms by (auto simp: word_le_nat_alt)
  then show ?thesis using u by (simp add: lookup_def case_prod_beta)
qed

lemma hpack_step_encoded:
  assumes enc: "hpack_encode_field cap name v sens = Some out" and len: "length name \<le> HPACK_STR_MAX" "length v \<le> HPACK_STR_MAX"
  shows "hpack_step alloc d (out @ rest) = Some (d, Some (name, v), rest) \<and> out \<noteq> []"
proof -
  obtain ni m where sf: "static_find name v sens 0 0 hpack_static_table = (ni, m)" by fastforce
  note ok = static_find_ok [OF sf]
  show ?thesis
  proof (cases m)
    case (Some j)
    then have j: "0 < j" "j \<le> 61" "(\<lambda>(n, w). ascii n = name \<and> ascii w = v) (hpack_static_table ! (j - 1))" using ok [of j] by auto
    have uj: "unat (of_nat j :: u32) = j" using j by (intro unat_of_nat_small) simp
    have o: "put_int cap 0x80 7 (of_nat j) = Some out" using enc sf Some by (simp add: hpack_encode_field_def)
    have "get_int (out @ rest) 7 = Some (of_nat j, length out) \<and> length out \<le> cap \<and> out \<noteq> [] \<and> out ! 0 AND NOT (mask 7) = 0x80"
      by (rule int_core [OF _ _ _ _ o]) (use uj j in \<open>simp_all add: mask_numeral\<close>)
    then have g: "get_int (out @ rest) 7 = Some (of_nat j, length out)" "out \<noteq> []" "out ! 0 AND NOT (mask 7) = 0x80" by auto
    have "out ! 0 AND (0x80 AND NOT (mask 7)) = 0x80 AND 0x80" by (rule and_not_mask [OF g(3)])
    then have "(out @ rest) ! 0 AND 0x80 \<noteq> 0" using g(2) by (simp add: mask_numeral nth_append)
    then show ?thesis using g lookup_static [OF j(1,2)] j(3) by (simp add: hpack_step_def Let_def case_prod_beta)
  next
    case None
    let ?first = "if sens then 0x10 else 0 :: u8"
    obtain o1 o2 o3 where o: "put_int cap ?first 4 (of_nat ni) = Some o1"
        "(if ni = 0 then put_string (cap - length o1) name else Some []) = Some o2"
        "put_string (cap - length o1 - length o2) v = Some o3" "out = o1 @ o2 @ o3"
      using enc sf None by (auto simp: hpack_encode_field_def split: option.splits)
    have ni: "ni \<le> 61" "ni \<noteq> 0 \<Longrightarrow> ascii (fst (hpack_static_table ! (ni - 1))) = name" using ok [of 0] by auto
    have un: "unat (of_nat ni :: u32) = ni" using ni by (intro unat_of_nat_small) simp
    have "get_int (o1 @ (o2 @ o3 @ rest)) 4 = Some (of_nat ni, length o1) \<and> length o1 \<le> cap \<and> o1 \<noteq> [] \<and> o1 ! 0 AND NOT (mask 4) = ?first"
      by (rule int_core [OF _ _ _ _ o(1)]) (use un ni in \<open>simp_all add: mask_numeral\<close>)
    then have g: "get_int (o1 @ (o2 @ o3 @ rest)) 4 = Some (of_nat ni, length o1)" "o1 \<noteq> []" "o1 ! 0 AND NOT (mask 4) = ?first" by auto
    have b: "o1 ! 0 AND (x AND NOT (mask 4)) = ?first AND x" for x by (rule and_not_mask [OF g(3)])
    have "o1 ! 0 AND 0x80 = 0" "o1 ! 0 AND 0xE0 = 0" "o1 ! 0 AND 0xC0 = 0"
      using b [of "0x80"] b [of "0xE0"] b [of "0xC0"] by (simp_all add: mask_numeral)
    then have b0: "(out @ rest) ! 0 AND 0x80 = 0" "(out @ rest) ! 0 AND 0xE0 \<noteq> 0x20" "(out @ rest) ! 0 AND 0xC0 \<noteq> 0x40"
      using g(2) by (simp_all add: o(4) nth_append)
    have nm: "hpack_name d (o2 @ o3 @ rest) (of_nat ni) = Some (name, o3 @ rest)"
    proof (cases "ni = 0")
      case True
      then show ?thesis using put_string_get [OF _ len(1), of "cap - length o1" o2 "o3 @ rest"] o(2) by (simp add: hpack_name_def)
    next
      case False
      then have "(of_nat ni :: u32) \<noteq> 0" using un by auto
      then show ?thesis using False lookup_static [of ni d] ni len(1) o(2) by (auto simp: hpack_name_def)
    qed
    show ?thesis
      using b0 g nm put_string_get [OF o(3) len(2), of rest] unfolding hpack_step_def Let_def by (simp add: o(4))
  qed
qed

text \<open>C15. A header block. What \<open>hpack_encode_field\<close> writes for a list of fields, each as \<open>sensitive\<close> or not,
  \<open>hpack_decode\<close> turns back into exactly these fields in order, for every state of the dynamic table,
  which it leaves unchanged.\<close>

theorem hpack_block_roundtrip:
  assumes "list_all2 (\<lambda>(name, v, sens) out. hpack_encode_field cap name v sens = Some out \<and>
      length name \<le> HPACK_STR_MAX \<and> length v \<le> HPACK_STR_MAX) fs outs"
  shows "hpack_decode alloc (\<lambda>c n v. (c @ [(n, v)], False)) d (concat outs) acc =
    (d, acc @ map (\<lambda>(name, v, sens). (name, v)) fs, 0)"
  using assms
proof (induction fs outs arbitrary: acc rule: list_all2_induct)
  case Nil
  then show ?case by (simp add: hpack_decode.simps)
next
  case (Cons f fs out outs)
  obtain name v sens where f: "f = (name, v, sens)" by (cases f)
  have "hpack_step alloc d (out @ concat outs) = Some (d, Some (name, v), concat outs) \<and> out \<noteq> []"
    using Cons.hyps(1) f by (intro hpack_step_encoded [of cap name v sens]) auto
  then show ?case using Cons.IH f by (subst hpack_decode.simps) auto
qed

theorem hpack_block_roundtrip_witness:
  "hpack_decode (\<lambda>_ _. True) (\<lambda>c n v. (c @ [(n, v)], False)) (fst (hpack_dec_init True 4096))
     [0x82, 0x10, 1, 0x61, 1, 0x62] [] = (fst (hpack_dec_init True 4096), [(ascii '':method'', ascii ''GET''), ([0x61], [0x62])], 0)"
proof -
  have e: "hpack_encode_field 64 (ascii '':method'') (ascii ''GET'') False = Some [0x82]"
    "hpack_encode_field 64 [0x61] [0x62] True = Some [0x10, 1, 0x61, 1, 0x62]" by code_simp+
  show ?thesis
    using hpack_block_roundtrip [of 64 "[(ascii '':method'', ascii ''GET'', False), ([0x61], [0x62], True)]"
      "[[0x82], [0x10, 1, 0x61, 1, 0x62]]" "\<lambda>_ _. True" "fst (hpack_dec_init True 4096)" "[]"] e
    by (simp add: HPACK_STR_MAX_def)
qed

end
