(* ===== verification/Keyboard.thy ===== *)
theory Keyboard
  imports Prelude "HOL-Library.Sublist"
begin

text \<open>
  The PS/2 keyboard driver (\<open>src/keyboard.c\<close>): the scancode tables, the state the interrupt handler
  keeps (modifiers, keys held down, the ring of transitions games read) and its operations. A port read
  is an argument of the handler: \<open>st\<close> for port 0x64, \<open>sc\<close> for port 0x60, \<open>t\<close> for the time stamp counter.
  The handler returns the calls it makes: \<open>Stir\<close> for \<open>rand_stir_src\<close> (\<open>hook\<close> tells whether the weak
  symbol is linked in), \<open>Key\<close> for the installed callback, which the state carries.
\<close>

definition scancode_ascii :: "u8 list" where
  "scancode_ascii = [
     0, 0, 0x31, 0x32, 0x33, 0x34, 0x35, 0x36,
     0x37, 0x38, 0x39, 0x30, 0x2D, 0x3D, 0, 0,
     0x71, 0x77, 0x65, 0x72, 0x74, 0x79, 0x75, 0x69,
     0x6F, 0x70, 0x5B, 0x5D, 0x0A, 0, 0x61, 0x73,
     0x64, 0x66, 0x67, 0x68, 0x6A, 0x6B, 0x6C, 0x3B,
     0x27, 0x60, 0, 0x5C, 0x7A, 0x78, 0x63, 0x76,
     0x62, 0x6E, 0x6D, 0x2C, 0x2E, 0x2F, 0, 0x2A,
     0, 0x20, 0, 0, 0, 0, 0, 0] @ replicate 64 0"

definition scancode_shift :: "u8 list" where
  "scancode_shift = [
     0, 0, 0x21, 0x40, 0x23, 0x24, 0x25, 0x5E,
     0x26, 0x2A, 0x28, 0x29, 0x5F, 0x2B, 0, 0,
     0x51, 0x57, 0x45, 0x52, 0x54, 0x59, 0x55, 0x49,
     0x4F, 0x50, 0x7B, 0x7D, 0x0A, 0, 0x41, 0x53,
     0x44, 0x46, 0x47, 0x48, 0x4A, 0x4B, 0x4C, 0x3A,
     0x22, 0x7E, 0, 0x7C, 0x5A, 0x58, 0x43, 0x56,
     0x42, 0x4E, 0x4D, 0x3C, 0x3E, 0x3F, 0, 0x2A,
     0, 0x20, 0, 0, 0, 0, 0, 0] @ replicate 64 0"

text \<open>The ring of transitions: bit 8 of an entry is the prefix, bit 7 a press, bits 0-6 the scancode.\<close>

record ktr_ring =
  ktr :: "u16 list"
  ktr_head :: u32
  ktr_tail :: u32

record 'f kbd =
  callback :: "'f option"
  shift_pressed :: bool
  ctrl_pressed :: bool
  alt_pressed :: bool
  extended :: bool
  held_keys :: "bool list"
  trans :: ktr_ring

text \<open>The static variables before any code has run.\<close>

definition kbd_boot :: "'f kbd" where
  "kbd_boot = \<lparr>callback = None, shift_pressed = False, ctrl_pressed = False, alt_pressed = False, extended = False,
     held_keys = replicate 256 False, trans = \<lparr>ktr = replicate 64 0, ktr_head = 0, ktr_tail = 0\<rparr>\<rparr>"

definition keyboard_scancode_held :: "int \<Rightarrow> bool \<Rightarrow> 'f kbd \<Rightarrow> bool" where
  "keyboard_scancode_held scancode extended_key s =
     held_keys s ! nat ((if extended_key then 0x80 else 0) + (scancode AND 0x7F))"

definition KTR_N :: u32 where "KTR_N = 64"

definition ktr_push :: "u8 \<Rightarrow> bool \<Rightarrow> bool \<Rightarrow> ktr_ring \<Rightarrow> ktr_ring" where
  "ktr_push scancode ext down s =
     (let n = (ktr_tail s + 1) mod KTR_N
      in if n = ktr_head s then s
         else s\<lparr>ktr := (ktr s)[unat (ktr_tail s) :=
                  (if ext then 0x100 else 0) OR (if down then 0x80 else 0) OR (ucast scancode AND 0x7F)],
                ktr_tail := n\<rparr>)"

text \<open>\<open>None\<close> is the result 0; \<open>Some\<close> the three values stored through the pointers.\<close>

definition keyboard_next_transition :: "ktr_ring \<Rightarrow> ktr_ring \<times> (u8 \<times> bool \<times> bool) option" where
  "keyboard_next_transition s =
     (if ktr_head s = ktr_tail s then (s, None)
      else let v = ktr s ! unat (ktr_head s)
        in (s\<lparr>ktr_head := (ktr_head s + 1) mod KTR_N\<rparr>,
            Some (ucast (v AND 0x7F), v AND 0x100 \<noteq> 0, v AND 0x80 \<noteq> 0)))"

datatype 'f kbd_call = Stir bytes | Key 'f u8

definition key_call :: "u8 \<Rightarrow> 'f kbd \<Rightarrow> 'f kbd_call list" where
  "key_call c s = (case callback s of None \<Rightarrow> [] | Some cb \<Rightarrow> [Key cb c])"

definition stir_sample :: "u64 \<Rightarrow> u8 \<Rightarrow> bytes" where
  "stir_sample t scancode =
     map (\<lambda>i. ucast (drop_bit ((i mod 8) * 8) t AND 0xFF) XOR (scancode + of_nat i)) [0..<32]"

text \<open>The branch of a scancode after the prefix 0xE0.\<close>

definition keyboard_extended :: "u8 \<Rightarrow> 'f kbd \<Rightarrow> 'f kbd \<times> 'f kbd_call list" where
  "keyboard_extended scancode s =
     (let down = (scancode AND 0x80 = 0);
          s = s\<lparr>extended := False, held_keys := (held_keys s)[0x80 + unat (scancode AND 0x7F) := down]\<rparr>;
          s = s\<lparr>trans := ktr_push scancode True down (trans s)\<rparr>
      in if scancode = 0x38 then (s\<lparr>alt_pressed := True\<rparr>, [])
         else if scancode = 0xB8 then (s\<lparr>alt_pressed := False\<rparr>, [])
         else if scancode AND 0x80 \<noteq> 0 then (s, [])
         else if scancode = 0x48 then (s, key_call 0x11 s)
         else if scancode = 0x50 then (s, key_call 0x10 s)
         else if scancode = 0x4B then (s, key_call 0x11 s)
         else if scancode = 0x4D then (s, key_call 0x10 s)
         else (s, []))"

definition keyboard_release :: "u8 \<Rightarrow> 'f kbd \<Rightarrow> 'f kbd" where
  "keyboard_release scancode s =
     (let released = scancode AND 0x7F;
          s = (if released = 0x2A \<or> released = 0x36 then s\<lparr>shift_pressed := False\<rparr> else s);
          s = (if released = 0x1D then s\<lparr>ctrl_pressed := False\<rparr> else s)
      in if released = 0x38 then s\<lparr>alt_pressed := False\<rparr> else s)"

text \<open>The character of a key that is neither a modifier nor one of the special keys.\<close>

definition keyboard_char :: "u8 \<Rightarrow> 'f kbd \<Rightarrow> u8" where
  "keyboard_char scancode s =
     (let c = (if shift_pressed s then scancode_shift ! unat scancode else scancode_ascii ! unat scancode)
      in if ctrl_pressed s \<and> 0x61 \<le> c \<and> c \<le> 0x7A then c - 0x61 + 1
         else if ctrl_pressed s \<and> 0x41 \<le> c \<and> c \<le> 0x5A then c - 0x41 + 1
         else c)"

definition keyboard_press :: "u8 \<Rightarrow> 'f kbd \<Rightarrow> 'f kbd \<times> 'f kbd_call list" where
  "keyboard_press scancode s =
     (if scancode = 0x1D then (s\<lparr>ctrl_pressed := True\<rparr>, [])
      else if scancode = 0x38 then (s\<lparr>alt_pressed := True\<rparr>, [])
      else if scancode = 0x2A \<or> scancode = 0x36 then (s\<lparr>shift_pressed := True\<rparr>, [])
      else if scancode = 0x0E then (s, key_call 0x08 s)
      else if scancode = 0x0F then (s, key_call 0x09 s)
      else if scancode = 0x49 then (s, key_call 0x12 s)
      else if scancode = 0x51 then (s, key_call 0x04 s)
      else let c = keyboard_char scancode s in (s, if c \<noteq> 0 then key_call c s else []))"

definition keyboard_scancode :: "u8 \<Rightarrow> 'f kbd \<Rightarrow> 'f kbd \<times> 'f kbd_call list" where
  "keyboard_scancode scancode s =
     (if scancode = 0xE0 then (s\<lparr>extended := True\<rparr>, [])
      else if extended s then keyboard_extended scancode s
      else let down = (scancode AND 0x80 = 0);
               s = s\<lparr>held_keys := (held_keys s)[unat (scancode AND 0x7F) := down]\<rparr>;
               s = s\<lparr>trans := ktr_push scancode False down (trans s)\<rparr>
        in if scancode AND 0x80 \<noteq> 0 then (keyboard_release scancode s, []) else keyboard_press scancode s)"

definition keyboard_irq :: "bool \<Rightarrow> u8 \<Rightarrow> u8 \<Rightarrow> u64 \<Rightarrow> 'f kbd \<Rightarrow> 'f kbd \<times> 'f kbd_call list" where
  "keyboard_irq hook st scancode t s =
     (if st AND 0x01 = 0 \<or> st AND 0x20 \<noteq> 0 then (s, [])
      else case keyboard_scancode scancode s of
        (s', calls) \<Rightarrow> (s', (if hook then [Stir (stir_sample t scancode)] else []) @ calls))"

text \<open>The registration of the handler with the interrupt controller is not part of this state.\<close>

definition keyboard_init :: "'f kbd \<Rightarrow> 'f kbd" where
  "keyboard_init s = s\<lparr>callback := None, shift_pressed := False, ctrl_pressed := False, alt_pressed := False, extended := False\<rparr>"

definition keyboard_alt_held :: "'f kbd \<Rightarrow> bool" where
  "keyboard_alt_held s = alt_pressed s"

definition keyboard_set_callback :: "'f option \<Rightarrow> 'f kbd \<Rightarrow> 'f kbd" where
  "keyboard_set_callback cb s = s\<lparr>callback := cb\<rparr>"

subsection \<open>Bounded queues\<close>

datatype 'a qop = Push 'a | Pop

text \<open>A sequence of operations on an implementation, with what the \<open>Pop\<close>s returned, and the same on lists
  of at most \<open>cap\<close> elements: a full queue drops the new element.\<close>

fun q_run :: "('a \<Rightarrow> 's \<Rightarrow> 's) \<Rightarrow> ('s \<Rightarrow> 's \<times> 'b option) \<Rightarrow> 's \<Rightarrow> 'a qop list \<Rightarrow> 's \<times> 'b list" where
  "q_run push pop s [] = (s, [])"
| "q_run push pop s (Push a # ops) = q_run push pop (push a s) ops"
| "q_run push pop s (Pop # ops) = (case pop s of (s1, r) \<Rightarrow> case q_run push pop s1 ops of
     (s2, out) \<Rightarrow> (s2, (case r of None \<Rightarrow> [] | Some x \<Rightarrow> [x]) @ out))"

definition list_push :: "nat \<Rightarrow> 'a \<Rightarrow> 'a list \<Rightarrow> 'a list" where
  "list_push cap a q = (if length q < cap then q @ [a] else q)"

fun list_pop :: "'a list \<Rightarrow> 'a list \<times> 'a option" where
  "list_pop [] = ([], None)"
| "list_pop (x # q) = (q, Some x)"

fun pushed :: "'a qop list \<Rightarrow> 'a list" where
  "pushed [] = []"
| "pushed (Push a # ops) = a # pushed ops"
| "pushed (Pop # ops) = pushed ops"

lemma list_run_subseq: "q_run (list_push cap) list_pop q ops = (q', out) \<Longrightarrow> subseq (out @ q') (q @ pushed ops)"
proof (induction ops arbitrary: q out rule: pushed.induct)
  case (2 a ops)
  then have "subseq (out @ q') (list_push cap a q @ pushed ops)" by simp
  moreover have "subseq (list_push cap a q @ pushed ops) (q @ a # pushed ops)"
    by (auto simp: list_push_def intro!: list_emb_append_mono)
  ultimately show ?case using subseq_order.order_trans by fastforce
next
  case (3 ops)
  then show ?case using 3(1) [of "tl q"] 3(1) [of "[]"] by (cases q) (auto split: prod.splits)
qed simp

lemma list_run_all:
  "q_run (list_push cap) list_pop q ops = (q', out) \<Longrightarrow> length q + length (pushed ops) \<le> cap \<Longrightarrow> out @ q' = q @ pushed ops"
proof (induction ops arbitrary: q out rule: pushed.induct)
  case (3 ops)
  then show ?case by (cases q) (auto split: prod.splits)
qed (auto simp: list_push_def)

text \<open>What a client of a queue relies on: \<open>view\<close> is the content, an element is read back as \<open>norm\<close> of it.\<close>

locale bounded_queue =
  fixes push :: "'a \<Rightarrow> 's \<Rightarrow> 's" and pop :: "'s \<Rightarrow> 's \<times> 'b option"
    and view :: "'s \<Rightarrow> 'b list" and norm :: "'a \<Rightarrow> 'b" and ok :: "'s \<Rightarrow> bool" and cap :: nat
  assumes push_ok: "ok s \<Longrightarrow> ok (push a s)"
    and push_view: "ok s \<Longrightarrow> view (push a s) = list_push cap (norm a) (view s)"
    and pop_ok: "ok s \<Longrightarrow> ok (fst (pop s))"
    and pop_view: "ok s \<Longrightarrow> (view (fst (pop s)), snd (pop s)) = list_pop (view s)"
begin

lemma run_refines:
  assumes "ok s" "q_run push pop s ops = (s', out)"
  shows "ok s' \<and> q_run (list_push cap) list_pop (view s) (map (map_qop norm) ops) = (view s', out)"
  using assms
proof (induction ops arbitrary: s out)
  case (Cons p ops)
  show ?case
  proof (cases p)
    case (Push a)
    then show ?thesis using Cons.IH [of "push a s" out] Cons.prems push_ok [of s a] push_view [of s a] by simp
  next
    case Pop
    obtain s1 r where 1: "pop s = (s1, r)" by fastforce
    obtain out1 where 2: "q_run push pop s1 ops = (s', out1)" "out = (case r of None \<Rightarrow> [] | Some x \<Rightarrow> [x]) @ out1"
      using Cons.prems(2) Pop 1 by (auto split: prod.splits)
    have "ok s1" "list_pop (view s) = (view s1, r)" using pop_ok [of s] pop_view [of s] Cons.prems(1) 1 by auto
    then show ?thesis using Cons.IH [of s1 out1] 2 Pop by simp
  qed
qed simp

end

subsection \<open>The ring of transitions is a queue\<close>

definition ktr_decode :: "u16 \<Rightarrow> u8 \<times> bool \<times> bool" where
  "ktr_decode v = (ucast (v AND 0x7F), v AND 0x100 \<noteq> 0, v AND 0x80 \<noteq> 0)"

definition ktr_count :: "ktr_ring \<Rightarrow> nat" where
  "ktr_count r = (unat (ktr_tail r) + 64 - unat (ktr_head r)) mod 64"

definition ktr_list :: "ktr_ring \<Rightarrow> (u8 \<times> bool \<times> bool) list" where
  "ktr_list r = map (\<lambda>i. ktr_decode (ktr r ! ((unat (ktr_head r) + i) mod 64))) [0..<ktr_count r]"

definition ktr_ok :: "ktr_ring \<Rightarrow> bool" where
  "ktr_ok r \<longleftrightarrow> length (ktr r) = 64 \<and> unat (ktr_head r) < 64 \<and> unat (ktr_tail r) < 64"

definition ktr_event :: "u8 \<times> bool \<times> bool \<Rightarrow> u8 \<times> bool \<times> bool" where
  "ktr_event = (\<lambda>(k, e, d). (k AND 0x7F, e, d))"

lemma ktr_decode_encode:
  "ktr_decode ((if e then 0x100 else 0) OR (if d then 0x80 else 0) OR (ucast k AND 0x7F)) = (k AND 0x7F, e, d)"
proof -
  have "ucast (ucast k AND (0x7F :: u16)) = k AND 0x7F" by (rule bit_word_eqI) (auto simp: bit_ucast_iff bit_and_iff)
  then show ?thesis
    by (simp add: ktr_decode_def bit.conj_disj_distrib2 and.assoc)
qed

lemma ktr_next: "unat w < 64 \<Longrightarrow> unat ((w + 1) mod KTR_N) = (unat w + 1) mod 64" for w :: u32
  by (simp add: KTR_N_def unat_mod unat_plus_small)

lemma ktr_count_next:
  assumes "h < 64" "t < (64 :: nat)" "(t + 1) mod 64 \<noteq> h"
  shows "((t + 1) mod 64 + 64 - h) mod 64 = Suc ((t + 64 - h) mod 64)" "(t + 64 - h) mod 64 < 63"
    "(h + (t + 64 - h) mod 64) mod 64 = t"
  using assms by (cases "t = 63"; cases "h \<le> t"; simp add: mod_if; linarith)+

lemma ktr_full: "h < 64 \<Longrightarrow> t < (64 :: nat) \<Longrightarrow> (t + 1) mod 64 = h \<Longrightarrow> (t + 64 - h) mod 64 = 63"
  by (cases "t = 63") auto

lemma ktr_other: "h < 64 \<Longrightarrow> t < (64 :: nat) \<Longrightarrow> i < (t + 64 - h) mod 64 \<Longrightarrow> t \<noteq> (h + i) mod 64"
proof -
  assume a: "h < 64" "t < 64" "i < (t + 64 - h) mod 64"
  then have "(t + 64 - h) mod 64 = (if h \<le> t then t - h else t + 64 - h)" by (simp add: mod_if)
  then have "h + i < t \<or> (t < h \<and> h + i < t + 64)" using a by (auto split: if_splits)
  then show "t \<noteq> (h + i) mod 64" using a by (cases "h + i < 64") (auto simp: mod_if)
qed

lemma ktr_push_ok: "ktr_ok r \<Longrightarrow> ktr_ok (ktr_push k e d r)"
  by (auto simp: ktr_ok_def ktr_push_def Let_def ktr_next)

lemma ktr_push_list:
  assumes "ktr_ok r"
  shows "ktr_list (ktr_push k e d r) = list_push 63 (k AND 0x7F, e, d) (ktr_list r)"
proof -
  let ?h = "unat (ktr_head r)" and ?t = "unat (ktr_tail r)" and ?n = "(ktr_tail r + 1) mod KTR_N"
  have b: "length (ktr r) = 64" "?h < 64" "?t < 64" using assms by (auto simp: ktr_ok_def)
  have n: "?n = ktr_head r \<longleftrightarrow> (?t + 1) mod 64 = ?h" using ktr_next [OF b(3)] by (metis word_unat_eq_iff)
  show ?thesis
  proof (cases "?n = ktr_head r")
    case True
    then have "ktr_count r = 63" using ktr_full [OF b(2,3)] n unfolding ktr_count_def by blast
    then show ?thesis using True by (simp add: ktr_push_def list_push_def ktr_list_def)
  next
    case False
    let ?w = "(if e then 0x100 else 0) OR (if d then 0x80 else 0) OR (ucast k AND 0x7F) :: u16"
    have p: "ktr_push k e d r = r\<lparr>ktr := (ktr r)[?t := ?w], ktr_tail := ?n\<rparr>" using False by (simp add: ktr_push_def Let_def)
    note c = ktr_count_next [OF b(2,3), folded ktr_count_def, OF False [unfolded n]]
    have other: "?t \<noteq> (?h + i) mod 64" if "i < ktr_count r" for i
      using ktr_other [OF b(2,3)] that unfolding ktr_count_def by blast
    have "ktr_list (ktr_push k e d r) = map (\<lambda>i. ktr_decode ((ktr r)[?t := ?w] ! ((?h + i) mod 64))) [0..<Suc (ktr_count r)]"
      using c(1) by (simp add: p ktr_list_def ktr_count_def ktr_next b)
    also have "\<dots> = ktr_list r @ [(k AND 0x7F, e, d)]"
      using other c(3) b by (simp add: ktr_list_def ktr_decode_encode)
    finally show ?thesis using c(2) by (simp add: list_push_def ktr_list_def)
  qed
qed

lemma ktr_pop_ok: "ktr_ok r \<Longrightarrow> ktr_ok (fst (keyboard_next_transition r))"
  by (auto simp: ktr_ok_def keyboard_next_transition_def Let_def ktr_next)

lemma ktr_pop_list:
  assumes "ktr_ok r"
  shows "(ktr_list (fst (keyboard_next_transition r)), snd (keyboard_next_transition r)) = list_pop (ktr_list r)"
proof -
  let ?h = "unat (ktr_head r)" and ?t = "unat (ktr_tail r)"
  have b: "?h < 64" "?t < 64" using assms by (auto simp: ktr_ok_def)
  show ?thesis
  proof (cases "ktr_head r = ktr_tail r")
    case True
    then show ?thesis by (simp add: keyboard_next_transition_def ktr_list_def ktr_count_def)
  next
    case False
    then have ne: "?h \<noteq> ?t" by (simp add: word_unat_eq_iff)
    have c: "ktr_count r = Suc ((?t + 64 - (?h + 1) mod 64) mod 64)"
      using b ne by (cases "?h = 63"; cases "?h \<le> ?t") (auto simp: ktr_count_def mod_if split: if_splits)
    have "ktr_list r = ktr_decode (ktr r ! ?h) #
        map (\<lambda>i. ktr_decode (ktr r ! ((?h + Suc i) mod 64))) [0..<(?t + 64 - (?h + 1) mod 64) mod 64]"
      unfolding ktr_list_def c upt_conv_Cons [OF zero_less_Suc] map_Suc_upt [symmetric] using b by (simp add: o_def)
    moreover have "((?h + 1) mod 64 + i) mod 64 = (?h + Suc i) mod 64" for i by (simp add: mod_simps)
    ultimately show ?thesis using False b
      by (simp add: keyboard_next_transition_def Let_def ktr_list_def ktr_count_def ktr_next ktr_decode_def)
  qed
qed

interpretation kq: bounded_queue "\<lambda>(k, e, d). ktr_push k e d" keyboard_next_transition ktr_list ktr_event ktr_ok 63
  by unfold_locales (auto simp: ktr_push_ok ktr_push_list ktr_pop_ok ktr_pop_list ktr_event_def)

subsection \<open>Runs of the driver\<close>

text \<open>Interrupts interleaved with reads of the ring. The bytes that are the keyboard's are the ones with the
  output-buffer bit and without the mouse bit in the status.\<close>

datatype kbd_op = Irq u8 u8 u64 | Next

fun kbd_run :: "bool \<Rightarrow> 'f kbd \<Rightarrow> kbd_op list \<Rightarrow> 'f kbd \<times> (u8 \<times> bool \<times> bool) list" where
  "kbd_run hook s [] = (s, [])"
| "kbd_run hook s (Irq st sc t # ops) = kbd_run hook (fst (keyboard_irq hook st sc t s)) ops"
| "kbd_run hook s (Next # ops) = (case keyboard_next_transition (trans s) of (r, x) \<Rightarrow>
     case kbd_run hook (s\<lparr>trans := r\<rparr>) ops of (s', out) \<Rightarrow> (s', (case x of None \<Rightarrow> [] | Some e \<Rightarrow> [e]) @ out))"

text \<open>What the bytes mean: a transition is the scancode, whether the prefix came before it, and whether the key
  went down.\<close>

definition kbd_byte :: "u8 \<Rightarrow> bool" where
  "kbd_byte st \<longleftrightarrow> st AND 0x01 \<noteq> 0 \<and> st AND 0x20 = 0"

fun key_ops :: "bool \<Rightarrow> kbd_op list \<Rightarrow> (u8 \<times> bool \<times> bool) qop list" where
  "key_ops ext [] = []"
| "key_ops ext (Next # ops) = Pop # key_ops ext ops"
| "key_ops ext (Irq st sc t # ops) =
     (if \<not> kbd_byte st then key_ops ext ops
      else if sc = 0xE0 then key_ops True ops
      else Push (sc AND 0x7F, ext, sc AND 0x80 = 0) # key_ops False ops)"

text \<open>Whether the last transition of the chosen keys was a press.\<close>

definition pressed :: "(u8 \<Rightarrow> bool \<Rightarrow> bool) \<Rightarrow> (u8 \<times> bool \<times> bool) list \<Rightarrow> bool" where
  "pressed keys evs = (case rev (filter (\<lambda>(k, e, d). keys k e) evs) of [] \<Rightarrow> False | (k, e, d) # _ \<Rightarrow> d)"

lemma pressed_Nil [simp]: "pressed keys [] = False"
  by (simp add: pressed_def)

lemma pressed_snoc: "pressed keys (evs @ [(k, e, d)]) = (if keys k e then d else pressed keys evs)"
  by (simp add: pressed_def)

definition tracked :: "'f kbd \<Rightarrow> (u8 \<times> bool \<times> bool) list \<Rightarrow> bool" where
  "tracked s evs \<longleftrightarrow> length (held_keys s) = 256 \<and>
     (\<forall>k < 128. \<forall>e. held_keys s ! ((if e then 128 else 0) + unat k) = pressed (\<lambda>k' e'. k' = k \<and> e' = e) evs) \<and>
     shift_pressed s = pressed (\<lambda>k e. (k = 0x2A \<or> k = 0x36) \<and> \<not> e) evs \<and>
     ctrl_pressed s = pressed (\<lambda>k e. k = 0x1D \<and> \<not> e) evs \<and>
     alt_pressed s = pressed (\<lambda>k e. k = 0x38) evs"

lemma scancode_parts:
  "sc AND 0x80 = 0 \<Longrightarrow> sc AND 0x7F = sc" "sc = 0xB8 \<longleftrightarrow> sc AND 0x7F = 0x38 \<and> sc AND 0x80 \<noteq> 0"
  "sc AND 0x7F < 128" for sc :: u8
proof -
  have "(0xFF :: u8) = - 1" by simp
  then have "sc AND 0xFF = sc" by (simp only: and.right_neutral)
  then have parts: "sc = (sc AND 0x80) OR (sc AND 0x7F)"
    by (simp add: bit.conj_disj_distrib [symmetric])
  then show "sc AND 0x80 = 0 \<Longrightarrow> sc AND 0x7F = sc" by simp
  have "sc AND 2 ^ 7 = 2 ^ 7" if "bit sc 7"
    by (rule bit_word_eqI) (use that in \<open>auto simp only: bit_and_iff bit_exp_iff\<close>)
  then have "sc AND 0x80 = 0 \<or> sc AND 0x80 = 0x80"
    using and_exp_eq_0_iff_not_bit [of sc 7] by auto
  then show "sc = 0xB8 \<longleftrightarrow> sc AND 0x7F = 0x38 \<and> sc AND 0x80 \<noteq> 0"
    using parts by auto
  show "sc AND 0x7F < 128" using word_and_le1 [of sc "0x7F"] by (simp add: word_le_nat_alt word_less_nat_alt)
qed

lemma held_update:
  assumes "length h = 256" "sc AND 0x7F = k0"
    and "\<forall>k < 128. \<forall>e. h ! ((if e then 128 else 0) + unat k) = pressed (\<lambda>k' e'. k' = k \<and> e' = e) evs"
  shows "\<forall>k < 128. \<forall>e. h[(if e0 then 128 else 0) + unat k0 := d] ! ((if e then 128 else 0) + unat k) =
    pressed (\<lambda>k' e'. k' = k \<and> e' = e) (evs @ [(k0, e0, d)])"
proof (intro allI impI)
  fix k :: u8 and e assume k: "k < 128"
  have k0: "unat k0 < 128" "unat k < 128" using scancode_parts(3) [of sc] assms(2) k by (auto simp: word_less_nat_alt)
  then have "(if e0 then 128 else 0) + unat k0 = (if e then 128 else 0) + unat k \<longleftrightarrow> k0 = k \<and> e0 = e"
    by (auto simp: word_unat_eq_iff)
  then show "h[(if e0 then 128 else 0) + unat k0 := d] ! ((if e then 128 else 0) + unat k) =
      pressed (\<lambda>k' e'. k' = k \<and> e' = e) (evs @ [(k0, e0, d)])"
    using assms(1,3) k k0 by (simp add: nth_list_update pressed_snoc)
qed

lemma keyboard_extended_sel:
  "held_keys (fst (keyboard_extended sc s)) = (held_keys s)[0x80 + unat (sc AND 0x7F) := (sc AND 0x80 = 0)]"
  "shift_pressed (fst (keyboard_extended sc s)) = shift_pressed s"
  "ctrl_pressed (fst (keyboard_extended sc s)) = ctrl_pressed s"
  "alt_pressed (fst (keyboard_extended sc s)) = (if sc AND 0x7F = 0x38 then sc AND 0x80 = 0 else alt_pressed s)"
  "trans (fst (keyboard_extended sc s)) = ktr_push sc True (sc AND 0x80 = 0) (trans s)"
  "callback (fst (keyboard_extended sc s)) = callback s"
  "extended (fst (keyboard_extended sc s)) = False"
  using scancode_parts(1,2) [of sc] by (auto simp: keyboard_extended_def Let_def)

lemma keyboard_release_sel:
  "held_keys (keyboard_release sc s) = held_keys s" "trans (keyboard_release sc s) = trans s"
  "callback (keyboard_release sc s) = callback s" "extended (keyboard_release sc s) = extended s"
  "shift_pressed (keyboard_release sc s) = (sc AND 0x7F \<noteq> 0x2A \<and> sc AND 0x7F \<noteq> 0x36 \<and> shift_pressed s)"
  "ctrl_pressed (keyboard_release sc s) = (sc AND 0x7F \<noteq> 0x1D \<and> ctrl_pressed s)"
  "alt_pressed (keyboard_release sc s) = (sc AND 0x7F \<noteq> 0x38 \<and> alt_pressed s)"
  by (auto simp: keyboard_release_def Let_def)

lemma keyboard_press_sel:
  "held_keys (fst (keyboard_press sc s)) = held_keys s" "trans (fst (keyboard_press sc s)) = trans s"
  "callback (fst (keyboard_press sc s)) = callback s" "extended (fst (keyboard_press sc s)) = extended s"
  "shift_pressed (fst (keyboard_press sc s)) = (sc = 0x2A \<or> sc = 0x36 \<or> shift_pressed s)"
  "ctrl_pressed (fst (keyboard_press sc s)) = (sc = 0x1D \<or> ctrl_pressed s)"
  "alt_pressed (fst (keyboard_press sc s)) = (sc = 0x38 \<or> alt_pressed s)"
  by (auto simp: keyboard_press_def Let_def)

lemma keyboard_extended_tracked:
  assumes "tracked s evs"
  shows "tracked (fst (keyboard_extended sc s)) (evs @ [(sc AND 0x7F, True, sc AND 0x80 = 0)])"
  using assms held_update [of "held_keys s" sc "sc AND 0x7F" evs True "sc AND 0x80 = 0"]
  by (simp add: tracked_def keyboard_extended_sel pressed_snoc)

lemma keyboard_plain_tracked:
  assumes "tracked s evs" "sc \<noteq> 0xE0" "\<not> extended s"
  shows "tracked (fst (keyboard_scancode sc s)) (evs @ [(sc AND 0x7F, False, sc AND 0x80 = 0)])"
proof (cases "sc AND 0x80 = 0")
  case True
  then show ?thesis
    using assms held_update [of "held_keys s" sc "sc AND 0x7F" evs False True] scancode_parts(1) [OF True]
    by (simp add: tracked_def keyboard_scancode_def Let_def keyboard_press_sel pressed_snoc)
next
  case False
  then show ?thesis
    using assms held_update [of "held_keys s" sc "sc AND 0x7F" evs False False]
    by (simp add: tracked_def keyboard_scancode_def Let_def keyboard_release_sel pressed_snoc)
qed

lemma keyboard_scancode_sel:
  "sc \<noteq> 0xE0 \<Longrightarrow> trans (fst (keyboard_scancode sc s)) = ktr_push sc (extended s) (sc AND 0x80 = 0) (trans s)"
  "extended (fst (keyboard_scancode sc s)) = (sc = 0xE0)"
  "callback (fst (keyboard_scancode sc s)) = callback s"
  by (auto simp: keyboard_scancode_def Let_def keyboard_extended_sel keyboard_release_sel keyboard_press_sel)

lemma keyboard_irq_fst:
  "fst (keyboard_irq hook st sc t s) = (if kbd_byte st then fst (keyboard_scancode sc s) else s)"
  by (auto simp: keyboard_irq_def kbd_byte_def split: prod.splits)

lemma kbd_run_tracked:
  assumes "tracked s evs" "kbd_run hook s ops = (s', out)"
  shows "tracked s' (evs @ pushed (key_ops (extended s) ops)) \<and> callback s' = callback s"
  using assms
proof (induction hook s ops arbitrary: evs out rule: kbd_run.induct)
  case (2 hook s st sc t ops)
  let ?s = "fst (keyboard_scancode sc s)" and ?e = "(sc AND 0x7F, extended s, sc AND 0x80 = 0)"
  consider "\<not> kbd_byte st" | "kbd_byte st" "sc = 0xE0" | "kbd_byte st" "sc \<noteq> 0xE0" by blast
  then show ?case
  proof cases
    case 1
    then show ?thesis using 2 by (simp add: keyboard_irq_fst)
  next
    case p: 2
    have "tracked ?s evs" using 2 p(2) by (simp add: keyboard_scancode_def tracked_def)
    then show ?thesis using 2 p by (simp add: keyboard_irq_fst keyboard_scancode_sel)
  next
    case 3
    have "tracked ?s (evs @ [?e])"
      using keyboard_extended_tracked [OF 2(2)] keyboard_plain_tracked [OF 2(2) 3(2)] 3(2)
      by (cases "extended s") (auto simp: keyboard_scancode_def)
    then show ?thesis using 2(1) [of "evs @ [?e]"] 2(3) 3 by (simp add: keyboard_irq_fst keyboard_scancode_sel)
  qed
next
  case (3 hook s ops)
  obtain r x where n: "keyboard_next_transition (trans s) = (r, x)" by fastforce
  obtain out1 where o: "kbd_run hook (s\<lparr>trans := r\<rparr>) ops = (s', out1)" using 3(3) n by (auto split: prod.splits)
  have "tracked (s\<lparr>trans := r\<rparr>) evs" using 3(2) by (simp add: tracked_def)
  then show ?case using 3(1) [OF n [symmetric]] o by simp
qed simp

lemma ktr_push_mask: "ktr_push (k AND 0x7F) e d = ktr_push k e d"
proof -
  have "ucast (k AND 0x7F) AND (0x7F :: u16) = ucast k AND 0x7F"
    by (rule bit_word_eqI) (auto simp: bit_ucast_iff bit_and_iff dest: bit_imp_le_length)
  then show ?thesis by (intro ext) (simp only: ktr_push_def)
qed

lemma key_ops_masked: "map (map_qop ktr_event) (key_ops ext ops) = key_ops ext ops"
  by (induction ext ops rule: key_ops.induct) (auto simp: ktr_event_def and.assoc)

lemma kbd_run_queue:
  "kbd_run hook s ops = (s', out) \<Longrightarrow>
   q_run (\<lambda>(k, e, d). ktr_push k e d) keyboard_next_transition (trans s) (key_ops (extended s) ops) = (trans s', out)"
proof (induction hook s ops arbitrary: out rule: kbd_run.induct)
  case (2 hook s st sc t ops)
  consider "\<not> kbd_byte st" | "kbd_byte st" "sc = 0xE0" | "kbd_byte st" "sc \<noteq> 0xE0" by blast
  then show ?case
  proof cases
    case p: 2
    then show ?thesis using 2 by (simp add: keyboard_irq_fst keyboard_scancode_def)
  qed (use 2 in \<open>simp_all add: keyboard_irq_fst keyboard_scancode_sel ktr_push_mask\<close>)
qed (auto split: prod.splits)

text \<open>C23. The ring of transitions is a queue. Over any interleaving of interrupts and reads, the values
  the reads return and the content left in the ring are those of a list of at most 63 transitions that
  drops new ones while it is full: nothing is reordered, repeated or invented, and with at most 63
  transitions in all nothing is lost.\<close>

theorem kbd_transitions:
  assumes "ktr_ok (trans s)" "kbd_run hook s ops = (s', out)"
  shows "q_run (list_push 63) list_pop (ktr_list (trans s)) (key_ops (extended s) ops) = (ktr_list (trans s'), out) \<and>
    subseq (out @ ktr_list (trans s')) (ktr_list (trans s) @ pushed (key_ops (extended s) ops)) \<and>
    (length (ktr_list (trans s)) + length (pushed (key_ops (extended s) ops)) \<le> 63 \<longrightarrow>
       out @ ktr_list (trans s') = ktr_list (trans s) @ pushed (key_ops (extended s) ops))"
proof -
  have "q_run (list_push 63) list_pop (ktr_list (trans s)) (key_ops (extended s) ops) = (ktr_list (trans s'), out)"
    using kq.run_refines [OF assms(1) kbd_run_queue [OF assms(2)]] by (simp add: key_ops_masked)
  then show ?thesis using list_run_subseq list_run_all by blast
qed

theorem kbd_transitions_witness:
  "\<exists>s'. kbd_run False (kbd_boot :: unit kbd) [Irq 1 0xE0 0, Irq 1 0x48 0, Next, Irq 1 0x1E 0, Irq 0x21 0x1F 0] =
      (s', [(0x48, True, True)]) \<and> ktr_list (trans s') = [(0x1E, False, True)]"
proof -
  let ?ops = "[Irq 1 0xE0 0, Irq 1 0x48 0, Next, Irq 1 0x1E 0, Irq 0x21 0x1F 0]"
  obtain s' out where r: "kbd_run False (kbd_boot :: unit kbd) ?ops = (s', out)" by fastforce
  have "ktr_ok (trans (kbd_boot :: unit kbd))" "ktr_list (trans (kbd_boot :: unit kbd)) = []" "\<not> extended (kbd_boot :: unit kbd)"
    by (simp_all add: kbd_boot_def ktr_ok_def ktr_list_def ktr_count_def)
  then have "q_run (list_push 63) list_pop [] (key_ops False ?ops) = (ktr_list (trans s'), out)"
    using kbd_transitions [OF _ r] by simp
  then show ?thesis using r by (auto simp: kbd_byte_def list_push_def)
qed

lemma letters_table:
  "list_all (\<lambda>i. let a = scancode_ascii ! i; c = scancode_shift ! i in 0x61 \<le> a \<and> a \<le> 0x7A \<longrightarrow>
     a \<noteq> 0 \<and> c \<noteq> 0 \<and> c = a - 0x20 \<and> \<not> 0x61 \<le> c \<and> 0x41 \<le> c \<and> c \<le> 0x5A \<and> c - 0x41 + 1 = a - 0x60 \<and>
     a - 0x61 + 1 = a - 0x60 \<and> a - 0x60 \<noteq> 0 \<and> i \<notin> {0x1D, 0x38, 0x2A, 0x36, 0x0E, 0x0F, 0x49, 0x51}) [0..<128]"
  by code_simp

lemma keyboard_letter:
  assumes "0x61 \<le> a" "a \<le> 0x7A" "a = scancode_ascii ! unat sc" "sc < 128"
  shows "keyboard_press sc s = (s, key_call (if ctrl_pressed s then a - 0x60 else if shift_pressed s then a - 0x20 else a) s)"
proof -
  have i: "unat sc \<in> set [0..<128]" using assms(4) by (simp add: word_less_nat_alt)
  note l = letters_table [unfolded list_all_iff, THEN bspec, OF i, unfolded Let_def, folded assms(3), rule_format, OF conjI [OF assms(1,2)]]
  then have "sc \<notin> {0x1D, 0x38, 0x2A, 0x36, 0x0E, 0x0F, 0x49, 0x51}" by auto
  then show ?thesis using l assms(1,2) unfolding keyboard_press_def keyboard_char_def Let_def assms(3) [symmetric] by auto
qed

lemma keyboard_irq_letter:
  assumes "\<not> extended s" "kbd_byte st" "sc < 128" "scancode_ascii ! unat sc \<in> {0x61..0x7A}" "callback s = Some f"
  shows "snd (keyboard_irq False st sc t s) =
    [Key f (if ctrl_pressed s then scancode_ascii ! unat sc - 0x60
            else if shift_pressed s then scancode_ascii ! unat sc - 0x20
            else scancode_ascii ! unat sc)]"
proof -
  have "unat (sc AND mask 7) = unat sc" using assms(3) by (simp only: unat_and_mask) (simp add: word_less_nat_alt)
  then have "sc = sc AND 0x7F" by (simp add: mask_numeral word_unat_eq_iff)
  then have "sc AND 0x80 = (sc AND 0x7F) AND 0x80" by (rule arg_cong [where f = "\<lambda>x. x AND 0x80"])
  then have "sc AND 0x80 = 0" by (simp add: and.assoc)
  moreover have "sc \<noteq> 0xE0" using assms(3) by auto
  moreover let ?s = "s\<lparr>held_keys := (held_keys s)[unat (sc AND 0x7F) := True], trans := ktr_push sc False True (trans s)\<rparr>"
  have "keyboard_press sc ?s = (?s, key_call (if ctrl_pressed s then scancode_ascii ! unat sc - 0x60
      else if shift_pressed s then scancode_ascii ! unat sc - 0x20 else scancode_ascii ! unat sc) ?s)"
    using keyboard_letter [OF _ _ refl assms(3), of ?s] assms(4) by simp
  ultimately show ?thesis using assms(1,2,5)
    by (simp add: keyboard_irq_def kbd_byte_def keyboard_scancode_def key_call_def split: prod.splits)
qed

text \<open>Two keys that share a flag, the two Alt or the two Shift keys. The flag follows the last transition of either, so it tells
  whether one of them is down as long as none is released while the other is down.\<close>

definition down :: "u8 \<times> bool \<Rightarrow> (u8 \<times> bool \<times> bool) list \<Rightarrow> bool" where
  "down a evs = pressed (\<lambda>k e. (k, e) = a) evs"

definition lone_releases :: "u8 \<times> bool \<Rightarrow> u8 \<times> bool \<Rightarrow> (u8 \<times> bool \<times> bool) list \<Rightarrow> bool" where
  "lone_releases a b evs \<longleftrightarrow> (\<forall>p k e q. evs = p @ (k, e, False) # q \<longrightarrow> \<not> ((k, e) = a \<and> down b p) \<and> \<not> ((k, e) = b \<and> down a p))"

lemma lone_snoc: "lone_releases a b (evs @ [x]) \<Longrightarrow> lone_releases a b evs"
  unfolding lone_releases_def by (metis append.assoc append_Cons)

lemma pressed_either:
  assumes "lone_releases a b evs" "a \<noteq> b"
  shows "pressed (\<lambda>k e. (k, e) = a \<or> (k, e) = b) evs \<longleftrightarrow> down a evs \<or> down b evs"
  using assms(1)
proof (induction evs rule: rev_induct)
  case (snoc x evs)
  obtain k e d where x: "x = (k, e, d)" by (metis prod.exhaust)
  have l: "\<not> ((k, e) = a \<and> down b evs)" "\<not> ((k, e) = b \<and> down a evs)" if "\<not> d"
    using snoc.prems that unfolding lone_releases_def x by auto
  have "pressed (\<lambda>k e. (k, e) = a \<or> (k, e) = b) evs \<longleftrightarrow> down a evs \<or> down b evs" by (rule snoc.IH [OF lone_snoc [OF snoc.prems]])
  then show ?case using l assms(2) by (cases d) (auto simp: x down_def pressed_snoc)
qed (simp add: down_def)

text \<open>C38. Keys and modifiers follow the key transitions. After any history of interrupts and reads since
  boot, a key is reported held exactly while its last transition was a press; Alt is reported held exactly while either Alt
  key is down, in a history in which neither is released while the other is down; and a letter key then types its
  letter to the installed callback: the control code while the left Ctrl key is down, else the capital while either Shift key
  is down, in a history in which neither is released while the other is down.\<close>

theorem kbd_history:
  assumes "kbd_run hook (keyboard_set_callback (Some f) (keyboard_init kbd_boot)) ops = (s, out)"
    and "evs = pushed (key_ops False ops)"
  shows "(\<forall>k < 128. \<forall>e. keyboard_scancode_held (uint k) e s \<longleftrightarrow> down (k, e) evs) \<and>
    (lone_releases (0x38, False) (0x38, True) evs \<longrightarrow>
      (keyboard_alt_held s \<longleftrightarrow> keyboard_scancode_held 0x38 False s \<or> keyboard_scancode_held 0x38 True s)) \<and>
    (\<forall>sc. lone_releases (0x2A, False) (0x36, False) evs \<and> \<not> extended s \<and> kbd_byte st \<and> sc < 128 \<and>
        scancode_ascii ! unat sc \<in> {0x61..0x7A} \<longrightarrow>
      snd (keyboard_irq False st sc t s) =
        [Key f (if keyboard_scancode_held 0x1D False s then scancode_ascii ! unat sc - 0x60
                else if keyboard_scancode_held 0x2A False s \<or> keyboard_scancode_held 0x36 False s then scancode_ascii ! unat sc - 0x20
                else scancode_ascii ! unat sc)])"
proof -
  have t0: "tracked (keyboard_set_callback (Some f) (keyboard_init kbd_boot)) []"
    by (auto simp: tracked_def keyboard_set_callback_def keyboard_init_def kbd_boot_def word_less_nat_alt)
  have t: "tracked s evs" and cb: "callback s = Some f"
    using kbd_run_tracked [OF t0 assms(1)] assms(2)
    by (simp_all add: keyboard_set_callback_def keyboard_init_def kbd_boot_def)
  have "nat ((if e then 128 else 0) + (uint k AND 127)) = (if e then 128 else 0) + unat k" if "k < 128" for k :: u8 and e
  proof -
    have "uint k AND mask 7 = uint k" using that by (simp only: take_bit_eq_mask [symmetric] take_bit_int_eq_self_iff) (simp add: word_less_def)
    then show ?thesis by (simp add: mask_numeral nat_add_distrib)
  qed
  then have held: "keyboard_scancode_held (uint k) e s \<longleftrightarrow> down (k, e) evs" if "k < 128" for k e
    using t that by (simp add: keyboard_scancode_held_def tracked_def down_def)
  have h: "keyboard_scancode_held 0x38 False s \<longleftrightarrow> down (0x38, False) evs" "keyboard_scancode_held 0x38 True s \<longleftrightarrow> down (0x38, True) evs"
    "keyboard_scancode_held 0x1D False s \<longleftrightarrow> down (0x1D, False) evs" "keyboard_scancode_held 0x2A False s \<longleftrightarrow> down (0x2A, False) evs"
    "keyboard_scancode_held 0x36 False s \<longleftrightarrow> down (0x36, False) evs"
    using held [of "0x38" False] held [of "0x38" True] held [of "0x1D" False] held [of "0x2A" False] held [of "0x36" False] by simp_all
  have alt: "keyboard_alt_held s \<longleftrightarrow> down (0x38, False) evs \<or> down (0x38, True) evs" if "lone_releases (0x38, False) (0x38, True) evs"
  proof -
    have "(\<lambda>k e. (k, e) = (0x38, False) \<or> (k, e) = (0x38, True)) = (\<lambda>k e. k = (0x38 :: u8))" by (intro ext) auto
    then show ?thesis using pressed_either [OF that] t by (simp add: keyboard_alt_held_def tracked_def)
  qed
  have shift: "shift_pressed s \<longleftrightarrow> down (0x2A, False) evs \<or> down (0x36, False) evs" if "lone_releases (0x2A, False) (0x36, False) evs"
  proof -
    have "(\<lambda>k e. (k, e) = (0x2A, False) \<or> (k, e) = (0x36, False)) = (\<lambda>k e. (k = (0x2A :: u8) \<or> k = 0x36) \<and> \<not> e)" by (intro ext) auto
    then show ?thesis using pressed_either [OF that] t by (simp add: tracked_def)
  qed
  have "(\<lambda>k e. (k, e) = (0x1D, False)) = (\<lambda>k e. k = (0x1D :: u8) \<and> \<not> e)" by (intro ext) auto
  then have ctrl: "ctrl_pressed s \<longleftrightarrow> down (0x1D, False) evs" using t by (simp add: tracked_def down_def)
  have letter: "snd (keyboard_irq False st sc t s) =
        [Key f (if ctrl_pressed s then scancode_ascii ! unat sc - 0x60
                else if shift_pressed s then scancode_ascii ! unat sc - 0x20
                else scancode_ascii ! unat sc)]"
    if "\<not> extended s" "kbd_byte st" "sc < 128" "scancode_ascii ! unat sc \<in> {0x61..0x7A}" for sc
    by (rule keyboard_irq_letter [OF that cb])
  show ?thesis
  proof (intro conjI allI impI)
    show "keyboard_scancode_held (uint k) e s \<longleftrightarrow> down (k, e) evs" if "k < 128" for k e by (rule held [OF that])
    show "keyboard_alt_held s \<longleftrightarrow> keyboard_scancode_held 0x38 False s \<or> keyboard_scancode_held 0x38 True s"
      if "lone_releases (0x38, False) (0x38, True) evs" using alt [OF that] by (simp only: h)
    fix sc :: u8 assume c: "lone_releases (0x2A, False) (0x36, False) evs \<and> \<not> extended s \<and> kbd_byte st \<and> sc < 128 \<and>
        scancode_ascii ! unat sc \<in> {0x61..0x7A}"
    have "snd (keyboard_irq False st sc t s) =
        [Key f (if ctrl_pressed s then scancode_ascii ! unat sc - 0x60
                else if shift_pressed s then scancode_ascii ! unat sc - 0x20
                else scancode_ascii ! unat sc)]" by (rule letter) (use c in blast)+
    then show "snd (keyboard_irq False st sc t s) =
        [Key f (if keyboard_scancode_held 0x1D False s then scancode_ascii ! unat sc - 0x60
                else if keyboard_scancode_held 0x2A False s \<or> keyboard_scancode_held 0x36 False s then scancode_ascii ! unat sc - 0x20
                else scancode_ascii ! unat sc)]"
      unfolding ctrl shift [OF conjunct1 [OF c]] h .
  qed
qed

theorem kbd_history_witness:
  "\<exists>s. kbd_run False (keyboard_set_callback (Some ()) (keyboard_init kbd_boot)) [Irq 1 0x1D 0, Irq 1 0x38 0, Irq 1 0x2A 0, Irq 1 0xAA 0] = (s, []) \<and>
     keyboard_scancode_held 0x1D False s \<and> \<not> keyboard_scancode_held 0x2A False s \<and> keyboard_alt_held s \<and>
     snd (keyboard_irq False 1 0x1F 0 s) = [Key () 0x13]"
proof -
  let ?s0 = "keyboard_set_callback (Some ()) (keyboard_init kbd_boot)" and ?ops = "[Irq 1 0x1D 0, Irq 1 0x38 0, Irq 1 0x2A 0, Irq 1 0xAA 0]"
  let ?evs = "[(0x1D, False, True), (0x38, False, True), (0x2A, False, True), (0x2A, False, False)] :: (u8 \<times> bool \<times> bool) list"
  obtain s where r: "kbd_run False ?s0 ?ops = (s, [])" by simp
  have e: "?evs = pushed (key_ops False ?ops)" by (simp add: kbd_byte_def)
  have x: "\<not> extended s" using r by (auto simp: keyboard_irq_fst kbd_byte_def keyboard_scancode_sel)
  have l: "lone_releases (0x38, False) (0x38, True) ?evs" "lone_releases (0x2A, False) (0x36, False) ?evs"
    by (auto simp: lone_releases_def Cons_eq_append_conv down_def pressed_def)
  have c: "scancode_ascii ! unat (0x1F :: u8) = 0x73" by code_simp
  note h = kbd_history [OF r e, where st = 1 and t = 0]
  have k: "keyboard_scancode_held 0x1D False s" "\<not> keyboard_scancode_held 0x2A False s" "keyboard_scancode_held 0x38 False s"
    using h [THEN conjunct1, THEN spec [where x = "0x1D"]] h [THEN conjunct1, THEN spec [where x = "0x2A"]]
      h [THEN conjunct1, THEN spec [where x = "0x38"]] by (simp_all add: down_def pressed_def)
  moreover have "keyboard_alt_held s" using h [THEN conjunct2, THEN conjunct1] l(1) k(3) by simp
  moreover have "snd (keyboard_irq False 1 0x1F 0 s) = [Key () 0x13]"
    using h [THEN conjunct2, THEN conjunct2, THEN spec [where x = "0x1F"]] l(2) x c k(1) by (simp add: kbd_byte_def)
  ultimately show ?thesis using r by blast
qed

text \<open>With both Alt keys down, releasing one of them clears the flag.\<close>

lemma alt_early_release:
  "\<exists>s. kbd_run False (keyboard_set_callback (Some ()) (keyboard_init kbd_boot)) [Irq 1 0x38 0, Irq 1 0xE0 0, Irq 1 0x38 0, Irq 1 0xB8 0] = (s, []) \<and>
     keyboard_scancode_held 0x38 True s \<and> \<not> keyboard_alt_held s"
  by (simp add: keyboard_irq_def keyboard_scancode_def keyboard_extended_def keyboard_press_def keyboard_release_def Let_def keyboard_alt_held_def
      keyboard_scancode_held_def keyboard_set_callback_def keyboard_init_def kbd_boot_def)

end
