(* ===== verification/Spec2Isabelle.thy ===== *)
theory Spec2Isabelle
  imports Gcm Rand Boot_Memory Elf Tls Der Kstring Divdi Heap_Client Sha1 Sha256_Fips Pfs_Boot Part_Env Hpack_Codec Keyboard
begin

text \<open>
  A verification development of the core of the KAnarchy kernel (the C sources under \<open>src/src\<close>; paths below are
  relative to that directory). Each theory translates one component function by function and proves what
  makes the component correct; the theories form one library over a common prelude.

  \<^bold>\<open>The program.\<close> The kernel is started by a multiboot loader. \<open>memory.c\<close> turns the loader's memory map into a
  bitmap of free pages (\<open>memory_init\<close>), hands out pages, and builds the kernel heap on a run of them. \<open>elf.c\<close> loads user
  programs into pages of that allocator. \<open>ata.c\<close> reads and writes sectors and refuses writes to protected ranges;
  \<open>part.c\<close> reads the partition table, FAT volumes and the GRUB environment block through it; \<open>pfs.c\<close> keeps a small
  file system on one partition and attaches itself behind the in-memory file system \<open>filesystem.c\<close> by two hooks, so
  that every write, append and delete goes through to the disk. \<open>keyboard.c\<close> is the interrupt handler of the PS/2
  keyboard. For the network the kernel has its own TLS 1.3: hashes, MACs, ciphers and AEADs under \<open>crypto\<close>, the DER walker
  for certificates, the record layer and the key schedule; \<open>net/hpack.c\<close> is the header codec of HTTP/2. \<open>string.c\<close> and
  \<open>divdi3.c\<close> stand in for the C library and the compiler runtime.

  \<^bold>\<open>Conventions.\<close> Machine integers keep their width as words where wrap-around can matter; an offset or page number
  that the code bounds below the wrap is a natural number, and the theory says so. A buffer is a list of bytes, memory that is
  shared or aliased is an explicit store (a function of the address). A C function that returns a code and fills a buffer
  returns both. \<open>None\<close> is an error result, a read outside an object, or, for a loop whose counter comes from untrusted data
  (\<open>partial_function\<close>), that the loop does not return; each theory says which, and where the code is meant to return that
  is proved (\<open>fat_loops_return\<close>, \<open>memory_init_frees\<close>, \<open>heap_history\<close>, \<open>udivmoddi4_total\<close>). No definition uses fuel. Code outside
  the sources is an argument: the sectors of the drive and its failing transfers, port reads, the answers of RDRAND, RDSEED and CPUID, the time stamp counter, whether an
  allocation inside the HPACK table succeeds, the callbacks. An entry point that runs with interrupts masked and a lock held is
  one step. Output on the serial line and the wiping of secrets from the stack have no place in the model.

  \<^bold>\<open>Interfaces.\<close> What one component relies on in another is a locale, interpreted on the model of the provider:
  \<^item> \<open>block_stream\<close> (Block_Stream), \<open>md_loop\<close> (Md_Hash): an update routine refines the byte-at-a-time machine; interpreted
    on SHA-1, SHA-256, SHA-512 and Poly1305;
  \<^item> \<open>page_source\<close> (Pmm): a page that is handed out is held by nobody else; interpreted on the page allocator, used by the loader;
  \<^item> \<open>allocator\<close> (Heap_Spec): live blocks do not overlap and keep their contents; interpreted on \<open>kmalloc\<close> and \<open>kfree\<close>, with the
    histories of calls as an inductive relation;
  \<^item> \<open>block_dev\<close> (Ata): a sector store with protected ranges; interpreted on the drive and on the range the file system owns;
  \<^item> \<open>persist\<close> (Pfs_Mount): the contract of the write-through hooks; interpreted on \<open>pfs_sync_file\<close> and \<open>pfs_delete_file\<close>;
  \<^item> \<open>bounded_queue\<close> (Keyboard): the ring of key transitions as a queue that drops when full.

  \<^bold>\<open>Cryptography.\<close>
  \<^item> Sha256, Sha256_Fips, Sha1, Sha512 (\<open>crypto/sha256.c\<close>, \<open>sha1.c\<close>, \<open>sha512.c\<close>): any split of a message gives the FIPS 180-4 digest.
    For SHA-256 the constants of the code are derived from the roots of the first primes too.
  \<^item> Hkdf (\<open>hmac.c\<close>, \<open>hkdf.c\<close>): streaming HMAC is the HMAC of the whole message; HKDF extract and expand.
  \<^item> Chacha20, Poly1305, Poly1305_Correct, Poly1305_Mac, Aead (\<open>chacha20.c\<close>, \<open>poly1305.c\<close>, \<open>aead.c\<close>): the key stream, the limb arithmetic
    against arithmetic modulo \<open>2^130 - 5\<close>, the tag of RFC 8439, and that decryption releases exactly what authenticates.
  \<^item> Aes, Gcm (\<open>aes.c\<close>): the bit-sliced S-box circuit and the two-block cipher are FIPS 197, GHASH and the counter mode are
    SP 800-38D, decryption releases plaintext exactly when the tag is right.
  \<^item> Rand (\<open>rand.c\<close>): for any calls and interrupts the generator is ready exactly when one of the events they cause is a reseed
    with enough samples of enough classes; every block of its output is half a block of key stream whose other half replaces the key.
  \<^item> Tls (\<open>tls_record.c\<close>, \<open>tls_keysched.c\<close>): records round-trip, the labels of the key schedule keep its derivations apart.
  \<^item> Der (\<open>der.c\<close>): the walker accepts only canonical encodings inside the buffer.

  \<^bold>\<open>Memory and programs.\<close>
  \<^item> Pmm, Pmm_Boot (\<open>memory.c\<close>): exclusive pages; the free pages at boot are exactly the usable ones that hold neither the kernel nor
    what is kept for the boot loader, which is all it left when there are at most eight modules with short command lines.
  \<^item> Heap, Heap_Inv, Heap_Ops, Heap_Alloc, Heap_Free, Heap_Spec, Heap_Client (\<open>memory.c\<close>): the segregated-fit heap with boundary tags
    over a store of words; the invariant (blocks tile the heap, free blocks are in their bins and never adjacent), \<open>kmalloc\<close>,
    \<open>kfree\<close>, \<open>kcalloc\<close>, \<open>krealloc\<close> and every history of calls.
  \<^item> Elf (\<open>elf.c\<close>): what the check accepts is safe, and loading gives the address space the headers describe, byte by byte.
  \<^item> Boot_Memory and the end of this theory: page allocator and heap together, from the boot loader on: whatever is called in whatever
    order, the pages in use stay clear of the kernel, of each other and of what the boot loader left.
  \<^item> Kstring, Divdi (\<open>string.c\<close>, \<open>divdi3.c\<close>): \<open>memmove\<close> on overlapping ranges, 64-bit division.

  \<^bold>\<open>Disk.\<close>
  \<^item> Ata (\<open>ata.c\<close>): no write reaches a protected sector.
  \<^item> Part, Part_Loops, Part_Scan, Part_Env (\<open>part.c\<close>): the scan accepts only partitions inside the disk, the loops over cluster
    chains return on any disk, the environment block is rewritten without losing entries.
  \<^item> Vfs (\<open>filesystem.c\<close>): the slot table refines a map from names to contents.
  \<^item> Pfs, Pfs_Inv, Pfs_Ops, Pfs_Mount, Pfs_Boot (\<open>pfs.c\<close>): the on-disk layout, its invariant, the hooks; after every operation the disk
    holds the files of the in-memory file system, and a mount restores them; the start-up protects the system partitions.

  \<^bold>\<open>Input and network.\<close>
  \<^item> Keyboard (\<open>keyboard.c\<close>): the transitions a reader gets and the keys held down follow the history of scancodes.
  \<^item> Hpack_Tables, Hpack, Hpack_Int, Hpack_Huff, Hpack_Codec (\<open>net/hpack.c\<close>, \<open>hpack_tables.c\<close>): the Huffman trie, prefix integers, the ring
    buffer as the dynamic table of RFC 7541, safety of the decoder on any input, and that it undoes the encoder.

  \<^bold>\<open>Bounds.\<close> The statements carry the bounds of the code: 16 MiB for an AES-GCM record, 20480 bytes for the ChaCha20-Poly1305
  staging buffer, 32 pages for a program, 896 MB of managed memory, 32 KB for a file, 28-bit sector numbers, \<open>2^61\<close> bytes
  for a hashed message.

  \<^bold>\<open>Not modelled.\<close> Elliptic curves, X25519, RSA and X.509 (their correctness needs number theory beyond the library), the TLS handshake and
  the socket code, paging, scheduling, interrupt entry and system calls (assembly and privileged instructions), device drivers
  other than the ATA and keyboard ones (register-level exchanges), the desktop and its applications, the JavaScript and browser engines, the
  media decoders, the game engine, and the Linux and Windows personalities. Of the ATA driver the polling of the status port
  is part of the drive, a parameter.
\<close>

section \<open>From the boot loader to the running kernel\<close>

text \<open>C8. The memory the kernel uses stays clear of itself and of what the boot loader left. Start with the allocator as
  \<open>memory_init\<close> builds it from the boot loader's map, and run any interleaving of page allocations and releases (by whoever
  asks: the loader of programs, page tables, stacks), \<open>kmalloc\<close>, the first of which builds the heap in a free run of
  pages, \<open>kfree\<close> and writes into live blocks. Then every page handed out lies whole in usable memory, above the kernel image and
  the first megabyte, is not kept for the boot loader and is no page of the heap; the heap lies in such pages too,
  and every live block in the heap; the next page handed out is such a page and held by nobody. Kept for the boot loader are
  its structures and the images and command lines of all modules when there are at most eight of them and each command
  line ends in the page it starts in.\<close>

theorem boot_memory_clear:
  assumes "mboot_ok ram mp es" "memory_init ram mp ksym = Some (h_pmm h0)" "heap_start h0 = 0" "heap_end h0 = 0" "heap_used h0 = 0"
    and "kernel_use h0 h held A"
  defines "F \<equiv> \<lambda>i. usable_page (unat (kernel_end_phys ksym)) es i \<and> i \<notin> kept_pages ram mp"
  shows "(\<forall>a \<in> held. \<exists>i. a = of_nat (i * PAGE_SIZE) \<and> F i \<and> i \<notin> heap_page_set h) \<and> (\<forall>i \<in> heap_page_set h. F i) \<and>
    (\<forall>(p, k) \<in> A. \<forall>x \<in> {p..<p + k}. \<exists>i \<in> heap_page_set h. KERNEL_VBASE + i * PAGE_SIZE \<le> x \<and> x < KERNEL_VBASE + i * PAGE_SIZE + PAGE_SIZE) \<and>
    (\<forall>pm a. pmm_alloc_page (h_pmm h) = (pm, a) \<and> a \<noteq> 0 \<longrightarrow> (\<exists>i. a = of_nat (i * PAGE_SIZE) \<and> F i \<and> i \<notin> heap_page_set h \<and> a \<notin> held)) \<and>
    (modules_fit ram mp \<longrightarrow> (\<forall>i. F i \<longrightarrow> i \<notin> boot_pages ram mp))"
proof (intro conjI ballI allI impI)
  note c = boot_memory_core [OF assms(1-6)]
  show "\<exists>i. a = of_nat (i * PAGE_SIZE) \<and> F i \<and> i \<notin> heap_page_set h" if "a \<in> held" for a using c(1) [OF that] by (simp only: F_def)
  show "F i" if "i \<in> heap_page_set h" for i using c(2) [OF that] unfolding F_def .
  show "case z of (p, k) \<Rightarrow> \<forall>x \<in> {p..<p + k}. \<exists>i \<in> heap_page_set h. KERNEL_VBASE + i * PAGE_SIZE \<le> x \<and> x < KERNEL_VBASE + i * PAGE_SIZE + PAGE_SIZE"
    if "z \<in> A" for z using that c(3) by (cases z) (simp only: prod.case atLeastLessThan_iff Ball_def simp_thms, blast)
  show "\<exists>i. a = of_nat (i * PAGE_SIZE) \<and> F i \<and> i \<notin> heap_page_set h \<and> a \<notin> held"
    if "pmm_alloc_page (h_pmm h) = (pm, a) \<and> a \<noteq> 0" for pm a
    using c(4) [OF conjunct1 [OF that] conjunct2 [OF that]] by (simp only: F_def)
  show "i \<notin> boot_pages ram mp" if "modules_fit ram mp" "F i" for i using that kept_all by (simp add: F_def)
qed

theorem boot_memory_clear_witness:
  "\<exists>h0 h a i. memory_init sample_ram 0x1000 0xC0200000 = Some (h_pmm h0) \<and> kernel_use h0 h {a} {} \<and> a = of_nat (i * PAGE_SIZE) \<and>
     0x200 \<le> i \<and> i < 0x800 \<and> i \<notin> boot_pages sample_ram 0x1000"
proof -
  obtain h0 h a where h: "memory_init sample_ram 0x1000 0xC0200000 = Some (h_pmm h0)" "heap_start h0 = 0" "heap_end h0 = 0" "heap_used h0 = 0"
    "kernel_use h0 h {a} {}" by (rule sample_use)
  note b = boot_memory_clear [OF sample_boot h]
  then obtain i where i: "a = of_nat (i * PAGE_SIZE)" "usable_page (unat (kernel_end_phys 0xC0200000)) [(20, 0x100000, 0x700000, 1)] i"
      "i \<notin> kept_pages sample_ram 0x1000" by blast
  then have "i \<notin> boot_pages sample_ram 0x1000" using b sample_fit by blast
  then show ?thesis using h(1,5) i sample_usable by blast
qed

end
